(* ===== verification/Prelude.thy ===== *)
theory Prelude
  imports Main "HOL-Library.Monad_Syntax"
begin

text \<open>
  Shared vocabulary of the development.  The theory fixes the fact collections that the
  component theories extend, the result type of fallible operations (\<open>Inl\<close> an error,
  \<open>Inr\<close> a value) with the sequencing operator the parsers use, generic facts on lists, and
  the contract of a loop whose every iteration makes progress: \<open>run_loop\<close> runs a step
  function with a fuel, and the locale \<open>bounded_loop\<close> proves once that a decreasing measure
  makes a fuel above the measure sufficient and that invariants reach the result.
\<close>

named_theorems result_simps \<open>inversion of successful results\<close>
named_theorems text_simps \<open>facts on strings\<close>
named_theorems scope_simps \<open>facts on scope tokens\<close>
named_theorems plan_simps \<open>facts on plans and steps\<close>

subsection \<open>Results\<close>

definition rbind :: "'e + 'a \<Rightarrow> ('a \<Rightarrow> 'e + 'b) \<Rightarrow> 'e + 'b" where
  "rbind m f = (case m of Inl e \<Rightarrow> Inl e | Inr x \<Rightarrow> f x)"

lemma rbind_Inl [simp]: "rbind (Inl e) f = Inl e"
  by (simp add: rbind_def)

lemma rbind_Inr [simp]: "rbind (Inr x) f = f x"
  by (simp add: rbind_def)

lemma rbind_eq_Inr [result_simps]: "rbind m f = Inr y \<longleftrightarrow> (\<exists>x. m = Inr x \<and> f x = Inr y)"
  by (cases m) simp_all

lemma rbind_eq_Inl [result_simps]:
  "rbind m f = Inl e \<longleftrightarrow> m = Inl e \<or> (\<exists>x. m = Inr x \<and> f x = Inl e)"
  by (cases m) auto

lemma rbindE: "rbind m f = Inr y \<Longrightarrow> (\<And>x. m = Inr x \<Longrightarrow> f x = Inr y \<Longrightarrow> P) \<Longrightarrow> P"
  by (cases m) simp_all

definition ensure :: "bool \<Rightarrow> 'e \<Rightarrow> 'e + unit" where
  "ensure b e = (if b then Inr () else Inl e)"

lemma ensure_eq_Inr [result_simps]: "ensure b e = Inr u \<longleftrightarrow> b"
  by (simp add: ensure_def)

lemma ensure_eq_Inl [result_simps]: "ensure b e = Inl e' \<longleftrightarrow> \<not> b \<and> e' = e"
  by (auto simp: ensure_def)

fun rmap :: "('a \<Rightarrow> 'e + 'b) \<Rightarrow> 'a list \<Rightarrow> 'e + 'b list" where
  "rmap f [] = Inr []"
| "rmap f (x # xs) = rbind (f x) (\<lambda>y. rbind (rmap f xs) (\<lambda>ys. Inr (y # ys)))"

lemma rmap_Inr_iff [result_simps]:
  "rmap f xs = Inr ys \<longleftrightarrow> list_all2 (\<lambda>x y. f x = Inr y) xs ys"
  by (induction xs arbitrary: ys) (auto simp: result_simps list_all2_Cons1)

subsection \<open>Lists\<close>

lemma filter_filter_conj: "filter p (filter q xs) = filter (\<lambda>x. q x \<and> p x) xs"
  by simp

lemma length_filter_mono:
  "(\<And>x. x \<in> set xs \<Longrightarrow> P x \<Longrightarrow> Q x) \<Longrightarrow> length (filter P xs) \<le> length (filter Q xs)"
  by (induction xs) (auto intro: le_SucI)

lemma list_update_id_beyond: "length xs \<le> i \<Longrightarrow> xs[i := x] = xs"
  by (simp add: list_update_beyond)

fun index_where :: "('a \<Rightarrow> bool) \<Rightarrow> 'a list \<Rightarrow> nat option" where
  "index_where p [] = None"
| "index_where p (x # xs) = (if p x then Some 0 else map_option Suc (index_where p xs))"

lemma index_where_Some:
  "index_where p xs = Some i \<Longrightarrow> i < length xs \<and> p (xs ! i) \<and> (\<forall>j<i. \<not> p (xs ! j))"
proof (induction xs arbitrary: i)
  case Nil
  then show ?case by simp
next
  case (Cons x xs)
  show ?case
  proof (cases "p x")
    case True
    with Cons.prems show ?thesis by simp
  next
    case False
    with Cons.prems obtain k where k: "index_where p xs = Some k" "i = Suc k" by auto
    from Cons.IH [OF k(1)] False k(2) show ?thesis by (auto simp: less_Suc_eq_0_disj)
  qed
qed

lemma index_where_None: "index_where p xs = None \<longleftrightarrow> (\<forall>x\<in>set xs. \<not> p x)"
  by (induction xs) auto

fun dedup :: "'a list \<Rightarrow> 'a list" where
  "dedup [] = []"
| "dedup (x # xs) = x # filter (\<lambda>y. y \<noteq> x) (dedup xs)"

lemma set_dedup [simp]: "set (dedup xs) = set xs"
  by (induction xs) auto

lemma distinct_dedup [simp]: "distinct (dedup xs)"
  by (induction xs) auto

lemma dedup_distinct: "distinct xs \<Longrightarrow> dedup xs = xs"
  by (induction xs) (auto intro!: filter_True)

text \<open>\<open>min(xs, key=f)\<close> and \<open>max(xs, key=f)\<close> of a non-empty list: the first of the extreme elements.\<close>

fun min_by :: "('a \<Rightarrow> 'b::linorder) \<Rightarrow> 'a \<Rightarrow> 'a list \<Rightarrow> 'a" where
  "min_by f x [] = x"
| "min_by f x (y # ys) = min_by f (if f y < f x then y else x) ys"

fun max_by :: "('a \<Rightarrow> 'b::linorder) \<Rightarrow> 'a \<Rightarrow> 'a list \<Rightarrow> 'a" where
  "max_by f x [] = x"
| "max_by f x (y # ys) = max_by f (if f x < f y then y else x) ys"

lemma min_by_in: "min_by f x ys \<in> set (x # ys)"
  by (induction f x ys rule: min_by.induct) auto

lemma min_by_le: "y \<in> set (x # ys) \<Longrightarrow> f (min_by f x ys) \<le> f y"
proof (induction f x ys arbitrary: y rule: min_by.induct)
  case (2 f x z ys)
  let ?x = "if f z < f x then z else x"
  have "f (min_by f ?x ys) \<le> f ?x" by (rule "2.IH") simp
  moreover have "f ?x \<le> f x" "f ?x \<le> f z" by (auto simp: not_less intro: less_imp_le)
  moreover have "f (min_by f ?x ys) \<le> f y" if "y \<in> set ys" using that by (intro "2.IH") simp
  ultimately show ?case using "2.prems" by force
qed simp

lemma max_by_in: "max_by f x ys \<in> set (x # ys)"
  by (induction f x ys rule: max_by.induct) auto

lemma max_by_ge: "y \<in> set (x # ys) \<Longrightarrow> f y \<le> f (max_by f x ys)"
proof (induction f x ys arbitrary: y rule: max_by.induct)
  case (2 f x z ys)
  let ?x = "if f x < f z then z else x"
  have "f ?x \<le> f (max_by f ?x ys)" by (rule "2.IH") simp
  moreover have "f x \<le> f ?x" "f z \<le> f ?x" by (auto simp: not_less intro: less_imp_le)
  moreover have "f y \<le> f (max_by f ?x ys)" if "y \<in> set ys" using that by (intro "2.IH") simp
  ultimately show ?case using "2.prems" by force
qed simp

subsection \<open>Association lists as insertion-ordered dictionaries\<close>

fun dset :: "'k \<Rightarrow> 'v \<Rightarrow> ('k \<times> 'v) list \<Rightarrow> ('k \<times> 'v) list" where
  "dset k v [] = [(k, v)]"
| "dset k v ((k', v') # d) = (if k' = k then (k, v) # d else (k', v') # dset k v d)"

definition dpop :: "'k \<Rightarrow> ('k \<times> 'v) list \<Rightarrow> ('k \<times> 'v) list" where
  "dpop k d = filter (\<lambda>(k', _). k' \<noteq> k) d"

lemma map_of_dset [simp]: "map_of (dset k v d) = (map_of d)(k \<mapsto> v)"
  by (induction k v d rule: dset.induct) auto

lemma map_of_dpop [simp]: "map_of (dpop k d) = (map_of d)(k := None)"
  by (induction d) (auto simp: dpop_def)

lemma keys_dset [simp]: "fst ` set (dset k v d) = insert k (fst ` set d)"
  by (induction k v d rule: dset.induct) auto

lemma keys_dpop [simp]: "fst ` set (dpop k d) = fst ` set d - {k}"
  by (force simp: dpop_def)

lemma distinct_dset: "distinct (map fst d) \<Longrightarrow> distinct (map fst (dset k v d))"
proof (induction k v d rule: dset.induct)
  case (2 k v k' v' d)
  have "fst ` set (dset k v d) = insert k (fst ` set d)" by simp
  with 2 show ?case by auto
qed simp

lemma distinct_dpop: "distinct (map fst d) \<Longrightarrow> distinct (map fst (dpop k d))"
  by (induction d) (auto simp: dpop_def)

lemma length_dset_le: "length (dset k v d) \<le> Suc (length d)"
  by (induction k v d rule: dset.induct) auto

subsection \<open>Loops that make progress\<close>

fun run_loop :: "('s \<Rightarrow> 's + 'r) \<Rightarrow> nat \<Rightarrow> 's \<Rightarrow> 'r option" where
  "run_loop step 0 s = None"
| "run_loop step (Suc n) s =
     (case step s of Inr r \<Rightarrow> Some r | Inl s' \<Rightarrow> run_loop step n s')"

lemma run_loop_mono: "run_loop step n s = Some r \<Longrightarrow> n \<le> m \<Longrightarrow> run_loop step m s = Some r"
proof (induction n arbitrary: s m)
  case 0
  then show ?case by simp
next
  case (Suc n)
  then obtain m' where m: "m = Suc m'" "n \<le> m'" by (cases m) auto
  show ?case
  proof (cases "step s")
    case (Inl s')
    with Suc.prems have "run_loop step n s' = Some r" by simp
    from Suc.IH [OF this m(2)] Inl m(1) show ?thesis by simp
  next
    case (Inr r')
    with Suc.prems m show ?thesis by simp
  qed
qed

locale bounded_loop =
  fixes step :: "'s \<Rightarrow> 's + 'r"
    and inv :: "'s \<Rightarrow> bool"
    and mu :: "'s \<Rightarrow> nat"
  assumes step_inv: "inv s \<Longrightarrow> step s = Inl s' \<Longrightarrow> inv s'"
    and step_less: "inv s \<Longrightarrow> step s = Inl s' \<Longrightarrow> mu s' < mu s"
begin

lemma returns: "inv s \<Longrightarrow> mu s < n \<Longrightarrow> \<exists>r. run_loop step n s = Some r"
proof (induction n arbitrary: s)
  case 0
  then show ?case by simp
next
  case (Suc n)
  show ?case
  proof (cases "step s")
    case (Inl s')
    with Suc.prems have "inv s'" and "mu s' < n"
      using step_inv step_less [of s s'] by auto
    with Suc.IH Inl show ?thesis by simp
  next
    case (Inr r)
    then show ?thesis by simp
  qed
qed

lemma exits: "inv s \<Longrightarrow> run_loop step n s = Some r \<Longrightarrow> \<exists>s'. inv s' \<and> step s' = Inr r"
proof (induction n arbitrary: s)
  case 0
  then show ?case by simp
next
  case (Suc n)
  show ?case
  proof (cases "step s")
    case (Inl s')
    with Suc show ?thesis using step_inv by auto
  next
    case (Inr r')
    with Suc.prems show ?thesis by auto
  qed
qed

lemma enough:
  assumes "inv s" "mu s < n" "n \<le> m"
  shows "run_loop step n s = run_loop step m s"
proof -
  from returns [OF assms(1,2)] obtain r where r: "run_loop step n s = Some r" ..
  from run_loop_mono [OF r assms(3)] r show ?thesis by simp
qed

end

end
