(* ===== verification/PyText.thy ===== *)
theory PyText
  imports Prelude "HOL-Library.Char_ord" "HOL-Library.List_Lexorder" "HOL-Library.Sublist"
begin

text \<open>
  Python's string operations, as far as the modelled code uses them.  A Python string is a
  \<open>string\<close> (a list of characters); texts are taken over the ASCII range, where one
  character is one code point, \<open>lower\<close> and \<open>upper\<close> touch letters only and the white space of
  \<open>str.strip\<close> and of the regular expression class \<open>\s\<close> is the set below.  Each function
  names the Python method it stands for; \<open>starts_with\<close>, \<open>ends_with\<close> and \<open>contains\<close> take the
  text to look for first and the searched text second.
\<close>

definition ch :: "char \<Rightarrow> nat" where
  "ch c = of_char c"

definition is_ws :: "char \<Rightarrow> bool" where
  "is_ws c = (let n = ch c in (9 \<le> n \<and> n \<le> 13) \<or> (28 \<le> n \<and> n \<le> 32))"

definition is_digit :: "char \<Rightarrow> bool" where
  "is_digit c = (let n = ch c in 48 \<le> n \<and> n \<le> 57)"

definition is_upper :: "char \<Rightarrow> bool" where
  "is_upper c = (let n = ch c in 65 \<le> n \<and> n \<le> 90)"

definition is_lower :: "char \<Rightarrow> bool" where
  "is_lower c = (let n = ch c in 97 \<le> n \<and> n \<le> 122)"

definition is_alnum :: "char \<Rightarrow> bool" where
  "is_alnum c = (is_digit c \<or> is_upper c \<or> is_lower c)"

definition lower_char :: "char \<Rightarrow> char" where
  "lower_char c = (if is_upper c then char_of (ch c + 32) else c)"

definition upper_char :: "char \<Rightarrow> char" where
  "upper_char c = (if is_lower c then char_of (ch c - 32) else c)"

definition lower :: "string \<Rightarrow> string" where
  "lower s = map lower_char s"

definition upper :: "string \<Rightarrow> string" where
  "upper s = map upper_char s"

definition starts_with :: "string \<Rightarrow> string \<Rightarrow> bool" where
  "starts_with p s = (take (length p) s = p)"

definition ends_with :: "string \<Rightarrow> string \<Rightarrow> bool" where
  "ends_with p s = (length p \<le> length s \<and> drop (length s - length p) s = p)"

fun contains :: "string \<Rightarrow> string \<Rightarrow> bool" where
  "contains p [] = (p = [])"
| "contains p (c # s) = (starts_with p (c # s) \<or> contains p s)"

fun after_last :: "string \<Rightarrow> string \<Rightarrow> string" where
  "after_last sep [] = []"
| "after_last sep (c # s) =
     (if contains sep s then after_last sep s
      else if starts_with sep (c # s) then drop (length sep) (c # s) else c # s)"

definition lstrip_of :: "string \<Rightarrow> string \<Rightarrow> string" where
  "lstrip_of cs s = dropWhile (\<lambda>c. c \<in> set cs) s"

definition rstrip_of :: "string \<Rightarrow> string \<Rightarrow> string" where
  "rstrip_of cs s = rev (dropWhile (\<lambda>c. c \<in> set cs) (rev s))"

definition strip :: "string \<Rightarrow> string" where
  "strip s = rev (dropWhile is_ws (rev (dropWhile is_ws s)))"

fun split_on :: "char \<Rightarrow> string \<Rightarrow> string list" where
  "split_on c [] = [[]]"
| "split_on c (x # xs) =
     (if x = c then [] # split_on c xs
      else (case split_on c xs of [] \<Rightarrow> [[x]] | w # ws \<Rightarrow> (x # w) # ws))"

fun join_with :: "string \<Rightarrow> string list \<Rightarrow> string" where
  "join_with sep [] = []"
| "join_with sep [w] = w"
| "join_with sep (w # v # ws) = w @ sep @ join_with sep (v # ws)"

function replace_all :: "string \<Rightarrow> string \<Rightarrow> string \<Rightarrow> string" where
  "replace_all old new s =
     (case s of [] \<Rightarrow> []
      | c # t \<Rightarrow> (if old \<noteq> [] \<and> starts_with old s
                  then new @ replace_all old new (drop (length old) s)
                  else c # replace_all old new t))"
  by pat_completeness auto
termination
  by (relation "measure (\<lambda>(old, new, s). length s)") auto

declare replace_all.simps [simp del]

subsection \<open>Decimal numbers\<close>

fun show_nat :: "nat \<Rightarrow> string" where
  "show_nat n = (if n < 10 then [char_of (48 + n)] else show_nat (n div 10) @ [char_of (48 + n mod 10)])"

declare show_nat.simps [simp del]

definition show_int :: "int \<Rightarrow> string" where
  "show_int i = (if i < 0 then ''-'' @ show_nat (nat (- i)) else show_nat (nat i))"

definition digit_val :: "char \<Rightarrow> nat" where
  "digit_val c = ch c - 48"

definition read_nat :: "string \<Rightarrow> nat" where
  "read_nat s = foldl (\<lambda>n c. 10 * n + digit_val c) 0 s"

text \<open>\<open>rpart sep s\<close>: what follows the last occurrence of \<open>sep\<close>; \<open>words p s\<close>: the maximal runs of characters in \<open>p\<close>.\<close>

fun rpart :: "string \<Rightarrow> string \<Rightarrow> string option" where
  "rpart sep [] = None"
| "rpart sep (c # cs) =
     (case rpart sep cs of
        Some t \<Rightarrow> Some t
      | None \<Rightarrow> if starts_with sep (c # cs) then Some (drop (length sep) (c # cs)) else None)"

function words :: "(char \<Rightarrow> bool) \<Rightarrow> string \<Rightarrow> string list" where
  "words p s =
     (let t = dropWhile (\<lambda>c. \<not> p c) s in
      if t = [] then [] else takeWhile p t # words p (dropWhile p t))"
  by pat_completeness auto
termination
proof (relation "measure (\<lambda>(p, s). length s)")
  fix p :: "char \<Rightarrow> bool" and s t
  assume t: "t = dropWhile (\<lambda>c. \<not> p c) s" "t \<noteq> []"
  then have "p (hd t)" using hd_dropWhile [of "\<lambda>c. \<not> p c" s] by simp
  then have "length (dropWhile p t) < length t" using t(2) length_dropWhile_le [of p "tl t"] by (cases t) auto
  also have "length t \<le> length s" using t(1) length_dropWhile_le by auto
  finally show "((p, dropWhile p t), (p, s)) \<in> measure (\<lambda>(p, s). length s)" by simp
qed simp

declare words.simps [simp del]

subsection \<open>Laws\<close>

lemma ch_char_of [simp]: "n < 256 \<Longrightarrow> ch (char_of n) = n"
  by (simp add: ch_def)

lemma ch_inj: "ch c = ch d \<longleftrightarrow> c = d"
  by (simp add: ch_def)

lemma ch_less: "ch c < 256"
  by (simp add: ch_def)

lemma starts_with_Nil [simp]: "starts_with [] s"
  by (simp add: starts_with_def)

lemma starts_with_append [simp]: "starts_with p (p @ s)"
  by (simp add: starts_with_def)

lemma starts_with_iff: "starts_with p s \<longleftrightarrow> (\<exists>t. s = p @ t)"
  by (auto simp: starts_with_def) (metis append_take_drop_id)

lemma starts_with_prefix: "starts_with p s \<longleftrightarrow> prefix p s"
  by (auto simp: starts_with_iff prefix_def)

lemma starts_with_Cons [simp]: "starts_with (a # p) (b # s) \<longleftrightarrow> a = b \<and> starts_with p s"
  by (auto simp: starts_with_def)

lemma starts_with_Cons_Nil [simp]: "starts_with (a # p) [] \<longleftrightarrow> False"
  by (simp add: starts_with_def)

lemma ends_with_iff: "ends_with p s \<longleftrightarrow> (\<exists>t. s = t @ p)"
proof
  assume "ends_with p s"
  then show "\<exists>t. s = t @ p"
    by (metis append_take_drop_id ends_with_def)
qed (auto simp: ends_with_def)

lemma contains_iff: "contains p s \<longleftrightarrow> (\<exists>u v. s = u @ p @ v)"
proof (induction s)
  case Nil
  then show ?case by auto
next
  case (Cons c s)
  have "(\<exists>u v. c # s = u @ p @ v) \<longleftrightarrow> starts_with p (c # s) \<or> (\<exists>u v. s = u @ p @ v)"
    by (metis (no_types, opaque_lifting) append_Cons append_Nil list.sel(3) neq_Nil_conv
        starts_with_iff)
  then show ?case using Cons.IH by simp
qed

lemma split_on_not_Nil [simp]: "split_on c s \<noteq> []"
  by (induction s) (auto split: list.splits)

lemma join_split [text_simps]: "join_with [c] (split_on c s) = s"
proof (induction s)
  case Nil
  then show ?case by simp
next
  case (Cons x s)
  obtain w ws where "split_on c s = w # ws" by (cases "split_on c s") auto
  with Cons.IH show ?case by (cases ws) auto
qed

lemma split_on_free: "c \<notin> set w \<Longrightarrow> split_on c w = [w]"
  by (induction w) auto

lemma split_on_append:
  "c \<notin> set w \<Longrightarrow> split_on c (w @ c # s) = w # split_on c s"
  by (induction w) auto

lemma split_on_parts: "w \<in> set (split_on c s) \<Longrightarrow> c \<notin> set w"
proof (induction s arbitrary: w)
  case Nil
  then show ?case by simp
next
  case (Cons x s)
  obtain v vs where "split_on c s = v # vs" by (cases "split_on c s") auto
  with Cons show ?case by (auto split: if_splits)
qed

lemma split_join [text_simps]:
  "ws \<noteq> [] \<Longrightarrow> \<forall>w\<in>set ws. c \<notin> set w \<Longrightarrow> split_on c (join_with [c] ws) = ws"
proof (induction "[c]" ws rule: join_with.induct)
  case (3 w v ws)
  then show ?case by (simp add: split_on_append)
qed (auto simp: split_on_free)

lemma split_on_inj: "split_on c s = split_on c t \<Longrightarrow> s = t"
  by (metis join_split)

lemma split_on_dot_append: "split_on c (s @ c # t) = split_on c s @ split_on c t"
proof (induction s)
  case Nil
  then show ?case by simp
next
  case (Cons x s)
  obtain w ws where "split_on c s = w # ws" by (cases "split_on c s") auto
  with Cons.IH show ?case by auto
qed

lemma join_append:
  "us \<noteq> [] \<Longrightarrow> vs \<noteq> [] \<Longrightarrow> join_with sep (us @ vs) = join_with sep us @ sep @ join_with sep vs"
proof (induction sep us rule: join_with.induct)
  case (2 sep w)
  then show ?case by (cases vs) auto
qed auto

lemma set_join_subset: "set (join_with sep ws) \<subseteq> set sep \<union> (\<Union>w\<in>set ws. set w)"
  by (induction sep ws rule: join_with.induct) auto

lemma lower_idem [simp]: "lower (lower s) = lower s"
proof -
  have "lower_char (lower_char c) = lower_char c" for c
    by (auto simp: lower_char_def is_upper_def Let_def)
  then show ?thesis by (simp add: lower_def)
qed

lemma length_lower [simp]: "length (lower s) = length s"
  by (simp add: lower_def)

lemma strip_id: "s \<noteq> [] \<Longrightarrow> \<not> is_ws (hd s) \<Longrightarrow> \<not> is_ws (last s) \<Longrightarrow> strip s = s"
proof -
  assume "s \<noteq> []" "\<not> is_ws (hd s)" "\<not> is_ws (last s)"
  then have "dropWhile is_ws s = s" "dropWhile is_ws (rev s) = rev s"
    by (auto simp: dropWhile_eq_self_iff hd_rev)
  then show ?thesis by (simp add: strip_def)
qed

lemma strip_Nil [simp]: "strip [] = []"
  by (simp add: strip_def)

lemma strip_ends: "strip s \<noteq> [] \<Longrightarrow> \<not> is_ws (hd (strip s)) \<and> \<not> is_ws (last (strip s))"
proof -
  assume "strip s \<noteq> []"
  let ?t = "dropWhile is_ws s"
  let ?v = "dropWhile is_ws (rev ?t)"
  have v: "strip s = rev ?v" "?v \<noteq> []" using \<open>strip s \<noteq> []\<close> by (simp_all add: strip_def)
  from takeWhile_dropWhile_id [of is_ws "rev ?t"] have "rev ?t = takeWhile is_ws (rev ?t) @ ?v" by simp
  then have "?t = rev ?v @ rev (takeWhile is_ws (rev ?t))" by (metis rev_append rev_rev_ident)
  then have h: "hd (rev ?v) = hd ?t" using v(2) by (metis hd_append rev_is_Nil_conv)
  have "?t \<noteq> []" using v(2) by (metis dropWhile.simps(1) rev.simps(1))
  then have "\<not> is_ws (hd ?t)" by (rule hd_dropWhile)
  then show ?thesis unfolding v(1) h last_rev using hd_dropWhile [OF v(2)] by blast
qed

lemma strip_strip [simp]: "strip (strip s) = strip s"
  using strip_id [of "strip s"] strip_ends [of s] by (cases "strip s = []") simp_all

lemma digit_show: "c \<in> set (show_nat n) \<Longrightarrow> is_digit c"
proof (induction n arbitrary: c rule: show_nat.induct)
  case (1 n)
  from "1.prems" consider "n < 10" "c = char_of (48 + n)"
    | "\<not> n < 10" "c \<in> set (show_nat (n div 10))" | "c = char_of (48 + n mod 10)"
    by (subst (asm) show_nat.simps) (auto split: if_splits)
  then show ?case
  proof cases
    case 3
    have "48 + n mod 10 < 256" by (rule less_trans [of _ "58"]) auto
    with 3 show ?thesis by (simp add: is_digit_def Let_def)
  qed (use "1.IH" in \<open>auto simp: is_digit_def Let_def\<close>)
qed

lemma show_nat_not_Nil [simp]: "show_nat n \<noteq> []"
  by (subst show_nat.simps) simp

lemma read_show [simp]: "read_nat (show_nat n) = n"
proof (induction n rule: show_nat.induct)
  case (1 n)
  have lt: "48 + n mod 10 < 256" by (rule less_trans [of _ "58"]) auto
  show ?case
  proof (cases "n < 10")
    case True
    then show ?thesis by (subst show_nat.simps) (simp add: read_nat_def digit_val_def)
  next
    case False
    with "1.IH" lt show ?thesis
      by (subst show_nat.simps) (simp add: read_nat_def digit_val_def)
  qed
qed

lemma show_nat_inj: "show_nat m = show_nat n \<longleftrightarrow> m = n"
  by (metis read_show)

end
