(* ===== verification/ScopeGrammar.thy ===== *)
theory ScopeGrammar
  imports PyText
begin

text \<open>
  The scope token grammar, \<open>core/scope_management/grammar.py\<close>: the parser \<open>parse_scope\<close>, the
  closure \<open>expand_implied\<close> a grant carries, and the two coverage tests that the last rule of
  the access chain uses.  The regular expressions are written out as matchers on the parts of
  a token between colons.  Python's \<open>$\<close> also matches before one final newline, which
  \<open>drop_nl\<close> keeps: \<open>plugin:x\<close> followed by a newline is a plugin token to this parser.
\<close>

subsection \<open>Tokens and their productions\<close>

datatype access = Read | Write

instantiation access :: linorder
begin

definition less_eq_access :: "access \<Rightarrow> access \<Rightarrow> bool" where
  "less_eq_access a b = (a = Read \<or> b = Write)"

definition less_access :: "access \<Rightarrow> access \<Rightarrow> bool" where
  "less_access a b = (a = Read \<and> b = Write)"

instance
proof
  fix a b c :: access
  show "a < b \<longleftrightarrow> a \<le> b \<and> \<not> b \<le> a"
    by (cases a; cases b) (simp_all add: less_access_def less_eq_access_def)
  show "a \<le> a" by (cases a) (simp_all add: less_eq_access_def)
  show "a \<le> b \<Longrightarrow> b \<le> c \<Longrightarrow> a \<le> c" by (auto simp: less_eq_access_def)
  show "a \<le> b \<Longrightarrow> b \<le> a \<Longrightarrow> a = b" by (auto simp: less_eq_access_def)
  show "a \<le> b \<or> b \<le> a" by (cases a; cases b) (simp_all add: less_eq_access_def)
qed

end

definition access_str :: "access \<Rightarrow> string" where
  "access_str a = (case a of Read \<Rightarrow> ''read'' | Write \<Rightarrow> ''write'')"

definition read_access :: "string \<Rightarrow> access option" where
  "read_access s = (if s = ''read'' then Some Read else if s = ''write'' then Some Write else None)"

datatype scope_kind = SENTINEL | CORE | PLUGIN | GROUP | OP | INVALID

record ParsedScope =
  raw :: string
  kind :: scope_kind
  id_or_domain :: string
  ps_access :: "access option"
  tag_or_op :: string

definition parsed :: "string \<Rightarrow> scope_kind \<Rightarrow> string \<Rightarrow> access option \<Rightarrow> string \<Rightarrow> ParsedScope" where
  "parsed t k i a g = \<lparr>raw = t, kind = k, id_or_domain = i, ps_access = a, tag_or_op = g\<rparr>"

definition sentinels :: "string list" where
  "sentinels = [''all'', ''*'', ''admin'']"

subsection \<open>The regular expressions\<close>

definition is_seg_char :: "char \<Rightarrow> bool" where
  "is_seg_char c = (is_alnum c \<or> c = CHR ''_'' \<or> c = CHR ''-'')"

definition is_seg :: "string \<Rightarrow> bool" where
  "is_seg s = (s \<noteq> [] \<and> list_all is_seg_char s)"

definition is_domain :: "string \<Rightarrow> bool" where
  "is_domain s = list_all is_seg (split_on CHR ''.'' s)"

definition is_tag :: "string \<Rightarrow> bool" where
  "is_tag s = (s \<noteq> [] \<and> list_all (\<lambda>c. \<not> is_ws c) s)"

definition nl :: char where
  "nl = CHR 0x0A"

definition drop_nl :: "string \<Rightarrow> string" where
  "drop_nl s = (if s \<noteq> [] \<and> last s = nl then butlast s else s)"

definition match_core :: "string \<Rightarrow> (string \<times> access) option" where
  "match_core t =
     (case split_on CHR '':'' (drop_nl t) of
        [c, d, a] \<Rightarrow> (if c = ''core'' \<and> is_domain d then map_option (Pair d) (read_access a) else None)
      | _ \<Rightarrow> None)"

definition match_plugin :: "string \<Rightarrow> (string \<times> access option) option" where
  "match_plugin t =
     (case split_on CHR '':'' (drop_nl t) of
        [p, i] \<Rightarrow> (if p = ''plugin'' \<and> is_seg i then Some (i, None) else None)
      | [p, i, a] \<Rightarrow>
          (if p = ''plugin'' \<and> is_seg i then map_option (\<lambda>x. (i, Some x)) (read_access a) else None)
      | _ \<Rightarrow> None)"

definition match_tagged :: "string \<Rightarrow> string \<Rightarrow> (string \<times> string) option" where
  "match_tagged kw t =
     (case split_on CHR '':'' (drop_nl t) of
        k # i # g # gs \<Rightarrow>
          (if k = kw \<and> is_seg i \<and> is_tag (join_with '':'' (g # gs))
           then Some (i, join_with '':'' (g # gs)) else None)
      | _ \<Rightarrow> None)"

definition parse_scope :: "string \<Rightarrow> ParsedScope" where
  "parse_scope t =
     (if t = [] then parsed t INVALID [] None []
      else if t \<in> set sentinels then parsed t SENTINEL [] None []
      else (case match_core t of Some (d, a) \<Rightarrow> parsed t CORE d (Some a) []
      | None \<Rightarrow> (case match_plugin t of Some (i, a) \<Rightarrow> parsed t PLUGIN i a []
      | None \<Rightarrow> (case match_tagged ''group'' t of Some (i, g) \<Rightarrow> parsed t GROUP i None g
      | None \<Rightarrow> (case match_tagged ''op'' t of Some (i, g) \<Rightarrow> parsed t OP i None g
      | None \<Rightarrow> parsed t INVALID [] None [])))))"

definition is_valid_scope_token :: "string \<Rightarrow> bool" where
  "is_valid_scope_token t = (kind (parse_scope t) \<noteq> INVALID)"

subsection \<open>Building tokens\<close>

definition core_token :: "string \<Rightarrow> string \<Rightarrow> string" where
  "core_token d a = ''core:'' @ d @ '':'' @ a"

definition plugin_token :: "string \<Rightarrow> string" where
  "plugin_token i = ''plugin:'' @ i"

definition plugin_access_token :: "string \<Rightarrow> string \<Rightarrow> string" where
  "plugin_access_token i a = ''plugin:'' @ i @ '':'' @ a"

definition group_token :: "string \<Rightarrow> string \<Rightarrow> string" where
  "group_token i g = ''group:'' @ i @ '':'' @ g"

definition op_token :: "string \<Rightarrow> string \<Rightarrow> string" where
  "op_token i g = ''op:'' @ i @ '':'' @ g"

subsection \<open>Closure and coverage\<close>

definition domain_ancestors :: "string \<Rightarrow> string list" where
  "domain_ancestors d =
     (let parts = split_on CHR ''.'' d
      in rev (map (\<lambda>i. join_with ''.'' (take (i + 1) parts)) [0..<length parts]))"

definition expand_implied :: "string \<Rightarrow> string set" where
  "expand_implied t =
     (let p = parse_scope t in
      case kind p of
        CORE \<Rightarrow>
          (if ps_access p = Some Write then {t, core_token (id_or_domain p) ''read''} else {t})
      | PLUGIN \<Rightarrow>
          (case ps_access p of
             None \<Rightarrow> {t, plugin_access_token (id_or_domain p) ''write'',
                      plugin_access_token (id_or_domain p) ''read''}
           | Some Write \<Rightarrow> {t, plugin_access_token (id_or_domain p) ''read''}
           | Some Read \<Rightarrow> {t})
      | _ \<Rightarrow> {t})"

definition core_domain_covers :: "string \<Rightarrow> string \<Rightarrow> bool" where
  "core_domain_covers held_domain required_domain =
     (held_domain = required_domain \<or> starts_with (held_domain @ ''.'') required_domain)"

definition grant_covers_core :: "string \<Rightarrow> string \<Rightarrow> access \<Rightarrow> bool" where
  "grant_covers_core held required_domain required_access =
     (let p = parse_scope held in
      if kind p \<noteq> CORE then False
      else if \<not> core_domain_covers (id_or_domain p) required_domain then False
      else if required_access = Read then True
      else ps_access p = Some Write)"

definition plugin_grant_covers :: "string \<Rightarrow> string \<Rightarrow> string \<Rightarrow> string \<Rightarrow> bool" where
  "plugin_grant_covers held plugin_id group_tag op_id =
     (let p = parse_scope held in
      if kind p = PLUGIN \<and> id_or_domain p = plugin_id then True
      else if group_tag \<noteq> [] \<and> kind p = GROUP
        then id_or_domain p = plugin_id \<and> tag_or_op p = group_tag
      else if op_id \<noteq> [] \<and> kind p = OP
        then id_or_domain p = plugin_id \<and> tag_or_op p = op_id
      else False)"

subsection \<open>Characters and segments\<close>

lemma seg_char_no [scope_simps]:
  "is_seg_char c \<Longrightarrow> c \<noteq> CHR '':'' \<and> c \<noteq> CHR ''.'' \<and> c \<noteq> nl \<and> \<not> is_ws c"
  by (auto simp: is_seg_char_def is_alnum_def is_digit_def is_upper_def is_lower_def is_ws_def
      Let_def ch_def nl_def)

lemma is_seg_no [scope_simps]:
  "is_seg s \<Longrightarrow> CHR '':'' \<notin> set s \<and> CHR ''.'' \<notin> set s \<and> nl \<notin> set s"
  by (auto simp: is_seg_def list_all_iff dest: seg_char_no)

lemma is_tag_no_nl: "is_tag g \<Longrightarrow> nl \<notin> set g"
  by (auto simp: is_tag_def list_all_iff is_ws_def nl_def ch_def)

lemma is_domain_no [scope_simps]:
  assumes "is_domain d"
  shows "CHR '':'' \<notin> set d \<and> nl \<notin> set d"
proof -
  let ?ws = "split_on CHR ''.'' d"
  have "set d \<subseteq> set [CHR ''.''] \<union> (\<Union>w\<in>set ?ws. set w)"
    using set_join_subset [of "[CHR ''.'']" ?ws] by (simp add: join_split)
  moreover have "CHR '':'' \<notin> set w \<and> nl \<notin> set w" if "w \<in> set ?ws" for w
    using assms that is_seg_no [of w] by (auto simp: is_domain_def list_all_iff)
  ultimately show ?thesis by (auto simp: nl_def)
qed

lemma is_domain_not_Nil: "is_domain d \<Longrightarrow> d \<noteq> []"
  by (auto simp: is_domain_def is_seg_def)

lemma is_seg_domain: "is_seg s \<Longrightarrow> is_domain s"
  using is_seg_no [of s] by (simp add: is_domain_def split_on_free)

lemma drop_nl_free: "nl \<notin> set s \<Longrightarrow> drop_nl s = s"
  by (auto simp: drop_nl_def dest: last_in_set)

lemma drop_nl_snoc [simp]: "drop_nl (s @ [nl]) = s"
  by (simp add: drop_nl_def)

lemma read_access_str [simp]: "read_access (access_str a) = Some a"
  by (cases a) (simp_all add: read_access_def access_str_def)

lemma read_access_Some: "read_access s = Some a \<Longrightarrow> s = access_str a"
  by (auto simp: read_access_def access_str_def split: if_splits)

lemma access_str_free: "CHR '':'' \<notin> set (access_str a) \<and> nl \<notin> set (access_str a)"
  by (cases a) (simp_all add: access_str_def nl_def)

lemma parsed_sel [simp]:
  "raw (parsed t k i a g) = t" "kind (parsed t k i a g) = k" "id_or_domain (parsed t k i a g) = i"
  "ps_access (parsed t k i a g) = a" "tag_or_op (parsed t k i a g) = g"
  by (simp_all add: parsed_def)

subsection \<open>Round trips\<close>

lemma split_core_token:
  "is_domain d \<Longrightarrow> split_on CHR '':'' (core_token d (access_str a)) = [''core'', d, access_str a]"
  using is_domain_no [of d] access_str_free [of a]
  by (simp add: core_token_def split_on_append split_on_free)

lemma parse_core_token [scope_simps]:
  assumes "is_domain d"
  shows "parse_scope (core_token d (access_str a)) =
     parsed (core_token d (access_str a)) CORE d (Some a) []"
proof -
  have "nl \<notin> set (core_token d (access_str a))"
    using is_domain_no [OF assms] access_str_free [of a] by (auto simp: core_token_def nl_def)
  then have "match_core (core_token d (access_str a)) = Some (d, a)"
    using assms by (simp add: match_core_def drop_nl_free split_core_token)
  then show ?thesis
    by (simp add: parse_scope_def) (simp add: core_token_def sentinels_def)
qed

lemma parse_plugin_token [scope_simps]:
  assumes "is_seg i"
  shows "parse_scope (plugin_token i) = parsed (plugin_token i) PLUGIN i None []"
proof -
  have fr: "nl \<notin> set (plugin_token i)" "split_on CHR '':'' (plugin_token i) = [''plugin'', i]"
    using is_seg_no [OF assms] by (auto simp: plugin_token_def nl_def split_on_free)
  then have "match_core (plugin_token i) = None" "match_plugin (plugin_token i) = Some (i, None)"
    using assms by (simp_all add: match_core_def match_plugin_def drop_nl_free)
  then show ?thesis
    by (simp add: parse_scope_def) (simp add: plugin_token_def sentinels_def)
qed

lemma parse_plugin_access_token [scope_simps]:
  assumes "is_seg i"
  shows "parse_scope (plugin_access_token i (access_str a)) =
     parsed (plugin_access_token i (access_str a)) PLUGIN i (Some a) []"
proof -
  let ?t = "plugin_access_token i (access_str a)"
  have fr: "nl \<notin> set ?t" "split_on CHR '':'' ?t = [''plugin'', i, access_str a]"
    using is_seg_no [OF assms] access_str_free [of a]
    by (auto simp: plugin_access_token_def nl_def split_on_append split_on_free)
  then have "match_core ?t = None" "match_plugin ?t = Some (i, Some a)"
    using assms by (simp_all add: match_core_def match_plugin_def drop_nl_free)
  then show ?thesis
    by (simp add: parse_scope_def) (simp add: plugin_access_token_def sentinels_def)
qed

lemma match_tagged_token:
  assumes "is_seg i" "is_tag g" "CHR '':'' \<notin> set kw" "nl \<notin> set kw"
  shows "match_tagged kw (kw @ '':'' @ i @ '':'' @ g) = Some (i, g)"
proof -
  have fr: "nl \<notin> set (kw @ '':'' @ i @ '':'' @ g)"
    using is_seg_no [OF assms(1)] is_tag_no_nl [OF assms(2)] assms(4) by (auto simp: nl_def)
  obtain w ws where w: "split_on CHR '':'' g = w # ws"
    by (cases "split_on CHR '':'' g") auto
  have "join_with '':'' (w # ws) = g" using join_split [of "CHR '':''" g] w by simp
  moreover have "split_on CHR '':'' (kw @ '':'' @ i @ '':'' @ g) = kw # i # w # ws"
    using is_seg_no [OF assms(1)] assms(3) w by (simp add: split_on_append)
  moreover have "drop_nl (kw @ '':'' @ i @ '':'' @ g) = kw @ '':'' @ i @ '':'' @ g"
    using fr by (rule drop_nl_free)
  ultimately show ?thesis using assms by (simp add: match_tagged_def)
qed

lemma not_core_kw:
  assumes "k \<noteq> ''core''" "k \<noteq> ''plugin''" "CHR '':'' \<notin> set k" "nl \<notin> set k" "nl \<notin> set r"
  shows "match_core (k @ '':'' @ r) = None \<and> match_plugin (k @ '':'' @ r) = None"
proof -
  have "nl \<notin> set (k @ '':'' @ r)" using assms by (auto simp: nl_def)
  then have "drop_nl (k @ '':'' @ r) = k @ '':'' @ r" by (rule drop_nl_free)
  moreover have "split_on CHR '':'' (k @ '':'' @ r) = k # split_on CHR '':'' r"
    using assms(3) by (simp add: split_on_append)
  ultimately show ?thesis using assms(1,2)
    by (auto simp: match_core_def match_plugin_def split: list.splits)
qed

lemma parse_group_token [scope_simps]:
  assumes "is_seg i" "is_tag g"
  shows "parse_scope (group_token i g) = parsed (group_token i g) GROUP i None g"
proof -
  have "match_tagged ''group'' (group_token i g) = Some (i, g)"
    using match_tagged_token [OF assms, of "''group''"] by (simp add: group_token_def nl_def)
  moreover have "match_core (group_token i g) = None \<and> match_plugin (group_token i g) = None"
    using not_core_kw [of "''group''" "i @ '':'' @ g"] is_seg_no [OF assms(1)] is_tag_no_nl [OF assms(2)]
    by (auto simp: group_token_def nl_def)
  ultimately show ?thesis
    by (simp add: parse_scope_def) (simp add: group_token_def sentinels_def)
qed

lemma parse_op_token [scope_simps]:
  assumes "is_seg i" "is_tag g"
  shows "parse_scope (op_token i g) = parsed (op_token i g) OP i None g"
proof -
  have "match_tagged ''op'' (op_token i g) = Some (i, g)"
    using match_tagged_token [OF assms, of "''op''"] by (simp add: op_token_def nl_def)
  moreover have "match_core (op_token i g) = None \<and> match_plugin (op_token i g) = None"
    using not_core_kw [of "''op''" "i @ '':'' @ g"] is_seg_no [OF assms(1)] is_tag_no_nl [OF assms(2)]
    by (auto simp: op_token_def nl_def)
  moreover have "match_tagged ''group'' (op_token i g) = None"
  proof -
    have "nl \<notin> set (op_token i g)"
      using is_seg_no [OF assms(1)] is_tag_no_nl [OF assms(2)] by (auto simp: op_token_def nl_def)
    moreover have "split_on CHR '':'' (op_token i g) = ''op'' # split_on CHR '':'' (i @ '':'' @ g)"
      by (simp add: op_token_def)
    ultimately show ?thesis
      by (auto simp: match_tagged_def drop_nl_free split: list.splits)
  qed
  ultimately show ?thesis
    by (simp add: parse_scope_def) (simp add: op_token_def sentinels_def)
qed

subsection \<open>What a parse result says about the token\<close>

lemma parse_CORE_D:
  "kind (parse_scope t) = CORE \<Longrightarrow>
     is_domain (id_or_domain (parse_scope t)) \<and> (\<exists>a. ps_access (parse_scope t) = Some a)"
  by (auto simp: parse_scope_def match_core_def split: if_splits option.splits list.splits)

lemma parse_PLUGIN_D: "kind (parse_scope t) = PLUGIN \<Longrightarrow> is_seg (id_or_domain (parse_scope t))"
  by (auto simp: parse_scope_def match_plugin_def split: if_splits option.splits list.splits)

lemma parse_raw [simp]: "raw (parse_scope t) = t"
  by (simp add: parse_scope_def split: option.splits prod.splits)

lemma self_in_expand [simp]: "t \<in> expand_implied t"
  by (simp add: expand_implied_def Let_def split: scope_kind.splits option.splits access.splits)

subsection \<open>Coverage\<close>

lemma starts_dot_split:
  "starts_with (h @ ''.'') r \<longleftrightarrow> (\<exists>us. us \<noteq> [] \<and> split_on CHR ''.'' r = split_on CHR ''.'' h @ us)"
proof
  assume "starts_with (h @ ''.'') r"
  then obtain t where "r = h @ CHR ''.'' # t" by (auto simp: starts_with_iff)
  then show "\<exists>us. us \<noteq> [] \<and> split_on CHR ''.'' r = split_on CHR ''.'' h @ us"
    by (intro exI [of _ "split_on CHR ''.'' t"]) (simp add: split_on_dot_append)
next
  assume "\<exists>us. us \<noteq> [] \<and> split_on CHR ''.'' r = split_on CHR ''.'' h @ us"
  then obtain us where us: "us \<noteq> []" "split_on CHR ''.'' r = split_on CHR ''.'' h @ us" by blast
  have "r = join_with ''.'' (split_on CHR ''.'' h @ us)"
    using join_split [of "CHR ''.''" r] us(2) by simp
  also have "\<dots> = h @ ''.'' @ join_with ''.'' us"
    using us(1) by (simp add: join_append join_split)
  finally show "starts_with (h @ ''.'') r" by (auto simp: starts_with_iff)
qed

lemma covers_prefix [scope_simps]:
  "core_domain_covers h r \<longleftrightarrow> prefix (split_on CHR ''.'' h) (split_on CHR ''.'' r)"
proof -
  have "core_domain_covers h r \<longleftrightarrow>
      (\<exists>us. split_on CHR ''.'' r = split_on CHR ''.'' h @ us)"
    unfolding core_domain_covers_def starts_dot_split
    by (metis append_Nil2 split_on_inj)
  then show ?thesis by (simp add: prefix_def)
qed

lemma covers_refl [simp]: "core_domain_covers d d"
  by (simp add: core_domain_covers_def)

lemma covers_trans: "core_domain_covers a b \<Longrightarrow> core_domain_covers b c \<Longrightarrow> core_domain_covers a c"
  by (auto simp: covers_prefix intro: prefix_order.trans)

lemma covers_antisym: "core_domain_covers a b \<Longrightarrow> core_domain_covers b a \<Longrightarrow> a = b"
  by (auto simp: covers_prefix intro: split_on_inj dest: prefix_order.antisym)

lemma grant_covers_core_iff:
  "grant_covers_core t d a \<longleftrightarrow>
     (\<exists>h b. kind (parse_scope t) = CORE \<and> id_or_domain (parse_scope t) = h \<and>
       ps_access (parse_scope t) = Some b \<and> core_domain_covers h d \<and> a \<le> b)"
  using parse_CORE_D [of t] by (cases a) (auto simp: grant_covers_core_def Let_def less_eq_access_def)

lemma plugin_grant_covers_group:
  "is_tag g \<Longrightarrow> plugin_grant_covers t i g [] \<longleftrightarrow>
     (kind (parse_scope t) = PLUGIN \<and> id_or_domain (parse_scope t) = i \<or>
      kind (parse_scope t) = GROUP \<and> id_or_domain (parse_scope t) = i \<and> tag_or_op (parse_scope t) = g)"
  by (auto simp: plugin_grant_covers_def Let_def is_tag_def)

subsection \<open>Properties of the grammar\<close>

text \<open>
  C40: Round trip of the grammar.  Every token assembled from a well-formed domain, plugin id
  and tag in one of the five productions parses back to exactly that production with its parts.
\<close>

theorem parse_scope_roundtrip:
  assumes "is_domain d" and "is_seg i" and "is_tag g"
  shows "parse_scope (core_token d (access_str a)) = parsed (core_token d (access_str a)) CORE d (Some a) []
    \<and> parse_scope (plugin_token i) = parsed (plugin_token i) PLUGIN i None []
    \<and> parse_scope (plugin_access_token i (access_str a))
        = parsed (plugin_access_token i (access_str a)) PLUGIN i (Some a) []
    \<and> parse_scope (group_token i g) = parsed (group_token i g) GROUP i None g
    \<and> parse_scope (op_token i g) = parsed (op_token i g) OP i None g"
  using assms by (simp add: scope_simps)

theorem parse_scope_roundtrip_witness:
  "parse_scope ''core:whiskers.proxy:write'' = parsed ''core:whiskers.proxy:write'' CORE ''whiskers.proxy'' (Some Write) []
   \<and> parse_scope ''group:jules_plugin:a:b'' = parsed ''group:jules_plugin:a:b'' GROUP ''jules_plugin'' None ''a:b''"
proof -
  have h: "is_domain ''whiskers.proxy''" "is_seg ''jules_plugin''" "is_tag ''a:b''" by code_simp+
  from parse_scope_roundtrip [OF h, of Write] show ?thesis
    by (simp add: core_token_def group_token_def access_str_def)
qed

text \<open>
  The implied-scope closure is a closure.  Every token in the expansion of a grant token
  expands to nothing beyond that expansion, so expanding once is enough.
\<close>

theorem expand_implied_closed:
  "u \<in> expand_implied t \<Longrightarrow> expand_implied u \<subseteq> expand_implied t"
proof -
  assume u: "u \<in> expand_implied t"
  let ?p = "parse_scope t"
  have r: "expand_implied (core_token d ''read'') = {core_token d ''read''}" if "is_domain d" for d
    using parse_core_token [OF that, of Read] by (simp add: expand_implied_def Let_def access_str_def)
  have w: "expand_implied (plugin_access_token i ''read'') = {plugin_access_token i ''read''}"
    "expand_implied (plugin_access_token i ''write'') =
       {plugin_access_token i ''write'', plugin_access_token i ''read''}" if "is_seg i" for i
    using parse_plugin_access_token [OF that, of Read] parse_plugin_access_token [OF that, of Write]
    by (simp_all add: expand_implied_def Let_def access_str_def)
  show ?thesis
  proof (cases "u = t")
    case True
    then show ?thesis by simp
  next
    case False
    with u consider
        "kind ?p = CORE" "ps_access ?p = Some Write" "u = core_token (id_or_domain ?p) ''read''"
      | "kind ?p = PLUGIN" "ps_access ?p = None"
        "u \<in> {plugin_access_token (id_or_domain ?p) ''write'', plugin_access_token (id_or_domain ?p) ''read''}"
      | "kind ?p = PLUGIN" "ps_access ?p = Some Write" "u = plugin_access_token (id_or_domain ?p) ''read''"
      by (fastforce simp: expand_implied_def Let_def split: scope_kind.splits option.splits access.splits
          if_splits)
    then show ?thesis
      using u by cases (auto simp: r w parse_PLUGIN_D dest!: parse_CORE_D,
          auto simp: expand_implied_def Let_def)
  qed
qed

theorem expand_implied_closed_witness:
  "expand_implied ''plugin:jules:write'' \<subseteq> expand_implied ''plugin:jules''"
proof -
  have "''plugin:jules:write'' \<in> expand_implied ''plugin:jules''" by code_simp
  then show ?thesis by (rule expand_implied_closed)
qed

text \<open>
  Domain coverage is segment-wise prefix order.  A held domain covers a required one exactly
  when its dot-separated segments are a prefix of the required segments, so a sibling or a parent
  is never covered; in particular coverage is a partial order.
\<close>

theorem core_domain_covers_order:
  "(core_domain_covers h r \<longleftrightarrow> prefix (split_on CHR ''.'' h) (split_on CHR ''.'' r))
   \<and> core_domain_covers h h
   \<and> (core_domain_covers h r \<and> core_domain_covers r q \<longrightarrow> core_domain_covers h q)
   \<and> (core_domain_covers h r \<and> core_domain_covers r h \<longrightarrow> h = r)"
  using covers_prefix covers_trans covers_antisym by auto

theorem core_domain_covers_order_witness:
  "core_domain_covers ''a'' ''a.b.c'' \<and> \<not> core_domain_covers ''a.b'' ''a''"
proof -
  have "core_domain_covers ''a'' ''a.b'' \<and> core_domain_covers ''a.b'' ''a.b.c''" by code_simp
  then have "core_domain_covers ''a'' ''a.b.c''"
    using core_domain_covers_order [of "''a''" "''a.b''" "''a.b.c''"] by blast
  moreover have "\<not> core_domain_covers ''a.b'' ''a''" by code_simp
  ultimately show ?thesis by blast
qed

end
