(* ===== verification/Glob.thy ===== *)
theory Glob
  imports PyText
begin

text \<open>
  \<open>fnmatch.fnmatchcase\<close> of Python's standard library, which the plugin gates match operation
  ids and endpoint paths with: \<open>*\<close> any text, \<open>?\<close> one character, \<open>[...]\<close> and \<open>[!...]\<close> a set
  of characters and ranges (an empty range disappears, an unclosed bracket is a literal).
\<close>

datatype glob = GStar | GAny | GLit char | GSet bool "(char \<times> char) list"

fun class_items :: "string \<Rightarrow> (char \<times> char) list" where
  "class_items (a # b # c # r) =
     (if b = CHR ''-'' then (if a \<le> c then (a, c) # class_items r else class_items r)
      else (a, a) # class_items (b # c # r))"
| "class_items [a, b] = [(a, a), (b, b)]"
| "class_items [a] = [(a, a)]"
| "class_items [] = []"

definition class_body :: "string \<Rightarrow> (bool \<times> string \<times> string) option" where
  "class_body s =
     (let neg = (s \<noteq> [] \<and> hd s = CHR ''!'');
          s1 = (if neg then tl s else s) in
      if s1 = [] then None
      else (let lead = (if hd s1 = CHR '']'' then [hd s1] else []);
                s2 = (if hd s1 = CHR '']'' then tl s1 else s1);
                body = takeWhile (\<lambda>c. c \<noteq> CHR '']'') s2;
                rest = dropWhile (\<lambda>c. c \<noteq> CHR '']'') s2 in
            if rest = [] then None else Some (neg, lead @ body, tl rest)))"

lemma class_body_shorter: "class_body s = Some (neg, body, rest) \<Longrightarrow> length rest < length s"
proof -
  assume c: "class_body s = Some (neg, body, rest)"
  define s1 where "s1 = (if s \<noteq> [] \<and> hd s = CHR ''!'' then tl s else s)"
  define s2 where "s2 = (if hd s1 = CHR '']'' then tl s1 else s1)"
  let ?r = "dropWhile (\<lambda>c. c \<noteq> CHR '']'') s2"
  define b where "b = (if hd s1 = CHR '']'' then [hd s1] else []) @ takeWhile (\<lambda>c. c \<noteq> CHR '']'') s2"
  have "class_body s = (if s1 = [] then None else if ?r = [] then None
      else Some (s \<noteq> [] \<and> hd s = CHR ''!'', b, tl ?r))"
    unfolding class_body_def Let_def s1_def s2_def b_def by (rule refl)
  then have "rest = tl ?r" "?r \<noteq> []"
    using c by (simp_all split: if_split_asm)
  then have "length rest < length ?r" by simp
  also have "\<dots> \<le> length s2" by (rule length_dropWhile_le)
  also have "\<dots> \<le> length s1" by (simp add: s2_def)
  also have "\<dots> \<le> length s" by (simp add: s1_def)
  finally show ?thesis .
qed

function parse_glob :: "string \<Rightarrow> glob list" where
  "parse_glob s =
     (case s of [] \<Rightarrow> []
      | c # t \<Rightarrow>
          (if c = CHR ''*'' then GStar # parse_glob t
           else if c = CHR ''?'' then GAny # parse_glob t
           else if c = CHR ''['' then
             (case class_body t of None \<Rightarrow> GLit c # parse_glob t
              | Some (neg, body, rest) \<Rightarrow> GSet neg (class_items body) # parse_glob rest)
           else GLit c # parse_glob t))"
  by pat_completeness auto
termination
  by (relation "measure length") (auto dest: class_body_shorter)

declare parse_glob.simps [simp del]

fun gmatch :: "glob list \<Rightarrow> string \<Rightarrow> bool" where
  "gmatch [] s = (s = [])"
| "gmatch (GStar # ps) [] = gmatch ps []"
| "gmatch (GStar # ps) (c # s) = (gmatch ps (c # s) \<or> gmatch (GStar # ps) s)"
| "gmatch (GAny # ps) s = (case s of [] \<Rightarrow> False | _ # t \<Rightarrow> gmatch ps t)"
| "gmatch (GLit a # ps) s = (case s of [] \<Rightarrow> False | c # t \<Rightarrow> c = a \<and> gmatch ps t)"
| "gmatch (GSet neg rs # ps) s =
     (case s of [] \<Rightarrow> False
      | c # t \<Rightarrow> (list_ex (\<lambda>(lo, hi). lo \<le> c \<and> c \<le> hi) rs \<noteq> neg) \<and> gmatch ps t)"

definition fnmatchcase :: "string \<Rightarrow> string \<Rightarrow> bool" where
  "fnmatchcase s pat = gmatch (parse_glob pat) s"

subsection \<open>Laws\<close>

lemma gmatch_star [simp]: "gmatch [GStar] s"
  by (induction s) auto

lemma gmatch_star_iff: "gmatch (GStar # ps) s \<longleftrightarrow> (\<exists>u v. s = u @ v \<and> gmatch ps v)"
proof (induction s)
  case Nil
  then show ?case by simp
next
  case (Cons c s)
  have "(\<exists>u v. c # s = u @ v \<and> gmatch ps v) \<longleftrightarrow> gmatch ps (c # s) \<or> (\<exists>u v. s = u @ v \<and> gmatch ps v)"
    by (metis (no_types, opaque_lifting) append_Cons append_Nil list.sel(3) neq_Nil_conv)
  then show ?case using Cons.IH by simp
qed

lemma gmatch_lits: "gmatch (map GLit p @ ps) s \<longleftrightarrow> (\<exists>t. s = p @ t \<and> gmatch ps t)"
  by (induction p arbitrary: s) (auto split: list.splits)

definition plain :: "string \<Rightarrow> bool" where
  "plain p = list_all (\<lambda>c. c \<noteq> CHR ''*'' \<and> c \<noteq> CHR ''?'' \<and> c \<noteq> CHR ''['') p"

lemma parse_glob_plain: "plain p \<Longrightarrow> parse_glob (p @ s) = map GLit p @ parse_glob s"
proof (induction p)
  case Nil
  then show ?case by simp
next
  case (Cons c p)
  then show ?case by (subst parse_glob.simps) (simp add: plain_def)
qed

lemma parse_glob_Nil [simp]: "parse_glob [] = []"
  by (subst parse_glob.simps) simp

lemma parse_glob_star [simp]: "parse_glob ''*'' = [GStar]"
  by (subst parse_glob.simps) simp

lemma fnmatch_star [simp]: "fnmatchcase s ''*''"
  by (simp add: fnmatchcase_def)

lemma fnmatch_plain: "plain p \<Longrightarrow> fnmatchcase s p \<longleftrightarrow> s = p"
  using parse_glob_plain [of p "[]"] gmatch_lits [of p "[]" s] by (simp add: fnmatchcase_def)

lemma fnmatch_prefix: "plain p \<Longrightarrow> fnmatchcase s (p @ ''*'') \<longleftrightarrow> starts_with p s"
  using parse_glob_plain [of p "''*''"] gmatch_lits [of p "[GStar]" s]
  by (auto simp: fnmatchcase_def starts_with_iff)

end
