(* ===== verification/PyValue.thy ===== *)
theory PyValue
  imports PyText Complex_Main
begin

text \<open>
  The dynamic values of the program: what \<open>json.load\<close>, an LLM answer or a tool result can
  hold.  A dictionary is an association list in insertion order with string keys; a float is
  an exact rational (the code only compares and stores floats, and no NaN or infinity can
  come out of the JSON the program reads).  \<open>py_eq\<close> is Python's \<open>==\<close> (booleans are numbers,
  numbers compare by value, dictionaries regardless of order), \<open>py_less\<close> is \<open><\<close>, where \<open>None\<close>
  is the \<open>TypeError\<close> of an unordered pair, and \<open>truthy\<close> is \<open>bool(v)\<close>.
\<close>

datatype pyval =
    PNone
  | PBool bool
  | PInt int
  | PFloat rat
  | PStr string
  | PList "pyval list"
  | PDict "(string \<times> pyval) list"

type_synonym pydict = "(string \<times> pyval) list"

definition truthy :: "pyval \<Rightarrow> bool" where
  "truthy v = (case v of PNone \<Rightarrow> False | PBool b \<Rightarrow> b | PInt i \<Rightarrow> i \<noteq> 0 | PFloat r \<Rightarrow> r \<noteq> 0
     | PStr s \<Rightarrow> s \<noteq> [] | PList xs \<Rightarrow> xs \<noteq> [] | PDict d \<Rightarrow> d \<noteq> [])"

definition num_of :: "pyval \<Rightarrow> rat option" where
  "num_of v = (case v of PBool b \<Rightarrow> Some (of_bool b) | PInt i \<Rightarrow> Some (of_int i)
     | PFloat r \<Rightarrow> Some r | _ \<Rightarrow> None)"

primrec canon :: "pyval \<Rightarrow> pyval" where
  "canon PNone = PNone"
| "canon (PBool b) = PFloat (of_bool b)"
| "canon (PInt i) = PFloat (of_int i)"
| "canon (PFloat r) = PFloat r"
| "canon (PStr s) = PStr s"
| "canon (PList xs) = PList (map canon xs)"
| "canon (PDict d) = PDict (sort_key fst (map (map_prod id canon) d))"

definition py_eq :: "pyval \<Rightarrow> pyval \<Rightarrow> bool" where
  "py_eq v w = (canon v = canon w)"

definition py_in :: "pyval \<Rightarrow> pyval list \<Rightarrow> bool" where
  "py_in v ws = list_ex (py_eq v) ws"

fun hashable :: "pyval \<Rightarrow> bool" where
  "hashable (PList _) = False"
| "hashable (PDict _) = False"
| "hashable _ = True"

function py_less :: "pyval \<Rightarrow> pyval \<Rightarrow> bool option" where
  "py_less v w =
     (case (num_of v, num_of w) of (Some a, Some b) \<Rightarrow> Some (a < b)
      | _ \<Rightarrow> (case (v, w) of
          (PStr a, PStr b) \<Rightarrow> Some (a < b)
        | (PList [], PList []) \<Rightarrow> Some False
        | (PList [], PList (_ # _)) \<Rightarrow> Some True
        | (PList (_ # _), PList []) \<Rightarrow> Some False
        | (PList (x # xs), PList (y # ys)) \<Rightarrow>
            (if py_eq x y then py_less (PList xs) (PList ys) else py_less x y)
        | _ \<Rightarrow> None))"
  by pat_completeness auto
termination
  by (relation "measure (\<lambda>(v, w). size v + size w)") auto

declare py_less.simps [simp del]

definition py_gt :: "pyval \<Rightarrow> pyval \<Rightarrow> bool option" where
  "py_gt v w = py_less w v"

definition py_ge :: "pyval \<Rightarrow> pyval \<Rightarrow> bool option" where
  "py_ge v w = map_option Not (py_less v w)"

subsection \<open>Dictionaries and shapes\<close>

definition dget :: "string \<Rightarrow> pydict \<Rightarrow> pyval option" where
  "dget k d = map_of d k"

definition dget_or :: "string \<Rightarrow> pyval \<Rightarrow> pydict \<Rightarrow> pyval" where
  "dget_or k v d = (case dget k d of None \<Rightarrow> v | Some w \<Rightarrow> w)"

abbreviation dget_none :: "string \<Rightarrow> pydict \<Rightarrow> pyval" where
  "dget_none k d \<equiv> dget_or k PNone d"

definition has_key :: "string \<Rightarrow> pydict \<Rightarrow> bool" where
  "has_key k d = (dget k d \<noteq> None)"

definition unknown_keys :: "string list \<Rightarrow> pydict \<Rightarrow> string list" where
  "unknown_keys allowed d = filter (\<lambda>k. k \<notin> set allowed) (map fst d)"

fun is_str :: "pyval \<Rightarrow> bool" where
  "is_str (PStr _) = True"
| "is_str _ = False"

fun is_dict :: "pyval \<Rightarrow> bool" where
  "is_dict (PDict _) = True"
| "is_dict _ = False"

fun is_list :: "pyval \<Rightarrow> bool" where
  "is_list (PList _) = True"
| "is_list _ = False"

fun str_of :: "pyval \<Rightarrow> string" where
  "str_of (PStr s) = s"
| "str_of _ = []"

fun dict_of :: "pyval \<Rightarrow> pydict" where
  "dict_of (PDict d) = d"
| "dict_of _ = []"

fun list_of :: "pyval \<Rightarrow> pyval list" where
  "list_of (PList xs) = xs"
| "list_of _ = []"

text \<open>\<open>isinstance(v, int)\<close> accepts booleans, which are then used as 0 and 1.\<close>

fun int_of_py :: "pyval \<Rightarrow> int option" where
  "int_of_py (PInt i) = Some i"
| "int_of_py (PBool b) = Some (of_bool b)"
| "int_of_py _ = None"

subsection \<open>Laws\<close>

lemma py_eq_refl [simp]: "py_eq v v"
  by (simp add: py_eq_def)

lemma py_eq_sym: "py_eq v w \<Longrightarrow> py_eq w v"
  by (simp add: py_eq_def)

lemma py_eq_trans: "py_eq u v \<Longrightarrow> py_eq v w \<Longrightarrow> py_eq u w"
  by (simp add: py_eq_def)

lemma py_eq_PStr [simp]: "py_eq v (PStr s) \<longleftrightarrow> v = PStr s"
  by (cases v) (auto simp: py_eq_def)

lemma py_eq_PNone [simp]: "py_eq v PNone \<longleftrightarrow> v = PNone"
  by (cases v) (auto simp: py_eq_def)

lemma py_in_PStr: "py_in v (map PStr ss) \<longleftrightarrow> (\<exists>s\<in>set ss. v = PStr s)"
  by (auto simp: py_in_def list_ex_iff)

lemma unknown_keys_Nil: "unknown_keys allowed d = [] \<longleftrightarrow> fst ` set d \<subseteq> set allowed"
  by (auto simp: unknown_keys_def filter_empty_conv)

lemma has_key_iff: "has_key k d \<longleftrightarrow> k \<in> fst ` set d"
  by (simp add: has_key_def dget_def map_of_eq_None_iff)

lemma dget_dset [simp]: "dget k (dset k' v d) = (if k = k' then Some v else dget k d)"
  by (simp add: dget_def)

lemma dget_or_dset [simp]: "dget_or k u (dset k' v d) = (if k = k' then v else dget_or k u d)"
  by (simp add: dget_or_def)

lemma dget_dpop [simp]: "dget k (dpop k' d) = (if k = k' then None else dget k d)"
  by (simp add: dget_def)

lemma dget_or_dpop [simp]: "dget_or k u (dpop k' d) = (if k = k' then u else dget_or k u d)"
  by (simp add: dget_or_def)

end
