(* ===== verification/LayeredStore.thy ===== *)
theory LayeredStore
  imports Prelude
begin

text \<open>
  The contract of a registry with an override layer: entries are registered in a base layer and a
  second layer, reloaded from the database, wins over it.  The plugin gates (\<open>ScopeGates\<close>) and the model
  roles (\<open>RoleRegistry\<close>) are instances.
\<close>

locale layered_store =
  fixes base :: "'s \<Rightarrow> 'k \<Rightarrow> 'v option"
    and over :: "'s \<Rightarrow> 'k \<Rightarrow> 'v option"
    and look :: "'s \<Rightarrow> 'k \<Rightarrow> 'v option"
    and key :: "'v \<Rightarrow> 'k"
    and put_base :: "'v \<Rightarrow> 's \<Rightarrow> 's"
    and put_over :: "'k \<Rightarrow> 'v option \<Rightarrow> 's \<Rightarrow> 's"
    and wipe_over :: "'s \<Rightarrow> 's"
  assumes look_over: "look s k = (case over s k of Some v \<Rightarrow> Some v | None \<Rightarrow> base s k)"
    and base_put: "base (put_base v s) = (base s)(key v \<mapsto> v)"
    and over_put_base: "over (put_base v s) = over s"
    and over_put: "over (put_over k ov s) = (over s)(k := ov)"
    and base_put_over: "base (put_over k ov s) = base s"
    and over_wipe: "over (wipe_over s) = (\<lambda>_. None)"
    and base_wipe: "base (wipe_over s) = base s"
begin

lemma override_wins: "look (put_over k (Some v) s) k = Some v"
  by (simp add: look_over over_put)

lemma override_survives_base: "look (put_base w (put_over k (Some v) s)) k = Some v"
  by (simp add: look_over over_put over_put_base)

lemma cleared_restores_base: "look (put_over k None (put_over k ov s)) k = base s k"
  by (simp add: look_over over_put base_put_over)

lemma wiped_is_base: "look (wipe_over s) = base s"
  by (rule ext) (simp add: look_over over_wipe base_wipe)

lemma base_visible: "over s (key v) = None \<Longrightarrow> look (put_base v s) (key v) = Some v"
  by (simp add: look_over over_put_base base_put)

lemma frame_over: "k' \<noteq> k \<Longrightarrow> look (put_over k ov s) k' = look s k'"
  by (simp add: look_over over_put base_put_over split: option.split)

lemma frame_base: "k' \<noteq> key v \<Longrightarrow> look (put_base v s) k' = look s k'"
  by (simp add: look_over over_put_base base_put split: option.split)

end

end
