(* ===== verification/ScopeGates.thy ===== *)
theory ScopeGates
  imports ScopeGrammar Glob PyValue LayeredStore
begin

text \<open>
  The level-3 ceiling of a plugin, \<open>core/scope_management/gates.py\<close> and \<open>gate_overlay.py\<close>:
  the gate value and its three tests, the strict parser, and the registry with its two layers
  (manifest gates and database overrides).  The registry's lock makes every operation one step,
  so an operation is a function on the two maps.  The layering contract is the locale
  \<open>layered_store\<close>; the registry's operations interpret it.
\<close>

subsection \<open>The gate and its tests\<close>

record OperationGate =
  og_allow :: "string list"
  og_deny :: "string list"

definition default_operation_gate :: OperationGate where
  "default_operation_gate = \<lparr>og_allow = [''*''], og_deny = []\<rparr>"

definition og_permits :: "OperationGate \<Rightarrow> string \<Rightarrow> bool" where
  "og_permits g op =
     (if list_ex (fnmatchcase op) (og_deny g) then False
      else list_ex (fnmatchcase op) (og_allow g))"

record PluginGateSpec =
  gs_plugin_id :: string
  gs_core :: "string list"
  gs_access :: string
  gs_operations :: OperationGate
  gs_endpoints :: "string list"
  gs_owner :: string

definition permits_core :: "PluginGateSpec \<Rightarrow> string \<Rightarrow> bool" where
  "permits_core g t = (t \<in> (\<Union>u\<in>set (gs_core g). expand_implied u))"

definition permits_operation :: "PluginGateSpec \<Rightarrow> string \<Rightarrow> bool" where
  "permits_operation g op = og_permits (gs_operations g) op"

definition permits_endpoint :: "PluginGateSpec \<Rightarrow> string \<Rightarrow> bool" where
  "permits_endpoint g p =
     (if gs_endpoints g = [] then True else list_ex (fnmatchcase p) (gs_endpoints g))"

subsection \<open>The strict parser\<close>

datatype gate_error =
    PluginIdRequired
  | GateNotObject
  | GateUnknownKeys "string list"
  | BadAccess
  | BadStrList string
  | OperationsNotObject
  | OperationsUnknownKeys "string list"

definition nonempty_str :: "pyval \<Rightarrow> bool" where
  "nonempty_str v = (case v of PStr s \<Rightarrow> s \<noteq> [] | _ \<Rightarrow> False)"

definition opt_str_tuple :: "pydict \<Rightarrow> string \<Rightarrow> gate_error + string list" where
  "opt_str_tuple d key =
     (case dget_or key (PList []) d of
        PNone \<Rightarrow> Inr []
      | PList xs \<Rightarrow>
          (if list_all nonempty_str xs then Inr (map str_of xs) else Inl (BadStrList key))
      | _ \<Rightarrow> Inl (BadStrList key))"

definition parse_operations :: "pyval \<Rightarrow> gate_error + OperationGate" where
  "parse_operations v =
     (case v of
        PNone \<Rightarrow> Inr default_operation_gate
      | PDict d \<Rightarrow>
          rbind (ensure (unknown_keys [''allow'', ''deny''] d = [])
                   (OperationsUnknownKeys (unknown_keys [''allow'', ''deny''] d))) (\<lambda>_.
          rbind (opt_str_tuple d ''allow'') (\<lambda>allow.
          rbind (opt_str_tuple d ''deny'') (\<lambda>deny.
          Inr \<lparr>og_allow = (if allow = [] then [''*''] else allow), og_deny = deny\<rparr>)))
      | _ \<Rightarrow> Inl OperationsNotObject)"

definition gate_keys :: "string list" where
  "gate_keys = [''core'', ''access'', ''operations'', ''endpoints'']"

definition gate_access :: "pydict \<Rightarrow> gate_error + string" where
  "gate_access d =
     (case dget_or ''access'' (PStr ''read'') d of
        PStr s \<Rightarrow> (if strip s \<in> {''read'', ''write''} then Inr (strip s) else Inl BadAccess)
      | _ \<Rightarrow> Inl BadAccess)"

definition gate_core_token :: "string \<Rightarrow> string \<Rightarrow> string" where
  "gate_core_token acc tok = (if CHR '':'' \<in> set tok then tok else core_token tok acc)"

definition parse_gate_spec :: "string \<Rightarrow> pyval \<Rightarrow> string \<Rightarrow> gate_error + PluginGateSpec" where
  "parse_gate_spec plugin_id data owner =
     (if plugin_id = [] then Inl PluginIdRequired
      else case data of
        PDict d \<Rightarrow>
          rbind (ensure (unknown_keys gate_keys d = []) (GateUnknownKeys (unknown_keys gate_keys d))) (\<lambda>_.
          rbind (gate_access d) (\<lambda>acc.
          rbind (opt_str_tuple d ''core'') (\<lambda>core.
          rbind (parse_operations (dget_none ''operations'' d)) (\<lambda>ops.
          rbind (opt_str_tuple d ''endpoints'') (\<lambda>eps.
          Inr \<lparr>gs_plugin_id = plugin_id, gs_core = map (gate_core_token acc) core,
               gs_access = acc, gs_operations = ops, gs_endpoints = eps, gs_owner = owner\<rparr>)))))
      | _ \<Rightarrow> Inl GateNotObject)"

subsection \<open>The registry: manifest gates under database overrides\<close>

record gate_registry =
  manifest_gates :: "(string \<times> PluginGateSpec) list"
  db_override :: "(string \<times> PluginGateSpec) list"

definition empty_gate_registry :: gate_registry where
  "empty_gate_registry = \<lparr>manifest_gates = [], db_override = []\<rparr>"

definition register_manifest_gate :: "PluginGateSpec \<Rightarrow> gate_registry \<Rightarrow> gate_registry" where
  "register_manifest_gate g r = r\<lparr>manifest_gates := dset (gs_plugin_id g) g (manifest_gates r)\<rparr>"

definition unregister_manifest_gate :: "string \<Rightarrow> gate_registry \<Rightarrow> gate_registry" where
  "unregister_manifest_gate p r = r\<lparr>manifest_gates := dpop p (manifest_gates r)\<rparr>"

definition set_db_override :: "string \<Rightarrow> PluginGateSpec option \<Rightarrow> gate_registry \<Rightarrow> gate_registry" where
  "set_db_override p spec r =
     (case spec of None \<Rightarrow> r\<lparr>db_override := dpop p (db_override r)\<rparr>
      | Some g \<Rightarrow> r\<lparr>db_override := dset p g (db_override r)\<rparr>)"

definition clear_db_overrides :: "gate_registry \<Rightarrow> gate_registry" where
  "clear_db_overrides r = r\<lparr>db_override := []\<rparr>"

definition get_gate :: "gate_registry \<Rightarrow> string \<Rightarrow> PluginGateSpec option" where
  "get_gate r p =
     (case map_of (db_override r) p of Some g \<Rightarrow> Some g | None \<Rightarrow> map_of (manifest_gates r) p)"

definition all_gated_plugin_ids :: "gate_registry \<Rightarrow> string list" where
  "all_gated_plugin_ids r =
     sort (remdups (map fst (manifest_gates r) @ map fst (db_override r)))"

text \<open>
  \<open>apply_db_overrides\<close> rebuilds the override layer from the stored rows (\<open>None\<close>: reading the
  store raised, the registry is left alone) and counts the rows that parsed.
\<close>

fun apply_rows :: "(string \<times> pyval) list \<Rightarrow> gate_registry \<Rightarrow> nat \<Rightarrow> nat \<times> gate_registry" where
  "apply_rows [] r n = (n, r)"
| "apply_rows ((p, v) # rows) r n =
     (case parse_gate_spec p v ''db'' of
        Inl _ \<Rightarrow> apply_rows rows r n
      | Inr g \<Rightarrow> apply_rows rows (set_db_override (gs_plugin_id g) (Some g) r) (n + 1))"

definition apply_db_overrides ::
    "(string \<times> pyval) list option \<Rightarrow> gate_registry \<Rightarrow> nat \<times> gate_registry" where
  "apply_db_overrides stored r =
     (case stored of None \<Rightarrow> (0, r) | Some rows \<Rightarrow> apply_rows rows (clear_db_overrides r) 0)"

subsection \<open>The layering contract\<close>

interpretation gate_store: layered_store
  "\<lambda>r. map_of (manifest_gates r)" "\<lambda>r. map_of (db_override r)" get_gate gs_plugin_id
  register_manifest_gate set_db_override clear_db_overrides
  by unfold_locales
    (simp_all add: get_gate_def register_manifest_gate_def set_db_override_def clear_db_overrides_def
      split: option.splits)

lemma get_gate_empty [simp]: "get_gate empty_gate_registry p = None"
  by (simp add: get_gate_def empty_gate_registry_def)

lemma apply_rows_manifest: "manifest_gates (snd (apply_rows rows r n)) = manifest_gates r"
  by (induction rows r n rule: apply_rows.induct) (simp_all add: set_db_override_def split: sum.splits)

lemma parse_gate_spec_owner:
  "parse_gate_spec p v w = Inr g \<Longrightarrow> gs_plugin_id g = p \<and> gs_owner g = w"
  by (auto simp: parse_gate_spec_def result_simps split: if_splits pyval.splits)

lemma apply_rows_over:
  "map_of (db_override (snd (apply_rows rows r n))) p = Some g \<Longrightarrow>
     map_of (db_override r) p = Some g \<or> (\<exists>v. (p, v) \<in> set rows \<and> parse_gate_spec p v ''db'' = Inr g)"
proof (induction rows r n rule: apply_rows.induct)
  case (1 r n)
  then show ?case by simp
next
  case (2 q v rows r n)
  show ?case
  proof (cases "parse_gate_spec q v ''db''")
    case (Inl e)
    with 2 show ?thesis by auto
  next
    case (Inr h)
    from parse_gate_spec_owner [OF Inr] have q: "gs_plugin_id h = q" by simp
    from 2 Inr have "map_of (db_override (set_db_override q (Some h) r)) p = Some g \<or>
        (\<exists>v. (p, v) \<in> set rows \<and> parse_gate_spec p v ''db'' = Inr g)" by (simp add: q)
    then show ?thesis using Inr by (auto simp: set_db_override_def split: if_splits)
  qed
qed

subsection \<open>Properties of the gates\<close>

text \<open>
  Deny wins in an operation gate: an operation matching a deny pattern is never permitted,
  whatever the allow list; with no deny pattern matching, the allow list decides, and the default
  gate permits every operation.
\<close>

theorem operation_gate_decides:
  "permits_operation g op \<longleftrightarrow>
     (\<forall>pat\<in>set (og_deny (gs_operations g)). \<not> fnmatchcase op pat) \<and>
     (\<exists>pat\<in>set (og_allow (gs_operations g)). fnmatchcase op pat)"
  by (auto simp: permits_operation_def og_permits_def list_ex_iff)

theorem operation_gate_decides_witness:
  "\<not> permits_operation \<lparr>gs_plugin_id = ''jules'', gs_core = [], gs_access = ''read'',
       gs_operations = \<lparr>og_allow = [''*''], og_deny = [''delete_*'']\<rparr>, gs_endpoints = [], gs_owner = []\<rparr>
     ''delete_source''"
proof -
  have "fnmatchcase ''delete_source'' ''delete_*''" by code_simp
  then show ?thesis by (simp add: operation_gate_decides)
qed

text \<open>
  The gate parser is fail-closed.  A spec is accepted only when it is an object with known
  keys and a known access level; the accepted gate carries the plugin id it was parsed for, its
  core entries are colon tokens or bare domains completed with the declared access, and its
  operation allow list is never empty.
\<close>

theorem parse_gate_spec_sound:
  assumes "parse_gate_spec p v w = Inr g"
  shows "p \<noteq> [] \<and> gs_plugin_id g = p \<and> gs_access g \<in> {''read'', ''write''}
    \<and> (\<exists>d. v = PDict d \<and> fst ` set d \<subseteq> set gate_keys)
    \<and> (\<forall>t\<in>set (gs_core g). CHR '':'' \<in> set t) \<and> og_allow (gs_operations g) \<noteq> []"
proof -
  from assms obtain d acc core ops eps where d: "v = PDict d" "p \<noteq> []"
    and k: "unknown_keys gate_keys d = []" and a: "gate_access d = Inr acc"
    and o: "parse_operations (dget_none ''operations'' d) = Inr ops"
    and g: "g = \<lparr>gs_plugin_id = p, gs_core = map (gate_core_token acc) core, gs_access = acc,
               gs_operations = ops, gs_endpoints = eps, gs_owner = w\<rparr>"
    by (auto simp: parse_gate_spec_def result_simps split: if_splits pyval.splits)
  have "acc \<in> {''read'', ''write''}"
    using a by (auto simp: gate_access_def split: pyval.splits if_splits)
  moreover have "og_allow ops \<noteq> []"
    using o by (auto simp: parse_operations_def result_simps default_operation_gate_def
        split: pyval.splits if_splits)
  moreover have "CHR '':'' \<in> set (gate_core_token acc t)" for t
    by (simp add: gate_core_token_def core_token_def)
  ultimately show ?thesis using d g k by (auto simp: unknown_keys_Nil)
qed

theorem parse_gate_spec_sound_witness:
  "parse_gate_spec ''jules'' (PDict [(''core'', PList [PStr ''graph'', PStr ''core:config:read''])]) ''m'' =
     Inr \<lparr>gs_plugin_id = ''jules'', gs_core = [''core:graph:read'', ''core:config:read''],
          gs_access = ''read'', gs_operations = default_operation_gate, gs_endpoints = [],
          gs_owner = ''m''\<rparr>
   \<and> og_allow default_operation_gate \<noteq> []"
proof -
  let ?g = "\<lparr>gs_plugin_id = ''jules'', gs_core = [''core:graph:read'', ''core:config:read''],
          gs_access = ''read'', gs_operations = default_operation_gate, gs_endpoints = [],
          gs_owner = ''m''\<rparr>"
  have e: "parse_gate_spec ''jules'' (PDict [(''core'', PList [PStr ''graph'', PStr ''core:config:read''])]) ''m''
     = Inr ?g" by code_simp
  from parse_gate_spec_sound [OF e] e show ?thesis by simp
qed

text \<open>
  Overrides replace, never merge.  After the stored rows are applied, a plugin's effective
  gate is a gate parsed from one of its stored rows or, without one, its manifest gate unchanged;
  a failed read of the store leaves every effective gate as it was.
\<close>

theorem apply_db_overrides_effective:
  "(case get_gate (snd (apply_db_overrides (Some rows) r)) p of
      None \<Rightarrow> map_of (manifest_gates r) p = None
    | Some g \<Rightarrow> (\<exists>v. (p, v) \<in> set rows \<and> parse_gate_spec p v ''db'' = Inr g)
               \<or> map_of (manifest_gates r) p = Some g)
   \<and> snd (apply_db_overrides None r) = r"
proof -
  let ?r = "snd (apply_rows rows (clear_db_overrides r) 0)"
  have m: "manifest_gates ?r = manifest_gates r"
    by (simp add: apply_rows_manifest clear_db_overrides_def)
  have "(\<exists>v. (p, v) \<in> set rows \<and> parse_gate_spec p v ''db'' = Inr g)"
    if "map_of (db_override ?r) p = Some g" for g
    using apply_rows_over [OF that] by (simp add: clear_db_overrides_def)
  then show ?thesis
    by (auto simp: apply_db_overrides_def gate_store.look_over m split: option.splits)
qed

end
