(* ===== verification/ScopeRules.thy ===== *)
theory ScopeRules
  imports ScopeGates
begin

text \<open>
  The access decision: \<open>principal.py\<close>, \<open>request.py\<close>, \<open>policy.py\<close>, \<open>requirements.py\<close>,
  \<open>vocabulary.py\<close>, \<open>legacy_map.py\<close>, \<open>rules.py\<close> and \<open>manager.py\<close> of
  \<open>core/scope_management\<close>.  A rule is a function of the environment (policy configuration,
  transport probe, gate registry), the grant, the required tokens and the request, with \<open>None\<close>
  for "not decisive"; \<open>evaluate\<close> runs the ordered chain and overlays the enforcement mode.
  Sets of tokens are sets of strings; warnings are not modelled.  \<open>required_scopes_for_route\<close> uses the built-in
  requirement providers: the resolver accepts more, but nothing in the repository registers one.
\<close>

subsection \<open>Principals, grants, decisions, requests\<close>

datatype PrincipalKind = LOCAL_CLI | SESSION_USER | API_KEY | OAUTH_CLIENT | ANONYMOUS

record ScopeGrant =
  scopes :: "string list option"
  sg_role :: "string option"
  sg_kind :: PrincipalKind

record AccessDecision =
  allowed :: bool
  reason :: string
  required :: "string set"

definition decide :: "bool \<Rightarrow> string \<Rightarrow> string set \<Rightarrow> AccessDecision" where
  "decide b r req = \<lparr>allowed = b, reason = r, required = req\<rparr>"

datatype AccessClass = ACCESS_READ | ACCESS_WRITE | ACCESS_ADMIN

definition access_value :: "AccessClass \<Rightarrow> string" where
  "access_value a = (case a of ACCESS_READ \<Rightarrow> ''read'' | ACCESS_WRITE \<Rightarrow> ''write'' | ACCESS_ADMIN \<Rightarrow> ''admin'')"

record AccessRequest =
  rq_plugin_id :: string
  rq_operation_id :: string
  rq_tags :: "string list"
  rq_access :: "AccessClass option"
  rq_core_domain :: string
  rq_tool_name :: string
  rq_http_path :: string
  rq_path :: string

text \<open>\<open>__post_init__\<close>: the operation id and the tool name stand in for each other.\<close>

definition post_init :: "AccessRequest \<Rightarrow> AccessRequest" where
  "post_init r =
     (if rq_operation_id r \<noteq> [] \<and> rq_tool_name r = [] then r\<lparr>rq_tool_name := rq_operation_id r\<rparr>
      else if rq_tool_name r \<noteq> [] \<and> rq_operation_id r = [] then r\<lparr>rq_operation_id := rq_tool_name r\<rparr>
      else r)"

definition blank_request :: AccessRequest where
  "blank_request = \<lparr>rq_plugin_id = [], rq_operation_id = [], rq_tags = [], rq_access = None,
     rq_core_domain = [], rq_tool_name = [], rq_http_path = [], rq_path = []\<rparr>"

subsection \<open>Enforcement policy\<close>

text \<open>
  \<open>env_off\<close> is the environment variable \<open>SCOPE_ENFORCEMENT_OFF\<close> (empty when unset),
  \<open>cfg_mode\<close> the constant \<open>SCOPE_ENFORCEMENT_MODE\<close>, \<open>sec_mode\<close> the entry of the security
  configuration used when the constant is \<open>None\<close>, \<open>cfg_enabled\<close> the boolean switch.
\<close>

record policy_env =
  env_off :: string
  cfg_mode :: "string option"
  sec_mode :: "string option"
  cfg_enabled :: bool

datatype enforcement_mode = MODE_ENFORCE | MODE_AUDIT | MODE_OFF

definition env_off_set :: "policy_env \<Rightarrow> bool" where
  "env_off_set e = (lower (strip (env_off e)) \<in> {''1'', ''true'', ''yes''})"

definition raw_mode :: "policy_env \<Rightarrow> enforcement_mode" where
  "raw_mode e =
     (let m = (case cfg_mode e of Some s \<Rightarrow> s
               | None \<Rightarrow> (case sec_mode e of Some s \<Rightarrow> s | None \<Rightarrow> ''enforce''));
          m' = lower (strip (if m = [] then ''enforce'' else m)) in
      if m' = ''audit'' then MODE_AUDIT else if m' = ''off'' then MODE_OFF else MODE_ENFORCE)"

definition scope_enforcement_enabled :: "policy_env \<Rightarrow> bool" where
  "scope_enforcement_enabled e =
     (if raw_mode e = MODE_OFF then \<not> env_off_set e
      else if env_off_set e then False
      else cfg_enabled e)"

definition get_enforcement_mode :: "policy_env \<Rightarrow> enforcement_mode" where
  "get_enforcement_mode e =
     (if raw_mode e = MODE_OFF then (if env_off_set e then MODE_OFF else MODE_ENFORCE)
      else raw_mode e)"

definition apply_mode :: "policy_env \<Rightarrow> AccessDecision \<Rightarrow> AccessDecision" where
  "apply_mode e d =
     (case get_enforcement_mode e of
        MODE_OFF \<Rightarrow> (if allowed d then d else decide True ''bypass_enforcement_off'' (required d))
      | MODE_AUDIT \<Rightarrow> (if allowed d then d else decide True ''audit_allow'' (required d))
      | MODE_ENFORCE \<Rightarrow> d)"

subsection \<open>Requirement providers\<close>

type_synonym provider = "AccessRequest \<Rightarrow> string set"

definition plugin_provider :: provider where
  "plugin_provider r =
     (if rq_plugin_id r = [] then {}
      else {plugin_token (rq_plugin_id r)}
        \<union> (case rq_access r of None \<Rightarrow> {}
           | Some a \<Rightarrow> {plugin_access_token (rq_plugin_id r) (access_value a)})
        \<union> set (map (group_token (rq_plugin_id r)) (rq_tags r)))"

definition operation_provider :: provider where
  "operation_provider r =
     (if rq_plugin_id r = [] \<or> rq_operation_id r = [] then {}
      else {op_token (rq_plugin_id r) (rq_operation_id r)})"

definition core_access :: "AccessRequest \<Rightarrow> string" where
  "core_access r = (case rq_access r of None \<Rightarrow> ''read'' | Some a \<Rightarrow> access_value a)"

definition core_domain_provider :: provider where
  "core_domain_provider r =
     (if rq_core_domain r = [] then {} else {core_token (rq_core_domain r) (core_access r)})"

definition default_providers :: "provider list" where
  "default_providers = [core_domain_provider, plugin_provider, operation_provider]"

definition resolve_requirements :: "provider list \<Rightarrow> AccessRequest \<Rightarrow> string set" where
  "resolve_requirements ps r = (\<Union>p\<in>set ps. p r)"

definition register_provider :: "provider \<Rightarrow> provider list \<Rightarrow> provider list" where
  "register_provider p ps = ps @ [p]"

definition required_scopes_for_route :: "string \<Rightarrow> string list \<Rightarrow> string set" where
  "required_scopes_for_route plugin_id tags =
     (if plugin_id = [] then {}
      else resolve_requirements default_providers
             (post_init (blank_request\<lparr>rq_plugin_id := plugin_id, rq_tags := tags\<rparr>)))"

subsection \<open>Legacy tokens\<close>

definition legacy_scope_map :: "(string \<times> string) list" where
  "legacy_scope_map =
     [(''terminal:use'', ''core:terminal:write''), (''terminal:host'', ''core:terminal:read''),
      (''whiskers_agent'', ''core:graph:write''), (''whiskers'', ''core:graph:write''),
      (''opencat'', ''core:graph:write''), (''sandbox:exec'', ''core:terminal.sandbox:write'')]"

definition is_unchanged_token :: "string \<Rightarrow> bool" where
  "is_unchanged_token t =
     (if t \<in> set [''admin'', ''all'', ''*''] then True
      else list_ex (\<lambda>p. starts_with p t) [''plugin:'', ''group:'', ''op:'', ''core:''])"

definition map_legacy_token :: "string \<Rightarrow> string option" where
  "map_legacy_token t = (if is_unchanged_token t then Some t else map_of legacy_scope_map t)"

fun map_legacy_into :: "string list \<Rightarrow> string list \<Rightarrow> string list" where
  "map_legacy_into [] out = out"
| "map_legacy_into (t # ts) out =
     (case map_legacy_token t of
        None \<Rightarrow> map_legacy_into ts out
      | Some m \<Rightarrow> map_legacy_into ts (if m \<in> set out then out else out @ [m]))"

definition map_legacy_tokens :: "string list \<Rightarrow> string list" where
  "map_legacy_tokens ts = map_legacy_into ts []"

definition expand_legacy_alias_for_read :: "string \<Rightarrow> string set" where
  "expand_legacy_alias_for_read t =
     {t} \<union> set_option (map_of legacy_scope_map t)
       \<union> set (map fst (filter (\<lambda>(_, new). new = t) legacy_scope_map))"

subsection \<open>The rules\<close>

text \<open>\<open>stdio\<close> is the answer of \<open>is_local_stdio\<close>; \<open>None\<close> when the probe raised.\<close>

record scope_env =
  policy :: policy_env
  stdio :: "bool option"
  gates :: gate_registry

type_synonym rule =
  "scope_env \<Rightarrow> ScopeGrant \<Rightarrow> string set \<Rightarrow> AccessRequest option \<Rightarrow> AccessDecision option"

definition rule_enforcement_off :: rule where
  "rule_enforcement_off env g req r =
     (if \<not> scope_enforcement_enabled (policy env)
      then Some (decide True ''bypass_enforcement_off'' req) else None)"

definition rule_unrestricted_none :: rule where
  "rule_unrestricted_none env g req r =
     (if scopes g \<noteq> None then None
      else if sg_kind g = LOCAL_CLI then Some (decide True ''bypass_unrestricted'' req)
      else if stdio env = Some True then Some (decide True ''bypass_unrestricted'' req)
      else None)"

definition rule_admin_bypass :: rule where
  "rule_admin_bypass env g req r =
     (case scopes g of Some ss \<Rightarrow> (if ''admin'' \<in> set ss then Some (decide True ''bypass_admin'' req) else None)
      | None \<Rightarrow> None)"

definition rule_all_wildcard :: rule where
  "rule_all_wildcard env g req r =
     (case scopes g of None \<Rightarrow> None
      | Some ss \<Rightarrow> (if ''all'' \<in> set ss \<or> ''*'' \<in> set ss then Some (decide True ''bypass_all'' req) else None))"

definition rule_plugin_gate_ceiling :: rule where
  "rule_plugin_gate_ceiling env g req r =
     (case r of None \<Rightarrow> None
      | Some q \<Rightarrow>
          (if rq_plugin_id q = [] then None
           else case get_gate (gates env) (rq_plugin_id q) of None \<Rightarrow> None
           | Some gate \<Rightarrow>
               (if rq_operation_id q \<noteq> [] \<and> \<not> permits_operation gate (rq_operation_id q)
                then Some (decide False ''deny_gate_operation'' req)
                else if rq_core_domain q \<noteq> []
                        \<and> \<not> permits_core gate (core_token (rq_core_domain q) (core_access q))
                then Some (decide False ''deny_gate_core'' req)
                else if rq_http_path q \<noteq> [] \<and> \<not> permits_endpoint gate (rq_http_path q)
                then Some (decide False ''deny_gate_endpoint'' req)
                else None)))"

definition rule_empty_required :: rule where
  "rule_empty_required env g req r =
     (if req \<noteq> {} then None
      else if scopes g = None then Some (decide True ''allow_empty_required'' req)
      else Some (decide False ''deny_no_plugin_scope'' req))"

definition covers_required :: "string set \<Rightarrow> string \<Rightarrow> bool" where
  "covers_required held t =
     (let p = parse_scope t in
      case kind p of
        CORE \<Rightarrow> (\<exists>h\<in>held. case ps_access p of
                   Some a \<Rightarrow> grant_covers_core h (id_or_domain p) a | None \<Rightarrow> False)
      | GROUP \<Rightarrow> (\<exists>h\<in>held. plugin_grant_covers h (id_or_domain p) (tag_or_op p) [])
      | OP \<Rightarrow> (\<exists>h\<in>held. plugin_grant_covers h (id_or_domain p) [] (tag_or_op p))
      | _ \<Rightarrow> False)"

definition held_tokens :: "string list \<Rightarrow> string set" where
  "held_tokens ss = set ss \<union> (\<Union>t\<in>set ss. expand_legacy_alias_for_read t)"

definition rule_tag_intersection :: rule where
  "rule_tag_intersection env g req r =
     (case scopes g of None \<Rightarrow> None
      | Some ss \<Rightarrow>
          (let held = held_tokens ss;
               expanded = (\<Union>t\<in>held. expand_implied t) in
           if req \<inter> expanded \<noteq> {} then Some (decide True ''intersection'' req)
           else if \<exists>t\<in>req. covers_required held t then Some (decide True ''intersection'' req)
           else Some (decide False ''deny_intersection'' req)))"

definition rule_deny_anonymous :: rule where
  "rule_deny_anonymous env g req r =
     (if sg_kind g = ANONYMOUS then Some (decide False ''deny_anonymous'' req) else None)"

definition default_rules :: "rule list" where
  "default_rules = [rule_enforcement_off, rule_unrestricted_none, rule_admin_bypass, rule_all_wildcard,
     rule_plugin_gate_ceiling, rule_deny_anonymous, rule_empty_required, rule_tag_intersection]"

subsection \<open>The manager\<close>

fun first_decisive :: "('q \<Rightarrow> 'd option) list \<Rightarrow> 'q \<Rightarrow> 'd option" where
  "first_decisive [] q = None"
| "first_decisive (f # fs) q = (case f q of Some d \<Rightarrow> Some d | None \<Rightarrow> first_decisive fs q)"

definition register_rule :: "rule \<Rightarrow> rule list \<Rightarrow> rule list" where
  "register_rule rl rules = rules @ [rl]"

definition build_request :: "string \<Rightarrow> string list \<Rightarrow> string \<Rightarrow> string \<Rightarrow> AccessRequest" where
  "build_request plugin_id tags tool_name pth =
     post_init (blank_request\<lparr>rq_plugin_id := plugin_id, rq_tags := tags, rq_tool_name := tool_name,
       rq_path := pth\<rparr>)"

definition evaluate ::
    "rule list \<Rightarrow> scope_env \<Rightarrow> ScopeGrant \<Rightarrow> string set option \<Rightarrow> AccessRequest \<Rightarrow> AccessDecision" where
  "evaluate rules env g required_opt r =
     (let req = (case required_opt of None \<Rightarrow> required_scopes_for_route (rq_plugin_id r) (rq_tags r)
                 | Some s \<Rightarrow> s) in
      case first_decisive (map (\<lambda>rl q. rl env g req q) rules) (Some r) of
        Some d \<Rightarrow> apply_mode (policy env) d
      | None \<Rightarrow> apply_mode (policy env) (decide False ''deny_default'' req))"

subsection \<open>The chain contract\<close>

text \<open>
  A chain that always contains a decisive rule on a class of queries decides every such query
  itself: rules registered behind it are never consulted there.
\<close>

locale total_chain =
  fixes rules :: "('q \<Rightarrow> 'd option) list"
    and covered :: "'q \<Rightarrow> bool"
  assumes decisive: "covered q \<Longrightarrow> \<exists>f\<in>set rules. f q \<noteq> None"
begin

lemma decides: "covered q \<Longrightarrow> \<exists>d. first_decisive rules q = Some d"
proof -
  assume "covered q"
  then have "\<exists>f\<in>set rules. f q \<noteq> None" by (rule decisive)
  then show ?thesis by (induction rules) (auto split: option.splits)
qed

lemma extension: "covered q \<Longrightarrow> first_decisive (rules @ extra) q = first_decisive rules q"
proof -
  assume "covered q"
  then have "\<exists>f\<in>set rules. f q \<noteq> None" by (rule decisive)
  then show ?thesis by (induction rules) (auto split: option.splits)
qed

end

lemmas rule_defs = rule_enforcement_off_def rule_unrestricted_none_def rule_admin_bypass_def
  rule_all_wildcard_def rule_empty_required_def rule_tag_intersection_def rule_deny_anonymous_def

subsection \<open>The decision of the built-in chain\<close>

definition bypass_scopes :: "string list \<Rightarrow> bool" where
  "bypass_scopes ss = (''admin'' \<in> set ss \<or> ''all'' \<in> set ss \<or> ''*'' \<in> set ss)"

definition satisfies :: "string list \<Rightarrow> string set \<Rightarrow> bool" where
  "satisfies ss req =
     (\<exists>t\<in>req. t \<in> (\<Union>u\<in>held_tokens ss. expand_implied u) \<or> covers_required (held_tokens ss) t)"

definition effective_required :: "string set option \<Rightarrow> AccessRequest \<Rightarrow> string set" where
  "effective_required ro r =
     (case ro of None \<Rightarrow> required_scopes_for_route (rq_plugin_id r) (rq_tags r) | Some s \<Rightarrow> s)"

definition gate_denies :: "scope_env \<Rightarrow> AccessRequest \<Rightarrow> bool" where
  "gate_denies env r =
     (rq_plugin_id r \<noteq> [] \<and>
      (case get_gate (gates env) (rq_plugin_id r) of None \<Rightarrow> False
       | Some gate \<Rightarrow>
           rq_operation_id r \<noteq> [] \<and> \<not> permits_operation gate (rq_operation_id r)
         \<or> rq_core_domain r \<noteq> [] \<and> \<not> permits_core gate (core_token (rq_core_domain r) (core_access r))
         \<or> rq_http_path r \<noteq> [] \<and> \<not> permits_endpoint gate (rq_http_path r)))"

lemma gate_rule_None: "rule_plugin_gate_ceiling env g req (Some r) = None \<longleftrightarrow> \<not> gate_denies env r"
  by (auto simp: rule_plugin_gate_ceiling_def gate_denies_def split: option.splits)

lemma gate_rule_Some:
  "rule_plugin_gate_ceiling env g req (Some r) = Some d \<Longrightarrow> \<not> allowed d \<and> required d = req"
  by (auto simp: rule_plugin_gate_ceiling_def decide_def split: option.splits if_splits)

lemma decide_sel [simp]: "allowed (decide b r q) = b" "reason (decide b r q) = r" "required (decide b r q) = q"
  by (simp_all add: decide_def)

lemma apply_mode_enforce: "get_enforcement_mode e = MODE_ENFORCE \<Longrightarrow> apply_mode e d = d"
  by (simp add: apply_mode_def)

lemma tag_rule:
  "scopes g = Some ss \<Longrightarrow>
     rule_tag_intersection env g req r =
       Some (decide (satisfies ss req) (if satisfies ss req then ''intersection'' else ''deny_intersection'') req)"
  by (auto simp: rule_tag_intersection_def satisfies_def Let_def)

interpretation builtin_chain: total_chain "map (\<lambda>rl q. rl env g req q) default_rules"
    "\<lambda>q. scopes g \<noteq> None" for env g req
  by unfold_locales (auto simp: default_rules_def tag_rule)

lemma satisfies_empty [simp]: "\<not> satisfies ss {}"
  by (simp add: satisfies_def)

lemma chain_scoped:
  assumes "scope_enforcement_enabled (policy env)" "scopes g = Some ss"
  shows "\<exists>d. first_decisive (map (\<lambda>rl q. rl env g req q) default_rules) (Some r) = Some d \<and>
     required d = req \<and>
     (allowed d \<longleftrightarrow> bypass_scopes ss \<or> \<not> gate_denies env r \<and> sg_kind g \<noteq> ANONYMOUS \<and> satisfies ss req)"
proof (cases "rule_plugin_gate_ceiling env g req (Some r)")
  case None
  from gate_rule_None [of env g req r] None have "\<not> gate_denies env r" by blast
  with None assms show ?thesis
    by (auto simp: default_rules_def rule_enforcement_off_def rule_unrestricted_none_def
        rule_admin_bypass_def rule_all_wildcard_def rule_empty_required_def rule_deny_anonymous_def
        tag_rule bypass_scopes_def)
next
  case (Some d)
  then have "gate_denies env r" using gate_rule_None [of env g req r] by auto
  with Some gate_rule_Some [OF Some] assms show ?thesis
    by (auto simp: default_rules_def rule_enforcement_off_def rule_unrestricted_none_def
        rule_admin_bypass_def rule_all_wildcard_def bypass_scopes_def)
qed

lemma evaluate_scoped:
  assumes "scope_enforcement_enabled (policy env)" "get_enforcement_mode (policy env) = MODE_ENFORCE"
    and "scopes g = Some ss"
  shows "allowed (evaluate default_rules env g ro r) \<longleftrightarrow>
     bypass_scopes ss \<or> \<not> gate_denies env r \<and> sg_kind g \<noteq> ANONYMOUS \<and> satisfies ss (effective_required ro r)"
proof -
  from chain_scoped [OF assms(1,3), of "effective_required ro r" r] obtain d where
    "first_decisive (map (\<lambda>rl q. rl env g (effective_required ro r) q) default_rules) (Some r) = Some d"
    "allowed d \<longleftrightarrow> bypass_scopes ss \<or> \<not> gate_denies env r \<and> sg_kind g \<noteq> ANONYMOUS
       \<and> satisfies ss (effective_required ro r)" by blast
  then show ?thesis
    using assms(2) by (simp add: evaluate_def Let_def effective_required_def apply_mode_enforce)
qed

lemma held_tokens_mono: "set ss \<subseteq> set ts \<Longrightarrow> held_tokens ss \<subseteq> held_tokens ts"
  by (auto simp: held_tokens_def)

lemma covers_required_mono: "H \<subseteq> K \<Longrightarrow> covers_required H t \<Longrightarrow> covers_required K t"
  by (auto simp: covers_required_def Let_def split: scope_kind.splits option.splits)

lemma satisfies_mono: "set ss \<subseteq> set ts \<Longrightarrow> satisfies ss req \<Longrightarrow> satisfies ts req"
  using held_tokens_mono [of ss ts] covers_required_mono [of "held_tokens ss" "held_tokens ts"]
  unfolding satisfies_def by blast

subsection \<open>Sample environment and grants for the witnesses\<close>

definition enforcing :: policy_env where
  "enforcing = \<lparr>env_off = [], cfg_mode = Some ''enforce'', sec_mode = None, cfg_enabled = True\<rparr>"

definition plain_env :: scope_env where
  "plain_env = \<lparr>policy = enforcing, stdio = Some False, gates = empty_gate_registry\<rparr>"

definition jules_gate :: PluginGateSpec where
  "jules_gate = \<lparr>gs_plugin_id = ''jules_plugin'', gs_core = [], gs_access = ''read'',
     gs_operations = \<lparr>og_allow = [''*''], og_deny = [''delete_source'']\<rparr>, gs_endpoints = [], gs_owner = []\<rparr>"

definition gated_env :: scope_env where
  "gated_env = plain_env\<lparr>gates := register_manifest_gate jules_gate empty_gate_registry\<rparr>"

definition key_grant :: "string list \<Rightarrow> ScopeGrant" where
  "key_grant ss = \<lparr>scopes = Some ss, sg_role = None, sg_kind = API_KEY\<rparr>"

lemma enforcing_facts [simp]:
  "scope_enforcement_enabled enforcing" "get_enforcement_mode enforcing = MODE_ENFORCE"
  by code_simp+

lemma plain_env_sel [simp]: "policy plain_env = enforcing" "policy gated_env = enforcing"
  by (simp_all add: plain_env_def gated_env_def)

lemma key_grant_sel [simp]: "scopes (key_grant ss) = Some ss" "sg_kind (key_grant ss) = API_KEY"
  by (simp_all add: key_grant_def)

subsection \<open>Properties of the access decision\<close>

text \<open>
  C1: The access decision, complete.  With enforcement on, a grant that carries scopes is allowed
  exactly when it holds a bypass sentinel, or no gate of the requested plugin denies the request,
  the principal is not anonymous, and some required token is met by a held token (its legacy
  alias, its implied closure, or grammar coverage); everything else is denied.
\<close>

theorem evaluate_allow_iff:
  assumes "scope_enforcement_enabled (policy env)" and "get_enforcement_mode (policy env) = MODE_ENFORCE"
    and "scopes g = Some ss"
  shows "allowed (evaluate default_rules env g ro r) \<longleftrightarrow>
     bypass_scopes ss \<or>
     (\<not> gate_denies env r \<and> sg_kind g \<noteq> ANONYMOUS \<and> satisfies ss (effective_required ro r))"
  using evaluate_scoped [OF assms] by blast

theorem evaluate_allow_iff_witness:
  "allowed (evaluate default_rules plain_env (key_grant [''core:whiskers:write''])
       (Some {''core:whiskers.proxy:write''}) blank_request)
   \<and> \<not> allowed (evaluate default_rules plain_env (key_grant [''core:whiskers.console:read''])
       (Some {''core:whiskers.analytics:read''}) blank_request)"
proof -
  have s: "satisfies [''core:whiskers:write''] {''core:whiskers.proxy:write''}"
    "\<not> satisfies [''core:whiskers.console:read''] {''core:whiskers.analytics:read''}"
    "\<not> bypass_scopes [''core:whiskers.console:read'']" "\<not> gate_denies plain_env blank_request"
    by code_simp+
  show ?thesis
    using s evaluate_allow_iff [of plain_env "key_grant [''core:whiskers:write'']"]
      evaluate_allow_iff [of plain_env "key_grant [''core:whiskers.console:read'']"]
    by (simp add: effective_required_def)
qed

text \<open>
  More scopes never lose access.  Under enforcement, whatever a grant is allowed it is still
  allowed after its scope list grows, for the same principal kind, request and environment.
\<close>

theorem evaluate_monotone:
  assumes "scope_enforcement_enabled (policy env)" and "get_enforcement_mode (policy env) = MODE_ENFORCE"
    and "scopes g = Some ss" and "scopes h = Some ts" and "sg_kind g = sg_kind h"
    and "set ss \<subseteq> set ts" and "allowed (evaluate default_rules env g ro r)"
  shows "allowed (evaluate default_rules env h ro r)"
  using assms satisfies_mono [OF assms(6), of "effective_required ro r"]
  by (auto simp: evaluate_scoped [OF assms(1,2,3)] evaluate_scoped [OF assms(1,2,4)] bypass_scopes_def)

theorem evaluate_monotone_witness:
  "allowed (evaluate default_rules plain_env (key_grant [''op:jules_plugin:foo'', ''core:graph:read''])
       (Some {''op:jules_plugin:foo''}) blank_request)"
proof -
  have "satisfies [''op:jules_plugin:foo''] {''op:jules_plugin:foo''}"
    "\<not> gate_denies plain_env blank_request" by code_simp+
  then have a: "allowed (evaluate default_rules plain_env (key_grant [''op:jules_plugin:foo''])
       (Some {''op:jules_plugin:foo''}) blank_request)"
    by (simp add: evaluate_scoped effective_required_def)
  have sub: "set [''op:jules_plugin:foo''] \<subseteq> set [''op:jules_plugin:foo'', ''core:graph:read'']"
    by simp
  show ?thesis
    by (rule evaluate_monotone [OF _ _ key_grant_sel(1) key_grant_sel(1) _ sub a]) simp_all
qed

text \<open>
  C2: The plugin gate is a ceiling.  A request that names an operation its plugin's effective gate
  does not permit is denied with the gate's reason for every scoped principal without a bypass
  sentinel, whatever plugin, group or operation tokens it holds; holding \<open>admin\<close> passes the gate.
\<close>

theorem gate_is_ceiling:
  assumes "scope_enforcement_enabled (policy env)" and "get_enforcement_mode (policy env) = MODE_ENFORCE"
    and "scopes g = Some ss" and "rq_plugin_id r \<noteq> []" and "rq_operation_id r \<noteq> []"
    and "get_gate (gates env) (rq_plugin_id r) = Some gate"
    and "\<not> permits_operation gate (rq_operation_id r)"
  shows "(if bypass_scopes ss then allowed (evaluate default_rules env g ro r)
     else evaluate default_rules env g ro r = decide False ''deny_gate_operation'' (effective_required ro r))"
proof -
  have "rule_plugin_gate_ceiling env g q (Some r) = Some (decide False ''deny_gate_operation'' q)" for q
    using assms(4-7) by (simp add: rule_plugin_gate_ceiling_def)
  then show ?thesis
    using assms(1-3)
    by (auto simp: evaluate_def Let_def effective_required_def default_rules_def bypass_scopes_def
        rule_enforcement_off_def rule_unrestricted_none_def rule_admin_bypass_def rule_all_wildcard_def
        apply_mode_enforce split: option.splits)
qed

theorem gate_is_ceiling_witness:
  "reason (evaluate default_rules gated_env (key_grant [''plugin:jules_plugin''])
     (Some {''plugin:jules_plugin''})
     (blank_request\<lparr>rq_plugin_id := ''jules_plugin'', rq_operation_id := ''delete_source''\<rparr>))
   = ''deny_gate_operation''"
proof -
  let ?r = "blank_request\<lparr>rq_plugin_id := ''jules_plugin'', rq_operation_id := ''delete_source''\<rparr>"
  have "get_gate (gates gated_env) (rq_plugin_id ?r) = Some jules_gate"
    "\<not> permits_operation jules_gate (rq_operation_id ?r)"
    "\<not> bypass_scopes [''plugin:jules_plugin'']" by code_simp+
  with gate_is_ceiling [of gated_env "key_grant [''plugin:jules_plugin'']" _ ?r jules_gate
      "Some {''plugin:jules_plugin''}"]
  show ?thesis by (simp add: blank_request_def)
qed

lemma legacy_map_cases:
  "map_of legacy_scope_map t = Some u \<Longrightarrow> kind (parse_scope t) = INVALID"
proof -
  assume "map_of legacy_scope_map t = Some u"
  then have "t \<in> set (map fst legacy_scope_map)" by (force dest: map_of_SomeD)
  moreover have "list_all (\<lambda>t. kind (parse_scope t) = INVALID) (map fst legacy_scope_map)" by code_simp
  ultimately show ?thesis by (auto simp: list_all_iff)
qed

lemma legacy_alias_kinds:
  assumes "u \<in> expand_legacy_alias_for_read t" "kind (parse_scope t) \<noteq> INVALID" "u \<noteq> t"
  shows "kind (parse_scope u) = INVALID"
proof -
  have "map_of legacy_scope_map t = None" using legacy_map_cases assms(2) by fastforce
  with assms(1,3) have "u \<in> set (map fst legacy_scope_map)"
    by (auto simp: expand_legacy_alias_for_read_def)
  moreover have "list_all (\<lambda>t. kind (parse_scope t) = INVALID) (map fst legacy_scope_map)" by code_simp
  ultimately show ?thesis by (auto simp: list_all_iff)
qed

definition core_read :: "string \<Rightarrow> bool" where
  "core_read t = (kind (parse_scope t) = CORE \<and> ps_access (parse_scope t) = Some Read)"

definition core_write :: "string \<Rightarrow> bool" where
  "core_write t = (kind (parse_scope t) = CORE \<and> ps_access (parse_scope t) = Some Write)"

lemma core_read_held:
  assumes "\<forall>t\<in>set ss. core_read t" "u \<in> held_tokens ss"
  shows "core_read u \<or> kind (parse_scope u) = INVALID"
proof -
  from assms(2) obtain t where t: "t \<in> set ss" "u = t \<or> u \<in> expand_legacy_alias_for_read t"
    by (auto simp: held_tokens_def)
  show ?thesis using legacy_alias_kinds [of u t] t assms(1) by (auto simp: core_read_def)
qed

lemma expand_low: "core_read u \<or> kind (parse_scope u) = INVALID \<Longrightarrow> expand_implied u = {u}"
  by (auto simp: core_read_def expand_implied_def Let_def)

text \<open>
  C3: Read grants never write.  A grant whose every token is a \<open>core:...:read\<close> token is denied any
  request that requires only \<open>core:...:write\<close> tokens: neither the implied closure, the domain
  hierarchy nor a legacy alias turns a read token into a write one.
\<close>

theorem read_never_writes:
  assumes "scope_enforcement_enabled (policy env)" and "get_enforcement_mode (policy env) = MODE_ENFORCE"
    and "scopes g = Some ss" and "\<forall>t\<in>set ss. core_read t" and "\<forall>t\<in>req. core_write t"
  shows "\<not> allowed (evaluate default_rules env g (Some req) r)"
proof -
  have "kind (parse_scope ''admin'') = SENTINEL" "kind (parse_scope ''all'') = SENTINEL"
    "kind (parse_scope ''*'') = SENTINEL" by code_simp+
  then have "\<not> bypass_scopes ss" using assms(4) by (auto simp: bypass_scopes_def core_read_def)
  moreover have "\<not> satisfies ss req"
  proof
    assume "satisfies ss req"
    then obtain t where t: "t \<in> req" "t \<in> (\<Union>u\<in>held_tokens ss. expand_implied u)
        \<or> covers_required (held_tokens ss) t" by (auto simp: satisfies_def)
    then have w: "core_write t" using assms(5) by blast
    have low: "core_read u \<or> kind (parse_scope u) = INVALID" if "u \<in> held_tokens ss" for u
      using core_read_held [OF assms(4) that] .
    from t(2) show False
    proof
      assume "t \<in> (\<Union>u\<in>held_tokens ss. expand_implied u)"
      then have "t \<in> held_tokens ss" using low expand_low by force
      from low [OF this] w show False by (simp add: core_read_def core_write_def)
    next
      assume "covers_required (held_tokens ss) t"
      then obtain h where "h \<in> held_tokens ss" "grant_covers_core h (id_or_domain (parse_scope t)) Write"
        using w by (auto simp: covers_required_def core_write_def Let_def)
      with low [of h] show False
        by (auto simp: grant_covers_core_iff core_read_def less_eq_access_def)
    qed
  qed
  ultimately show ?thesis
    by (simp add: evaluate_scoped [OF assms(1-3)] effective_required_def)
qed

theorem read_never_writes_witness:
  "\<not> allowed (evaluate default_rules plain_env (key_grant [''core:config:read'', ''core:terminal:read''])
     (Some {''core:config:write''}) blank_request)"
proof -
  have "core_read ''core:config:read''" "core_read ''core:terminal:read''" "core_write ''core:config:write''"
    by code_simp+
  then show ?thesis
    using read_never_writes [of plain_env "key_grant [''core:config:read'', ''core:terminal:read'']"]
    by simp
qed

text \<open>
  Rules registered behind the built-in ones cannot change the decision on a grant that carries
  scopes: the built-in chain always decides it, so an extension is consulted for unrestricted
  grants only.
\<close>

theorem registered_rules_last:
  assumes "scopes g \<noteq> None"
  shows "evaluate (default_rules @ extra) env g ro r = evaluate default_rules env g ro r"
proof -
  have "first_decisive (map (\<lambda>rl q. rl env g req q) (default_rules @ extra)) (Some r) =
      first_decisive (map (\<lambda>rl q. rl env g req q) default_rules) (Some r)" for req
    using builtin_chain.extension [of g env req "map (\<lambda>rl q. rl env g req q) extra" "Some r"] assms
    by simp
  then show ?thesis by (simp add: evaluate_def Let_def)
qed

theorem registered_rules_last_witness:
  "\<not> allowed (evaluate (default_rules @ [\<lambda>env g req r. Some (decide True ''custom'' req)]) plain_env
     (key_grant []) None blank_request)"
proof -
  have "\<not> allowed (evaluate default_rules plain_env (key_grant []) None blank_request)"
    by (simp add: evaluate_scoped effective_required_def bypass_scopes_def required_scopes_for_route_def
        blank_request_def)
  then show ?thesis by (simp add: registered_rules_last)
qed

text \<open>
  Enforcement modes.  The mode \<open>off\<close> takes effect only with both keys (configured mode and
  environment variable); under \<open>audit\<close> and \<open>off\<close> the overlaid decision always allows, and a
  decision is denied after the overlay exactly when the rules denied it and the mode is \<open>enforce\<close>;
  the overlay never touches an allow or the required set.
\<close>

theorem enforcement_modes:
  "(get_enforcement_mode e = MODE_OFF \<longleftrightarrow> raw_mode e = MODE_OFF \<and> env_off_set e)
   \<and> (allowed (apply_mode e d) \<longleftrightarrow> allowed d \<or> get_enforcement_mode e \<noteq> MODE_ENFORCE)
   \<and> (allowed d \<longrightarrow> apply_mode e d = d)
   \<and> required (apply_mode e d) = required d"
  by (auto simp: get_enforcement_mode_def apply_mode_def split: enforcement_mode.splits)

theorem enforcement_modes_witness:
  "apply_mode (enforcing\<lparr>cfg_mode := Some ''off''\<rparr>) (decide True ''intersection'' {}) = decide True ''intersection'' {}
   \<and> get_enforcement_mode (enforcing\<lparr>cfg_mode := Some ''off''\<rparr>) = MODE_ENFORCE"
proof -
  have "apply_mode (enforcing\<lparr>cfg_mode := Some ''off''\<rparr>) (decide True ''intersection'' {})
      = decide True ''intersection'' {}"
    using enforcement_modes [of "enforcing\<lparr>cfg_mode := Some ''off''\<rparr>" "decide True ''intersection'' {}"]
    by simp
  moreover have "get_enforcement_mode (enforcing\<lparr>cfg_mode := Some ''off''\<rparr>) = MODE_ENFORCE" by code_simp
  ultimately show ?thesis by simp
qed

text \<open>
  Unscoped network principals and the empty requirement.  A non-anonymous principal without
  scopes (\<open>scopes=None\<close>) that is neither the local CLI nor on local stdio is allowed exactly when
  the required set is empty and no gate denies, although the rule's comment reserves this allowance
  for the CLI.
\<close>

theorem unscoped_principal_decision:
  assumes "scope_enforcement_enabled (policy env)" and "get_enforcement_mode (policy env) = MODE_ENFORCE"
    and "scopes g = None" and "sg_kind g \<noteq> LOCAL_CLI" and "sg_kind g \<noteq> ANONYMOUS" and "stdio env \<noteq> Some True"
  shows "allowed (evaluate default_rules env g ro r) \<longleftrightarrow> \<not> gate_denies env r \<and> effective_required ro r = {}"
proof (cases "rule_plugin_gate_ceiling env g (effective_required ro r) (Some r)")
  case None
  from gate_rule_None [of env g "effective_required ro r" r] None have "\<not> gate_denies env r" by blast
  with None assms show ?thesis
    by (auto simp: evaluate_def Let_def effective_required_def default_rules_def rule_defs
        apply_mode_enforce split: option.splits)
next
  case (Some d)
  then have "gate_denies env r" using gate_rule_None [of env g "effective_required ro r" r] by auto
  with Some gate_rule_Some [OF Some] assms show ?thesis
    by (auto simp: evaluate_def Let_def effective_required_def default_rules_def rule_defs
        apply_mode_enforce split: option.splits)
qed

theorem unscoped_principal_decision_witness:
  "allowed (evaluate default_rules plain_env \<lparr>scopes = None, sg_role = None, sg_kind = API_KEY\<rparr> None
     (build_request [] [] ''unknown_tool'' ''direct_tool''))"
proof -
  let ?r = "build_request [] [] ''unknown_tool'' ''direct_tool''"
  have "effective_required None ?r = {}" "\<not> gate_denies plain_env ?r" "stdio plain_env \<noteq> Some True"
    by code_simp+
  then show ?thesis
    by (subst unscoped_principal_decision) simp_all
qed

lemma map_legacy_into_inv:
  "distinct out \<Longrightarrow> \<forall>t\<in>set out. is_unchanged_token t \<Longrightarrow>
     distinct (map_legacy_into ts out) \<and> (\<forall>t\<in>set (map_legacy_into ts out). is_unchanged_token t)"
proof (induction ts out rule: map_legacy_into.induct)
  case (1 out)
  then show ?case by simp
next
  case (2 t ts out)
  have leg: "is_unchanged_token u" if "map_of legacy_scope_map t = Some u" for u
  proof -
    from that have "u \<in> set (map snd legacy_scope_map)" by (force dest: map_of_SomeD)
    moreover have "list_all is_unchanged_token (map snd legacy_scope_map)" by code_simp
    ultimately show ?thesis by (auto simp: list_all_iff)
  qed
  show ?case
  proof (cases "map_legacy_token t")
    case None
    with 2 show ?thesis by simp
  next
    case (Some m)
    with leg have "is_unchanged_token m" by (auto simp: map_legacy_token_def split: if_splits)
    then have "distinct (if m \<in> set out then out else out @ [m])"
      "\<forall>t\<in>set (if m \<in> set out then out else out @ [m]). is_unchanged_token t"
      using "2.prems" by auto
    from "2.IH"(2) [OF Some this] Some show ?thesis by simp
  qed
qed

lemma map_legacy_into_fixed:
  "distinct (out @ ts) \<Longrightarrow> \<forall>t\<in>set ts. is_unchanged_token t \<Longrightarrow> map_legacy_into ts out = out @ ts"
  by (induction ts arbitrary: out) (auto simp: map_legacy_token_def)

text \<open>
  Legacy tokens.  Reading accepts a legacy token and its grammar token for each other (the
  alias relation is reflexive and symmetric), and migrating a list of tokens leaves no duplicate,
  only tokens the migration keeps, and nothing for a second migration to do.
\<close>

theorem legacy_tokens_consistent:
  "(u \<in> expand_legacy_alias_for_read t \<longleftrightarrow> t \<in> expand_legacy_alias_for_read u)
   \<and> t \<in> expand_legacy_alias_for_read t
   \<and> distinct (map_legacy_tokens ts)
   \<and> map_legacy_tokens (map_legacy_tokens ts) = map_legacy_tokens ts"
proof -
  have d: "distinct (map fst legacy_scope_map)" by code_simp
  have "u \<in> expand_legacy_alias_for_read t \<longleftrightarrow>
      u = t \<or> (t, u) \<in> set legacy_scope_map \<or> (u, t) \<in> set legacy_scope_map" for u t
  proof -
    have "u \<in> set_option (map_of legacy_scope_map t) \<longleftrightarrow> (t, u) \<in> set legacy_scope_map"
      using map_of_eq_Some_iff [OF d, of t u] by (cases "map_of legacy_scope_map t") auto
    moreover have "u \<in> set (map fst (filter (\<lambda>(_, new). new = t) m)) \<longleftrightarrow> (u, t) \<in> set m"
      for m :: "(string \<times> string) list" by (induction m) auto
    ultimately show ?thesis unfolding expand_legacy_alias_for_read_def by blast
  qed
  note rel = this
  have m: "distinct (map_legacy_tokens ts)" "\<forall>t\<in>set (map_legacy_tokens ts). is_unchanged_token t"
    using map_legacy_into_inv [of "[]" ts] unfolding map_legacy_tokens_def by simp_all
  have "map_legacy_into (map_legacy_tokens ts) [] = [] @ map_legacy_tokens ts"
    by (rule map_legacy_into_fixed) (use m in simp_all)
  then have "map_legacy_tokens (map_legacy_tokens ts) = map_legacy_tokens ts"
    by (simp only: map_legacy_tokens_def [of "map_legacy_tokens ts"] append_Nil)
  moreover have "u \<in> expand_legacy_alias_for_read t \<longleftrightarrow> t \<in> expand_legacy_alias_for_read u"
    unfolding rel by blast
  moreover have "t \<in> expand_legacy_alias_for_read t"
    by (simp add: expand_legacy_alias_for_read_def)
  ultimately show ?thesis using m(1) by (intro conjI)
qed

end
