(* ===== verification/ScopeContracts.thy ===== *)
theory ScopeContracts
  imports ScopeRules
begin

text \<open>
  The golden matrix of \<open>core/scope_management/contracts.py\<close>: the rows C01 to C12 drive
  \<open>evaluate\<close> through a plugin, its tags and a tool name, the rows C13 to C20 through a request, an
  explicit required set and a plugin gate, as the contract test runs them.  The properties say
  that the model of the decision gives the expected verdict on every row.
\<close>

datatype verdict = ALLOW | DENY

record access_contract =
  ac_id :: string
  ac_kind :: PrincipalKind
  ac_role :: "string option"
  ac_scopes :: "string list option"
  ac_plugin_id :: string
  ac_tags :: "string list"
  ac_tool_name :: string
  ac_path :: string
  ac_expected :: verdict

definition path_row ::
    "string \<Rightarrow> PrincipalKind \<Rightarrow> string option \<Rightarrow> string list option \<Rightarrow> string \<Rightarrow> string list \<Rightarrow> string
     \<Rightarrow> string \<Rightarrow> verdict \<Rightarrow> access_contract" where
  "path_row i k role ss plugin tags tool pth e =
     \<lparr>ac_id = i, ac_kind = k, ac_role = role, ac_scopes = ss, ac_plugin_id = plugin, ac_tags = tags,
      ac_tool_name = tool, ac_path = pth, ac_expected = e\<rparr>"

definition access_path_contracts :: "access_contract list" where
  "access_path_contracts =
     [path_row ''C01'' SESSION_USER (Some ''master'') (Some [''admin''])
        ''fake_plugin'' [''read''] ''list_records'' ''direct_tool'' ALLOW,
      path_row ''C02'' SESSION_USER (Some ''viewer'') (Some [''group:fake_plugin:read''])
        ''fake_plugin'' [''write''] ''create_record'' ''direct_tool'' DENY,
      path_row ''C03'' API_KEY None (Some [''all''])
        ''jules_plugin'' [''sessions''] ''julescreate_session'' ''direct_tool'' ALLOW,
      path_row ''C04'' API_KEY None (Some [''opencat''])
        ''proxy_notion'' [''proxy''] ''proxy_notion_search'' ''direct_tool'' DENY,
      path_row ''C05'' API_KEY None (Some [])
        ''fake_plugin'' [''read''] ''list_records'' ''direct_tool'' DENY,
      path_row ''C06'' OAUTH_CLIENT (Some ''operator'') (Some [''plugin:fake_plugin'', ''group:fake_plugin:read''])
        ''fake_plugin'' [''read''] ''list_records'' ''direct_tool'' ALLOW,
      path_row ''C07'' ANONYMOUS None (Some [])
        ''fake_plugin'' [''read''] ''list_records'' ''direct_tool'' DENY,
      path_row ''C08'' LOCAL_CLI None None
        ''fake_plugin'' [''write''] ''create_record'' ''graph_step'' ALLOW,
      path_row ''C09'' API_KEY None (Some [''plugin:fake_plugin''])
        [] [] ''unknown_tool'' ''direct_tool'' DENY,
      path_row ''C10'' SESSION_USER (Some ''viewer'') (Some [''group:fake_plugin:read''])
        ''fake_plugin'' [''write''] ''create_record'' ''direct_tool'' DENY,
      path_row ''C11'' SESSION_USER (Some ''master'') (Some [''admin''])
        ''fake_plugin'' [''read''] ''list_records'' ''direct_tool'' ALLOW,
      path_row ''C12'' API_KEY None (Some [''plugin:fake_plugin''])
        ''cat_terminal_relay_plugin'' [''terminal''] ''exec_command'' ''direct_tool'' DENY]"

text \<open>
  A row of the second matrix: the grant's scopes (the kind is \<open>API_KEY\<close> and the role absent in
  every row), the plugin and tags, the request's extra fields, the required set, and the raw gate
  specs registered as the manifest layer and the override layer.
\<close>

record gate_contract =
  gc_id :: string
  gc_scopes :: "string list"
  gc_plugin_id :: string
  gc_tags :: "string list"
  gc_operation_id :: string
  gc_core_domain :: string
  gc_required :: "string list"
  gc_gate :: "pyval option"
  gc_override :: "pyval option"
  gc_expected :: verdict

definition gate_row ::
    "string \<Rightarrow> string list \<Rightarrow> string \<Rightarrow> string list \<Rightarrow> string \<Rightarrow> string \<Rightarrow> string list \<Rightarrow> pyval option
     \<Rightarrow> pyval option \<Rightarrow> verdict \<Rightarrow> gate_contract" where
  "gate_row i ss plugin tags opid dm req gate ov e =
     \<lparr>gc_id = i, gc_scopes = ss, gc_plugin_id = plugin, gc_tags = tags, gc_operation_id = opid,
      gc_core_domain = dm, gc_required = req, gc_gate = gate, gc_override = ov, gc_expected = e\<rparr>"

definition gate_and_grammar_contracts :: "gate_contract list" where
  "gate_and_grammar_contracts =
     [gate_row ''C13'' [''group:portfolio_plugin:ask'', ''core:graph:read''] ''portfolio_plugin'' [''ask'']
        ''run_graph'' ''graph'' [''core:graph:read'']
        (Some (PDict [(''core'', PList [PStr ''core:graph:read''])])) None ALLOW,
      gate_row ''C14'' [''core:config:read''] [] [] [] [] [''core:config:write''] None None DENY,
      gate_row ''C15'' [''core:whiskers.console:read''] [] [] [] [] [''core:whiskers.analytics:read'']
        None None DENY,
      gate_row ''C16'' [''core:whiskers:write''] [] [] [] [] [''core:whiskers.proxy:write''] None None ALLOW,
      gate_row ''C17'' [''plugin:fake_plugin:read''] ''fake_plugin'' [] [] [] [''plugin:fake_plugin:write'']
        None None DENY,
      gate_row ''C18'' [''op:jules_plugin:foo''] ''jules_plugin'' [] [] [] [''op:jules_plugin:foo'']
        None None ALLOW,
      gate_row ''C19'' [''plugin:jules_plugin''] ''jules_plugin'' [] ''delete_source'' [] [''plugin:jules_plugin'']
        (Some (PDict [(''operations'', PDict [(''allow'', PList [PStr ''*'']),
                                              (''deny'', PList [PStr ''delete_source''])])])) None DENY,
      gate_row ''C20'' [''plugin:jules_plugin'', ''core:graph:read''] ''jules_plugin'' [] [] ''graph''
        [''core:graph:read'']
        (Some (PDict [(''core'', PList [])])) (Some (PDict [(''core'', PList [PStr ''core:graph:read''])])) ALLOW]"

definition verdict_of :: "AccessDecision \<Rightarrow> verdict" where
  "verdict_of d = (if allowed d then ALLOW else DENY)"

definition run_path_contract :: "scope_env \<Rightarrow> access_contract \<Rightarrow> verdict" where
  "run_path_contract env c =
     verdict_of (evaluate default_rules env
       \<lparr>scopes = ac_scopes c, sg_role = ac_role c, sg_kind = ac_kind c\<rparr> None
       (build_request (ac_plugin_id c) (ac_tags c) (ac_tool_name c) (ac_path c)))"

definition contract_gates :: "gate_contract \<Rightarrow> gate_error + gate_registry" where
  "contract_gates c =
     (case gc_gate c of None \<Rightarrow> Inr empty_gate_registry
      | Some spec \<Rightarrow> rbind (parse_gate_spec (gc_plugin_id c) spec []) (\<lambda>g.
          let reg = register_manifest_gate g empty_gate_registry in
          (case gc_override c of None \<Rightarrow> Inr reg
           | Some ov \<Rightarrow> rbind (parse_gate_spec (gc_plugin_id c) ov ''db'')
                          (\<lambda>o'. Inr (set_db_override (gc_plugin_id c) (Some o') reg)))))"

definition run_gate_contract :: "policy_env \<Rightarrow> bool option \<Rightarrow> gate_contract \<Rightarrow> gate_error + verdict" where
  "run_gate_contract pol io c =
     rbind (contract_gates c) (\<lambda>reg.
       Inr (verdict_of (evaluate default_rules \<lparr>policy = pol, stdio = io, gates = reg\<rparr>
         \<lparr>scopes = Some (gc_scopes c), sg_role = None, sg_kind = API_KEY\<rparr> (Some (set (gc_required c)))
         (post_init (blank_request\<lparr>rq_plugin_id := gc_plugin_id c, rq_tags := gc_tags c,
            rq_operation_id := gc_operation_id c, rq_core_domain := gc_core_domain c\<rparr>)))))"

subsection \<open>Evaluation of the rows\<close>

definition scoped_verdict :: "access_contract \<Rightarrow> bool" where
  "scoped_verdict c =
     (case ac_scopes c of None \<Rightarrow> ac_kind c = LOCAL_CLI \<and> ac_expected c = ALLOW
      | Some ss \<Rightarrow> (bypass_scopes ss \<or> ac_kind c \<noteq> ANONYMOUS
            \<and> satisfies ss (required_scopes_for_route (ac_plugin_id c) (ac_tags c))) = (ac_expected c = ALLOW))"

lemma path_rows_scoped: "list_all scoped_verdict access_path_contracts"
  by code_simp

lemma build_request_sel [simp]:
  "rq_plugin_id (build_request p ts tool pth) = p" "rq_tags (build_request p ts tool pth) = ts"
  by (simp_all add: build_request_def post_init_def blank_request_def)

lemma gate_rows_check:
  "list_all (\<lambda>c. run_gate_contract enforcing (Some False) c = Inr (gc_expected c)) gate_and_grammar_contracts"
  by code_simp

lemma run_path_scoped_verdict:
  assumes "scope_enforcement_enabled (policy env)" "get_enforcement_mode (policy env) = MODE_ENFORCE"
    and "get_gate (gates env) (ac_plugin_id c) = None" and "scoped_verdict c"
  shows "run_path_contract env c = ac_expected c"
proof (cases "ac_scopes c")
  case None
  with assms show ?thesis
    by (simp add: run_path_contract_def verdict_of_def scoped_verdict_def evaluate_def Let_def default_rules_def
        rule_enforcement_off_def rule_unrestricted_none_def apply_mode_enforce)
next
  case (Some ss)
  let ?r = "build_request (ac_plugin_id c) (ac_tags c) (ac_tool_name c) (ac_path c)"
  have "\<not> gate_denies env ?r" using assms(3) by (simp add: gate_denies_def)
  with assms Some show ?thesis
    by (cases "ac_expected c")
      (simp_all add: run_path_contract_def verdict_of_def scoped_verdict_def evaluate_scoped
        effective_required_def)
qed

subsection \<open>The matrix holds\<close>

text \<open>
  The golden matrix.  In every environment that enforces scopes and gates none of the rows'
  plugins, whatever the transport probe answers, each of the twelve access-path rows gets the
  verdict the matrix expects.
\<close>

theorem access_path_matrix:
  assumes "scope_enforcement_enabled (policy env)" and "get_enforcement_mode (policy env) = MODE_ENFORCE"
    and "\<forall>c\<in>set access_path_contracts. get_gate (gates env) (ac_plugin_id c) = None"
  shows "\<forall>c\<in>set access_path_contracts. run_path_contract env c = ac_expected c"
  using path_rows_scoped run_path_scoped_verdict [OF assms(1,2)] assms(3) by (simp add: list_all_iff)

theorem access_path_matrix_witness:
  "map (run_path_contract plain_env) access_path_contracts
   = [ALLOW, DENY, ALLOW, DENY, DENY, ALLOW, DENY, ALLOW, DENY, DENY, ALLOW, DENY]"
proof -
  have g: "get_gate (gates plain_env) p = None" for p
    by (simp add: plain_env_def empty_gate_registry_def get_gate_def)
  have "\<forall>c\<in>set access_path_contracts. run_path_contract plain_env c = ac_expected c"
    by (rule access_path_matrix) (simp_all add: g)
  then have "map (run_path_contract plain_env) access_path_contracts = map ac_expected access_path_contracts"
    by simp
  also have "\<dots> = [ALLOW, DENY, ALLOW, DENY, DENY, ALLOW, DENY, ALLOW, DENY, DENY, ALLOW, DENY]"
    by code_simp
  finally show ?thesis .
qed

text \<open>
  The gate and grammar matrix: with the row's gate and override parsed from their raw specs and
  registered, each of the eight rows gets the verdict the matrix expects.
\<close>

theorem gate_and_grammar_matrix:
  "map (run_gate_contract enforcing (Some False)) gate_and_grammar_contracts
   = map (Inr \<circ> gc_expected) gate_and_grammar_contracts"
  using gate_rows_check by (simp add: list_all_iff)

end
