(* ===== verification/ScopeRegistry.thy ===== *)
theory ScopeRegistry
  imports ScopeGrammar PyValue
begin

text \<open>
  The registry of declared permissions, \<open>core/scope_management/registration.py\<close>, and the valid
  vocabulary of \<open>vocabulary.py\<close>.  The state is the per-plugin list of permissions and the set
  of plugin ids on the synthesised floor; the lock makes every operation one step, so operations
  are state functions and a run is a sequence of \<open>reg_step\<close>s.  The description and access
  metadata are kept as the values the manifest holds.
\<close>

record ScopePermission =
  sp_token :: string
  sp_description :: pyval
  sp_access :: pyval

datatype scope_item = RawItem pyval | PermItem ScopePermission

definition or_else :: "pyval \<Rightarrow> pyval \<Rightarrow> pyval" where
  "or_else v w = (if truthy v then v else w)"

fun normalize_scope_entries :: "scope_item list \<Rightarrow> ScopePermission list" where
  "normalize_scope_entries [] = []"
| "normalize_scope_entries (PermItem p # items) = p # normalize_scope_entries items"
| "normalize_scope_entries (RawItem v # items) =
     (case v of
        PStr s \<Rightarrow> \<lparr>sp_token = s, sp_description = PStr [], sp_access = PNone\<rparr> # normalize_scope_entries items
      | PDict d \<Rightarrow>
          (case dget_none ''token'' d of
             PStr t \<Rightarrow>
               (if t \<noteq> [] then
                  \<lparr>sp_token = t, sp_description = or_else (dget_none ''description'' d) (PStr []),
                   sp_access = or_else (dget_none ''access'' d) PNone\<rparr> # normalize_scope_entries items
                else normalize_scope_entries items)
           | _ \<Rightarrow> normalize_scope_entries items)
      | _ \<Rightarrow> normalize_scope_entries items)"

definition reserved_core_plugin_id :: string where
  "reserved_core_plugin_id = ''core''"

definition validate_scope_token :: "string \<Rightarrow> string \<Rightarrow> bool" where
  "validate_scope_token plugin_id t =
     (if plugin_id = [] \<or> t = [] then False
      else if starts_with ''core:'' t then plugin_id = reserved_core_plugin_id
      else if plugin_id = reserved_core_plugin_id then False
      else (case match_plugin t of Some (i, _) \<Rightarrow> i = plugin_id
      | None \<Rightarrow> (case match_tagged ''group'' t of Some (i, g) \<Rightarrow> i = plugin_id \<and> g \<noteq> []
      | None \<Rightarrow> (case match_tagged ''op'' t of Some (i, g) \<Rightarrow> i = plugin_id \<and> g \<noteq> []
      | None \<Rightarrow> False))))"

record perm_registry =
  permissions :: "(string \<times> ScopePermission list) list"
  synthetic :: "string set"

definition empty_perm_registry :: perm_registry where
  "empty_perm_registry = \<lparr>permissions = [], synthetic = {}\<rparr>"

definition get_plugin_permissions :: "perm_registry \<Rightarrow> string \<Rightarrow> ScopePermission list" where
  "get_plugin_permissions r p =
     (if p = [] then [] else case map_of (permissions r) p of None \<Rightarrow> [] | Some es \<Rightarrow> es)"

fun merge_entries :: "ScopePermission list \<Rightarrow> ScopePermission list \<Rightarrow> ScopePermission list" where
  "merge_entries existing [] = existing"
| "merge_entries existing (e # es) =
     merge_entries (if sp_token e \<in> sp_token ` set existing then existing else existing @ [e]) es"

definition register_plugin_permissions ::
    "string \<Rightarrow> scope_item list \<Rightarrow> bool \<Rightarrow> perm_registry \<Rightarrow> ScopePermission list \<times> perm_registry" where
  "register_plugin_permissions p entries replace r =
     (if p = [] then ([], r)
      else (let valid = filter (\<lambda>e. validate_scope_token p (sp_token e)) (normalize_scope_entries entries);
                stored = (if replace then valid else merge_entries (get_plugin_permissions r p) valid) in
            (stored, r\<lparr>permissions := dset p stored (permissions r)\<rparr>)))"

definition unregister_plugin_permissions :: "string option \<Rightarrow> perm_registry \<Rightarrow> perm_registry" where
  "unregister_plugin_permissions po r =
     (case po of
        Some p \<Rightarrow>
          (if p \<noteq> [] then r\<lparr>permissions := dpop p (permissions r), synthetic := synthetic r - {p}\<rparr>
           else \<lparr>permissions =
                   (case map_of (permissions r) reserved_core_plugin_id of
                      Some (e # es) \<Rightarrow> [(reserved_core_plugin_id, e # es)] | _ \<Rightarrow> []),
                 synthetic = {}\<rparr>)
      | None \<Rightarrow> \<lparr>permissions =
                   (case map_of (permissions r) reserved_core_plugin_id of
                      Some (e # es) \<Rightarrow> [(reserved_core_plugin_id, e # es)] | _ \<Rightarrow> []),
                 synthetic = {}\<rparr>)"

definition mark_synthetic :: "string \<Rightarrow> perm_registry \<Rightarrow> perm_registry" where
  "mark_synthetic p r = (if p = [] then r else r\<lparr>synthetic := insert p (synthetic r)\<rparr>)"

fun add_tokens :: "string list \<Rightarrow> ScopePermission list \<Rightarrow> string list" where
  "add_tokens tokens [] = tokens"
| "add_tokens tokens (e # es) =
     add_tokens (if sp_token e \<in> set tokens then tokens else tokens @ [sp_token e]) es"

definition all_tokens :: "perm_registry \<Rightarrow> string list" where
  "all_tokens r = foldl (\<lambda>ts (_, es). add_tokens ts es) [] (permissions r)"

definition get_valid_scopes :: "string list \<Rightarrow> perm_registry \<Rightarrow> string list" where
  "get_valid_scopes oauth_floor r = sort (remdups (oauth_floor @ all_tokens r))"

definition seed_core_scopes :: "scope_item list \<Rightarrow> perm_registry \<Rightarrow> perm_registry" where
  "seed_core_scopes defs r =
     (let entries = normalize_scope_entries defs in
      if entries \<noteq> []
      then snd (register_plugin_permissions reserved_core_plugin_id (map PermItem entries) True r)
      else r)"

inductive reg_step :: "perm_registry \<Rightarrow> perm_registry \<Rightarrow> bool" where
  register: "reg_step r (snd (register_plugin_permissions p entries replace r))"
| unregister: "reg_step r (unregister_plugin_permissions po r)"
| mark: "reg_step r (mark_synthetic p r)"

inductive reg_reachable :: "perm_registry \<Rightarrow> bool" where
  start: "reg_reachable (seed_core_scopes defs empty_perm_registry)"
| step: "reg_reachable r \<Longrightarrow> reg_step r r' \<Longrightarrow> reg_reachable r'"

inductive_cases reg_stepE: "reg_step r r'"

subsection \<open>Every stored token belongs to its owner\<close>

definition owned :: "perm_registry \<Rightarrow> bool" where
  "owned r \<longleftrightarrow> (\<forall>p es. map_of (permissions r) p = Some es \<longrightarrow>
     (\<forall>e\<in>set es. validate_scope_token p (sp_token e)))"

lemma merge_entries_set: "set existing \<subseteq> set (merge_entries existing es)
    \<and> set (merge_entries existing es) \<subseteq> set existing \<union> set es"
proof (induction existing es rule: merge_entries.induct)
  case (2 existing e es)
  then show ?case by (auto split: if_splits)
qed simp

lemma merge_entries_tokens:
  "sp_token ` set (merge_entries existing es) = sp_token ` set existing \<union> sp_token ` set es"
proof (induction existing es rule: merge_entries.induct)
  case (2 existing e es)
  show ?case
  proof (cases "sp_token e \<in> sp_token ` set existing")
    case True
    with 2 show ?thesis by auto
  next
    case False
    with 2 show ?thesis by simp
  qed
qed simp

lemma ownedD: "owned r \<Longrightarrow> map_of (permissions r) p = Some es \<Longrightarrow> e \<in> set es
    \<Longrightarrow> validate_scope_token p (sp_token e)"
  by (simp add: owned_def)

lemma owned_get:
  assumes "owned r" "e \<in> set (get_plugin_permissions r p)"
  shows "validate_scope_token p (sp_token e)"
  using assms ownedD [OF assms(1)]
  by (cases "map_of (permissions r) p") (auto simp: get_plugin_permissions_def split: if_splits)

lemma owned_register:
  assumes "owned r"
  shows "owned (snd (register_plugin_permissions p entries replace r))"
proof -
  define valid where "valid = filter (\<lambda>e. validate_scope_token p (sp_token e)) (normalize_scope_entries entries)"
  have new: "\<forall>e\<in>set valid. validate_scope_token p (sp_token e)" by (simp add: valid_def)
  have "\<forall>e\<in>set (merge_entries (get_plugin_permissions r p) valid). validate_scope_token p (sp_token e)"
  proof
    fix e assume "e \<in> set (merge_entries (get_plugin_permissions r p) valid)"
    then have "e \<in> set (get_plugin_permissions r p) \<or> e \<in> set valid"
      using merge_entries_set [of "get_plugin_permissions r p" valid] by blast
    then show "validate_scope_token p (sp_token e)" using owned_get [OF assms] new by blast
  qed
  with new assms show ?thesis
    unfolding register_plugin_permissions_def Let_def valid_def [symmetric] by (simp add: owned_def)
qed

lemma owned_unregister:
  assumes "owned r"
  shows "owned (unregister_plugin_permissions po r)"
proof -
  have core: "owned \<lparr>permissions = (case map_of (permissions r) c of Some (e # es) \<Rightarrow> [(c, e # es)] | _ \<Rightarrow> []),
      synthetic = {}\<rparr>" for c
  proof (cases "map_of (permissions r) c")
    case None
    then show ?thesis by (simp add: owned_def)
  next
    case (Some es)
    then have "\<forall>e\<in>set es. validate_scope_token c (sp_token e)" using ownedD [OF assms] by blast
    with Some show ?thesis by (cases es) (simp_all add: owned_def)
  qed
  have "owned (r\<lparr>permissions := dpop p (permissions r), synthetic := S\<rparr>)" for p S
    using assms by (auto simp: owned_def split: if_splits)
  with core show ?thesis by (cases po) (simp_all add: unregister_plugin_permissions_def)
qed

lemma owned_mark: "owned r \<Longrightarrow> owned (mark_synthetic p r)"
  by (simp add: owned_def mark_synthetic_def)

lemma owned_step: "reg_step r r' \<Longrightarrow> owned r \<Longrightarrow> owned r'"
  by (elim reg_stepE) (simp_all only: owned_register owned_unregister owned_mark)

lemma owned_reachable: "reg_reachable r \<Longrightarrow> owned r"
proof (induction rule: reg_reachable.induct)
  case (start defs)
  have "owned empty_perm_registry" by (simp add: owned_def empty_perm_registry_def)
  then show ?case by (simp add: seed_core_scopes_def Let_def owned_register)
qed (rule owned_step)

lemma parse_id_matches:
  assumes "validate_scope_token p t" "\<not> starts_with ''core:'' t"
  shows "id_or_domain (parse_scope t) = p \<and> kind (parse_scope t) \<in> {PLUGIN, GROUP, OP}"
proof -
  have "match_core t = None"
  proof (rule ccontr)
    assume "match_core t \<noteq> None"
    then obtain d a where "split_on CHR '':'' (drop_nl t) = [''core'', d, a]"
      by (auto simp: match_core_def split: list.splits if_splits)
    then have "drop_nl t = ''core:'' @ d @ '':'' @ a"
      using join_split [of "CHR '':''" "drop_nl t"] by simp
    then have "starts_with ''core:'' t"
      by (cases "t \<noteq> [] \<and> last t = nl")
        (auto simp: drop_nl_def starts_with_iff,
         metis append_Cons append_butlast_last_id append_Nil)
    with assms(2) show False by simp
  qed
  moreover have "t \<notin> set sentinels"
  proof -
    have "list_all (\<lambda>s. match_plugin s = None \<and> match_tagged ''group'' s = None
        \<and> match_tagged ''op'' s = None) sentinels" by code_simp
    then show ?thesis using assms
      by (auto simp: list_all_iff validate_scope_token_def split: if_splits)
  qed
  ultimately show ?thesis
    using assms by (auto simp: validate_scope_token_def parse_scope_def split: if_splits option.splits)
qed

lemma validate_core: "validate_scope_token p t \<Longrightarrow> starts_with ''core:'' t \<Longrightarrow> p = reserved_core_plugin_id"
  by (auto simp: validate_scope_token_def split: if_splits)

subsection \<open>The vocabulary\<close>

lemma add_tokens_props:
  "set (add_tokens ts es) = set ts \<union> sp_token ` set es \<and> (distinct ts \<longrightarrow> distinct (add_tokens ts es))"
  by (induction ts es rule: add_tokens.induct) auto

lemma foldl_add_tokens:
  "set (foldl (\<lambda>ts (_, es). add_tokens ts es) ts ps) = set ts \<union> (\<Union>(p, es)\<in>set ps. sp_token ` set es)
   \<and> (distinct ts \<longrightarrow> distinct (foldl (\<lambda>ts (_, es). add_tokens ts es) ts ps))"
  by (induction ps arbitrary: ts) (auto simp: add_tokens_props)

subsection \<open>Properties of the registry\<close>

text \<open>
  C32: No squatting.  In every registry reachable by registering, unregistering and marking, a
  stored \<open>core:\<close> token is stored under the reserved core id, and every other stored token parses to
  a plugin, group or operation token of exactly the plugin it is stored under.
\<close>

theorem registry_no_squatting:
  assumes "reg_reachable r" and "map_of (permissions r) p = Some es" and "e \<in> set es"
  shows "if starts_with ''core:'' (sp_token e) then p = reserved_core_plugin_id
     else id_or_domain (parse_scope (sp_token e)) = p
        \<and> kind (parse_scope (sp_token e)) \<in> {PLUGIN, GROUP, OP}"
proof -
  have v: "validate_scope_token p (sp_token e)"
    by (rule ownedD [OF owned_reachable [OF assms(1)] assms(2,3)])
  show ?thesis
    by (simp only: if_bool_eq_conj) (use parse_id_matches [OF v] validate_core [OF v] in blast)
qed

theorem registry_no_squatting_witness:
  "id_or_domain (parse_scope ''group:jules:ask'') = ''jules''"
proof -
  let ?e = "\<lparr>sp_token = ''group:jules:ask'', sp_description = PStr [], sp_access = PNone\<rparr>"
  let ?r = "snd (register_plugin_permissions ''jules''
     [RawItem (PStr ''group:jules:ask''), RawItem (PStr ''plugin:other'')] True
     (seed_core_scopes [] empty_perm_registry))"
  have r: "reg_reachable ?r"
    by (rule reg_reachable.step [OF reg_reachable.start [of "[]"] reg_step.register])
  have m: "map_of (permissions ?r) ''jules'' = Some [?e]" by code_simp
  have "\<not> starts_with ''core:'' ''group:jules:ask''" by simp
  with registry_no_squatting [OF r m, of ?e] show ?thesis by simp
qed

text \<open>
  A full clear keeps the core vocabulary and nothing else, and the core entries a plugin
  (re)discovery pass leaves behind are exactly those that were there.
\<close>

theorem full_clear_keeps_core:
  "get_plugin_permissions (unregister_plugin_permissions None r) p =
     (if p = reserved_core_plugin_id then get_plugin_permissions r p else [])
   \<and> synthetic (unregister_plugin_permissions None r) = {}"
  by (auto simp: get_plugin_permissions_def unregister_plugin_permissions_def reserved_core_plugin_id_def
      split: option.splits list.splits)

text \<open>
  Registration.  With \<open>replace\<close> a plugin's entries become exactly its valid requested ones; without
  it every earlier entry survives and the stored tokens are the earlier ones and the valid requested
  ones.  In both cases other plugins are untouched and the vocabulary stays sorted and duplicate-free.
\<close>

theorem register_effect:
  assumes "p \<noteq> []"
  shows "sp_token ` set (get_plugin_permissions (snd (register_plugin_permissions p es rep r)) p) =
       (if rep then {} else sp_token ` set (get_plugin_permissions r p))
         \<union> {t \<in> sp_token ` set (normalize_scope_entries es). validate_scope_token p t}
    \<and> (\<not> rep \<longrightarrow> set (get_plugin_permissions r p)
          \<subseteq> set (get_plugin_permissions (snd (register_plugin_permissions p es rep r)) p))
    \<and> (q \<noteq> p \<longrightarrow> get_plugin_permissions (snd (register_plugin_permissions p es rep r)) q = get_plugin_permissions r q)
    \<and> sorted (get_valid_scopes fl r) \<and> distinct (get_valid_scopes fl r)
    \<and> set (get_valid_scopes fl r) = set fl \<union> (\<Union>(p, es)\<in>set (permissions r). sp_token ` set es)"
proof -
  define valid where "valid = filter (\<lambda>e. validate_scope_token p (sp_token e)) (normalize_scope_entries es)"
  have "sp_token ` set valid = {t \<in> sp_token ` set (normalize_scope_entries es). validate_scope_token p t}"
    by (auto simp: valid_def)
  moreover have "get_plugin_permissions (snd (register_plugin_permissions p es rep r)) p =
      (if rep then valid else merge_entries (get_plugin_permissions r p) valid)"
    using assms by (simp add: get_plugin_permissions_def register_plugin_permissions_def Let_def valid_def)
  ultimately have "sp_token ` set (get_plugin_permissions (snd (register_plugin_permissions p es rep r)) p) =
       (if rep then {} else sp_token ` set (get_plugin_permissions r p))
         \<union> {t \<in> sp_token ` set (normalize_scope_entries es). validate_scope_token p t}"
    "\<not> rep \<longrightarrow> set (get_plugin_permissions r p)
          \<subseteq> set (get_plugin_permissions (snd (register_plugin_permissions p es rep r)) p)"
    using merge_entries_set [of "get_plugin_permissions r p" valid]
    by (cases rep; simp add: merge_entries_tokens)+
  moreover have "q \<noteq> p \<longrightarrow>
      get_plugin_permissions (snd (register_plugin_permissions p es rep r)) q = get_plugin_permissions r q"
    by (simp add: get_plugin_permissions_def register_plugin_permissions_def Let_def)
  moreover have "set (all_tokens r) = (\<Union>(p, es)\<in>set (permissions r). sp_token ` set es)"
    using foldl_add_tokens [of "[]" "permissions r"] by (simp add: all_tokens_def)
  ultimately show ?thesis by (simp add: get_valid_scopes_def)
qed

theorem register_effect_witness:
  "sp_token ` set (get_plugin_permissions (snd (register_plugin_permissions ''jules''
      [RawItem (PStr ''plugin:jules''), RawItem (PStr ''core:graph:write'')] False empty_perm_registry)) ''jules'')
   = {''plugin:jules''}"
proof -
  have "sp_token ` set (get_plugin_permissions empty_perm_registry ''jules'') = {}" by code_simp
  moreover have "{t \<in> sp_token ` set (normalize_scope_entries
      [RawItem (PStr ''plugin:jules''), RawItem (PStr ''core:graph:write'')]). validate_scope_token ''jules'' t}
    = {''plugin:jules''}"
  proof -
    have "validate_scope_token ''jules'' ''plugin:jules''" "\<not> validate_scope_token ''jules'' ''core:graph:write''"
      by code_simp+
    then show ?thesis by auto
  qed
  ultimately show ?thesis using register_effect [of "''jules''"] by simp
qed

end
