(* ===== verification/ScopeRoles.thy ===== *)
theory ScopeRoles
  imports ScopeRules ScopeRegistry
begin

text \<open>
  Roles and API keys: \<open>core/scope_management/roles.py\<close> and the storage form of \<open>sentinels.py\<close>.
  A role's configuration is a record of the entries the code reads; the vocabulary is the value
  of \<open>get_valid_scopes\<close>.  \<open>set[str]\<close> pools are sets, \<open>sorted\<close> their sorted list.
\<close>

subsection \<open>Storage form and API keys\<close>

definition normalize_scopes_for_storage :: "string list option \<Rightarrow> string list" where
  "normalize_scopes_for_storage so =
     (case so of None \<Rightarrow> [''all'']
      | Some ss \<Rightarrow> (if ''all'' \<in> set ss \<or> ''*'' \<in> set ss then [''all''] else ss))"

definition resolve_api_key_scopes :: "string \<Rightarrow> string list \<Rightarrow> string list option \<Rightarrow> string list" where
  "resolve_api_key_scopes null_policy vocabulary row_scopes =
     (case row_scopes of
        None \<Rightarrow> (if null_policy = ''legacy_full'' then vocabulary else [])
      | Some ss \<Rightarrow> ss)"

subsection \<open>Role configuration\<close>

datatype role_scopes = EveryScope | ScopeTokens "string list" | OtherScopes

datatype plugin_inclusion = IncludeAll | IncludeRead | IncludeOther

record role_config =
  rc_scopes :: role_scopes
  rc_include_plugin_tokens :: plugin_inclusion
  rc_include_data_plugins :: bool
  rc_include_groups_matching :: "string list"
  rc_exclude_prefixes :: "string list"

definition plugin_kinds :: "scope_kind list" where
  "plugin_kinds = [PLUGIN, GROUP, OP]"

definition reads_only :: "ParsedScope \<Rightarrow> bool" where
  "reads_only p = (ps_access p = Some Read \<or> contains ''read'' (lower (tag_or_op p)) \<or> ends_with '':read'' (raw p))"

definition included_tokens :: "role_config \<Rightarrow> string list \<Rightarrow> string list" where
  "included_tokens cfg vocabulary =
     (if rc_include_plugin_tokens cfg = IncludeAll \<or> rc_include_data_plugins cfg then
        filter (\<lambda>s. kind (parse_scope s) \<in> set plugin_kinds) vocabulary
      else if rc_include_plugin_tokens cfg = IncludeRead then
        filter (\<lambda>s. kind (parse_scope s) \<in> set plugin_kinds \<and> reads_only (parse_scope s)) vocabulary
      else if rc_include_groups_matching cfg \<noteq> [] then
        filter (\<lambda>s. kind (parse_scope s) = GROUP
          \<and> list_ex (\<lambda>sub. contains sub (tag_or_op (parse_scope s))) (rc_include_groups_matching cfg)) vocabulary
      else [])"

definition with_implied :: "string list \<Rightarrow> string set" where
  "with_implied ss = set ss \<union> (\<Union>s\<in>set ss. expand_implied s)"

definition excluded :: "role_config \<Rightarrow> string \<Rightarrow> bool" where
  "excluded cfg s = list_ex (\<lambda>p. starts_with p s \<or> s = p) (rc_exclude_prefixes cfg)"

definition role_pool :: "role_config \<Rightarrow> string list \<Rightarrow> string set" where
  "role_pool cfg vocabulary =
     (case rc_scopes cfg of ScopeTokens ss \<Rightarrow> with_implied ss | _ \<Rightarrow> {})
       \<union> with_implied (included_tokens cfg vocabulary)"

definition scopes_for_role :: "(string \<times> role_config) list \<Rightarrow> string list \<Rightarrow> string \<Rightarrow> string list" where
  "scopes_for_role roles vocabulary role =
     (case map_of roles role of None \<Rightarrow> []
      | Some cfg \<Rightarrow>
          (if rc_scopes cfg = EveryScope then vocabulary
           else sorted_list_of_set (Set.filter (\<lambda>s. \<not> excluded cfg s) (role_pool cfg vocabulary))))"

definition role_has_admin_bypass :: "string list \<Rightarrow> string option \<Rightarrow> bool" where
  "role_has_admin_bypass admin_roles role =
     (case role of None \<Rightarrow> False | Some r \<Rightarrow> r \<noteq> [] \<and> r \<in> set admin_roles)"

definition playground_mcp_scopes ::
    "string list \<Rightarrow> (string \<times> role_config) list \<Rightarrow> string list \<Rightarrow> string option \<Rightarrow> string list" where
  "playground_mcp_scopes admin_roles roles vocabulary role =
     (if role_has_admin_bypass admin_roles role
      then sorted_list_of_set (insert ''admin'' (set vocabulary))
      else case role of None \<Rightarrow> []
           | Some r \<Rightarrow> (if r \<noteq> [] then scopes_for_role roles vocabulary r else []))"

subsection \<open>Forced execution and direct scope checks\<close>

definition coerce_force_execute :: "pyval \<Rightarrow> bool" where
  "coerce_force_execute v =
     (case v of
        PBool b \<Rightarrow> b
      | PInt i \<Rightarrow> i \<noteq> 0
      | PFloat f \<Rightarrow> f \<noteq> 0
      | PStr s \<Rightarrow> lower (strip s) \<in> {''1'', ''true'', ''yes'', ''on''}
      | _ \<Rightarrow> truthy v)"

definition default_force_execute_authenticated :: "bool \<Rightarrow> bool" where
  "default_force_execute_authenticated a = a"

definition role_defaults_force_execute :: "string option \<Rightarrow> bool" where
  "role_defaults_force_execute role = (case role of None \<Rightarrow> False | Some r \<Rightarrow> r \<noteq> [])"

definition resolve_force_execute :: "pydict \<Rightarrow> string option \<Rightarrow> bool option \<Rightarrow> bool" where
  "resolve_force_execute body role authenticated =
     (case dget ''force_execute'' body of
        Some v \<Rightarrow> coerce_force_execute v
      | None \<Rightarrow> (case authenticated of Some a \<Rightarrow> default_force_execute_authenticated a
                 | None \<Rightarrow> role_defaults_force_execute role))"

definition caller_has_scope :: "policy_env \<Rightarrow> string list option \<Rightarrow> string \<Rightarrow> bool" where
  "caller_has_scope pol caller_scopes t =
     (if \<not> scope_enforcement_enabled pol then True
      else case caller_scopes of None \<Rightarrow> True
      | Some ss \<Rightarrow> expand_legacy_alias_for_read t \<inter> set ss \<noteq> {})"

subsection \<open>Facts on pools\<close>

lemma finite_with_implied [simp]: "finite (with_implied ss)"
  by (auto simp: with_implied_def expand_implied_def Let_def split: scope_kind.splits option.splits access.splits)

lemma finite_pool [simp]: "finite (role_pool cfg v)"
  by (auto simp: role_pool_def split: role_scopes.splits)

lemma set_scopes_for_role:
  "map_of roles role = Some cfg \<Longrightarrow> rc_scopes cfg \<noteq> EveryScope \<Longrightarrow>
     set (scopes_for_role roles v role) = {s \<in> role_pool cfg v. \<not> excluded cfg s}"
  by (auto simp: scopes_for_role_def)

lemma included_sub: "set (included_tokens cfg v) \<subseteq> {s \<in> set v. kind (parse_scope s) \<in> {PLUGIN, GROUP, OP}}"
  by (auto simp: included_tokens_def plugin_kinds_def)

lemma implied_not_bypass:
  assumes "u \<in> expand_implied s" "u \<noteq> s"
  shows "u \<notin> {''admin'', ''all'', ''*''}"
proof -
  have "kind (parse_scope ''admin'') = SENTINEL" "kind (parse_scope ''all'') = SENTINEL"
    "kind (parse_scope ''*'') = SENTINEL" by code_simp+
  moreover have "starts_with ''core:'' u \<or> starts_with ''plugin:'' u"
    using assms by (auto simp: expand_implied_def Let_def core_token_def plugin_access_token_def
        plugin_token_def starts_with_iff split: scope_kind.splits option.splits access.splits if_splits)
  moreover have "\<not> starts_with ''core:'' t \<and> \<not> starts_with ''plugin:'' t"
    if "t \<in> {''admin'', ''all'', ''*''}" for t using that by auto
  ultimately show ?thesis by blast
qed

lemma pool_bypass:
  assumes "t \<in> role_pool cfg v" "t \<in> {''admin'', ''all'', ''*''}"
  shows "\<exists>ss. rc_scopes cfg = ScopeTokens ss \<and> t \<in> set ss"
proof -
  have sent: "kind (parse_scope u) = SENTINEL" if "u \<in> {''admin'', ''all'', ''*''}" for u
  proof -
    have "list_all (\<lambda>u. kind (parse_scope u) = SENTINEL) [''admin'', ''all'', ''*'']" by code_simp
    with that show ?thesis by auto
  qed
  have imp: "t \<in> with_implied ss \<Longrightarrow> t \<in> set ss" for ss
    using implied_not_bypass [of t] assms(2) unfolding with_implied_def by blast
  have "t \<notin> set (included_tokens cfg v)"
    using included_sub [of cfg v] sent [OF assms(2)] by auto
  then have "t \<notin> with_implied (included_tokens cfg v)" using imp by blast
  with assms(1) imp show ?thesis by (cases "rc_scopes cfg") (auto simp: role_pool_def)
qed

lemma evaluate_not_enforcing:
  assumes "\<not> scope_enforcement_enabled (policy env) \<or> get_enforcement_mode (policy env) \<noteq> MODE_ENFORCE"
  shows "allowed (evaluate default_rules env g ro r)"
proof (cases "get_enforcement_mode (policy env)")
  case MODE_ENFORCE
  with assms show ?thesis
    by (simp add: evaluate_def Let_def default_rules_def rule_enforcement_off_def apply_mode_def)
qed (simp_all add: evaluate_def Let_def apply_mode_def split: option.split)

lemma map_legacy_into_mem:
  "set out \<subseteq> set (map_legacy_into ts out)
   \<and> (t \<in> set ts \<longrightarrow> map_legacy_token t = Some m \<longrightarrow> m \<in> set (map_legacy_into ts out))"
proof (induction ts out rule: map_legacy_into.induct)
  case (2 u ts out)
  show ?case
  proof (cases "map_legacy_token u")
    case None
    with "2.IH"(1) show ?thesis by auto
  next
    case (Some k)
    have "insert k (set out) \<subseteq> set (map_legacy_into (u # ts) out)"
      using "2.IH"(2) [OF Some] Some by (auto split: if_splits)
    with "2.IH"(2) [OF Some] Some show ?thesis by auto
  qed
qed simp

subsection \<open>Properties of roles and keys\<close>

text \<open>
  Roles.  The scopes of a role without the star are a sorted duplicate-free list, none of them
  starts with an excluded prefix, and a master sentinel (\<open>admin\<close>, \<open>all\<close>, \<open>*\<close>) is among them only
  when the role declares it: neither plugin inclusion nor the implied closure creates one.
\<close>

theorem role_scopes_bounded:
  assumes "map_of roles role = Some cfg" and "rc_scopes cfg \<noteq> EveryScope"
  shows "sorted (scopes_for_role roles v role) \<and> distinct (scopes_for_role roles v role)
    \<and> list_all (\<lambda>s. \<not> excluded cfg s) (scopes_for_role roles v role)
    \<and> (\<forall>t\<in>{''admin'', ''all'', ''*''}. t \<in> set (scopes_for_role roles v role) \<longrightarrow>
          (\<exists>ss. rc_scopes cfg = ScopeTokens ss \<and> t \<in> set ss))"
proof -
  have "scopes_for_role roles v role = sorted_list_of_set (Set.filter (\<lambda>s. \<not> excluded cfg s) (role_pool cfg v))"
    using assms by (simp add: scopes_for_role_def)
  then have "sorted (scopes_for_role roles v role)" "distinct (scopes_for_role roles v role)" by simp_all
  moreover note set_scopes_for_role [OF assms]
  ultimately show ?thesis using pool_bypass by (auto simp: list_all_iff)
qed

definition operator_config :: role_config where
  "operator_config = \<lparr>rc_scopes = ScopeTokens [''core:graph:write''], rc_include_plugin_tokens = IncludeAll,
     rc_include_data_plugins = False, rc_include_groups_matching = [], rc_exclude_prefixes = [''plugin:proxy'']\<rparr>"

theorem role_scopes_bounded_witness:
  "''admin'' \<notin> set (scopes_for_role [(''operator'', operator_config)]
      [''admin'', ''plugin:jules'', ''plugin:proxy_x''] ''operator'')"
proof -
  have m: "map_of [(''operator'', operator_config)] ''operator'' = Some operator_config" by simp
  have "rc_scopes operator_config \<noteq> EveryScope" "rc_scopes operator_config = ScopeTokens [''core:graph:write'']"
    by (simp_all add: operator_config_def)
  then show ?thesis
    using role_scopes_bounded [OF m, of "[''admin'', ''plugin:jules'', ''plugin:proxy_x'']"] by auto
qed

text \<open>
  Storage form.  Normalising a scope list before it is written never changes a decision: under
  every policy, gate table, request and required set the stored list allows exactly what the
  submitted list allows; normalising twice is normalising once, and the "all selected" form is
  the wildcard.
\<close>

theorem storage_form_preserves_decisions:
  "allowed (evaluate default_rules env (g\<lparr>scopes := Some (normalize_scopes_for_storage (Some ss))\<rparr>) ro r)
     = allowed (evaluate default_rules env (g\<lparr>scopes := Some ss\<rparr>) ro r)
   \<and> normalize_scopes_for_storage (Some (normalize_scopes_for_storage so)) = normalize_scopes_for_storage so
   \<and> allowed (evaluate default_rules env (g\<lparr>scopes := Some (normalize_scopes_for_storage None)\<rparr>) ro r)"
proof (cases "scope_enforcement_enabled (policy env) \<and> get_enforcement_mode (policy env) = MODE_ENFORCE")
  case True
  then show ?thesis
    by (cases so) (auto simp: evaluate_scoped normalize_scopes_for_storage_def bypass_scopes_def)
next
  case False
  then show ?thesis
    by (cases so) (simp_all add: evaluate_not_enforcing normalize_scopes_for_storage_def)
qed

text \<open>
  Missing key scopes.  A key row without scopes is denied every request under enforcement,
  unless the deployment opted into the legacy policy.
\<close>

theorem null_key_scopes_deny:
  assumes "scope_enforcement_enabled (policy env)" and "get_enforcement_mode (policy env) = MODE_ENFORCE"
    and "null_policy \<noteq> ''legacy_full''"
  shows "\<not> allowed (evaluate default_rules env
     \<lparr>scopes = Some (resolve_api_key_scopes null_policy v None), sg_role = role, sg_kind = k\<rparr> ro r)"
  using assms by (simp add: evaluate_scoped resolve_api_key_scopes_def bypass_scopes_def satisfies_def
      held_tokens_def covers_required_def Let_def split: scope_kind.split option.split)

theorem null_key_scopes_deny_witness:
  "\<not> allowed (evaluate default_rules plain_env
     \<lparr>scopes = Some (resolve_api_key_scopes ''deny'' [''plugin:jules''] None), sg_role = None, sg_kind = API_KEY\<rparr>
     (Some {''plugin:jules''}) blank_request)"
  by (rule null_key_scopes_deny) simp_all

text \<open>
  The legacy migration keeps direct checks.  For every token the migration knows (a grammar token,
  a sentinel or a mapped legacy token), a caller that passed the direct check with its old list
  passes it with the migrated list.
\<close>

theorem migration_keeps_direct_checks:
  assumes "map_legacy_token t \<noteq> None" and "caller_has_scope pol (Some ss) t"
  shows "caller_has_scope pol (Some (map_legacy_tokens ss)) t"
proof (cases "scope_enforcement_enabled pol")
  case False
  then show ?thesis by (simp add: caller_has_scope_def)
next
  case True
  with assms(2) obtain u where u: "u \<in> expand_legacy_alias_for_read t" "u \<in> set ss"
    by (auto simp: caller_has_scope_def)
  have vals: "list_all (\<lambda>(a, b). map_legacy_token a = Some b \<and> map_legacy_token b = Some b) legacy_scope_map"
    by code_simp
  have "\<exists>m. map_legacy_token u = Some m \<and> m \<in> expand_legacy_alias_for_read t"
  proof (cases "u = t")
    case True
    from assms(1) obtain m where m: "map_legacy_token t = Some m" by blast
    then have "m = t \<or> map_of legacy_scope_map t = Some m" by (auto simp: map_legacy_token_def split: if_splits)
    with m True show ?thesis by (auto simp: expand_legacy_alias_for_read_def)
  next
    case False
    with u(1) have "map_of legacy_scope_map t = Some u \<or> (u, t) \<in> set legacy_scope_map"
      by (auto simp: expand_legacy_alias_for_read_def)
    then have "(t, u) \<in> set legacy_scope_map \<or> (u, t) \<in> set legacy_scope_map" by (auto dest: map_of_SomeD)
    then have "map_legacy_token u = Some u \<or> map_legacy_token u = Some t" using vals by (auto simp: list_all_iff)
    with u(1) show ?thesis by (auto simp: expand_legacy_alias_for_read_def)
  qed
  then obtain m where "map_legacy_token u = Some m" "m \<in> expand_legacy_alias_for_read t" by blast
  with u(2) map_legacy_into_mem [of "[]" ss u m] have "m \<in> set (map_legacy_tokens ss)"
    by (simp add: map_legacy_tokens_def)
  with \<open>m \<in> expand_legacy_alias_for_read t\<close> show ?thesis by (auto simp: caller_has_scope_def)
qed

theorem migration_keeps_direct_checks_witness:
  "caller_has_scope enforcing (Some (map_legacy_tokens [''whiskers_agent'', ''terminal:use''])) ''terminal:use''"
proof (rule migration_keeps_direct_checks)
  show "map_legacy_token ''terminal:use'' \<noteq> None" by code_simp
  show "caller_has_scope enforcing (Some [''whiskers_agent'', ''terminal:use'']) ''terminal:use''" by code_simp
qed

text \<open>
  The read inclusion is a substring test.  A role configured with \<open>include_plugin_tokens = "read"\<close>
  and no declared scope receives the operation token of any operation whose name merely contains
  "read", such as \<open>delete_thread\<close>, and the access decision then allows that operation.
\<close>

theorem read_role_reaches_delete_thread:
  "let ss = scopes_for_role
         [(''viewer'', \<lparr>rc_scopes = ScopeTokens [], rc_include_plugin_tokens = IncludeRead,
            rc_include_data_plugins = False, rc_include_groups_matching = [], rc_exclude_prefixes = []\<rparr>)]
         [''op:mail:delete_thread'', ''plugin:mail'', ''plugin:mail:read''] ''viewer'' in
   ss = [''op:mail:delete_thread'', ''plugin:mail:read'']
   \<and> allowed (evaluate default_rules plain_env (key_grant ss) (Some {''op:mail:delete_thread''})
        (blank_request\<lparr>rq_plugin_id := ''mail'', rq_operation_id := ''delete_thread''\<rparr>))"
  by code_simp

end
