(* ===== verification/Elevation.thy ===== *)
theory Elevation
  imports Prelude PyText Complex_Main
begin

text \<open>
  Step-up elevation of the terminal relay,
  \<open>plugins/cat_terminal_relay_plugin/services/elevation_service.py\<close>.  The service's four
  dictionaries are the fields of \<open>elev_state\<close>; times are exact rationals.  Every reading of the
  clock is an argument, because a call reads it several times.  \<open>verify_and_mint\<close> is split at
  its first \<open>await\<close>: \<open>begin_verify\<close> is the part before the vault is read and \<open>finish_verify\<close> the part
  after, so that interleaved calls are sequences of the two.  The vault contents, the TOTP check
  of \<open>pyotp\<close> (at its time), the argon2 check and the random token are parameters; an exception
  of a check counts as a failed check, as in the code.
\<close>

subsection \<open>State\<close>

datatype elev_method = METHOD_TOTP | METHOD_PASSWORD | METHOD_BOTH | METHOD_OTHER

record elev_config =
  ec_method :: elev_method
  ec_ttl_seconds :: int
  ec_max_attempts :: int
  ec_lockout_seconds :: int

record elev_state =
  tokens :: "(string \<times> string \<times> string \<times> rat) list"
  by_session :: "(string \<times> string) list"
  attempts :: "(string \<times> int \<times> rat) list"
  replay :: "(string \<times> (string \<times> int) list) list"

text \<open>
  What a call finds outside: the vault and the verifiers.  \<open>totp_verify\<close> is given the time of the call; a verifier with a clock of its
  own, as \<open>pyotp\<close> has, is one that ignores it.
\<close>

record elev_world =
  totp_seed :: "string option"
  password_hash :: "string option"
  totp_verify :: "string \<Rightarrow> string \<Rightarrow> rat \<Rightarrow> bool"
  password_verify :: "string \<Rightarrow> string \<Rightarrow> bool"

definition init_elev :: elev_state where
  "init_elev = \<lparr>tokens = [], by_session = [], attempts = [], replay = []\<rparr>"

datatype elev_result =
    Granted string rat int
  | Locked rat
  | NotProvisioned string
  | InvalidFactor string int
  | Replayed int

subsection \<open>Operations\<close>

fun gc_loop :: "string list \<Rightarrow> elev_state \<Rightarrow> elev_state" where
  "gc_loop [] st = st"
| "gc_loop (t # ts) st =
     (case map_of (tokens st) t of
        None \<Rightarrow> gc_loop ts st
      | Some (sid, _, _) \<Rightarrow>
          (let st' = st\<lparr>tokens := dpop t (tokens st)\<rparr> in
           gc_loop ts (if map_of (by_session st') sid = Some t
                       then st'\<lparr>by_session := dpop sid (by_session st')\<rparr> else st')))"

definition elev_gc :: "rat \<Rightarrow> elev_state \<Rightarrow> elev_state" where
  "elev_gc now st = gc_loop (map fst (filter (\<lambda>(t, _, _, e). e \<le> now) (tokens st))) st"

definition record_failure :: "elev_config \<Rightarrow> rat \<Rightarrow> string \<Rightarrow> elev_state \<Rightarrow> int \<times> rat option \<times> elev_state" where
  "record_failure cfg now sid st =
     (let (count0, locked0) = (case map_of (attempts st) sid of None \<Rightarrow> (0, 0) | Some a \<Rightarrow> a);
          count = (if locked0 > 0 \<and> locked0 \<le> now then 0 else count0) + 1 in
      if count \<ge> ec_max_attempts cfg
      then (let until = now + of_int (ec_lockout_seconds cfg) in
            (count, Some until, st\<lparr>attempts := dset sid (count, until) (attempts st)\<rparr>))
      else (count, None, st\<lparr>attempts := dset sid (count, 0) (attempts st)\<rparr>))"

definition fail_with ::
    "elev_config \<Rightarrow> rat \<Rightarrow> string \<Rightarrow> (int \<Rightarrow> elev_result) \<Rightarrow> elev_state \<Rightarrow> elev_result \<times> elev_state" where
  "fail_with cfg now sid mk st =
     (case record_failure cfg now sid st of
        (count, Some until, st') \<Rightarrow> (Locked until, st')
      | (count, None, st') \<Rightarrow> (mk (ec_max_attempts cfg - count), st'))"

definition totp_required :: "elev_config \<Rightarrow> bool" where
  "totp_required cfg = (ec_method cfg \<in> {METHOD_TOTP, METHOD_BOTH})"

definition password_required :: "elev_config \<Rightarrow> bool" where
  "password_required cfg = (ec_method cfg \<in> {METHOD_PASSWORD, METHOD_BOTH})"

definition given :: "string option \<Rightarrow> bool" where
  "given s = (case s of None \<Rightarrow> False | Some t \<Rightarrow> t \<noteq> [])"

definition time_step :: "rat \<Rightarrow> int" where
  "time_step now = (if now < 0 then \<lceil>now\<rceil> else \<lfloor>now\<rfloor>) div 30"

text \<open>Before the vault is read: collect expired tokens and check the lock.\<close>

definition begin_verify :: "rat \<Rightarrow> rat \<Rightarrow> string \<Rightarrow> elev_state \<Rightarrow> elev_result option \<times> elev_state" where
  "begin_verify now t_gc sid st =
     (let st1 = elev_gc t_gc st in
      case map_of (attempts st1) sid of
        None \<Rightarrow> (None, st1)
      | Some (count, until) \<Rightarrow>
          (if until > now then (Some (Locked until), st1)
           else if until > 0 then (None, st1\<lparr>attempts := dpop sid (attempts st1)\<rparr>)
           else (None, st1)))"

definition used_codes :: "elev_state \<Rightarrow> string \<Rightarrow> (string \<times> int) list" where
  "used_codes st subject = (case map_of (replay st) subject of None \<Rightarrow> [] | Some u \<Rightarrow> u)"

definition totp_stage ::
    "elev_config \<Rightarrow> elev_world \<Rightarrow> rat \<Rightarrow> rat \<Rightarrow> string \<Rightarrow> string \<Rightarrow> string option \<Rightarrow> elev_state
     \<Rightarrow> elev_result option \<times> elev_state" where
  "totp_stage cfg w now t_fail sid subject totp st =
     (let failed = (\<lambda>mk st. map_prod Some id (fail_with cfg t_fail sid mk st)) in
      if \<not> given totp then failed (InvalidFactor ''TOTP code is required.'') st
      else
        (let code = the totp; ts = time_step now;
             used = used_codes st subject;
             st1 = st\<lparr>replay := dset subject used (replay st)\<rparr> in
         if (code, ts) \<in> set used then failed Replayed st1
         else if \<not> (case totp_seed w of None \<Rightarrow> False | Some s \<Rightarrow> totp_verify w s code now)
         then failed (InvalidFactor ''Invalid TOTP code.'') st1
         else (None, st1\<lparr>replay := dset subject
                (filter (\<lambda>(c, k). \<not> k < ts - 2) (used @ [(code, ts)])) (replay st1)\<rparr>)))"

definition password_stage ::
    "elev_config \<Rightarrow> elev_world \<Rightarrow> rat \<Rightarrow> string \<Rightarrow> string option \<Rightarrow> elev_state
     \<Rightarrow> elev_result option \<times> elev_state" where
  "password_stage cfg w t_fail sid password st =
     (let failed = (\<lambda>mk st. map_prod Some id (fail_with cfg t_fail sid mk st)) in
      if \<not> given password then failed (InvalidFactor ''Password is required.'') st
      else if \<not> (case password_hash w of None \<Rightarrow> False | Some h \<Rightarrow> password_verify w h (the password))
      then failed (InvalidFactor ''Invalid password.'') st
      else (None, st))"

definition mint :: "elev_config \<Rightarrow> rat \<Rightarrow> string \<Rightarrow> string \<Rightarrow> string \<Rightarrow> elev_state \<Rightarrow> elev_result \<times> elev_state" where
  "mint cfg now tok sid subject st =
     (let st1 = st\<lparr>attempts := dpop sid (attempts st)\<rparr>;
          prior = map_of (by_session st1) sid;
          st2 = st1\<lparr>by_session := dpop sid (by_session st1)\<rparr>;
          st3 = (if given prior then st2\<lparr>tokens := dpop (the prior) (tokens st2)\<rparr> else st2);
          expires = now + of_int (ec_ttl_seconds cfg) in
      (Granted tok expires (ec_ttl_seconds cfg),
       st3\<lparr>tokens := dset tok (sid, subject, expires) (tokens st3),
           by_session := dset sid tok (by_session st3)\<rparr>))"

definition finish_verify ::
    "elev_config \<Rightarrow> elev_world \<Rightarrow> rat \<Rightarrow> rat \<Rightarrow> string \<Rightarrow> string \<Rightarrow> string \<Rightarrow> string option \<Rightarrow> string option
     \<Rightarrow> elev_state \<Rightarrow> elev_result \<times> elev_state" where
  "finish_verify cfg w now t_fail tok sid subject totp password st =
     (if totp_required cfg \<and> \<not> given (totp_seed w) then (NotProvisioned ''TOTP is not provisioned.'', st)
      else if password_required cfg \<and> \<not> given (password_hash w)
      then (NotProvisioned ''Password is not provisioned.'', st)
      else
        (case (if totp_required cfg then totp_stage cfg w now t_fail sid subject totp st else (None, st)) of
           (Some r, st1) \<Rightarrow> (r, st1)
         | (None, st1) \<Rightarrow>
             (case (if password_required cfg then password_stage cfg w t_fail sid password st1 else (None, st1)) of
                (Some r, st2) \<Rightarrow> (r, st2)
              | (None, st2) \<Rightarrow> mint cfg now tok sid subject st2)))"

definition verify_and_mint ::
    "elev_config \<Rightarrow> elev_world \<Rightarrow> rat \<Rightarrow> rat \<Rightarrow> rat \<Rightarrow> string \<Rightarrow> string \<Rightarrow> string \<Rightarrow> string option
     \<Rightarrow> string option \<Rightarrow> elev_state \<Rightarrow> elev_result \<times> elev_state" where
  "verify_and_mint cfg w now t_gc t_fail tok sid subject totp password st =
     (case begin_verify now t_gc sid st of
        (Some r, st1) \<Rightarrow> (r, st1)
      | (None, st1) \<Rightarrow> finish_verify cfg w now t_fail tok sid subject totp password st1)"

definition peek :: "rat \<Rightarrow> rat \<Rightarrow> string \<Rightarrow> elev_state \<Rightarrow> rat option \<times> elev_state" where
  "peek t_gc now sid st =
     (let st1 = elev_gc t_gc st in
      ((case map_of (by_session st1) sid of
          None \<Rightarrow> None
        | Some t \<Rightarrow> (if t = [] then None else
            (case map_of (tokens st1) t of None \<Rightarrow> None
             | Some (_, _, e) \<Rightarrow> (if e > now then Some e else None)))), st1))"

definition is_elevated :: "rat \<Rightarrow> rat \<Rightarrow> string \<Rightarrow> elev_state \<Rightarrow> bool \<times> elev_state" where
  "is_elevated t_gc now sid st =
     (let st1 = elev_gc t_gc st in
      ((case map_of (by_session st1) sid of
          None \<Rightarrow> False
        | Some t \<Rightarrow> t \<noteq> [] \<and> (case map_of (tokens st1) t of None \<Rightarrow> False | Some (_, _, e) \<Rightarrow> e > now)), st1))"

definition elev_clear :: "string \<Rightarrow> elev_state \<Rightarrow> elev_state" where
  "elev_clear sid st =
     (let tok = map_of (by_session st) sid;
          st1 = st\<lparr>by_session := dpop sid (by_session st)\<rparr>;
          st2 = (if given tok then st1\<lparr>tokens := dpop (the tok) (tokens st1)\<rparr> else st1) in
      st2\<lparr>attempts := dpop sid (attempts st2)\<rparr>)"

subsection \<open>Token invariant\<close>

text \<open>The two token dictionaries are mutually inverse.\<close>

definition maps_paired ::
    "(string \<Rightarrow> (string \<times> string \<times> rat) option) \<Rightarrow> (string \<Rightarrow> string option) \<Rightarrow> bool" where
  "maps_paired ts bs \<longleftrightarrow>
     (\<forall>t sid subj e. ts t = Some (sid, subj, e) \<longrightarrow> bs sid = Some t)
   \<and> (\<forall>sid t. bs sid = Some t \<longrightarrow> t \<noteq> [] \<and> (\<exists>subj e. ts t = Some (sid, subj, e)))"

definition tokens_paired :: "elev_state \<Rightarrow> bool" where
  "tokens_paired st = maps_paired (map_of (tokens st)) (map_of (by_session st))"

lemma pairedI:
  assumes "\<And>t sid subj e. map_of (tokens st) t = Some (sid, subj, e) \<Longrightarrow> map_of (by_session st) sid = Some t"
    and "\<And>sid t. map_of (by_session st) sid = Some t \<Longrightarrow>
           t \<noteq> [] \<and> (\<exists>subj e. map_of (tokens st) t = Some (sid, subj, e))"
  shows "tokens_paired st"
  using assms unfolding tokens_paired_def maps_paired_def by blast

lemma paired_token:
  "tokens_paired st \<Longrightarrow> map_of (tokens st) t = Some (sid, subj, e) \<Longrightarrow> map_of (by_session st) sid = Some t"
  unfolding tokens_paired_def maps_paired_def by blast

lemma paired_session:
  "tokens_paired st \<Longrightarrow> map_of (by_session st) sid = Some t \<Longrightarrow>
     t \<noteq> [] \<and> (\<exists>subj e. map_of (tokens st) t = Some (sid, subj, e))"
  unfolding tokens_paired_def maps_paired_def by blast

lemma paired_cong:
  "tokens_paired st \<Longrightarrow> tokens st' = tokens st \<Longrightarrow> by_session st' = by_session st \<Longrightarrow> tokens_paired st'"
  by (simp add: tokens_paired_def)

definition drop_token :: "string \<Rightarrow> elev_state \<Rightarrow> elev_state" where
  "drop_token t st =
     (case map_of (tokens st) t of
        None \<Rightarrow> st
      | Some (sid, _, _) \<Rightarrow>
          st\<lparr>tokens := dpop t (tokens st),
             by_session := (if map_of (by_session st) sid = Some t
                            then dpop sid (by_session st) else by_session st)\<rparr>)"

lemma gc_loop_drop: "gc_loop ts st = fold drop_token ts st"
proof (induction ts arbitrary: st)
  case (Cons t ts)
  show ?case
  proof (cases "map_of (tokens st) t")
    case None
    with Cons show ?thesis by (simp add: drop_token_def)
  next
    case (Some v)
    obtain sid subj e where "v = (sid, subj, e)" by (cases v)
    with Some Cons show ?thesis by (simp add: drop_token_def Let_def)
  qed
qed simp

lemma drop_token_frame [simp]:
  "attempts (drop_token t st) = attempts st" "replay (drop_token t st) = replay st"
  by (simp_all add: drop_token_def split: option.split)

lemma drop_token_tokens: "map_of (tokens (drop_token t st)) = (map_of (tokens st))(t := None)"
  by (auto simp: drop_token_def split: option.split)

lemma drop_token_sessions:
  assumes "tokens_paired st"
  shows "map_of (by_session (drop_token t st))
      = (\<lambda>s. if map_of (by_session st) s = Some t then None else map_of (by_session st) s)"
proof (cases "map_of (tokens st) t")
  case None
  then have "map_of (by_session st) s \<noteq> Some t" for s using paired_session [OF assms, of s t] by auto
  with None show ?thesis by (simp add: drop_token_def)
next
  case (Some v)
  obtain sid subj e where v: "map_of (tokens st) t = Some (sid, subj, e)" using Some by (cases v) simp
  have s: "map_of (by_session st) sid = Some t" by (rule paired_token [OF assms v])
  have other: "s = sid" if "map_of (by_session st) s = Some t" for s
    using paired_session [OF assms that] v by simp
  have "map_of (by_session (drop_token t st)) = (map_of (by_session st))(sid := None)"
    using v s by (simp add: drop_token_def)
  moreover have "(map_of (by_session st))(sid := None)
      = (\<lambda>x. if map_of (by_session st) x = Some t then None else map_of (by_session st) x)"
  proof (rule ext)
    fix x show "((map_of (by_session st))(sid := None)) x
      = (if map_of (by_session st) x = Some t then None else map_of (by_session st) x)"
      using s other [of x] by (cases "x = sid") auto
  qed
  ultimately show ?thesis by simp
qed

lemma drop_token_paired:
  assumes "tokens_paired st"
  shows "tokens_paired (drop_token t st)"
proof (rule pairedI)
  fix u sid subj e
  assume "map_of (tokens (drop_token t st)) u = Some (sid, subj, e)"
  then have u: "u \<noteq> t" "map_of (tokens st) u = Some (sid, subj, e)"
    by (simp_all add: drop_token_tokens split: if_splits)
  then show "map_of (by_session (drop_token t st)) sid = Some u"
    using paired_token [OF assms u(2)] by (simp add: drop_token_sessions [OF assms])
next
  fix sid u
  assume "map_of (by_session (drop_token t st)) sid = Some u"
  then have u: "u \<noteq> t" "map_of (by_session st) sid = Some u"
    by (auto simp: drop_token_sessions [OF assms] split: if_splits)
  then show "u \<noteq> [] \<and> (\<exists>subj e. map_of (tokens (drop_token t st)) u = Some (sid, subj, e))"
    using paired_session [OF assms u(2)] by (simp add: drop_token_tokens)
qed

lemma fold_drop:
  assumes "tokens_paired st"
  shows "tokens_paired (fold drop_token ts st)
    \<and> map_of (tokens (fold drop_token ts st)) = (\<lambda>t. if t \<in> set ts then None else map_of (tokens st) t)
    \<and> map_of (by_session (fold drop_token ts st))
      = (\<lambda>s. case map_of (by_session st) s of None \<Rightarrow> None | Some t \<Rightarrow> if t \<in> set ts then None else Some t)
    \<and> attempts (fold drop_token ts st) = attempts st \<and> replay (fold drop_token ts st) = replay st"
  using assms
proof (induction ts arbitrary: st)
  case Nil
  then show ?case by (auto split: option.split)
next
  case (Cons t ts)
  note p = drop_token_paired [OF Cons.prems, of t] and b = drop_token_sessions [OF Cons.prems, of t]
  show ?case
    using Cons.IH [OF p] by (auto simp: b drop_token_tokens fun_eq_iff split: option.split)
qed

lemma gc_facts:
  assumes "tokens_paired st" "distinct (map fst (tokens st))"
  shows "tokens_paired (elev_gc now st)"
    and "map_of (tokens (elev_gc now st)) t =
       (case map_of (tokens st) t of None \<Rightarrow> None | Some (sid, subj, e) \<Rightarrow> if e \<le> now then None else Some (sid, subj, e))"
    and "map_of (by_session (elev_gc now st)) sid =
       (case map_of (by_session st) sid of None \<Rightarrow> None
        | Some u \<Rightarrow> if (case map_of (tokens st) u of None \<Rightarrow> False | Some (_, _, e) \<Rightarrow> e \<le> now) then None else Some u)"
    and "attempts (elev_gc now st) = attempts st" and "replay (elev_gc now st) = replay st"
proof -
  define ts where "ts = map fst (filter (\<lambda>(t, _, _, e). e \<le> now) (tokens st))"
  have mem: "u \<in> set ts \<longleftrightarrow> (case map_of (tokens st) u of None \<Rightarrow> False | Some (_, _, e) \<Rightarrow> e \<le> now)" for u
  proof -
    have "u \<in> set ts \<longleftrightarrow> (\<exists>a b e. (u, a, b, e) \<in> set (tokens st) \<and> e \<le> now)" by (force simp: ts_def)
    also have "\<dots> \<longleftrightarrow> (\<exists>a b e. map_of (tokens st) u = Some (a, b, e) \<and> e \<le> now)"
      by (simp add: map_of_eq_Some_iff [OF assms(2)])
    finally show ?thesis by (auto split: option.split)
  qed
  have gc: "elev_gc now st = fold drop_token ts st" by (simp add: elev_gc_def gc_loop_drop ts_def)
  note f = fold_drop [OF assms(1), of ts]
  show "tokens_paired (elev_gc now st)" "attempts (elev_gc now st) = attempts st" "replay (elev_gc now st) = replay st"
    using f by (simp_all add: gc)
  show "map_of (tokens (elev_gc now st)) t =
       (case map_of (tokens st) t of None \<Rightarrow> None | Some (sid, subj, e) \<Rightarrow> if e \<le> now then None else Some (sid, subj, e))"
    using f mem [of t] by (auto simp: gc split: option.split)
  show "map_of (by_session (elev_gc now st)) sid =
       (case map_of (by_session st) sid of None \<Rightarrow> None
        | Some u \<Rightarrow> if (case map_of (tokens st) u of None \<Rightarrow> False | Some (_, _, e) \<Rightarrow> e \<le> now) then None else Some u)"
    using f mem by (auto simp: gc split: option.split)
qed

definition elev_ok :: "elev_state \<Rightarrow> bool" where
  "elev_ok st \<longleftrightarrow> tokens_paired st \<and> distinct (map fst (tokens st))"

lemma drop_token_distinct: "distinct (map fst (tokens st)) \<Longrightarrow> distinct (map fst (tokens (drop_token t st)))"
  by (simp add: drop_token_def distinct_dpop split: option.split)

lemma gc_ok: "elev_ok st \<Longrightarrow> elev_ok (elev_gc now st)"
proof -
  have "distinct (map fst (tokens st)) \<Longrightarrow> distinct (map fst (tokens (fold drop_token ts st)))" for ts
    by (induction ts arbitrary: st) (simp_all add: drop_token_distinct)
  then show "elev_ok st \<Longrightarrow> elev_ok (elev_gc now st)"
    unfolding elev_ok_def using gc_facts(1) by (simp add: elev_gc_def gc_loop_drop)
qed

lemma ok_cong: "elev_ok st \<Longrightarrow> tokens st' = tokens st \<Longrightarrow> by_session st' = by_session st \<Longrightarrow> elev_ok st'"
  by (simp add: elev_ok_def tokens_paired_def)

text \<open>Removing a session's token, as \<open>clear\<close> and the re-elevation do.\<close>

definition without_session :: "string \<Rightarrow> elev_state \<Rightarrow> elev_state" where
  "without_session sid st =
     (let st1 = st\<lparr>by_session := dpop sid (by_session st)\<rparr> in
      if given (map_of (by_session st) sid)
      then st1\<lparr>tokens := dpop (the (map_of (by_session st) sid)) (tokens st1)\<rparr> else st1)"

lemma without_session_maps:
  assumes "tokens_paired st"
  shows "map_of (by_session (without_session sid st)) = (map_of (by_session st))(sid := None)"
    and "map_of (tokens (without_session sid st)) t =
       (case map_of (tokens st) t of None \<Rightarrow> None | Some (s, subj, e) \<Rightarrow> if s = sid then None else Some (s, subj, e))"
    and "attempts (without_session sid st) = attempts st" "replay (without_session sid st) = replay st"
proof -
  show "map_of (by_session (without_session sid st)) = (map_of (by_session st))(sid := None)"
    "attempts (without_session sid st) = attempts st" "replay (without_session sid st) = replay st"
    by (simp_all add: without_session_def Let_def)
  show "map_of (tokens (without_session sid st)) t =
       (case map_of (tokens st) t of None \<Rightarrow> None | Some (s, subj, e) \<Rightarrow> if s = sid then None else Some (s, subj, e))"
  proof (cases "map_of (by_session st) sid")
    case None
    then have "map_of (tokens st) t \<noteq> Some (sid, subj, e)" for subj e
      using paired_token [OF assms, of t sid subj e] by auto
    then show ?thesis using None
      by (auto simp: without_session_def given_def split: option.split)
  next
    case (Some u)
    from paired_session [OF assms Some] obtain subj e
      where u: "u \<noteq> []" "map_of (tokens st) u = Some (sid, subj, e)" by blast
    have w: "tokens (without_session sid st) = dpop u (tokens st)"
      using Some u(1) by (simp add: without_session_def given_def)
    have other: "s \<noteq> sid" if "map_of (tokens st) t = Some (s, a, b)" "t \<noteq> u" for s a b
      using paired_token [OF assms that(1)] Some that(2) by auto
    show ?thesis
    proof (cases "t = u")
      case True
      with u w show ?thesis by simp
    next
      case False
      with other w show ?thesis by (cases "map_of (tokens st) t") auto
    qed
  qed
qed

lemma without_session_ok:
  assumes "elev_ok st"
  shows "elev_ok (without_session sid st)"
proof -
  have p: "tokens_paired st" using assms by (simp add: elev_ok_def)
  note m = without_session_maps [OF p, of sid]
  have "tokens_paired (without_session sid st)"
  proof (rule pairedI)
    fix t s subj e
    assume "map_of (tokens (without_session sid st)) t = Some (s, subj, e)"
    then have t: "map_of (tokens st) t = Some (s, subj, e)" "s \<noteq> sid"
      by (auto simp: m(2) split: option.splits if_splits)
    show "map_of (by_session (without_session sid st)) s = Some t"
      using paired_token [OF p t(1)] t(2) by (simp add: m(1))
  next
    fix s t
    assume "map_of (by_session (without_session sid st)) s = Some t"
    then have s: "map_of (by_session st) s = Some t" "s \<noteq> sid" by (auto simp: m(1) split: if_splits)
    from paired_session [OF p s(1)] s(2)
    show "t \<noteq> [] \<and> (\<exists>subj e. map_of (tokens (without_session sid st)) t = Some (s, subj, e))"
      by (auto simp: m(2))
  qed
  moreover have "distinct (map fst (tokens (without_session sid st)))"
    using assms by (simp add: elev_ok_def without_session_def Let_def distinct_dpop)
  ultimately show ?thesis by (simp add: elev_ok_def)
qed

lemma clear_eq: "elev_clear sid st = (without_session sid st)\<lparr>attempts := dpop sid (attempts st)\<rparr>"
  by (simp add: elev_clear_def without_session_def Let_def)

lemma mint_eq:
  "mint cfg now tok sid subject st =
     (Granted tok (now + of_int (ec_ttl_seconds cfg)) (ec_ttl_seconds cfg),
      (let st' = without_session sid (st\<lparr>attempts := dpop sid (attempts st)\<rparr>) in
       st'\<lparr>tokens := dset tok (sid, subject, now + of_int (ec_ttl_seconds cfg)) (tokens st'),
           by_session := dset sid tok (by_session st')\<rparr>))"
  by (simp add: mint_def without_session_def Let_def)

lemma mint_ok:
  assumes "elev_ok st" "tok \<noteq> []" "map_of (tokens st) tok = None"
  shows "elev_ok (snd (mint cfg now tok sid subject st))"
proof -
  define st0 where "st0 = st\<lparr>attempts := dpop sid (attempts st)\<rparr>"
  have ok0: "elev_ok st0" by (rule ok_cong [OF assms(1)]) (simp_all add: st0_def)
  then have p0: "tokens_paired st0" by (simp add: elev_ok_def)
  have fresh0: "map_of (tokens st0) tok = None" using assms(3) by (simp add: st0_def)
  define w where "w = without_session sid st0"
  have okw: "elev_ok w" unfolding w_def by (rule without_session_ok [OF ok0])
  then have pw: "tokens_paired w" by (simp add: elev_ok_def)
  have freshw: "map_of (tokens w) tok = None"
    using fresh0 by (simp add: w_def without_session_maps(2) [OF p0])
  have gone: "map_of (by_session w) sid = None"
    by (simp add: w_def without_session_maps(1) [OF p0])
  let ?st = "snd (mint cfg now tok sid subject st)"
  have b: "map_of (by_session ?st) = (map_of (by_session w))(sid \<mapsto> tok)"
    and t: "map_of (tokens ?st) = (map_of (tokens w))(tok \<mapsto> (sid, subject, now + of_int (ec_ttl_seconds cfg)))"
    and d: "tokens ?st = dset tok (sid, subject, now + of_int (ec_ttl_seconds cfg)) (tokens w)"
    by (simp_all add: mint_eq Let_def st0_def [symmetric] w_def [symmetric])
  have "tokens_paired ?st"
  proof (rule pairedI)
    fix u s subj e
    assume "map_of (tokens ?st) u = Some (s, subj, e)"
    then show "map_of (by_session ?st) s = Some u"
      using paired_token [OF pw, of u s subj e] gone unfolding t b
      by (cases "u = tok"; cases "s = sid") auto
  next
    fix s u
    assume "map_of (by_session ?st) s = Some u"
    then show "u \<noteq> [] \<and> (\<exists>subj e. map_of (tokens ?st) u = Some (s, subj, e))"
      using paired_session [OF pw, of s u] freshw assms(2) unfolding t b
      by (cases "s = sid"; cases "u = tok") auto
  qed
  then show ?thesis using okw by (simp add: elev_ok_def d distinct_dset)
qed

lemma record_failure_frame:
  "record_failure cfg now sid st = (c, u, st') \<Longrightarrow>
     tokens st' = tokens st \<and> by_session st' = by_session st \<and> replay st' = replay st"
  by (auto simp: record_failure_def Let_def split: if_splits option.splits prod.splits)

lemma fail_with_frame:
  assumes "fail_with cfg now sid mk st = (r, st')"
  shows "tokens st' = tokens st \<and> by_session st' = by_session st \<and> replay st' = replay st"
  using assms record_failure_frame [of cfg now sid st]
  by (auto simp: fail_with_def split: prod.splits option.splits)

lemma failed_frame:
  "map_prod Some id (fail_with cfg now sid mk st) = (r, st') \<Longrightarrow>
     r \<noteq> None \<and> tokens st' = tokens st \<and> by_session st' = by_session st \<and> replay st' = replay st"
  by (cases "fail_with cfg now sid mk st") (auto dest: fail_with_frame)

lemma totp_stage_frame:
  assumes "totp_stage cfg w now tf sid subject totp st = (r, st')"
  shows "tokens st' = tokens st \<and> by_session st' = by_session st"
  using assms by (auto simp: totp_stage_def Let_def dest!: failed_frame split: if_splits option.splits)

lemma password_stage_frame:
  assumes "password_stage cfg w tf sid password st = (r, st')"
  shows "tokens st' = tokens st \<and> by_session st' = by_session st \<and> replay st' = replay st"
  using assms by (auto simp: password_stage_def Let_def dest!: failed_frame split: if_splits option.splits)

lemma totp_stage_pass:
  assumes "totp_stage cfg w now tf sid subject totp st = (None, st')"
  obtains code seed where "totp = Some code" "code \<noteq> []" "totp_seed w = Some seed" "totp_verify w seed code now"
    "(code, time_step now) \<notin> set (used_codes st subject)" "attempts st' = attempts st"
    "used_codes st' subject
       = filter (\<lambda>(c, k). \<not> k < time_step now - 2) (used_codes st subject @ [(code, time_step now)])"
    "\<forall>s. s \<noteq> subject \<longrightarrow> used_codes st' s = used_codes st s"
proof -
  have g: "given totp"
  proof (rule ccontr)
    assume "\<not> given totp"
    with assms failed_frame [of cfg tf sid _ st None st'] show False by (simp add: totp_stage_def Let_def)
  qed
  then obtain code where c: "totp = Some code" "code \<noteq> []" by (auto simp: given_def split: option.splits)
  define st1 where "st1 = st\<lparr>replay := dset subject (used_codes st subject) (replay st)\<rparr>"
  have u: "(code, time_step now) \<notin> set (used_codes st subject)"
  proof
    assume "(code, time_step now) \<in> set (used_codes st subject)"
    with assms c g failed_frame [of cfg tf sid Replayed st1 None st'] show False
      by (simp add: totp_stage_def Let_def st1_def)
  qed
  have "case totp_seed w of None \<Rightarrow> False | Some s \<Rightarrow> totp_verify w s code now"
  proof (rule ccontr)
    assume "\<not> ?thesis"
    with assms c g u failed_frame [of cfg tf sid "InvalidFactor ''Invalid TOTP code.''" st1 None st'] show False
      by (simp add: totp_stage_def Let_def st1_def)
  qed
  then obtain seed where s: "totp_seed w = Some seed" "totp_verify w seed code now"
    by (auto split: option.splits)
  have "st' = st1\<lparr>replay := dset subject
      (filter (\<lambda>(c, k). \<not> k < time_step now - 2) (used_codes st subject @ [(code, time_step now)])) (replay st1)\<rparr>"
    using assms c g u s by (simp add: totp_stage_def Let_def st1_def)
  then have "attempts st' = attempts st"
    "used_codes st' subject
       = filter (\<lambda>(c, k). \<not> k < time_step now - 2) (used_codes st subject @ [(code, time_step now)])"
    "\<forall>s. s \<noteq> subject \<longrightarrow> used_codes st' s = used_codes st s"
    by (simp_all add: st1_def used_codes_def)
  with c s u show thesis by (intro that)
qed

lemma password_stage_pass:
  assumes "password_stage cfg w tf sid password st = (None, st')"
  obtains pw h where "password = Some pw" "pw \<noteq> []" "password_hash w = Some h" "password_verify w h pw" "st' = st"
  using assms that
  by (auto simp: password_stage_def Let_def given_def dest!: failed_frame split: if_splits option.splits)

lemma gc_frame [simp]: "attempts (elev_gc now st) = attempts st" "replay (elev_gc now st) = replay st"
    "used_codes (elev_gc now st) = used_codes st"
proof -
  have "attempts (fold drop_token ts st) = attempts st \<and> replay (fold drop_token ts st) = replay st" for ts
    by (induction ts arbitrary: st) simp_all
  then show "attempts (elev_gc now st) = attempts st" "replay (elev_gc now st) = replay st"
    "used_codes (elev_gc now st) = used_codes st"
    by (simp_all add: elev_gc_def gc_loop_drop used_codes_def fun_eq_iff)
qed

definition granted :: "elev_result \<Rightarrow> bool" where
  "granted r = (case r of Granted _ _ _ \<Rightarrow> True | _ \<Rightarrow> False)"

lemma failed_not_granted:
  assumes "map_prod Some id (fail_with cfg now sid mk st) = (Some r, st')" "\<And>n. \<not> granted (mk n)"
  shows "\<not> granted r"
  using assms by (auto simp: fail_with_def granted_def split: prod.splits option.splits)

lemma totp_stage_not_granted: "totp_stage cfg w now tf sid subject totp st = (Some r, st') \<Longrightarrow> \<not> granted r"
  by (auto simp: totp_stage_def Let_def granted_def
      dest!: failed_not_granted split: if_splits option.splits)

lemma password_stage_not_granted: "password_stage cfg w tf sid password st = (Some r, st') \<Longrightarrow> \<not> granted r"
  by (auto simp: password_stage_def Let_def granted_def
      dest!: failed_not_granted split: if_splits option.splits)

lemma finish_cases:
  assumes "finish_verify cfg w now tf tok sid subject totp password st = (r, st')"
  obtains (refused) "\<not> granted r" "tokens st' = tokens st" "by_session st' = by_session st"
  | (minted) st2 where "tokens st2 = tokens st" "by_session st2 = by_session st"
      "(r, st') = mint cfg now tok sid subject st2"
      "totp_required cfg \<Longrightarrow> totp_stage cfg w now tf sid subject totp st = (None, st2)"
      "\<not> totp_required cfg \<Longrightarrow> st2 = st"
      "password_required cfg \<Longrightarrow> password_stage cfg w tf sid password st2 = (None, st2)"
proof -
  define a where "a = (if totp_required cfg then totp_stage cfg w now tf sid subject totp st else (None, st))"
  obtain ra sa where a: "a = (ra, sa)" by (cases a)
  have fa: "tokens sa = tokens st \<and> by_session sa = by_session st"
    using a totp_stage_frame by (auto simp: a_def split: if_splits)
  define b where "b = (if password_required cfg then password_stage cfg w tf sid password sa else (None, sa))"
  obtain rb sb where b: "b = (rb, sb)" by (cases b)
  have fb: "tokens sb = tokens sa \<and> by_session sb = by_session sa"
    using b password_stage_frame by (auto simp: b_def split: if_splits)
  consider (unprov) "totp_required cfg \<and> \<not> given (totp_seed w) \<or> password_required cfg \<and> \<not> given (password_hash w)"
    | (run) "(r, st') = (case ra of Some x \<Rightarrow> (x, sa) | None \<Rightarrow>
        (case rb of Some x \<Rightarrow> (x, sb) | None \<Rightarrow> mint cfg now tok sid subject sb))"
    using assms a b unfolding finish_verify_def a_def b_def
    by (cases "totp_required cfg \<and> \<not> given (totp_seed w)"; cases "password_required cfg \<and> \<not> given (password_hash w)")
      (simp_all split: option.splits)
  then show thesis
  proof cases
    case unprov
    with assms have "st' = st \<and> \<not> granted r" unfolding finish_verify_def
      by (cases "totp_required cfg \<and> \<not> given (totp_seed w)") (auto simp: granted_def)
    then show thesis by (intro refused) simp_all
  next
    case run
    show thesis
    proof (cases ra)
      case (Some x)
      then have "\<not> granted x" using a totp_stage_not_granted by (auto simp: a_def split: if_splits)
      with Some run fa show thesis by (intro refused) simp_all
    next
      case ra: None
      show thesis
      proof (cases rb)
        case (Some x)
        then have "\<not> granted x" using b password_stage_not_granted by (auto simp: b_def split: if_splits)
        with Some run ra fa fb show thesis by (intro refused) simp_all
      next
        case None
        have sb: "sb = sa" using b None by (auto simp: b_def elim: password_stage_pass split: if_splits)
        show thesis
          by (rule minted [of sa]) (use fa run ra None sb a b in \<open>auto simp: a_def b_def\<close>)
      qed
    qed
  qed
qed

lemma mint_result:
  assumes "mint cfg now tok sid subject st = (r, st')"
  shows "r = Granted tok (now + of_int (ec_ttl_seconds cfg)) (ec_ttl_seconds cfg)"
    "map_of (tokens st') tok = Some (sid, subject, now + of_int (ec_ttl_seconds cfg))"
    "map_of (by_session st') sid = Some tok" "used_codes st' = used_codes st"
  using assms by (auto simp: mint_def Let_def used_codes_def fun_eq_iff)

subsection \<open>Runs\<close>

text \<open>Any interleaving of calls; \<open>k\<close> bounds the time steps at which verifications finish.\<close>

inductive elev_step :: "elev_config \<Rightarrow> int \<Rightarrow> elev_state \<Rightarrow> elev_state \<Rightarrow> bool" for cfg k where
  collect: "elev_step cfg k st (elev_gc now st)"
| begin_call: "elev_step cfg k st (snd (begin_verify now t_gc sid st))"
| finish_call: "time_step now \<le> k \<Longrightarrow> tok \<noteq> [] \<Longrightarrow> map_of (tokens st) tok = None \<Longrightarrow>
     elev_step cfg k st (snd (finish_verify cfg w now t_fail tok sid subject totp password st))"
| clear_call: "elev_step cfg k st (elev_clear sid st)"

inductive_cases elev_stepE: "elev_step cfg k st st'"

lemma begin_ok: "elev_ok st \<Longrightarrow> elev_ok (snd (begin_verify now t_gc sid st))"
proof -
  assume "elev_ok st"
  then have "elev_ok (elev_gc t_gc st)" by (rule gc_ok)
  then show ?thesis
    by (rule ok_cong) (simp_all add: begin_verify_def Let_def split: option.split)
qed

lemma finish_ok:
  assumes "elev_ok st" "tok \<noteq> []" "map_of (tokens st) tok = None"
  shows "elev_ok (snd (finish_verify cfg w now t_fail tok sid subject totp password st))"
proof -
  obtain r st' where f: "finish_verify cfg w now t_fail tok sid subject totp password st = (r, st')"
    by (metis surj_pair)
  then show ?thesis
  proof (cases rule: finish_cases)
    case refused
    with f show ?thesis using ok_cong [OF assms(1)] by simp
  next
    case (minted st2)
    have "elev_ok st2" by (rule ok_cong [OF assms(1) minted(1,2)])
    then have "elev_ok (snd (mint cfg now tok sid subject st2))"
      by (rule mint_ok) (simp_all add: assms minted(1))
    with f minted(3) show ?thesis by (metis snd_conv)
  qed
qed

lemma elev_step_ok: "elev_step cfg k st st' \<Longrightarrow> elev_ok st \<Longrightarrow> elev_ok st'"
proof (erule elev_stepE)
  fix sid assume "elev_ok st" "st' = elev_clear sid st"
  then show "elev_ok st'"
    unfolding clear_eq using ok_cong [OF without_session_ok] by simp
qed (simp_all add: gc_ok begin_ok finish_ok)

lemma elev_run_ok: "(elev_step cfg k)\<^sup>*\<^sup>* init_elev st \<Longrightarrow> elev_ok st"
proof (induction rule: rtranclp_induct)
  case base
  show ?case by (simp add: elev_ok_def init_elev_def tokens_paired_def maps_paired_def)
qed (rule elev_step_ok)

lemma is_elevated_iff:
  assumes "elev_ok st"
  shows "fst (is_elevated t_gc now sid st)
     \<longleftrightarrow> (\<exists>t subj e. map_of (tokens st) t = Some (sid, subj, e) \<and> e > t_gc \<and> e > now)"
proof -
  have p: "tokens_paired st" and d: "distinct (map fst (tokens st))" using assms by (simp_all add: elev_ok_def)
  note g = gc_facts(2,3) [OF p d]
  show ?thesis
  proof (cases "map_of (by_session st) sid")
    case None
    then have "map_of (tokens st) t \<noteq> Some (sid, subj, e)" for t subj e
      using paired_token [OF p, of t sid subj e] by auto
    with None show ?thesis by (simp add: is_elevated_def g)
  next
    case (Some u)
    from paired_session [OF p Some] obtain subj e
      where u: "u \<noteq> []" "map_of (tokens st) u = Some (sid, subj, e)" by blast
    have "t = u" if "map_of (tokens st) t = Some (sid, a, b)" for t a b
      using paired_token [OF p that] Some by simp
    then have "(\<exists>t subj e. map_of (tokens st) t = Some (sid, subj, e) \<and> e > t_gc \<and> e > now) \<longleftrightarrow> e > t_gc \<and> e > now"
      using u(2) by (metis Pair_inject option.inject)
    moreover have "fst (is_elevated t_gc now sid st) \<longleftrightarrow> e > t_gc \<and> e > now"
      using Some u by (auto simp: is_elevated_def g)
    ultimately show ?thesis by simp
  qed
qed

lemma used_kept_finish:
  assumes "finish_verify cfg w now tf tok sid subject totp password st = (r, st')"
    and "(c, k) \<in> set (used_codes st s)" "time_step now \<le> k + 2"
  shows "(c, k) \<in> set (used_codes st' s)"
proof -
  have stage: "(c, k) \<in> set (used_codes st1 s)" if "totp_stage cfg w now tf sid subject totp st = (ra, st1)" for ra st1
  proof (cases ra)
    case None
    from that [unfolded None] show ?thesis
    proof (rule totp_stage_pass)
      fix code seed
      assume "used_codes st1 subject
          = filter (\<lambda>(c, k). \<not> k < time_step now - 2) (used_codes st subject @ [(code, time_step now)])"
        "\<forall>s. s \<noteq> subject \<longrightarrow> used_codes st1 s = used_codes st s"
      with assms(2,3) show ?thesis by (cases "s = subject") auto
    qed
  next
    case (Some x)
    have "used_codes (st\<lparr>replay := dset subject (used_codes st subject) (replay st)\<rparr>) = used_codes st"
      by (auto simp: used_codes_def fun_eq_iff)
    moreover have "used_codes st1 = used_codes st2"
      if "map_prod Some id (fail_with cfg tf sid mk st2) = (ra, st1)" for mk st2
      using failed_frame [OF that] by (simp add: used_codes_def fun_eq_iff)
    ultimately have "used_codes st1 = used_codes st"
      using that Some unfolding totp_stage_def Let_def by (auto split: if_splits)
    with assms(2) show ?thesis by simp
  qed
  have pw: "used_codes st2 = used_codes st1" if "password_stage cfg w tf sid password st1 = (rb, st2)" for st1 rb st2
    using password_stage_frame [OF that] by (simp add: used_codes_def fun_eq_iff)
  have mt: "used_codes (snd (mint cfg now tok sid subject st2)) = used_codes st2" for st2
    using mint_result(4) by (metis surjective_pairing)
  obtain ra sa where a: "(if totp_required cfg then totp_stage cfg w now tf sid subject totp st else (None, st)) = (ra, sa)"
    by (metis surj_pair)
  obtain rb sb where b: "(if password_required cfg then password_stage cfg w tf sid password sa else (None, sa)) = (rb, sb)"
    by (metis surj_pair)
  have "(c, k) \<in> set (used_codes sa s)" using a stage assms(2) by (auto split: if_splits)
  moreover have "used_codes sb = used_codes sa" using b pw by (auto split: if_splits)
  moreover have "st' = st \<or> st' = sa \<or> st' = sb \<or> st' = snd (mint cfg now tok sid subject sb)"
  proof (cases ra)
    case None
    have "finish_verify cfg w now tf tok sid subject totp password st = (r, st') \<Longrightarrow>
        st' = st \<or> (r, st') = (case (rb, sb) of (Some r, st2) \<Rightarrow> (r, st2) | (None, st2) \<Rightarrow> mint cfg now tok sid subject st2)"
      unfolding finish_verify_def a None by (simp add: b split: if_splits)
    with assms(1) show ?thesis by (cases rb) (auto, metis snd_conv)
  next
    case (Some x)
    with assms(1) show ?thesis unfolding finish_verify_def a by (auto split: if_splits)
  qed
  ultimately show ?thesis using assms(2) mt by auto
qed

lemma used_kept_step:
  assumes "elev_step cfg (k + 2) st st'" "(c, k) \<in> set (used_codes st s)"
  shows "(c, k) \<in> set (used_codes st' s)"
  using assms(1)
proof (rule elev_stepE)
  fix now t_gc sid assume "st' = snd (begin_verify now t_gc sid st)"
  moreover have "used_codes (snd (begin_verify now t_gc sid st)) = used_codes st"
    by (simp add: begin_verify_def Let_def used_codes_def fun_eq_iff split: option.split)
  ultimately show ?thesis using assms(2) by simp
next
  fix sid assume "st' = elev_clear sid st"
  moreover have "used_codes (elev_clear sid st) = used_codes st"
    by (simp add: clear_eq without_session_def Let_def used_codes_def fun_eq_iff)
  ultimately show ?thesis using assms(2) by simp
next
  fix now tok w tf sid subject totp password
  assume "st' = snd (finish_verify cfg w now tf tok sid subject totp password st)" "time_step now \<le> k + 2"
  with assms(2) show ?thesis using used_kept_finish by (metis surjective_pairing)
qed (use assms(2) in simp)

lemma used_kept_run:
  "(elev_step cfg (k + 2))\<^sup>*\<^sup>* st st' \<Longrightarrow> (c, k) \<in> set (used_codes st s) \<Longrightarrow> (c, k) \<in> set (used_codes st' s)"
  by (induction rule: rtranclp_induct) (auto dest: used_kept_step)

lemma begin_verify_cases:
  assumes "begin_verify now t_gc sid st = (r, st')"
  shows "used_codes st' = used_codes st"
    and "r = None \<longleftrightarrow> (\<forall>c u. map_of (attempts st) sid = Some (c, u) \<longrightarrow> u \<le> now)"
  using assms
  by (auto simp: begin_verify_def Let_def used_codes_def fun_eq_iff split: option.splits if_splits)

fun failures :: "elev_config \<Rightarrow> string \<Rightarrow> rat list \<Rightarrow> elev_state \<Rightarrow> elev_state" where
  "failures cfg sid [] st = st"
| "failures cfg sid (t # ts) st = failures cfg sid ts (snd (snd (record_failure cfg t sid st)))"

lemma failures_count:
  assumes "map_of (attempts st) sid = (if n = 0 then None else Some (n, 0))" "n \<ge> 0"
    and "n + int (length ts) < ec_max_attempts cfg"
  shows "map_of (attempts (failures cfg sid ts st)) sid
     = (if n + int (length ts) = 0 then None else Some (n + int (length ts), 0))"
  using assms
proof (induction ts arbitrary: n st)
  case (Cons t ts)
  let ?st = "snd (snd (record_failure cfg t sid st))"
  have "map_of (attempts ?st) sid = (if n + 1 = 0 then None else Some (n + 1, 0))"
    using Cons.prems by (auto simp: record_failure_def Let_def)
  from Cons.IH [OF this] Cons.prems show ?case by (simp add: add.assoc)
qed simp

lemma failures_append: "failures cfg sid (ts @ us) st = failures cfg sid us (failures cfg sid ts st)"
  by (induction ts arbitrary: st) simp_all

subsection \<open>Samples\<close>

definition sample_config :: elev_config where
  "sample_config = \<lparr>ec_method = METHOD_TOTP, ec_ttl_seconds = 300, ec_max_attempts = 1, ec_lockout_seconds = 300\<rparr>"

text \<open>A verifier in the manner of \<open>valid_window = 1\<close> whose code for step \<open>n\<close> is a string of length \<open>n\<close>.\<close>

definition window_world :: elev_world where
  "window_world = \<lparr>totp_seed = Some ''seed'', password_hash = None,
     totp_verify = (\<lambda>s c t. \<bar>int (length c) - time_step t\<bar> \<le> 1), password_verify = (\<lambda>h p. False)\<rparr>"

subsection \<open>Properties of elevation\<close>

text \<open>
  C24: One live token per session.  In every state reachable by any interleaving of collections,
  begun and finished verifications (with fresh tokens) and clears, two tokens of a session are the
  same token, and \<open>is_elevated\<close> answers true exactly when the session owns a token that outlives
  both clock readings.
\<close>

theorem one_token_per_session:
  assumes "(elev_step cfg k)\<^sup>*\<^sup>* init_elev st"
  shows "(map_of (tokens st) t1 = Some (sid, s1, e1) \<and> map_of (tokens st) t2 = Some (sid, s2, e2) \<longrightarrow> t1 = t2)
    \<and> (fst (is_elevated t_gc now sid st)
         \<longleftrightarrow> (\<exists>t subj e. map_of (tokens st) t = Some (sid, subj, e) \<and> e > t_gc \<and> e > now))"
proof -
  have ok: "elev_ok st" by (rule elev_run_ok [OF assms])
  then have p: "tokens_paired st" by (simp add: elev_ok_def)
  have "t1 = t2" if "map_of (tokens st) t1 = Some (sid, s1, e1)" "map_of (tokens st) t2 = Some (sid, s2, e2)"
    using paired_token [OF p that(1)] paired_token [OF p that(2)] by simp
  then show ?thesis using is_elevated_iff [OF ok] by blast
qed

theorem one_token_per_session_witness:
  "fst (is_elevated 60 60 ''s''
     (snd (finish_verify sample_config window_world 30 30 ''tok'' ''s'' ''bob'' (Some ''1'') None init_elev)))"
proof -
  let ?st = "snd (finish_verify sample_config window_world 30 30 ''tok'' ''s'' ''bob'' (Some ''1'') None init_elev)"
  have "time_step 30 \<le> 1" by code_simp
  then have "(elev_step sample_config 1)\<^sup>*\<^sup>* init_elev ?st"
    by (intro r_into_rtranclp elev_step.finish_call) (simp_all add: init_elev_def)
  from one_token_per_session [OF this, where sid = "''s''" and t_gc = 60 and now = 60]
  have "fst (is_elevated 60 60 ''s'' ?st)
      \<longleftrightarrow> (\<exists>t subj e. map_of (tokens ?st) t = Some (''s'', subj, e) \<and> e > 60 \<and> e > 60)" by blast
  moreover have "map_of (tokens ?st) ''tok'' = Some (''s'', ''bob'', 330) \<and> (330::rat) > 60 \<and> (330::rat) > 60"
    by (rule conjI) (code_simp, simp)
  ultimately show ?thesis by blast
qed

text \<open>
  C25: No grant without every configured factor.  A call that returns a token found the session
  unlocked, presented a TOTP code that the verifier accepts for the stored seed and that was not in
  the replay set of this time step (when TOTP is configured) and a password that matches the stored
  hash (when a password is configured); the minted token belongs to that session and subject
  and expires one ttl after the call.
\<close>

theorem grant_requires_factors:
  assumes "verify_and_mint cfg w now t_gc tf tok sid subject totp password st = (Granted tk e ttl, st')"
  shows "(\<forall>c u. map_of (attempts st) sid = Some (c, u) \<longrightarrow> u \<le> now)
    \<and> (totp_required cfg \<longrightarrow> (\<exists>code seed. totp = Some code \<and> code \<noteq> [] \<and> totp_seed w = Some seed
          \<and> totp_verify w seed code now \<and> (code, time_step now) \<notin> set (used_codes st subject)))
    \<and> (password_required cfg \<longrightarrow> (\<exists>pw h. password = Some pw \<and> pw \<noteq> [] \<and> password_hash w = Some h
          \<and> password_verify w h pw))
    \<and> tk = tok \<and> e = now + of_int (ec_ttl_seconds cfg)
    \<and> map_of (tokens st') tok = Some (sid, subject, e) \<and> map_of (by_session st') sid = Some tok"
proof -
  obtain r1 st1 where b: "begin_verify now t_gc sid st = (r1, st1)" by (metis surj_pair)
  have r1: "r1 = None"
  proof (cases r1)
    case (Some x)
    then have "\<not> granted x" using b
      by (auto simp: begin_verify_def Let_def granted_def split: option.splits if_splits)
    with assms b Some show ?thesis by (auto simp: verify_and_mint_def granted_def)
  qed
  note bv = begin_verify_cases [OF b]
  from assms b r1 have "finish_verify cfg w now tf tok sid subject totp password st1 = (Granted tk e ttl, st')"
    by (simp add: verify_and_mint_def)
  then show ?thesis
  proof (cases rule: finish_cases)
    case refused
    then show ?thesis by (simp add: granted_def)
  next
    case (minted st2)
    note mr = mint_result [OF minted(3) [symmetric]]
    have "totp_required cfg \<longrightarrow> (\<exists>code seed. totp = Some code \<and> code \<noteq> [] \<and> totp_seed w = Some seed
          \<and> totp_verify w seed code now \<and> (code, time_step now) \<notin> set (used_codes st subject))"
      using minted(4) bv(1) by (auto elim!: totp_stage_pass)
    moreover have "password_required cfg \<longrightarrow> (\<exists>pw h. password = Some pw \<and> pw \<noteq> [] \<and> password_hash w = Some h
          \<and> password_verify w h pw)"
      using minted(6) by (auto elim!: password_stage_pass)
    ultimately show ?thesis using bv(2) r1 mr by simp
  qed
qed

theorem grant_requires_factors_witness:
  "totp_verify window_world ''seed'' ''1'' 30 \<and> totp_required sample_config"
proof -
  let ?run = "verify_and_mint sample_config window_world 30 30 30 ''tok'' ''s'' ''bob'' (Some ''1'') None init_elev"
  have f: "fst ?run = Granted ''tok'' 330 300" by code_simp
  then have "?run = (Granted ''tok'' 330 300, snd ?run)" by (metis prod.collapse)
  from grant_requires_factors [OF this] have "totp_required sample_config \<longrightarrow>
      (\<exists>code seed. Some ''1'' = Some code \<and> code \<noteq> [] \<and> totp_seed window_world = Some seed
          \<and> totp_verify window_world seed code 30 \<and> (code, time_step 30) \<notin> set (used_codes init_elev ''bob''))"
    by blast
  moreover have "totp_required sample_config" "totp_seed window_world = Some ''seed''"
    by (simp_all add: totp_required_def sample_config_def window_world_def)
  ultimately show ?thesis by simp
qed

text \<open>
  C26: Lockout.  Starting without a failure record, any number of failures below \<open>max_attempts\<close> leaves the session with exactly that
  count and not locked, so that a call at any time from the epoch on gets past the lock check.  The \<open>max_attempts\<close>-th failure locks the session for
  \<open>lockout_seconds\<close> from its own time, and until then a sequential call returns the lock, mints nothing and consumes no code,
  whatever factors it presents.
\<close>

theorem lockout_after_max_failures:
  assumes "map_of (attempts st) sid = None" and "int (length ts) < ec_max_attempts cfg" and "0 \<le> now'"
  shows "map_of (attempts (failures cfg sid ts st)) sid
       = (if ts = [] then None else Some (int (length ts), 0))
    \<and> fst (begin_verify now' t_gc sid (failures cfg sid ts st)) = None
    \<and> (int (length ts) + 1 = ec_max_attempts cfg \<longrightarrow>
       (let until = t + of_int (ec_lockout_seconds cfg); st1 = failures cfg sid (ts @ [t]) st in
        map_of (attempts st1) sid = Some (ec_max_attempts cfg, until)
        \<and> (now < until \<longrightarrow> verify_and_mint cfg w now t_gc tf tok sid subject totp password st1
             = (Locked until, elev_gc t_gc st1))))"
proof (intro conjI impI)
  show a: "map_of (attempts (failures cfg sid ts st)) sid
       = (if ts = [] then None else Some (int (length ts), 0))"
    using failures_count [of st sid 0 ts cfg] assms(1,2) by simp
  show "fst (begin_verify now' t_gc sid (failures cfg sid ts st)) = None"
    using begin_verify_cases(2) [of now' t_gc sid "failures cfg sid ts st"] a assms(3) by (auto simp: prod_eq_iff split: if_splits)
  assume m: "int (length ts) + 1 = ec_max_attempts cfg"
  have "map_of (attempts (failures cfg sid (ts @ [t]) st)) sid
      = Some (ec_max_attempts cfg, t + of_int (ec_lockout_seconds cfg))"
    using a m by (auto simp: failures_append record_failure_def Let_def)
  then show "let until = t + of_int (ec_lockout_seconds cfg); st1 = failures cfg sid (ts @ [t]) st in
        map_of (attempts st1) sid = Some (ec_max_attempts cfg, until)
        \<and> (now < until \<longrightarrow> verify_and_mint cfg w now t_gc tf tok sid subject totp password st1
             = (Locked until, elev_gc t_gc st1))"
    by (simp add: verify_and_mint_def begin_verify_def Let_def)
qed

theorem lockout_after_max_failures_witness:
  "fst (verify_and_mint sample_config window_world 60 60 60 ''tok'' ''s'' ''bob'' (Some ''12'') None
      (failures sample_config ''s'' [30] init_elev)) = Locked 330"
proof -
  have "map_of (attempts init_elev) ''s'' = None" by (simp add: init_elev_def)
  moreover have "int (length ([]::rat list)) < ec_max_attempts sample_config" by (simp add: sample_config_def)
  ultimately show ?thesis
    using lockout_after_max_failures [of init_elev "''s''" "[]" sample_config 60 60 30 60 window_world 60 "''tok''" "''bob''" "Some ''12''" None]
    by (simp add: Let_def sample_config_def)
qed

text \<open>
  No replay within the step.  Once a code was granted to a subject, no later call, for any session
  and after any interleaving of steps whose verifications stay within two time steps, is granted
  with the same code in the same time step.
\<close>

theorem code_not_replayed_in_step:
  assumes "verify_and_mint cfg w now t_gc tf tok sid subject (Some code) password st = (Granted tk e ttl, st1)"
    and "totp_required cfg" and "(elev_step cfg (time_step now + 2))\<^sup>*\<^sup>* st1 st2"
    and "time_step now' = time_step now"
    and "verify_and_mint cfg w' now' t_gc' tf' tok' sid' subject (Some code) password' st2 = (r, st3)"
  shows "\<not> granted r"
proof
  assume "granted r"
  then obtain tk' e' ttl' where "r = Granted tk' e' ttl'" by (cases r) (simp_all add: granted_def)
  with grant_requires_factors [OF assms(5) [unfolded this]] assms(2,4)
  have fresh: "(code, time_step now) \<notin> set (used_codes st2 subject)" by auto
  obtain r1 sb where b: "begin_verify now t_gc sid st = (r1, sb)" by (metis surj_pair)
  have r1: "r1 = None"
  proof (cases r1)
    case (Some x)
    with assms(1) b show ?thesis
      by (auto simp: verify_and_mint_def begin_verify_def Let_def split: option.splits if_splits)
  qed
  with assms(1) b have "finish_verify cfg w now tf tok sid subject (Some code) password sb = (Granted tk e ttl, st1)"
    by (simp add: verify_and_mint_def)
  then have "(code, time_step now) \<in> set (used_codes st1 subject)"
  proof (cases rule: finish_cases)
    case refused
    then show ?thesis by (simp add: granted_def)
  next
    case (minted sm)
    from minted(4) [OF assms(2)] have "(code, time_step now) \<in> set (used_codes sm subject)"
      by (rule totp_stage_pass) auto
    with mint_result(4) [OF minted(3) [symmetric]] show ?thesis by simp
  qed
  with used_kept_run [OF assms(3)] fresh show False by blast
qed

theorem code_not_replayed_in_step_witness:
  "\<not> granted (fst (verify_and_mint sample_config window_world 45 45 45 ''tok2'' ''other'' ''bob'' (Some ''1'') None
      (snd (verify_and_mint sample_config window_world 30 30 30 ''tok'' ''s'' ''bob'' (Some ''1'') None init_elev))))"
proof -
  let ?run = "verify_and_mint sample_config window_world 30 30 30 ''tok'' ''s'' ''bob'' (Some ''1'') None init_elev"
  let ?again = "verify_and_mint sample_config window_world 45 45 45 ''tok2'' ''other'' ''bob'' (Some ''1'') None (snd ?run)"
  have f: "fst ?run = Granted ''tok'' 330 300" by code_simp
  have run: "?run = (Granted ''tok'' 330 300, snd ?run)" by (subst f [symmetric]) (rule prod.collapse [symmetric])
  have r: "totp_required sample_config" by (simp add: totp_required_def sample_config_def)
  have t: "time_step 45 = time_step 30" by code_simp
  show ?thesis
    by (rule code_not_replayed_in_step [OF run r rtranclp.rtrancl_refl t]) (rule prod.collapse [symmetric])
qed

text \<open>
  The replay key is the server's time step, the verifier's window is wider.  With a verifier that
  accepts a code in the neighbouring steps, as \<open>valid_window=1\<close> does, a code granted in one step is
  granted again to the same subject in the next step.
\<close>

theorem code_replayed_in_next_step:
  "let (r1, st1) = verify_and_mint sample_config window_world 30 30 30 ''tok'' ''s'' ''bob'' (Some ''1'') None init_elev;
       (r2, st2) = verify_and_mint sample_config window_world 60 60 60 ''tok2'' ''s'' ''bob'' (Some ''1'') None st1 in
   granted r1 \<and> granted r2"
  by code_simp

text \<open>
  The lock is checked only before the vault is read.  Two calls that both begin before either
  finishes both get a verification: after the first failed and locked the session (here with one
  permitted attempt), the second is still verified and granted a token while the lock is in force.
\<close>

theorem interleaved_call_passes_lock:
  "let (b1, st1) = begin_verify 30 30 ''s'' init_elev;
       (b2, st2) = begin_verify 30 30 ''s'' st1;
       (r1, st3) = finish_verify sample_config window_world 30 30 ''t1'' ''s'' ''bob'' (Some ''999'') None st2;
       (r2, st4) = finish_verify sample_config window_world 30 30 ''t2'' ''s'' ''bob'' (Some ''1'') None st3 in
   b1 = None \<and> b2 = None \<and> r1 = Locked 330 \<and> granted r2
   \<and> fst (begin_verify 30 30 ''s'' st3) = Some (Locked 330) \<and> fst (is_elevated 31 31 ''s'' st4)"
  by code_simp

end
