(* ===== verification/CommandGuard.thy ===== *)
theory CommandGuard
  imports Prelude PyText
begin

text \<open>
  The command guard of the terminal relay,
  \<open>plugins/cat_terminal_relay_plugin/command_guard.py\<close>, over a model of the tokenizer of
  Python's \<open>shlex\<close> in the one configuration the guard uses (\<open>posix\<close>, \<open>whitespace_split\<close>): with
  no comment character and no punctuation for \<open>shlex.split\<close>, with \<open>#\<close> and \<open>();<>|&\<close> for
  \<open>shlex.shlex(punctuation_chars=True)\<close>.  The allow lists the module reads from the environment
  are parameters.  Input is ASCII.
\<close>

subsection \<open>The tokenizer of the standard library\<close>

datatype lex_state = Blank | Word | Punct | Quoted char | Escaped "char option" | Comment

definition shlex_ws :: "char \<Rightarrow> bool" where
  "shlex_ws c = (c \<in> {CHR '' '', CHR 0x09, CHR 0x0D, CHR 0x0A})"

definition quote_char :: "char \<Rightarrow> bool" where
  "quote_char c = (c \<in> {CHR 0x27, CHR 0x22})"

definition backslash :: char where
  "backslash = CHR 0x5C"

definition emit :: "string \<Rightarrow> bool \<Rightarrow> string + string list \<Rightarrow> string + string list" where
  "emit tok quoted rest = rbind rest (\<lambda>ts. Inr (if tok \<noteq> [] \<or> quoted then tok # ts else ts))"

text \<open>The state and token after the first character of a token.\<close>

definition start_token :: "(char \<Rightarrow> bool) \<Rightarrow> char \<Rightarrow> lex_state \<times> string" where
  "start_token punct c =
     (if c = backslash then (Escaped None, [])
      else if punct c then (Punct, [c])
      else if quote_char c then (Quoted c, [])
      else (Word, [c]))"

fun lex :: "(char \<Rightarrow> bool) \<Rightarrow> (char \<Rightarrow> bool) \<Rightarrow> lex_state \<Rightarrow> string \<Rightarrow> bool \<Rightarrow> string \<Rightarrow> string + string list" where
  "lex punct comm st tok quoted [] =
     (case st of
        Quoted _ \<Rightarrow> Inl ''No closing quotation''
      | Escaped _ \<Rightarrow> Inl ''No escaped character''
      | _ \<Rightarrow> emit tok quoted (Inr []))"
| "lex punct comm st tok quoted (c # cs) =
     (case st of
        Blank \<Rightarrow>
          (if shlex_ws c then emit tok quoted (lex punct comm Blank [] False cs)
           else if comm c then lex punct comm Comment tok quoted cs
           else (let (st', t) = start_token punct c in lex punct comm st' (tok @ t) quoted cs))
      | Comment \<Rightarrow> lex punct comm (if c = CHR 0x0A then Blank else Comment) tok quoted cs
      | Quoted q \<Rightarrow>
          (if c = q then lex punct comm Word tok True cs
           else if c = backslash \<and> q = CHR 0x22 then lex punct comm (Escaped (Some q)) tok True cs
           else lex punct comm (Quoted q) (tok @ [c]) True cs)
      | Escaped (Some q) \<Rightarrow>
          lex punct comm (Quoted q)
            (tok @ (if c \<noteq> backslash \<and> c \<noteq> q then [backslash] else []) @ [c]) quoted cs
      | Escaped None \<Rightarrow> lex punct comm Word (tok @ [c]) quoted cs
      | Punct \<Rightarrow>
          (if shlex_ws c then emit tok quoted (lex punct comm Blank [] False cs)
           else if comm c then emit tok quoted (lex punct comm Comment [] False cs)
           else if punct c then lex punct comm Punct (tok @ [c]) quoted cs
           else (let (st', t) = start_token punct c in emit tok quoted (lex punct comm st' t False cs)))
      | Word \<Rightarrow>
          (if shlex_ws c then emit tok quoted (lex punct comm Blank [] False cs)
           else if comm c then emit tok quoted (lex punct comm Comment [] False cs)
           else if quote_char c then lex punct comm (Quoted c) tok quoted cs
           else if c = backslash then lex punct comm (Escaped None) tok quoted cs
           else if \<not> punct c then lex punct comm Word (tok @ [c]) quoted cs
           else (let (st', t) = start_token punct c in emit tok quoted (lex punct comm st' t False cs))))"

definition shlex_split :: "string \<Rightarrow> string + string list" where
  "shlex_split s = lex (\<lambda>c. False) (\<lambda>c. False) Blank [] False s"

definition shlex_punct :: "string \<Rightarrow> string + string list" where
  "shlex_punct s = lex (\<lambda>c. c \<in> set ''();<>|&'') (\<lambda>c. c = CHR ''#'') Blank [] False s"

subsection \<open>Blocked patterns\<close>

fun some_suffix :: "(string \<Rightarrow> bool) \<Rightarrow> string \<Rightarrow> bool" where
  "some_suffix p [] = p []"
| "some_suffix p (c # cs) = (p (c # cs) \<or> some_suffix p cs)"

definition redirect_abs :: "string \<Rightarrow> bool" where
  "redirect_abs s = some_suffix (\<lambda>t. case t of [] \<Rightarrow> False
     | c # cs \<Rightarrow> c = CHR ''>'' \<and> starts_with ''/'' (dropWhile is_ws cs)) s"

definition dash_rf :: "string \<Rightarrow> bool" where
  "dash_rf s = some_suffix (\<lambda>t. case t of [] \<Rightarrow> False
     | c # cs \<Rightarrow> c = CHR ''-'' \<and> (CHR ''r'' \<in> set (takeWhile is_lower cs) \<or> CHR ''f'' \<in> set (takeWhile is_lower cs))) s"

definition rm_flags :: "string \<Rightarrow> bool" where
  "rm_flags s = some_suffix (\<lambda>t. starts_with ''rm'' t
     \<and> (case drop 2 t of [] \<Rightarrow> False | c # cs \<Rightarrow> is_ws c \<and> dash_rf cs)) s"

definition blocked_patterns :: "(string \<times> (string \<Rightarrow> bool)) list" where
  "blocked_patterns =
     [(''[;&|`]'', \<lambda>s. list_ex (\<lambda>c. c \<in> set '';&|`'') s),
      ([backslash] @ ''$'' @ [backslash] @ ''('', contains ''$(''),
      ([backslash] @ ''.'' @ [backslash] @ ''./'', contains ''../''),
      (''>'' @ [backslash] @ ''s*/'', redirect_abs),
      (''rm'' @ [backslash] @ ''s+.*-[a-z]*[rf]'', rm_flags)]"

definition first_blocked :: "string \<Rightarrow> string option" where
  "first_blocked s = map_option fst (find (\<lambda>(n, p). p s) blocked_patterns)"

subsection \<open>Guarding a line\<close>

definition binaries_of_env :: "string \<Rightarrow> string set" where
  "binaries_of_env env = set (filter (\<lambda>b. b \<noteq> []) (map strip (split_on CHR '','' env)))"

definition privileged_binaries :: "string \<Rightarrow> string set" where
  "privileged_binaries env =
     (if binaries_of_env env \<noteq> {} then binaries_of_env env else {''claude'', ''codex''})"

definition classify_privileged :: "string set \<Rightarrow> string \<Rightarrow> bool" where
  "classify_privileged priv line =
     (if strip line = [] then False
      else case shlex_split (strip line) of
        Inl e \<Rightarrow> False
      | Inr [] \<Rightarrow> False
      | Inr (binary # args) \<Rightarrow> binary \<in> priv \<or> binary = ''agy'' \<and> ''-p'' \<in> set (binary # args))"

record line_verdict =
  lv_allowed :: bool
  lv_reason :: "string option"
  lv_binary :: "string option"
  lv_privileged :: bool

definition line_verdict_of :: "bool \<Rightarrow> string option \<Rightarrow> string option \<Rightarrow> bool \<Rightarrow> line_verdict" where
  "line_verdict_of a r b p = \<lparr>lv_allowed = a, lv_reason = r, lv_binary = b, lv_privileged = p\<rparr>"

definition has_newline :: "string \<Rightarrow> bool" where
  "has_newline s = (CHR 0x0A \<in> set s \<or> CHR 0x0D \<in> set s)"

definition guard_line :: "string set \<Rightarrow> string set \<Rightarrow> string option \<Rightarrow> line_verdict" where
  "guard_line allowed priv line_opt =
     (case line_opt of
        None \<Rightarrow> line_verdict_of False (Some ''empty_line'') None False
      | Some line \<Rightarrow>
          (let stripped = strip line in
           if stripped = [] then line_verdict_of True None None False
           else if has_newline line then line_verdict_of False (Some ''blocked_pattern:newline'') None False
           else case first_blocked stripped of
             Some p \<Rightarrow> line_verdict_of False (Some (''blocked_pattern:'' @ p)) None False
           | None \<Rightarrow>
               (case shlex_split stripped of
                  Inl e \<Rightarrow> line_verdict_of False (Some (''parse_error:'' @ e)) None False
                | Inr [] \<Rightarrow> line_verdict_of True None None False
                | Inr (binary # args) \<Rightarrow>
                    (if binary \<notin> allowed
                     then line_verdict_of False (Some ''binary_not_allowed'') (Some binary)
                            (classify_privileged priv stripped)
                     else line_verdict_of True None (Some binary) (classify_privileged priv stripped)))))"

subsection \<open>Guarding a pipeline\<close>

fun filter_redirects :: "string list \<Rightarrow> string list" where
  "filter_redirects [] = []"
| "filter_redirects (t # ts) =
     (case ts of
        u # us \<Rightarrow> if t = ''2'' \<and> (u = ''>'' \<or> u = ''>>'') then filter_redirects (drop 1 us)
                  else if t \<in> {''<'', ''>'', ''>>''} then filter_redirects us
                  else t # filter_redirects ts
      | [] \<Rightarrow> if t \<in> {''<'', ''>'', ''>>''} then [] else [t])"

definition is_operator :: "string \<Rightarrow> bool" where
  "is_operator t = (t \<in> {''|'', ''||'', ''&&'', '';'', ''&''})"

fun segments_of :: "string list \<Rightarrow> string list \<Rightarrow> string list list" where
  "segments_of current [] = (if current = [] then [] else [current])"
| "segments_of current (t # ts) =
     (if is_operator t then (if current = [] then segments_of [] ts else current # segments_of [] ts)
      else segments_of (current @ [t]) ts)"

definition env_assign :: "string \<Rightarrow> bool" where
  "env_assign t =
     (case t of [] \<Rightarrow> False
      | c # cs \<Rightarrow> (is_lower c \<or> is_upper c \<or> c = CHR ''_'')
          \<and> starts_with ''='' (dropWhile (\<lambda>c. is_lower c \<or> is_upper c \<or> is_digit c \<or> c = CHR ''_'') cs))"

definition leading_binary :: "string list \<Rightarrow> string option" where
  "leading_binary seg =
     (case dropWhile env_assign (filter_redirects seg) of [] \<Rightarrow> None | b # _ \<Rightarrow> Some b)"

record pipeline_verdict =
  pv_allowed :: bool
  pv_reason :: "string option"
  pv_binaries :: "string list"
  pv_privileged :: bool

definition pipeline_verdict_of :: "bool \<Rightarrow> string option \<Rightarrow> string list \<Rightarrow> bool \<Rightarrow> pipeline_verdict" where
  "pipeline_verdict_of a r bs p = \<lparr>pv_allowed = a, pv_reason = r, pv_binaries = bs, pv_privileged = p\<rparr>"

text \<open>\<open>Inl\<close> when a segment has no binary: the verdict then carries what was collected so far.\<close>

fun scan_segments ::
    "string set \<Rightarrow> string list list \<Rightarrow> string list \<Rightarrow> bool \<Rightarrow> string list \<times> bool + string list \<times> bool" where
  "scan_segments priv [] bs p = Inr (bs, p)"
| "scan_segments priv (seg # segs) bs p =
     (case leading_binary seg of
        None \<Rightarrow> Inl (bs, p)
      | Some b \<Rightarrow> scan_segments priv segs (bs @ [b])
                    (p \<or> b \<in> priv \<or> b = ''agy'' \<and> ''-p'' \<in> set seg))"

definition guard_pipeline :: "string set \<Rightarrow> string set \<Rightarrow> string option \<Rightarrow> pipeline_verdict" where
  "guard_pipeline allowed priv line_opt =
     (case line_opt of
        None \<Rightarrow> pipeline_verdict_of True None [] False
      | Some line \<Rightarrow>
          (if length line > 4096 then pipeline_verdict_of False (Some ''command_too_long'') [] False
           else if strip line = [] then pipeline_verdict_of True None [] False
           else if has_newline line then pipeline_verdict_of False (Some ''blocked_pattern:newline'') [] False
           else if CHR ''`'' \<in> set line \<or> contains ''$('' line
           then pipeline_verdict_of False (Some ''blocked_pattern:substitution'') [] False
           else case shlex_punct line of
             Inl e \<Rightarrow> pipeline_verdict_of False (Some (''parse_error:'' @ e)) [] False
           | Inr ts \<Rightarrow>
               (case scan_segments priv (segments_of [] ts) [] False of
                  Inl (bs, p) \<Rightarrow> pipeline_verdict_of False (Some ''redirect_without_binary'') bs p
                | Inr (bs, p) \<Rightarrow>
                    (if \<exists>b\<in>set bs. b \<notin> allowed
                     then pipeline_verdict_of False (Some ''binary_not_allowed'') bs p
                     else pipeline_verdict_of True None bs p))))"

subsection \<open>Facts on tokens and segments\<close>

lemma emit_Inr: "emit tok q r = Inr ts \<longleftrightarrow> (\<exists>us. r = Inr us \<and> ts = (if tok \<noteq> [] \<or> q then tok # us else us))"
  unfolding emit_def by (cases r) (simp_all add: eq_commute [of _ ts])

definition pending :: "lex_state \<Rightarrow> string \<Rightarrow> bool \<Rightarrow> bool" where
  "pending st tok q \<longleftrightarrow> tok \<noteq> [] \<or> q \<or> (case st of Quoted _ \<Rightarrow> True | Escaped _ \<Rightarrow> True | _ \<Rightarrow> False)"

lemma emit_pending: "tok \<noteq> [] \<or> q \<Longrightarrow> emit tok q r \<noteq> Inr []"
  by (auto simp: emit_Inr)

lemma lex_pending:
  "pending st tok q \<Longrightarrow> st \<noteq> Blank \<Longrightarrow> st \<noteq> Comment \<Longrightarrow> lex punct comm st tok q s \<noteq> Inr []"
proof (induction s arbitrary: st tok q)
  case Nil
  then show ?case by (cases st) (simp_all add: pending_def emit_pending)
next
  case (Cons c cs)
  have IH: "lex punct comm Word (tok @ [c]) q cs \<noteq> Inr []" "lex punct comm Punct (tok @ [c]) q cs \<noteq> Inr []"
    "lex punct comm (Quoted d) t q cs \<noteq> Inr []" "lex punct comm (Escaped e) t q cs \<noteq> Inr []"
    "lex punct comm (Quoted d) t True cs \<noteq> Inr []" "lex punct comm (Escaped e) t True cs \<noteq> Inr []"
    "lex punct comm Word t True cs \<noteq> Inr []" for d t e
    by (rule Cons.IH; simp add: pending_def)+
  show ?case
  proof (cases st)
    case Word
    then have "tok \<noteq> [] \<or> q" using Cons.prems by (simp add: pending_def)
    with Word show ?thesis using IH emit_pending by (simp split: prod.split)
  next
    case Punct
    then have "tok \<noteq> [] \<or> q" using Cons.prems by (simp add: pending_def)
    with Punct show ?thesis using IH emit_pending by (simp split: prod.split)
  next
    case (Escaped e)
    with IH show ?thesis by (cases e) simp_all
  qed (use IH Cons.prems in simp_all)
qed

lemma strip_first:
  assumes "strip s = c # cs"
  shows "\<not> is_ws c"
proof -
  have "suffix (dropWhile is_ws (rev (dropWhile is_ws s))) (rev (dropWhile is_ws s))"
    by (simp add: suffix_dropWhile)
  then have "prefix (strip s) (dropWhile is_ws s)"
    by (simp add: strip_def suffix_to_prefix)
  with assms have "\<exists>r. dropWhile is_ws s = c # r" by (auto simp: prefix_def)
  then show ?thesis using hd_dropWhile [of is_ws s] by force
qed

lemma shlex_split_nonempty:
  assumes "strip s \<noteq> []"
  shows "shlex_split (strip s) \<noteq> Inr []"
proof -
  from assms obtain c cs where s: "strip s = c # cs" by (cases "strip s") auto
  have "list_all (\<lambda>c. \<not> shlex_ws c \<or> is_ws c) [CHR '' '', CHR 0x09, CHR 0x0D, CHR 0x0A]" by code_simp
  then have "\<not> shlex_ws c" using strip_first [OF s] by (auto simp: shlex_ws_def)
  then have "shlex_split (strip s) = (let (st', t) = start_token (\<lambda>c. False) c in
      lex (\<lambda>c. False) (\<lambda>c. False) st' t False cs)"
    by (simp add: shlex_split_def s)
  moreover have "lex (\<lambda>c. False) (\<lambda>c. False) st' t False cs \<noteq> Inr []"
    if "start_token (\<lambda>c. False) c = (st', t)" for st' t
    by (rule lex_pending) (use that in \<open>auto simp: start_token_def pending_def split: if_splits\<close>)
  ultimately show ?thesis by (simp split: prod.split)
qed

lemma first_blocked_None:
  "first_blocked s = None \<longleftrightarrow> (\<forall>c\<in>set s. c \<notin> set '';&|`'') \<and> \<not> contains ''$('' s \<and> \<not> contains ''../'' s
     \<and> \<not> redirect_abs s \<and> \<not> rm_flags s"
  by (auto simp: first_blocked_def blocked_patterns_def list_ex_iff)

lemma concat_segments:
  "concat (segments_of current ts) = current @ filter (\<lambda>t. \<not> is_operator t) ts"
  by (induction ts arbitrary: current) simp_all

lemma segments_nonempty: "[] \<notin> set (segments_of current ts)"
  by (induction ts arbitrary: current) simp_all

definition runs_privileged :: "string set \<Rightarrow> string list \<Rightarrow> bool" where
  "runs_privileged priv seg =
     (case leading_binary seg of None \<Rightarrow> False | Some b \<Rightarrow> b \<in> priv \<or> b = ''agy'' \<and> ''-p'' \<in> set seg)"

lemma scan_segments_iff:
  "scan_segments priv segs bs p = Inr (bs', p') \<longleftrightarrow>
     list_all (\<lambda>seg. leading_binary seg \<noteq> None) segs
     \<and> bs' = bs @ map (the \<circ> leading_binary) segs \<and> p' = (p \<or> list_ex (runs_privileged priv) segs)"
proof (induction segs arbitrary: bs p)
  case Nil
  then show ?case by auto
next
  case (Cons seg segs)
  show ?case
  proof (cases "leading_binary seg")
    case None
    then show ?thesis by simp
  next
    case (Some b)
    have "runs_privileged priv seg = (b \<in> priv \<or> b = ''agy'' \<and> ''-p'' \<in> set seg)"
      by (simp add: runs_privileged_def Some)
    then show ?thesis by (simp add: Some Cons.IH disj_assoc)
  qed
qed

definition segment_allowed :: "string set \<Rightarrow> string list \<Rightarrow> bool" where
  "segment_allowed allowed seg = (case leading_binary seg of None \<Rightarrow> False | Some b \<Rightarrow> b \<in> allowed)"

lemma segments_allowed_iff:
  "list_all (segment_allowed allowed) segs
     \<longleftrightarrow> list_all (\<lambda>seg. leading_binary seg \<noteq> None) segs
         \<and> \<not> (\<exists>b\<in>set (map (the \<circ> leading_binary) segs). b \<notin> allowed)"
  by (induction segs) (auto simp: segment_allowed_def split: option.splits)

subsection \<open>Properties of the guard\<close>

text \<open>
  A guarded line, complete.  A line that is not blank is allowed exactly when it has no newline, its
  stripped text has no chain operator, no command substitution, no parent traversal, no absolute
  redirect and no recursive or forced \<open>rm\<close>, it tokenizes, and its first token is an allowed binary,
  which the verdict names; in particular nothing runs under an empty allow list.
\<close>

theorem guard_line_allows_iff:
  assumes "strip line \<noteq> []"
  shows "lv_allowed (guard_line allowed priv (Some line)) \<longleftrightarrow>
     \<not> has_newline line \<and> (\<forall>c\<in>set (strip line). c \<notin> set '';&|`'') \<and> \<not> contains ''$('' (strip line)
     \<and> \<not> contains ''../'' (strip line) \<and> \<not> redirect_abs (strip line) \<and> \<not> rm_flags (strip line)
     \<and> (\<exists>b args. shlex_split (strip line) = Inr (b # args) \<and> b \<in> allowed
          \<and> lv_binary (guard_line allowed priv (Some line)) = Some b)"
proof (cases "has_newline line \<or> first_blocked (strip line) \<noteq> None")
  case True
  then show ?thesis using assms first_blocked_None [of "strip line"]
    by (cases "has_newline line")
      (auto simp: guard_line_def Let_def line_verdict_of_def split: option.split)
next
  case False
  then have f: "first_blocked (strip line) = None" "\<not> has_newline line" by auto
  note f0 = f(1) [unfolded first_blocked_None]
  show ?thesis
  proof (cases "shlex_split (strip line)")
    case (Inl e)
    with assms f show ?thesis by (simp add: guard_line_def Let_def line_verdict_of_def)
  next
    case (Inr ts)
    with shlex_split_nonempty [OF assms] obtain b args where ts: "ts = b # args" by (cases ts) auto
    with assms f f0 Inr show ?thesis by (simp add: guard_line_def Let_def line_verdict_of_def)
  qed
qed

theorem guard_line_allows_iff_witness:
  "lv_allowed (guard_line {''git''} {} (Some ''git status''))
   \<and> \<not> lv_allowed (guard_line {''git''} {} (Some ''git status; rm x''))"
proof -
  have s: "strip ''git status'' = ''git status''" "strip ''git status; rm x'' = ''git status; rm x''" by code_simp+
  have a: "\<not> has_newline ''git status''" "first_blocked ''git status'' = None"
    "shlex_split ''git status'' = Inr [''git'', ''status'']"
    "lv_binary (guard_line {''git''} {} (Some ''git status'')) = Some ''git''" by code_simp+
  have "lv_allowed (guard_line {''git''} {} (Some ''git status''))"
    using a guard_line_allows_iff [of "''git status''" "{''git''}" "{}"] unfolding s first_blocked_None by simp
  moreover have "\<not> lv_allowed (guard_line {''git''} {} (Some ''git status; rm x''))"
    using guard_line_allows_iff [of "''git status; rm x''" "{''git''}" "{}"] unfolding s by simp
  ultimately show ?thesis ..
qed

text \<open>
  C31: A guarded pipeline, complete.  A line within the length limit that is not blank is allowed exactly
  when it has no newline and no command substitution, it tokenizes, and the leading binary of every
  segment (after redirects and environment assignments) is allowed; the segments are the tokens
  without the operators, none of them empty, and an allowed line is flagged privileged exactly when
  one of its segments runs a privileged binary.
\<close>

theorem guard_pipeline_allows_iff:
  assumes "strip line \<noteq> []" and "length line \<le> 4096"
  shows "(pv_allowed (guard_pipeline allowed priv (Some line)) \<longleftrightarrow>
       \<not> has_newline line \<and> CHR ''`'' \<notin> set line \<and> \<not> contains ''$('' line
       \<and> (\<exists>ts. shlex_punct line = Inr ts
            \<and> list_all (segment_allowed allowed) (segments_of [] ts)))
    \<and> (\<forall>ts. concat (segments_of [] ts) = filter (\<lambda>t. \<not> is_operator t) ts
            \<and> [] \<notin> set (segments_of [] ts)
            \<and> (pv_allowed (guard_pipeline allowed priv (Some line)) \<and> shlex_punct line = Inr ts \<longrightarrow>
                 pv_privileged (guard_pipeline allowed priv (Some line))
                   = list_ex (runs_privileged priv) (segments_of [] ts)))"
proof -
  let ?v = "guard_pipeline allowed priv (Some line)"
  have part: "concat (segments_of [] ts) = filter (\<lambda>t. \<not> is_operator t) ts \<and> [] \<notin> set (segments_of [] ts)" for ts
    using concat_segments [of "[]" ts] segments_nonempty by simp
  show ?thesis
  proof (cases "has_newline line \<or> CHR ''`'' \<in> set line \<or> contains ''$('' line")
    case True
    then have "\<not> pv_allowed ?v" using assms by (auto simp: guard_pipeline_def pipeline_verdict_of_def)
    with True part show ?thesis by auto
  next
    case False
    then have v: "?v = (case shlex_punct line of
             Inl e \<Rightarrow> pipeline_verdict_of False (Some (''parse_error:'' @ e)) [] False
           | Inr ts \<Rightarrow>
               (case scan_segments priv (segments_of [] ts) [] False of
                  Inl (bs, p) \<Rightarrow> pipeline_verdict_of False (Some ''redirect_without_binary'') bs p
                | Inr (bs, p) \<Rightarrow>
                    (if \<exists>b\<in>set bs. b \<notin> allowed
                     then pipeline_verdict_of False (Some ''binary_not_allowed'') bs p
                     else pipeline_verdict_of True None bs p)))"
      using assms by (simp add: guard_pipeline_def)
    show ?thesis
    proof (cases "shlex_punct line")
      case (Inl e)
      with v part show ?thesis by (simp add: pipeline_verdict_of_def)
    next
      case (Inr ts)
      let ?segs = "segments_of [] ts"
      show ?thesis
      proof (cases "scan_segments priv ?segs [] False")
        case S: (Inl r)
        then have "\<not> list_all (\<lambda>seg. leading_binary seg \<noteq> None) ?segs"
          using scan_segments_iff [of priv ?segs "[]" False] by auto
        then have "\<not> list_all (segment_allowed allowed) ?segs" by (simp add: segments_allowed_iff)
        with S Inr v part show ?thesis by (cases r) (simp add: pipeline_verdict_of_def)
      next
        case S: (Inr r)
        obtain bs q where r: "r = (bs, q)" by (cases r)
        from S r scan_segments_iff [of priv ?segs "[]" False bs q]
        have lead: "list_all (\<lambda>seg. leading_binary seg \<noteq> None) ?segs"
          and bs: "bs = map (the \<circ> leading_binary) ?segs" and q: "q = list_ex (runs_privileged priv) ?segs" by auto
        have "(\<exists>b\<in>set bs. b \<notin> allowed)
            \<longleftrightarrow> \<not> list_all (segment_allowed allowed) ?segs"
          using lead unfolding bs by (simp add: segments_allowed_iff)
        with S r Inr v part q False show ?thesis by (simp add: pipeline_verdict_of_def)
      qed
    qed
  qed
qed

theorem guard_pipeline_allows_iff_witness:
  "pv_allowed (guard_pipeline {''git'', ''grep''} {} (Some ''git status | grep foo''))
   \<and> \<not> pv_allowed (guard_pipeline {''git''} {} (Some ''git status | rm -rf x''))"
proof -
  have f: "strip ''git status | grep foo'' \<noteq> []" "strip ''git status | rm -rf x'' \<noteq> []"
    "shlex_punct ''git status | grep foo'' = Inr [''git'', ''status'', ''|'', ''grep'', ''foo'']"
    "shlex_punct ''git status | rm -rf x'' = Inr [''git'', ''status'', ''|'', ''rm'', ''-rf'', ''x'']"
    "\<not> has_newline ''git status | grep foo''" "\<not> contains ''$('' ''git status | grep foo''"
    "list_all (segment_allowed {''git'', ''grep''})
       (segments_of [] [''git'', ''status'', ''|'', ''grep'', ''foo''])"
    "segments_of [] [''git'', ''status'', ''|'', ''rm'', ''-rf'', ''x''] = [[''git'', ''status''], [''rm'', ''-rf'', ''x'']]"
    "\<not> list_all (segment_allowed {''git''}) [[''git'', ''status''], [''rm'', ''-rf'', ''x'']]"
    by code_simp+
  have "pv_allowed (guard_pipeline {''git'', ''grep''} {} (Some ''git status | grep foo''))"
    using guard_pipeline_allows_iff [OF f(1), of "{''git'', ''grep''}" "{}"] f by simp
  moreover have "\<not> pv_allowed (guard_pipeline {''git''} {} (Some ''git status | rm -rf x''))"
    using guard_pipeline_allows_iff [OF f(2), of "{''git''}" "{}"] f by simp
  ultimately show ?thesis ..
qed

text \<open>
  Operators the split does not know.  The tokenizer groups adjacent punctuation and treats \<open>#\<close> as a
  comment inside a word, while the split knows five operators only: with \<open>ls\<close> as the only allowed
  binary the guard allows \<open>ls;(rm x)\<close>, \<open>ls|&rm x\<close> and \<open>ls a#;rm x\<close>, whose shell runs \<open>rm\<close>, and
  reports \<open>ls\<close> as the only binary.
\<close>

theorem pipeline_guard_misses_binaries:
  "list_all (\<lambda>line. guard_pipeline {''ls''} {} (Some line) = pipeline_verdict_of True None [''ls''] False)
     [''ls;(rm x)'', ''ls|&rm x'', ''ls a#;rm x'']"
  by code_simp

end
