(* ===== verification/RateLimit.thy ===== *)
theory RateLimit
  imports Prelude PyText Complex_Main
begin

text \<open>
  The sliding-window rate limiter, \<open>api/rate_limit_middleware.py\<close>.  The recorded hits are an
  insertion-ordered dictionary from client to times, times are exact rationals from one monotonic
  clock, an ASGI scope is a record of the fields the middleware reads.  \<open>rate_call\<close> is
  \<open>__call__\<close>: it returns what happens to the request and the new state; the run \<open>serve\<close> also
  collects the requests that were counted and forwarded.
\<close>

record rate_config =
  rl_enabled :: bool
  rl_max_requests :: int
  rl_window_seconds :: int
  rl_path_prefixes :: "string list"
  rl_trust_proxy :: bool
  rl_max_tracked_ips :: int
  rl_prune_interval :: int

record rate_state =
  hits :: "(string \<times> rat list) list"
  last_prune :: rat

record http_scope =
  sc_type :: string
  sc_method :: string
  sc_path :: string
  sc_headers :: "(string \<times> string) list"
  sc_client :: "string option"

datatype rate_outcome = Forward | TooMany int | Crash

definition client_ip :: "rate_config \<Rightarrow> http_scope \<Rightarrow> string" where
  "client_ip cfg sc =
     (let direct = (case sc_client sc of None \<Rightarrow> ''unknown'' | Some c \<Rightarrow> c) in
      if rl_trust_proxy cfg then
        (case find (\<lambda>(n, v). lower n = ''x-forwarded-for'') (sc_headers sc) of
           None \<Rightarrow> direct
         | Some (_, v) \<Rightarrow> (if v = [] then direct else strip (hd (split_on CHR '','' v))))
      else direct)"

definition recent :: "rate_config \<Rightarrow> rat \<Rightarrow> rat list \<Rightarrow> rat list" where
  "recent cfg now ts = filter (\<lambda>t. t > now - of_int (rl_window_seconds cfg)) ts"

definition prune :: "rate_config \<Rightarrow> rat \<Rightarrow> rate_state \<Rightarrow> rate_state" where
  "prune cfg now st =
     (if now - last_prune st < of_int (rl_prune_interval cfg) then st
      else (let kept = filter (\<lambda>(ip, ts). ts \<noteq> []) (map (\<lambda>(ip, ts). (ip, recent cfg now ts)) (hits st));
                kept' = (if int (length kept) > rl_max_tracked_ips cfg
                         then drop (nat (int (length kept) - rl_max_tracked_ips cfg)) kept else kept) in
            \<lparr>hits = kept', last_prune = now\<rparr>))"

definition retry_after :: "rate_config \<Rightarrow> rat \<Rightarrow> rat \<Rightarrow> int" where
  "retry_after cfg now oldest =
     (let x = of_int (rl_window_seconds cfg) - (now - oldest);
          r = (if x < 0 then \<lceil>x\<rceil> else \<lfloor>x\<rfloor>) + 1 in
      if r < 1 then 1 else r)"

definition hits_of :: "rate_state \<Rightarrow> string \<Rightarrow> rat list" where
  "hits_of st ip = (case map_of (hits st) ip of None \<Rightarrow> [] | Some ts \<Rightarrow> ts)"

definition limit_request :: "rate_config \<Rightarrow> string \<Rightarrow> rat \<Rightarrow> rate_state \<Rightarrow> rate_outcome \<times> rate_state" where
  "limit_request cfg ip now st0 =
     (let st = prune cfg now st0; rs = recent cfg now (hits_of st ip) in
      if int (length rs) \<ge> rl_max_requests cfg
      then (case rs of [] \<Rightarrow> (Crash, st) | oldest # _ \<Rightarrow> (TooMany (retry_after cfg now oldest), st))
      else (Forward, st\<lparr>hits := dset ip (rs @ [now]) (hits st)\<rparr>))"

definition is_limited :: "rate_config \<Rightarrow> http_scope \<Rightarrow> bool" where
  "is_limited cfg sc = (sc_type sc = ''http'' \<and> rl_enabled cfg \<and> sc_method sc \<noteq> ''OPTIONS''
     \<and> list_ex (\<lambda>p. starts_with p (sc_path sc)) (rl_path_prefixes cfg))"

definition rate_call :: "rate_config \<Rightarrow> http_scope \<Rightarrow> rat \<Rightarrow> rate_state \<Rightarrow> rate_outcome \<times> rate_state" where
  "rate_call cfg sc now st =
     (if is_limited cfg sc then limit_request cfg (client_ip cfg sc) now st else (Forward, st))"

fun serve :: "rate_config \<Rightarrow> (http_scope \<times> rat) list \<Rightarrow> rate_state \<Rightarrow> (string \<times> rat) list
    \<Rightarrow> (string \<times> rat) list \<times> rate_state" where
  "serve cfg [] st served = (served, st)"
| "serve cfg ((sc, now) # reqs) st served =
     (case rate_call cfg sc now st of (r, st') \<Rightarrow>
        serve cfg reqs st'
          (if is_limited cfg sc \<and> r = Forward then served @ [(client_ip cfg sc, now)] else served))"

definition init_rate :: "rat \<Rightarrow> rate_state" where
  "init_rate t = \<lparr>hits = [], last_prune = t\<rparr>"

subsection \<open>Invariants\<close>

definition within_limit :: "rate_config \<Rightarrow> rate_state \<Rightarrow> bool" where
  "within_limit cfg st \<longleftrightarrow> distinct (map fst (hits st))
     \<and> (\<forall>(ip, ts)\<in>set (hits st). ts \<noteq> [] \<and> int (length ts) \<le> rl_max_requests cfg)"

lemma hits_of_mem: "hits_of st ip \<noteq> [] \<Longrightarrow> (ip, hits_of st ip) \<in> set (hits st)"
  by (auto simp: hits_of_def split: option.splits dest: map_of_SomeD)

lemma within_limit_hits:
  "within_limit cfg st \<Longrightarrow> hits_of st ip \<noteq> [] \<Longrightarrow> int (length (hits_of st ip)) \<le> rl_max_requests cfg"
  using hits_of_mem by (fastforce simp: within_limit_def)

lemma recent_recent: "T \<ge> now \<Longrightarrow> recent cfg T (recent cfg now ts) = recent cfg T ts"
  by (auto simp: recent_def intro!: filter_cong)

lemma recent_Nil [simp]: "recent cfg T [] = []"
  by (simp add: recent_def)

lemma recent_append: "recent cfg T (xs @ ys) = recent cfg T xs @ recent cfg T ys"
  by (simp add: recent_def)

lemma length_recent: "length (recent cfg now ts) \<le> length ts"
  by (simp add: recent_def)

lemma map_of_drop: "distinct (map fst xs) \<Longrightarrow> map_of (drop n xs) k = Some v \<Longrightarrow> map_of xs k = Some v"
  by (metis (no_types) distinct_map in_set_dropD map_of_SomeD map_of_eq_Some_iff)

lemma map_of_filter_recent:
  "distinct (map fst xs) \<Longrightarrow>
     map_of (filter (\<lambda>(ip, ts). ts \<noteq> []) (map (\<lambda>(ip, ts). (ip, recent cfg now ts)) xs)) ip
     = (case map_of xs ip of None \<Rightarrow> None | Some ts \<Rightarrow> if recent cfg now ts = [] then None else Some (recent cfg now ts))"
proof (induction xs)
  case (Cons x xs)
  obtain j ts where x: "x = (j, ts)" by (cases x)
  have none: "map_of xs j = None" using Cons.prems unfolding x by (simp add: map_of_eq_None_iff)
  have IH: "map_of (filter (\<lambda>(ip, ts). ts \<noteq> []) (map (\<lambda>(ip, ts). (ip, recent cfg now ts)) xs)) ip
     = (case map_of xs ip of None \<Rightarrow> None | Some ts \<Rightarrow> if recent cfg now ts = [] then None else Some (recent cfg now ts))"
    using Cons by simp
  show ?case
  proof (cases "ip = j")
    case True
    with none IH show ?thesis unfolding x by simp
  next
    case False
    with IH show ?thesis unfolding x by simp
  qed
qed simp

lemma prune_within: "within_limit cfg st \<Longrightarrow> within_limit cfg (prune cfg now st)"
proof -
  assume w: "within_limit cfg st"
  define kept where "kept = filter (\<lambda>(ip, ts). ts \<noteq> []) (map (\<lambda>(ip, ts). (ip, recent cfg now ts)) (hits st))"
  have keys: "map fst (map (\<lambda>(ip, ts). (ip, recent cfg now ts)) (hits st)) = map fst (hits st)"
    by (simp add: case_prod_unfold comp_def)
  have "distinct (map fst (map (\<lambda>(ip, ts). (ip, recent cfg now ts)) (hits st)))"
    unfolding keys using w by (simp add: within_limit_def)
  then have "distinct (map fst kept)" unfolding kept_def by (rule distinct_map_filter)
  moreover have "ts \<noteq> [] \<and> int (length ts) \<le> rl_max_requests cfg" if "(ip, ts) \<in> set kept" for ip ts
  proof -
    from that obtain us where us: "(ip, us) \<in> set (hits st)" "ts = recent cfg now us" "ts \<noteq> []"
      by (auto simp: kept_def)
    have "int (length us) \<le> rl_max_requests cfg" using w us(1) by (auto simp: within_limit_def)
    with us length_recent [of cfg now us] show ?thesis by simp
  qed
  then have "\<forall>(ip, ts)\<in>set kept. ts \<noteq> [] \<and> int (length ts) \<le> rl_max_requests cfg" by blast
  moreover have "set (drop n kept) \<subseteq> set kept" for n by (rule set_drop_subset)
  ultimately have all: "within_limit cfg \<lparr>hits = drop n kept, last_prune = now\<rparr>" for n
    unfolding within_limit_def by (auto simp: drop_map [symmetric] distinct_drop)
  from all [of 0] all show ?thesis using w
    by (simp add: prune_def Let_def kept_def [symmetric])
qed

lemma limit_within: "within_limit cfg st \<Longrightarrow> within_limit cfg (snd (limit_request cfg ip now st))"
proof -
  assume "within_limit cfg st"
  then have w: "within_limit cfg (prune cfg now st)" by (rule prune_within)
  have keys: "set (dset ip v d) \<subseteq> insert (ip, v) (set d)" for v and d :: "(string \<times> rat list) list"
    by (induction ip v d rule: dset.induct) auto
  show ?thesis using w keys [of "recent cfg now (hits_of (prune cfg now st) ip) @ [now]" "hits (prune cfg now st)"]
    by (auto simp: limit_request_def Let_def within_limit_def distinct_dset split: list.split)
qed

lemma serve_within: "within_limit cfg st \<Longrightarrow> within_limit cfg (snd (serve cfg reqs st served))"
proof (induction cfg reqs st served rule: serve.induct)
  case (2 cfg sc now reqs st served)
  have "within_limit cfg (snd (rate_call cfg sc now st))"
    using 2(2) limit_within by (simp add: rate_call_def)
  with 2(1) show ?case by (auto split: prod.split)
qed simp

lemma prune_hits:
  assumes "distinct (map fst (hits st))" "T \<ge> now"
  shows "recent cfg T (hits_of (prune cfg now st) ip) \<in> {[], recent cfg T (hits_of st ip)}"
    and "int (length (hits st)) \<le> rl_max_tracked_ips cfg \<Longrightarrow>
       recent cfg T (hits_of (prune cfg now st) ip) = recent cfg T (hits_of st ip)"
proof -
  define kept where "kept = filter (\<lambda>(ip, ts). ts \<noteq> []) (map (\<lambda>(ip, ts). (ip, recent cfg now ts)) (hits st))"
  have m: "map_of kept ip = (case map_of (hits st) ip of None \<Rightarrow> None
      | Some ts \<Rightarrow> if recent cfg now ts = [] then None else Some (recent cfg now ts))"
    unfolding kept_def by (rule map_of_filter_recent [OF assms(1)])
  have keys: "map fst (map (\<lambda>(ip, ts). (ip, recent cfg now ts)) (hits st)) = map fst (hits st)"
    by (simp add: case_prod_unfold comp_def)
  have dk: "distinct (map fst kept)"
    unfolding kept_def by (rule distinct_map_filter) (simp only: keys assms(1))
  have rk: "recent cfg T (hits_of \<lparr>hits = kept, last_prune = now\<rparr> ip) = recent cfg T (hits_of st ip)"
  proof (cases "map_of (hits st) ip")
    case None
    with m show ?thesis by (simp add: hits_of_def)
  next
    case (Some ts)
    have "recent cfg T (recent cfg now ts) = recent cfg T ts" by (rule recent_recent [OF assms(2)])
    then show ?thesis
    proof (cases "recent cfg now ts = []")
      case True
      then have "recent cfg T ts = []" using \<open>recent cfg T (recent cfg now ts) = recent cfg T ts\<close> by simp
      with True m Some show ?thesis by (simp add: hits_of_def)
    next
      case False
      with m Some \<open>recent cfg T (recent cfg now ts) = recent cfg T ts\<close> show ?thesis by (simp add: hits_of_def)
    qed
  qed
  have drop: "hits_of \<lparr>hits = drop n kept, last_prune = now\<rparr> ip \<in> {[], hits_of \<lparr>hits = kept, last_prune = now\<rparr> ip}" for n
    using map_of_drop [OF dk, of n ip] by (auto simp: hits_of_def split: option.splits)
  have p: "prune cfg now st = st \<or> (\<exists>n. prune cfg now st = \<lparr>hits = drop n kept, last_prune = now\<rparr>
      \<and> (int (length kept) \<le> rl_max_tracked_ips cfg \<longrightarrow> n = 0))"
    unfolding prune_def Let_def kept_def [symmetric] by (auto intro: exI [of _ 0])
  then show "recent cfg T (hits_of (prune cfg now st) ip) \<in> {[], recent cfg T (hits_of st ip)}"
  proof
    assume "\<exists>n. prune cfg now st = \<lparr>hits = drop n kept, last_prune = now\<rparr>
      \<and> (int (length kept) \<le> rl_max_tracked_ips cfg \<longrightarrow> n = 0)"
    then obtain n where n: "prune cfg now st = \<lparr>hits = drop n kept, last_prune = now\<rparr>" by blast
    from drop [of n] show ?thesis unfolding n
    proof (elim insertE emptyE)
      assume "hits_of \<lparr>hits = drop n kept, last_prune = now\<rparr> ip = []"
      then show "recent cfg T (hits_of \<lparr>hits = drop n kept, last_prune = now\<rparr> ip) \<in> {[], recent cfg T (hits_of st ip)}"
        by (simp add: recent_def)
    qed (simp add: rk)
  qed simp
  assume few: "int (length (hits st)) \<le> rl_max_tracked_ips cfg"
  have "length kept \<le> length (hits st)"
    unfolding kept_def by (rule order_trans [OF length_filter_le]) simp
  with few have "int (length kept) \<le> rl_max_tracked_ips cfg" by linarith
  with p rk show "recent cfg T (hits_of (prune cfg now st) ip) = recent cfg T (hits_of st ip)" by auto
qed

definition hit_times :: "string \<Rightarrow> (string \<times> rat) list \<Rightarrow> rat list" where
  "hit_times ip served = map snd (filter (\<lambda>(j, t). j = ip) served)"

definition window_count :: "rate_config \<Rightarrow> string \<Rightarrow> rat \<Rightarrow> (string \<times> rat) list \<Rightarrow> nat" where
  "window_count cfg ip T served =
     length (filter (\<lambda>t. T - of_int (rl_window_seconds cfg) < t \<and> t \<le> T) (hit_times ip served))"

text \<open>What a run keeps: \<open>S\<close> holds every client of the run, \<open>now\<close> bounds the served times.\<close>

definition accurate :: "rate_config \<Rightarrow> string set \<Rightarrow> rat \<Rightarrow> rate_state \<Rightarrow> (string \<times> rat) list \<Rightarrow> bool" where
  "accurate cfg S now st served \<longleftrightarrow>
     distinct (map fst (hits st)) \<and> fst ` set (hits st) \<subseteq> S \<and> snd ` set served \<subseteq> {..now}
     \<and> (\<forall>ip T. T \<ge> now \<longrightarrow> recent cfg T (hit_times ip served) = recent cfg T (hits_of st ip))
     \<and> (\<forall>ip T. int (window_count cfg ip T served) \<le> max 0 (rl_max_requests cfg))"

lemma mem_key: "(a, b) \<in> set xs \<Longrightarrow> a \<in> fst ` set xs"
  by force

lemma fst_set_prune: "fst ` set (hits (prune cfg now st)) \<subseteq> fst ` set (hits st)"
  unfolding prune_def Let_def by (auto dest!: in_set_dropD intro: mem_key)

lemma distinct_prune: "distinct (map fst (hits st)) \<Longrightarrow> distinct (map fst (hits (prune cfg now st)))"
proof -
  assume d: "distinct (map fst (hits st))"
  have keys: "map fst (map (\<lambda>(ip, ts). (ip, recent cfg now ts)) (hits st)) = map fst (hits st)"
    by (simp add: case_prod_unfold comp_def)
  have "distinct (map fst (filter (\<lambda>(ip, ts). ts \<noteq> []) (map (\<lambda>(ip, ts). (ip, recent cfg now ts)) (hits st))))"
    by (rule distinct_map_filter) (simp only: keys d)
  with d show ?thesis unfolding prune_def Let_def by (auto simp: drop_map [symmetric] distinct_drop)
qed

lemma accurate_idle: "accurate cfg S now st served \<Longrightarrow> now \<le> now' \<Longrightarrow> accurate cfg S now' st served"
  unfolding accurate_def by (auto dest: order_trans)

lemma accurate_prune:
  assumes "accurate cfg S now st served" "now \<le> now'" "finite S" "int (card S) \<le> rl_max_tracked_ips cfg"
  shows "accurate cfg S now' (prune cfg now' st) served"
proof -
  have a: "distinct (map fst (hits st))" "fst ` set (hits st) \<subseteq> S" using assms(1) by (simp_all add: accurate_def)
  have "length (hits st) = card (fst ` set (hits st))"
    using distinct_card [OF a(1)] by simp
  also have "\<dots> \<le> card S" using a(2) assms(3) by (rule card_mono [rotated])
  finally have few: "int (length (hits st)) \<le> rl_max_tracked_ips cfg" using assms(4) by linarith
  have "recent cfg T (hit_times ip served) = recent cfg T (hits_of (prune cfg now' st) ip)" if "T \<ge> now'" for ip T
    using prune_hits(2) [OF a(1) that few] assms(1,2) that by (simp add: accurate_def)
  then have tracked: "\<forall>ip T. T \<ge> now' \<longrightarrow>
      recent cfg T (hit_times ip served) = recent cfg T (hits_of (prune cfg now' st) ip)" by blast
  have "snd ` set served \<subseteq> {..now}" using assms(1) by (simp add: accurate_def)
  then have le: "snd ` set served \<subseteq> {..now'}" using assms(2) by (meson atMost_subset_iff order_trans)
  have sub: "fst ` set (hits (prune cfg now' st)) \<subseteq> S" using fst_set_prune a(2) by (rule order_trans)
  have bound: "\<forall>ip T. int (window_count cfg ip T served) \<le> max 0 (rl_max_requests cfg)"
    using assms(1) unfolding accurate_def by blast
  show ?thesis unfolding accurate_def
    by (intro conjI distinct_prune a(1) sub le tracked bound)
qed

lemma hit_times_append: "hit_times ip (served @ [(j, t)]) = hit_times ip served @ (if j = ip then [t] else [])"
  by (simp add: hit_times_def)

lemma window_count_append:
  "window_count cfg ip T (served @ [(j, now)]) \<le>
     (if j = ip \<and> now \<le> T then Suc (length (recent cfg now (hit_times ip served))) else window_count cfg ip T served)"
proof (cases "j = ip \<and> now \<le> T")
  case True
  have "length (filter (\<lambda>t. T - of_int (rl_window_seconds cfg) < t \<and> t \<le> T) (hit_times ip served))
      \<le> length (recent cfg now (hit_times ip served))"
    unfolding recent_def by (rule length_filter_mono) (use True in auto)
  with True show ?thesis by (simp add: window_count_def hit_times_append)
next
  case False
  then show ?thesis by (auto simp: window_count_def hit_times_append)
qed

lemma accurate_forward:
  assumes "accurate cfg S now st served" "j \<in> S" "rl_window_seconds cfg \<ge> 0"
    and "int (length (recent cfg now (hits_of st j))) < rl_max_requests cfg"
  shows "accurate cfg S now (st\<lparr>hits := dset j (recent cfg now (hits_of st j) @ [now]) (hits st)\<rparr>)
     (served @ [(j, now)])"
proof -
  note a = assms(1) [unfolded accurate_def]
  let ?st = "st\<lparr>hits := dset j (recent cfg now (hits_of st j) @ [now]) (hits st)\<rparr>"
  have "recent cfg T (hit_times ip (served @ [(j, now)])) = recent cfg T (hits_of ?st ip)" if "T \<ge> now" for ip T
  proof (cases "ip = j")
    case True
    have "recent cfg T (hit_times j served) = recent cfg T (hits_of st j)" using a that by blast
    also have "\<dots> = recent cfg T (recent cfg now (hits_of st j))" using recent_recent [OF that] by simp
    finally have e: "recent cfg T (hit_times j served) = recent cfg T (recent cfg now (hits_of st j))" .
    have "hits_of ?st j = recent cfg now (hits_of st j) @ [now]" by (simp add: hits_of_def)
    with True show ?thesis by (simp only: hit_times_append if_True simp_thms recent_append e)
  next
    case False
    have "recent cfg T (hit_times ip served) = recent cfg T (hits_of st ip)" using a that by blast
    moreover have "hits_of ?st ip = hits_of st ip" using False by (simp add: hits_of_def)
    ultimately show ?thesis using False by (simp add: hit_times_append)
  qed
  moreover have "int (window_count cfg ip T (served @ [(j, now)])) \<le> max 0 (rl_max_requests cfg)" for ip T
  proof (cases "j = ip \<and> now \<le> T")
    case True
    have "recent cfg now (hit_times j served) = recent cfg now (hits_of st j)" using a by blast
    with True window_count_append [of cfg ip T served j now] assms(4) show ?thesis by simp
  next
    case False
    have "int (window_count cfg ip T served) \<le> max 0 (rl_max_requests cfg)" using a by blast
    with False window_count_append [of cfg ip T served j now]
    have "window_count cfg ip T (served @ [(j, now)]) \<le> window_count cfg ip T served"
      by (simp only: if_False)
    with \<open>int (window_count cfg ip T served) \<le> max 0 (rl_max_requests cfg)\<close> show ?thesis by linarith
  qed
  moreover have "distinct (map fst (hits ?st))" using a by (simp add: distinct_dset)
  moreover have "fst ` set (hits ?st) \<subseteq> S" using a assms(2) by simp
  moreover have "snd ` set (served @ [(j, now)]) \<subseteq> {..now}" using a by simp
  ultimately show ?thesis unfolding accurate_def by blast
qed

lemma accurate_call:
  assumes "accurate cfg S now st served" "now \<le> now'" "finite S" "int (card S) \<le> rl_max_tracked_ips cfg"
    and "is_limited cfg sc \<Longrightarrow> client_ip cfg sc \<in> S" "rl_window_seconds cfg \<ge> 0"
    and "rate_call cfg sc now' st = (r, st')"
  shows "accurate cfg S now' st'
     (if is_limited cfg sc \<and> r = Forward then served @ [(client_ip cfg sc, now')] else served)"
proof (cases "is_limited cfg sc")
  case False
  with assms(7) accurate_idle [OF assms(1,2)] show ?thesis by (simp add: rate_call_def)
next
  case True
  note ap = accurate_prune [OF assms(1-4)]
  let ?st = "prune cfg now' st" and ?ip = "client_ip cfg sc"
  show ?thesis
  proof (cases "int (length (recent cfg now' (hits_of ?st ?ip))) \<ge> rl_max_requests cfg")
    case full: True
    then have "r \<noteq> Forward" "st' = ?st" using True assms(7)
      by (auto simp: rate_call_def limit_request_def Let_def split: list.splits)
    with ap show ?thesis by simp
  next
    case False
    then have "r = Forward" "st' = ?st\<lparr>hits := dset ?ip (recent cfg now' (hits_of ?st ?ip) @ [now']) (hits ?st)\<rparr>"
      using True assms(7) by (auto simp: rate_call_def limit_request_def Let_def)
    with accurate_forward [OF ap assms(5) assms(6)] True False show ?thesis by simp
  qed
qed

lemma accurate_serve:
  assumes "accurate cfg S now st served" "sorted (now # map snd reqs)" "finite S"
    and "int (card S) \<le> rl_max_tracked_ips cfg" "rl_window_seconds cfg \<ge> 0"
    and "\<forall>(sc, t)\<in>set reqs. is_limited cfg sc \<longrightarrow> client_ip cfg sc \<in> S"
  shows "\<exists>now'. accurate cfg S now' (snd (serve cfg reqs st served)) (fst (serve cfg reqs st served))"
  using assms(1,2,6)
proof (induction reqs arbitrary: now st served)
  case Nil
  then show ?case by auto
next
  case (Cons q reqs)
  obtain sc t where q: "q = (sc, t)" by (cases q)
  obtain r st' where c: "rate_call cfg sc t st = (r, st')" by (metis surj_pair)
  have le: "now \<le> t" and sorted: "sorted (t # map snd reqs)" using Cons.prems(2) q by auto
  have mem: "is_limited cfg sc \<Longrightarrow> client_ip cfg sc \<in> S"
    and rest: "\<forall>(sc, t)\<in>set reqs. is_limited cfg sc \<longrightarrow> client_ip cfg sc \<in> S" using Cons.prems(3) q by auto
  from Cons.IH [OF accurate_call [OF Cons.prems(1) le assms(3,4) mem assms(5) c] sorted rest]
  show ?case by (simp add: q c)
qed

subsection \<open>Properties of the limiter\<close>

text \<open>
  C29: The window bound.  From an empty state, for a run of requests at non-decreasing times whose
  limited clients fit into the tracking limit, no window of \<open>window_seconds\<close> ever contains more
  than \<open>max_requests\<close> forwarded requests of one client.
\<close>

theorem sliding_window_bound:
  assumes "sorted (map snd reqs)" and "rl_window_seconds cfg \<ge> 0"
    and "int (card {client_ip cfg sc |sc t. (sc, t) \<in> set reqs \<and> is_limited cfg sc}) \<le> rl_max_tracked_ips cfg"
  shows "int (window_count cfg ip T (fst (serve cfg reqs (init_rate t0) []))) \<le> max 0 (rl_max_requests cfg)"
proof (cases reqs)
  case Nil
  then show ?thesis by (simp add: window_count_def hit_times_def)
next
  case (Cons q rs)
  let ?S = "{client_ip cfg sc |sc t. (sc, t) \<in> set reqs \<and> is_limited cfg sc}"
  have "finite ((\<lambda>(sc, t). client_ip cfg sc) ` set reqs)" by simp
  then have fin: "finite ?S" by (rule rev_finite_subset) force
  have "accurate cfg ?S (snd q) (init_rate t0) []"
    by (simp add: accurate_def init_rate_def hits_of_def hit_times_def window_count_def recent_def)
  moreover have "sorted (snd q # map snd reqs)" using assms(1) Cons by simp
  moreover have "\<forall>(sc, t)\<in>set reqs. is_limited cfg sc \<longrightarrow> client_ip cfg sc \<in> ?S" by auto
  ultimately obtain now' where
    "accurate cfg ?S now' (snd (serve cfg reqs (init_rate t0) [])) (fst (serve cfg reqs (init_rate t0) []))"
    using accurate_serve [OF _ _ fin assms(3,2)] by blast
  then show ?thesis by (simp only: accurate_def)
qed

definition sample_rate :: rate_config where
  "sample_rate = \<lparr>rl_enabled = True, rl_max_requests = 1, rl_window_seconds = 60, rl_path_prefixes = [''/mcp''],
     rl_trust_proxy = False, rl_max_tracked_ips = 10, rl_prune_interval = 60\<rparr>"

definition sample_scope :: http_scope where
  "sample_scope = \<lparr>sc_type = ''http'', sc_method = ''POST'', sc_path = ''/mcp/x'', sc_headers = [],
     sc_client = Some ''10.0.0.1''\<rparr>"

theorem sliding_window_bound_witness:
  "int (window_count sample_rate ''10.0.0.1'' 59
     (fst (serve sample_rate [(sample_scope, 0), (sample_scope, 59), (sample_scope, 61)] (init_rate 0) []))) \<le> 1"
proof -
  let ?reqs = "[(sample_scope, 0), (sample_scope, 59), (sample_scope, 61)] :: (http_scope \<times> rat) list"
  have "{client_ip sample_rate sc |sc t. (sc, t) \<in> set ?reqs \<and> is_limited sample_rate sc}
      \<subseteq> {client_ip sample_rate sample_scope}" by auto
  then have "card {client_ip sample_rate sc |sc t. (sc, t) \<in> set ?reqs \<and> is_limited sample_rate sc}
      \<le> card {client_ip sample_rate sample_scope}" by (rule card_mono [rotated]) simp
  then have c: "int (card {client_ip sample_rate sc |sc t. (sc, t) \<in> set ?reqs \<and> is_limited sample_rate sc})
      \<le> rl_max_tracked_ips sample_rate" by (simp add: sample_rate_def)
  have "sorted (map snd ?reqs)" "rl_window_seconds sample_rate \<ge> 0" "max 0 (rl_max_requests sample_rate) = 1"
    by (simp_all add: sample_rate_def)
  then show ?thesis using sliding_window_bound [OF _ _ c, of "''10.0.0.1''" 59 0] by simp
qed

text \<open>
  An honest \<open>Retry-After\<close>.  In every state a run reaches, a client that is told to retry after \<open>r\<close>
  seconds (at least one) and sends nothing before is forwarded when it comes back after them.
\<close>

theorem retry_after_is_enough:
  assumes "rate_call cfg sc now (snd (serve cfg reqs (init_rate t0) [])) = (TooMany r, st')"
    and "now' \<ge> now + of_int r"
  shows "r \<ge> 1 \<and> fst (rate_call cfg sc now' st') = Forward"
proof -
  define st where "st = snd (serve cfg reqs (init_rate t0) [])"
  have "within_limit cfg (init_rate t0)" by (simp add: within_limit_def init_rate_def)
  then have "within_limit cfg st" unfolding st_def by (rule serve_within)
  then have w: "within_limit cfg (prune cfg now st)" by (rule prune_within)
  let ?ip = "client_ip cfg sc" and ?W = "of_int (rl_window_seconds cfg) :: rat"
  define hs where "hs = hits_of (prune cfg now st) ?ip"
  have lim: "is_limited cfg sc" using assms(1) by (auto simp: rate_call_def split: if_splits)
  with assms(1) obtain oldest more where rs: "recent cfg now hs = oldest # more"
    and st': "st' = prune cfg now st" and r: "r = retry_after cfg now oldest"
    by (auto simp: rate_call_def limit_request_def Let_def st_def [symmetric] hs_def split: if_splits list.splits)
  have r1: "r \<ge> 1" unfolding r retry_after_def by (simp add: Let_def)
  have "of_int r > ?W - (now - oldest)"
    unfolding r retry_after_def Let_def by (simp add: not_less) linarith
  with assms(2) have old: "\<not> oldest > now' - ?W" by simp
  have later: "now' \<ge> now" using assms(2) r1 by (simp add: order_trans [of now "now + of_int r"])
  have "recent cfg now' hs = recent cfg now' (recent cfg now hs)" using recent_recent [OF later] by simp
  also have "\<dots> = recent cfg now' more" using old unfolding rs by (simp add: recent_def)
  finally have "length (recent cfg now' hs) \<le> length more" using length_recent by simp
  moreover have "length (oldest # more) \<le> length hs" using length_recent [of cfg now hs] rs by simp
  moreover have "int (length hs) \<le> rl_max_requests cfg"
    using within_limit_hits [OF w, of ?ip] rs unfolding hs_def by (cases "hits_of (prune cfg now st) ?ip") auto
  ultimately have few: "int (length (recent cfg now' hs)) < rl_max_requests cfg" by simp
  have d: "distinct (map fst (hits st'))" using w st' by (simp add: within_limit_def)
  have "recent cfg now' (hits_of (prune cfg now' st') ?ip) \<in> {[], recent cfg now' hs}"
    using prune_hits(1) [OF d order_refl, of cfg now' ?ip] unfolding hs_def st' .
  then have "int (length (recent cfg now' (hits_of (prune cfg now' st') ?ip))) < rl_max_requests cfg"
    using few by auto
  then show ?thesis using r1 lim by (simp add: rate_call_def limit_request_def Let_def)
qed

theorem retry_after_is_enough_witness:
  "fst (rate_call sample_rate sample_scope 61
     (snd (rate_call sample_rate sample_scope (1 / 2)
        (snd (serve sample_rate [(sample_scope, 0)] (init_rate 0) []))))) = Forward"
proof -
  let ?c = "rate_call sample_rate sample_scope (1 / 2) (snd (serve sample_rate [(sample_scope, 0)] (init_rate 0) []))"
  have "fst ?c = TooMany 60" by code_simp
  then have c: "?c = (TooMany 60, snd ?c)" by (metis prod.collapse)
  have "(61::rat) \<ge> 1 / 2 + of_int 60" by simp
  from retry_after_is_enough [OF c this] show ?thesis ..
qed

text \<open>
  The memory limit gives up the bound.  When more clients than \<open>max_tracked_ips\<close> are live at a prune,
  the clients that were inserted first lose their history: here one client is forwarded twice within
  one window although \<open>max_requests\<close> is one, after ten other clients appeared.
\<close>

theorem eviction_resets_window:
  "let other = (\<lambda>n. sample_scope\<lparr>sc_client := Some (''peer'' @ show_nat n)\<rparr>);
       reqs = (sample_scope, 30) # map (\<lambda>n. (other n, 31)) [1..<11] @ [(sample_scope, 60)] in
   window_count sample_rate ''10.0.0.1'' 60 (fst (serve sample_rate reqs (init_rate 0) [])) = 2"
  by code_simp

end
