(* ===== verification/PyRegex.thy ===== *)
theory PyRegex
  imports PyText
begin

text \<open>
  Regular expressions of the program that are matched against a whole text (\<open>^...$\<close> on stripped text) and
  capture nothing: \<open>rx_language\<close> says which texts an expression stands for, \<open>rx_match\<close> decides it by derivatives, one
  character at a time.  Expressions under \<open>re.IGNORECASE\<close> are written in lower case and matched against the
  text in lower case.
\<close>

datatype rx = RNone | REps | RChr "char \<Rightarrow> bool" | RSeq rx rx | RAlt rx rx | RStar rx

inductive rx_language :: "rx \<Rightarrow> string \<Rightarrow> bool" where
  eps: "rx_language REps []"
| chr: "p c \<Longrightarrow> rx_language (RChr p) [c]"
| seq: "rx_language r s \<Longrightarrow> rx_language q t \<Longrightarrow> rx_language (RSeq r q) (s @ t)"
| alt_left: "rx_language r s \<Longrightarrow> rx_language (RAlt r q) s"
| alt_right: "rx_language q s \<Longrightarrow> rx_language (RAlt r q) s"
| star_end: "rx_language (RStar r) []"
| star_step: "rx_language r s \<Longrightarrow> rx_language (RStar r) t \<Longrightarrow> rx_language (RStar r) (s @ t)"

inductive_simps rx_language_simps [simp]:
  "rx_language RNone s" "rx_language REps s" "rx_language (RChr p) s" "rx_language (RSeq r q) s" "rx_language (RAlt r q) s"

primrec nullable :: "rx \<Rightarrow> bool" where
  "nullable RNone = False"
| "nullable REps = True"
| "nullable (RChr p) = False"
| "nullable (RSeq r q) = (nullable r \<and> nullable q)"
| "nullable (RAlt r q) = (nullable r \<or> nullable q)"
| "nullable (RStar r) = True"

fun rseq :: "rx \<Rightarrow> rx \<Rightarrow> rx" where
  "rseq RNone q = RNone"
| "rseq REps q = q"
| "rseq r q = RSeq r q"

fun ralt :: "rx \<Rightarrow> rx \<Rightarrow> rx" where
  "ralt RNone q = q"
| "ralt r RNone = r"
| "ralt r q = RAlt r q"

primrec deriv :: "char \<Rightarrow> rx \<Rightarrow> rx" where
  "deriv c RNone = RNone"
| "deriv c REps = RNone"
| "deriv c (RChr p) = (if p c then REps else RNone)"
| "deriv c (RSeq r q) = (if nullable r then ralt (rseq (deriv c r) q) (deriv c q) else rseq (deriv c r) q)"
| "deriv c (RAlt r q) = ralt (deriv c r) (deriv c q)"
| "deriv c (RStar r) = rseq (deriv c r) (RStar r)"

definition rx_match :: "rx \<Rightarrow> string \<Rightarrow> bool" where
  "rx_match r s = nullable (fold deriv s r)"

definition rlit :: "string \<Rightarrow> rx" where
  "rlit s = foldr (\<lambda>c r. RSeq (RChr (\<lambda>d. d = c)) r) s REps"

definition rseqs :: "rx list \<Rightarrow> rx" where
  "rseqs rs = foldr RSeq rs REps"

definition ralts :: "rx list \<Rightarrow> rx" where
  "ralts rs = foldr RAlt rs RNone"

definition ropt :: "rx \<Rightarrow> rx" where
  "ropt r = RAlt REps r"

definition rplus :: "rx \<Rightarrow> rx" where
  "rplus r = RSeq r (RStar r)"

subsection \<open>The matcher decides the language\<close>

lemma rseq_language [simp]: "rx_language (rseq r q) s \<longleftrightarrow> rx_language (RSeq r q) s"
  by (cases r) auto

lemma ralt_language [simp]: "rx_language (ralt r q) s \<longleftrightarrow> rx_language (RAlt r q) s"
  by (cases r; cases q) auto

lemma nullable_language: "nullable r \<longleftrightarrow> rx_language r []"
  by (induction r) (auto intro: star_end)

lemma star_Cons:
  "rx_language (RStar r) (c # s) \<longleftrightarrow> (\<exists>u v. s = u @ v \<and> rx_language r (c # u) \<and> rx_language (RStar r) v)"
proof
  have "rx_language q t \<Longrightarrow> q = RStar r \<Longrightarrow> t = c # s \<Longrightarrow> \<exists>u v. s = u @ v \<and> rx_language r (c # u) \<and> rx_language (RStar r) v" for q t
  proof (induction arbitrary: s rule: rx_language.induct)
    case (star_step r' u v)
    then show ?case by (cases u) auto
  qed simp_all
  then show "rx_language (RStar r) (c # s) \<Longrightarrow> \<exists>u v. s = u @ v \<and> rx_language r (c # u) \<and> rx_language (RStar r) v" by blast
next
  assume "\<exists>u v. s = u @ v \<and> rx_language r (c # u) \<and> rx_language (RStar r) v"
  then show "rx_language (RStar r) (c # s)" by (metis star_step append_Cons)
qed

lemma deriv_language: "rx_language (deriv c r) s \<longleftrightarrow> rx_language r (c # s)"
proof (induction r arbitrary: s)
  case (RSeq r q)
  have "(\<exists>u v. c # s = u @ v \<and> rx_language r u \<and> rx_language q v)
     \<longleftrightarrow> (rx_language r [] \<and> rx_language q (c # s)) \<or> (\<exists>u v. s = u @ v \<and> rx_language r (c # u) \<and> rx_language q v)"
    by (auto simp: Cons_eq_append_conv)
  then show ?case using RSeq by (auto simp: nullable_language)
next
  case (RStar r)
  then show ?case by (auto simp: star_Cons)
qed auto

lemma rx_match_language: "rx_match r s \<longleftrightarrow> rx_language r s"
  by (induction s arbitrary: r) (simp_all add: rx_match_def nullable_language deriv_language)

lemma rx_match_rlit [simp]: "rx_match (rlit t) s \<longleftrightarrow> s = t"
  unfolding rx_match_language rlit_def by (induction t arbitrary: s) auto

end
