(* ===== verification/SeedHygiene.thy ===== *)
theory SeedHygiene
  imports PyRegex PyValue
begin

text \<open>
  Seeds of a plan, \<open>core_graph/goap/integrate/seed_hygiene.py\<close>: which values of the goal extraction are trusted as
  resource ids, the replacement of bare search imperatives by the topic of the conversation and the expansion of bare
  labels into task briefs.  \<open>str(v)\<close> of a value that is no string is the argument \<open>str_py\<close>.  A name that
  matches \<open>^(id|.*_id|...)$\<close> may end in one newline, as everywhere in Python.
\<close>

subsection \<open>Names and shapes\<close>

definition newline :: char where
  "newline = char_of (10::nat)"

definition drop_newline :: "string \<Rightarrow> string" where
  "drop_newline s = (if s \<noteq> [] \<and> last s = newline then butlast s else s)"

definition search_param_names :: "string list" where
  "search_param_names = [''query'', ''q'', ''search'', ''search_query'', ''keyword'', ''term'', ''text'']"

definition instruction_param_names :: "string list" where
  "instruction_param_names = [''prompt'', ''instruction'', ''task'', ''task_description'', ''agent_prompt'']"

definition is_id_like_param :: "string \<Rightarrow> bool" where
  "is_id_like_param name =
     (let s = drop_newline name in
      name \<noteq> [] \<and> newline \<notin> set s
      \<and> (s = ''id'' \<or> ends_with ''_id'' s \<or> ends_with ''Id'' s \<or> ends_with ''ID'' s \<or> ends_with ''_ID'' s))"

definition rcount :: "nat \<Rightarrow> rx \<Rightarrow> rx" where
  "rcount n r = rseqs (replicate n r)"

definition at_least :: "nat \<Rightarrow> (char \<Rightarrow> bool) \<Rightarrow> string \<Rightarrow> bool" where
  "at_least n p s = (list_all p s \<and> length s \<ge> n)"

definition is_hex :: "char \<Rightarrow> bool" where
  "is_hex c = (is_digit c \<or> c \<in> set ''abcdefABCDEF'')"

definition uuid_re :: rx where
  "uuid_re = rseqs [rcount 8 (RChr is_hex), rlit ''-'', rcount 4 (RChr is_hex), rlit ''-'', rcount 4 (RChr is_hex), rlit ''-'',
     rcount 4 (RChr is_hex), rlit ''-'', rcount 12 (RChr is_hex)]"

definition is_path_char :: "char \<Rightarrow> bool" where
  "is_path_char c = (is_alnum c \<or> c \<in> set ''_.-'')"

definition path_id :: "string \<Rightarrow> bool" where
  "path_id s = (case dropWhile is_path_char s of
      c # d # t \<Rightarrow> takeWhile is_path_char s \<noteq> [] \<and> c = CHR ''/'' \<and> is_path_char d
    | _ \<Rightarrow> False)"

definition is_token_char :: "char \<Rightarrow> bool" where
  "is_token_char c = (is_alnum c \<or> c \<in> set ''_-'')"

definition is_alpha :: "char \<Rightarrow> bool" where
  "is_alpha c = (is_upper c \<or> is_lower c)"

definition looks_like_real_id :: "pyval \<Rightarrow> bool" where
  "looks_like_real_id v =
     (case v of
        PInt i \<Rightarrow> True
      | PFloat r \<Rightarrow> True
      | PStr t \<Rightarrow>
          (let s = strip t in
           if length s < 3 then False
           else if CHR '' '' \<in> set s \<or> newline \<in> set s \<or> char_of (9::nat) \<in> set s then False
           else if rx_match uuid_re s \<or> at_least 16 is_hex s \<or> at_least 3 is_digit s then True
           else if path_id s then True
           else if list_all is_alpha s \<and> length s < 16 then False
           else at_least 12 is_token_char s \<and> list_ex is_digit s)
      | _ \<Rightarrow> False)"

subsection \<open>Bare search imperatives\<close>

definition ws :: rx where
  "ws = RChr is_ws"

definition pronouns :: rx where
  "pronouns = ropt (RSeq (rplus ws) (ralts (map rlit [''it'', ''that'', ''this'', ''them'', ''her'', ''him''])))"

definition two_words :: "string \<Rightarrow> string \<Rightarrow> rx" where
  "two_words a b = rseqs [rlit a, rplus ws, rlit b]"

definition bare_search_re :: rx where
  "bare_search_re = rseqs
     [RStar ws,
      RStar (RSeq (ralts [rlit ''please'', rlit ''pls'', two_words ''can'' ''you'', two_words ''could'' ''you'', two_words ''would'' ''you'']) (rplus ws)),
      RAlt (rseqs [ralts [rlit ''search'', rlit ''look''], pronouns, RStar ws, rlit ''up''])
           (RSeq (ralts [rlit ''google'', rlit ''find'', rlit ''search'', rlit ''look'']) pronouns),
      ropt (RSeq (rplus ws) (ralts [rlit ''please'', rlit ''pls'', two_words ''for'' ''me'', two_words ''real'' ''quick'', rlit ''thanks''])),
      RStar (RChr (\<lambda>c. is_ws c \<or> c \<in> set ''!.?''))]"

definition is_bare_search_followup :: "pyval \<Rightarrow> bool" where
  "is_bare_search_followup v =
     (case v of PStr t \<Rightarrow> strip t \<noteq> [] \<and> rx_match bare_search_re (lower (strip t)) | _ \<Rightarrow> False)"

text \<open>\<open>str(v or "")\<close>.\<close>

definition str_or :: "(pyval \<Rightarrow> string) \<Rightarrow> pyval \<Rightarrow> string" where
  "str_or str_py v = (if \<not> truthy v then [] else case v of PStr s \<Rightarrow> s | _ \<Rightarrow> str_py v)"

fun newest_topic :: "(pyval \<Rightarrow> string) \<Rightarrow> pyval list \<Rightarrow> string option" where
  "newest_topic str_py [] = None"
| "newest_topic str_py (turn # turns) =
     (case turn of
        PDict d \<Rightarrow>
          (let role = lower (str_or str_py (dget_none ''role'' d));
               content = strip (str_or str_py (dget_none ''content'' d)) in
           if content = [] \<or> is_bare_search_followup (PStr content) then newest_topic str_py turns
           else if role \<in> {''user'', ''human''} then Some content
           else newest_topic str_py turns)
      | _ \<Rightarrow> newest_topic str_py turns)"

definition topic_from_history :: "(pyval \<Rightarrow> string) \<Rightarrow> pyval list \<Rightarrow> string option" where
  "topic_from_history str_py turns = newest_topic str_py (rev turns)"

definition or_empty :: "string option \<Rightarrow> string" where
  "or_empty s = (case s of None \<Rightarrow> [] | Some t \<Rightarrow> t)"

definition nonempty :: "string \<Rightarrow> string option" where
  "nonempty s = (if s = [] then None else Some s)"

definition resolve_search_query ::
    "(pyval \<Rightarrow> string) \<Rightarrow> string option \<Rightarrow> pyval list \<Rightarrow> string option \<Rightarrow> string option" where
  "resolve_search_query str_py user_query history last_summary =
     (let uq = strip (or_empty user_query) in
      if \<not> is_bare_search_followup (PStr uq) then nonempty uq
      else case topic_from_history str_py history of
        Some topic \<Rightarrow> Some topic
      | None \<Rightarrow> (let summary = strip (or_empty last_summary) in
          if summary \<noteq> [] then Some (take 200 (takeWhile (\<lambda>c. c \<noteq> newline) summary)) else None))"

fun replace_imperatives :: "string option \<Rightarrow> string list \<Rightarrow> pydict \<Rightarrow> bool \<Rightarrow> pydict \<times> bool" where
  "replace_imperatives topical [] seeds replaced = (seeds, replaced)"
| "replace_imperatives topical (k # ks) seeds replaced =
     (if k \<in> set search_param_names \<and> is_bare_search_followup (dget_none k seeds)
      then (case topical of
              Some t \<Rightarrow> replace_imperatives topical ks (dset k (PStr t) seeds) True
            | None \<Rightarrow> replace_imperatives topical ks (dpop k seeds) replaced)
      else replace_imperatives topical ks seeds replaced)"

definition apply_followup_search_topic ::
    "(pyval \<Rightarrow> string) \<Rightarrow> pydict \<Rightarrow> string option \<Rightarrow> pyval list \<Rightarrow> string option \<Rightarrow> pydict" where
  "apply_followup_search_topic str_py seed_values user_query history last_summary =
     (let topical =
            (if is_bare_search_followup (PStr (or_empty user_query))
             then (case resolve_search_query str_py user_query history last_summary of
                     Some r \<Rightarrow> (if r \<noteq> [] \<and> \<not> is_bare_search_followup (PStr r) then Some r else None)
                   | None \<Rightarrow> None)
             else None);
          (seeds, replaced) = replace_imperatives topical (map fst seed_values) seed_values False in
      case topical of
        Some t \<Rightarrow> (if \<not> replaced \<and> \<not> list_ex (\<lambda>k. k \<in> set search_param_names) (map fst seeds) then dset ''query'' (PStr t) seeds else seeds)
      | None \<Rightarrow> seeds)"

subsection \<open>Instructions\<close>

definition is_instruction_param :: "string \<Rightarrow> bool" where
  "is_instruction_param name =
     (name \<noteq> [] \<and> (name \<in> set instruction_param_names \<or> lower name \<in> set instruction_param_names))"

definition role_label_re :: rx where
  "role_label_re = RSeq (ralts (map rlit [''frontend'', ''backend'', ''docs'', ''ui'', ''api'', ''security'', ''review'']))
     (ropt (RSeq (rlit ''-'') (rplus (RChr (\<lambda>c. is_lower c \<or> is_digit c)))))"

definition is_weak_instruction_value :: "pyval \<Rightarrow> bool" where
  "is_weak_instruction_value v =
     (case v of
        PStr t \<Rightarrow>
          (let s = strip t in
           if s = [] then True
           else if newline \<in> set s \<or> length s \<ge> 80 then False
           else if rx_match role_label_re (lower s) then True
           else if CHR '' '' \<notin> set s \<and> char_of (9::nat) \<notin> set s \<and> length s \<le> 40 then True
           else length (words (\<lambda>c. \<not> is_ws c) s) \<le> 2 \<and> length s < 48)
      | PInt i \<Rightarrow> False
      | PFloat r \<Rightarrow> False
      | _ \<Rightarrow> True)"

definition brief_head :: string where
  "brief_head = [newline, newline] @ ''---'' @ [newline] @ ''Session focus / role: **''"

definition brief_tail :: string where
  "brief_tail =
     ''**.'' @ [newline]
     @ ''Expand this into a complete, self-contained agent brief for that focus:'' @ [newline]
     @ ''- evaluation criteria and scope for this role'' @ [newline]
     @ ''- branch / base / diff constraints if mentioned above'' @ [newline]
     @ ''- expected report artifacts (file names when conventional)'' @ [newline]
     @ ''- report-only: do not modify production source files'' @ [newline]
     @ ''Do NOT treat the bare role name as the entire task.''"

definition brief_of :: "string \<Rightarrow> string \<Rightarrow> string" where
  "brief_of uq label = uq @ brief_head @ label @ brief_tail"

definition enrich_instruction_value :: "(pyval \<Rightarrow> string) \<Rightarrow> pyval \<Rightarrow> string option \<Rightarrow> pyval" where
  "enrich_instruction_value str_py v user_query =
     (if \<not> is_weak_instruction_value v then v
      else (let label = (case v of PNone \<Rightarrow> [] | PStr s \<Rightarrow> strip s | _ \<Rightarrow> strip (str_py v));
                uq = strip (or_empty user_query) in
            if uq = [] then v
            else if label = [] \<or> label = uq then PStr uq
            else if starts_with label uq \<and> length uq > length label + 20 then PStr uq
            else PStr (brief_of uq label)))"

subsection \<open>Trusted seeds\<close>

text \<open>A kept pair; the keys of a dictionary are distinct, so the loop is a filter.\<close>

definition keeps_seed :: "pydict \<Rightarrow> string \<Rightarrow> pyval \<Rightarrow> bool" where
  "keeps_seed wm k v =
     (if \<not> is_id_like_param k then \<not> (k \<in> set search_param_names \<and> is_bare_search_followup v)
      else dget_none k wm \<noteq> PNone \<or> looks_like_real_id v)"

definition sanitize_seed_values :: "pydict \<Rightarrow> pydict \<Rightarrow> pydict" where
  "sanitize_seed_values seed_values wm = filter (\<lambda>(k, v). keeps_seed wm k v) seed_values"

fun strip_failed_keys :: "string list \<Rightarrow> pydict \<Rightarrow> pydict \<Rightarrow> pydict \<times> pydict" where
  "strip_failed_keys [] seeds mem = (seeds, mem)"
| "strip_failed_keys (k # ks) seeds mem =
     strip_failed_keys ks (dpop k seeds) (if is_id_like_param k then dpop k mem else mem)"

definition strip_failed_seed_keys :: "pydict \<Rightarrow> pydict \<Rightarrow> pydict \<Rightarrow> pydict \<times> pydict" where
  "strip_failed_seed_keys seed_values working_memory failed_args =
     strip_failed_keys (map fst failed_args) seed_values working_memory"

subsection \<open>What hygiene ensures\<close>

lemma map_of_filter_keys:
  "distinct (map fst d) \<Longrightarrow> map_of (filter (\<lambda>(k, v). p k v) d) k = (case map_of d k of Some v \<Rightarrow> (if p k v then Some v else None) | None \<Rightarrow> None)"
proof (induction d)
  case (Cons kv d)
  obtain k' v' where kv: "kv = (k', v')" by force
  have "map_of d k' = None" using Cons.prems kv by (auto simp: map_of_eq_None_iff)
  with Cons kv show ?case by (auto split: option.splits)
qed simp

lemma dget_sanitize:
  "distinct (map fst seeds) \<Longrightarrow> dget k (sanitize_seed_values seeds wm) =
     (case dget k seeds of Some v \<Rightarrow> (if keeps_seed wm k v then Some v else None) | None \<Rightarrow> None)"
  by (simp add: dget_def sanitize_seed_values_def map_of_filter_keys)

lemma sanitize_idem [simp]: "sanitize_seed_values (sanitize_seed_values seeds wm) wm = sanitize_seed_values seeds wm"
  by (simp add: sanitize_seed_values_def filter_filter_conj split_def)

lemma sanitize_subset: "set (sanitize_seed_values seeds wm) \<subseteq> set seeds"
  by (auto simp: sanitize_seed_values_def)

lemma sanitize_trusted:
  "(k, v) \<in> set (sanitize_seed_values seeds wm) \<Longrightarrow> is_id_like_param k \<Longrightarrow> dget_none k wm \<noteq> PNone \<or> looks_like_real_id v"
  by (auto simp: sanitize_seed_values_def keeps_seed_def)

lemma not_bare_Nil [simp]: "\<not> is_bare_search_followup (PStr [])" "\<not> is_bare_search_followup PNone"
  by (simp_all add: is_bare_search_followup_def)

text \<open>
  Failed arguments are forgotten.  After a step failed, none of the arguments it ran with is a
  seed any more, the id-like ones are gone from the working memory too, and everything else is
  as it was.
\<close>

theorem strip_failed_forgets:
  "strip_failed_seed_keys seeds mem failed = (seeds', mem') \<Longrightarrow>
     dget k seeds' = (if has_key k failed then None else dget k seeds)
     \<and> dget k mem' = (if has_key k failed \<and> is_id_like_param k then None else dget k mem)"
proof -
  have "strip_failed_keys ks seeds mem = (seeds', mem') \<Longrightarrow>
     dget k seeds' = (if k \<in> set ks then None else dget k seeds)
     \<and> dget k mem' = (if k \<in> set ks \<and> is_id_like_param k then None else dget k mem)" for ks
    by (induction ks seeds mem rule: strip_failed_keys.induct) (auto split: if_splits)
  then show "strip_failed_seed_keys seeds mem failed = (seeds', mem') \<Longrightarrow> ?thesis"
    by (simp add: strip_failed_seed_keys_def has_key_iff)
qed

lemma replace_imperatives_dget:
  assumes "\<And>t. topical = Some t \<Longrightarrow> \<not> is_bare_search_followup (PStr t)" "replace_imperatives topical ks seeds r = (seeds', r')"
  shows "(k \<notin> set search_param_names \<longrightarrow> dget k seeds' = dget k seeds)
     \<and> (k \<in> set search_param_names \<longrightarrow> k \<in> set ks \<or> \<not> is_bare_search_followup (dget_none k seeds) \<longrightarrow> \<not> is_bare_search_followup (dget_none k seeds'))"
  using assms by (induction topical ks seeds r rule: replace_imperatives.induct) (auto split: if_splits option.splits)

text \<open>
  A bare imperative is never searched for.  After the follow-up pass no search parameter holds a
  bare \<open>search up!\<close>: each such seed was replaced by the conversation's topic or dropped, and all
  other seeds are unchanged.
\<close>

theorem followup_removes_imperatives:
  assumes "apply_followup_search_topic str_py seeds user_query history last_summary = seeds'"
  shows "(k \<in> set search_param_names \<longrightarrow> \<not> is_bare_search_followup (dget_none k seeds'))
     \<and> (k \<notin> set search_param_names \<longrightarrow> dget k seeds' = dget k seeds)"
proof -
  define topical where "topical =
            (if is_bare_search_followup (PStr (or_empty user_query))
             then (case resolve_search_query str_py user_query history last_summary of
                     Some r \<Rightarrow> (if r \<noteq> [] \<and> \<not> is_bare_search_followup (PStr r) then Some r else None)
                   | None \<Rightarrow> None)
             else None)"
  obtain s r where s: "replace_imperatives topical (map fst seeds) seeds False = (s, r)" by force
  have ok: "topical = Some t \<Longrightarrow> \<not> is_bare_search_followup (PStr t)" for t
    by (auto simp: topical_def split: if_splits option.splits)
  have res: "seeds' = (case topical of
        Some t \<Rightarrow> (if \<not> r \<and> \<not> list_ex (\<lambda>k. k \<in> set search_param_names) (map fst s) then dset ''query'' (PStr t) s else s)
      | None \<Rightarrow> s)"
    using assms s unfolding apply_followup_search_topic_def topical_def [symmetric] Let_def by simp
  have q: "''query'' \<in> set search_param_names" by (simp add: search_param_names_def)
  have "k \<in> fst ` set seeds \<or> \<not> is_bare_search_followup (dget_none k seeds)"
    by (cases "dget k seeds") (auto simp: dget_or_def dget_def dest: map_of_SomeD intro: rev_image_eqI)
  with replace_imperatives_dget [OF ok s, of k]
  have "(k \<in> set search_param_names \<longrightarrow> \<not> is_bare_search_followup (dget_none k s))
     \<and> (k \<notin> set search_param_names \<longrightarrow> dget k s = dget k seeds)" by auto
  then show ?thesis unfolding res using ok q by (cases topical) auto
qed

lemma brief_tail_end: "last brief_tail = CHR ''.''" "brief_tail \<noteq> []"
  by code_simp+

lemma brief_head_newline: "newline \<in> set brief_head"
  by (simp add: brief_head_def)

lemma brief_not_weak:
  assumes "strip uq = uq" "uq \<noteq> []"
  shows "\<not> is_weak_instruction_value (PStr (brief_of uq label))"
proof -
  have "\<not> is_ws (hd (brief_of uq label))" using strip_ends [of uq] assms by (simp add: brief_of_def)
  moreover have "last (brief_of uq label) = CHR ''.''" by (simp add: brief_of_def brief_tail_end)
  moreover have "\<not> is_ws (CHR ''.'')" by code_simp
  moreover have ne: "brief_of uq label \<noteq> []" using assms(2) by (simp add: brief_of_def)
  ultimately have "strip (brief_of uq label) = brief_of uq label" by (intro strip_id) simp_all
  moreover have "newline \<in> set (brief_of uq label)" by (simp add: brief_of_def brief_head_newline)
  ultimately show ?thesis using ne by (simp add: is_weak_instruction_value_def Let_def)
qed

text \<open>
  Bare labels become briefs.  A weak instruction value is expanded, for a user query that is not blank,
  to a text that begins with the query and is the query itself or no weak value any more.
\<close>

theorem enriched_instruction_is_brief:
  assumes "is_weak_instruction_value v" "strip uq \<noteq> []"
  shows "\<exists>s. enrich_instruction_value str_py v (Some uq) = PStr s \<and> starts_with (strip uq) s
     \<and> (s = strip uq \<or> \<not> is_weak_instruction_value (PStr s))"
proof -
  have "starts_with (strip uq) (brief_of (strip uq) label)" for label by (simp add: brief_of_def)
  moreover have "\<not> is_weak_instruction_value (PStr (brief_of (strip uq) label))" for label
    using assms(2) by (intro brief_not_weak) simp_all
  moreover have "starts_with (strip uq) (strip uq)" by (simp add: starts_with_def)
  ultimately show ?thesis using assms by (auto simp: enrich_instruction_value_def or_empty_def Let_def)
qed

theorem enriched_instruction_is_brief_witness:
  "\<exists>s. enrich_instruction_value (\<lambda>v. []) (PStr ''frontend-b'') (Some ''Review the branch'') = PStr s
     \<and> starts_with ''Review the branch'' s \<and> \<not> is_weak_instruction_value (PStr s)"
proof -
  have w: "is_weak_instruction_value (PStr ''frontend-b'')" and u: "strip ''Review the branch'' = ''Review the branch''"
    "\<not> is_weak_instruction_value (PStr ''Review the branch'')" by code_simp+
  from enriched_instruction_is_brief [OF w, of "''Review the branch''" "\<lambda>v. []"] u show ?thesis by auto
qed

theorem strip_failed_forgets_witness:
  "dget ''sessionId'' (fst (strip_failed_seed_keys [(''sessionId'', PStr ''Jules'')] [(''q'', PNone)] [(''sessionId'', PStr ''Jules'')])) = None"
proof -
  obtain s m where e: "strip_failed_seed_keys [(''sessionId'', PStr ''Jules'')] [(''q'', PNone)] [(''sessionId'', PStr ''Jules'')] = (s, m)" by force
  from strip_failed_forgets [OF this, of "''sessionId''"] e show ?thesis by (simp add: has_key_def dget_def)
qed

theorem followup_removes_imperatives_witness:
  "\<not> is_bare_search_followup (dget_none ''query'' (apply_followup_search_topic (\<lambda>v. []) [(''query'', PStr ''search up!'')]
      (Some ''search up!'') [PDict [(''role'', PStr ''user''), (''content'', PStr ''The Tea Party'')]] None))"
  using followup_removes_imperatives [OF refl, of "''query''"] by (simp add: search_param_names_def)

lemma followup_example:
  "apply_followup_search_topic (\<lambda>v. []) [(''query'', PStr ''search up!'')]
      (Some ''search up!'') [PDict [(''role'', PStr ''user''), (''content'', PStr ''The Tea Party'')]] None
   = [(''query'', PStr ''The Tea Party'')]"
  by code_simp

end
