(* ===== verification/PrioQueue.thy ===== *)
theory PrioQueue
  imports Prelude "HOL-Library.Multiset"
begin

text \<open>
  The contract of Python's \<open>heapq\<close> as the planner and the plugin resolver use it: a multiset of
  entries from which \<open>heappop\<close> removes one with the least key.  The clients' lemmas are proved in
  the locale; the queue that interprets it keeps the entries in key order, so that it computes.
\<close>

locale prio_queue =
  fixes empty :: 'q
    and push :: "'a \<Rightarrow> 'q \<Rightarrow> 'q"
    and pop :: "'q \<Rightarrow> ('a \<times> 'q) option"
    and elems :: "'q \<Rightarrow> 'a multiset"
    and key :: "'a \<Rightarrow> 'k::linorder"
    and ok :: "'q \<Rightarrow> bool"
  assumes ok_empty: "ok empty"
    and elems_empty: "elems empty = {#}"
    and ok_push: "ok q \<Longrightarrow> ok (push x q)"
    and elems_push: "elems (push x q) = add_mset x (elems q)"
    and pop_None: "pop q = None \<longleftrightarrow> elems q = {#}"
    and ok_pop: "ok q \<Longrightarrow> pop q = Some (x, q') \<Longrightarrow> ok q'"
    and elems_pop: "pop q = Some (x, q') \<Longrightarrow> elems q = add_mset x (elems q')"
    and pop_least: "ok q \<Longrightarrow> pop q = Some (x, q') \<Longrightarrow> y \<in># elems q' \<Longrightarrow> key x \<le> key y"
begin

lemma elems_fold: "elems (fold push xs q) = mset xs + elems q"
  by (induction xs arbitrary: q) (simp_all add: elems_push)

lemma ok_fold: "ok q \<Longrightarrow> ok (fold push xs q)"
  by (induction xs arbitrary: q) (simp_all add: ok_push)

lemma pop_member: "pop q = Some (x, q') \<Longrightarrow> x \<in># elems q"
  by (simp add: elems_pop)

lemma pop_minimal: "ok q \<Longrightarrow> pop q = Some (x, q') \<Longrightarrow> y \<in># elems q \<Longrightarrow> key x \<le> key y"
  using elems_pop [of q x q'] pop_least [of q x q' y] by auto

lemma size_pop: "pop q = Some (x, q') \<Longrightarrow> size (elems q) = Suc (size (elems q'))"
  by (simp add: elems_pop)

lemma invariant_pop:
  "\<forall>y\<in>#elems q. P y \<Longrightarrow> pop q = Some (x, q') \<Longrightarrow> P x \<and> (\<forall>y\<in>#elems q'. P y)"
  by (simp add: elems_pop)

end

subsection \<open>A queue in key order\<close>

definition pq_push :: "('a \<Rightarrow> 'k::linorder) \<Rightarrow> 'a \<Rightarrow> 'a list \<Rightarrow> 'a list" where
  "pq_push key x q = insort_key key x q"

fun pq_pop :: "'a list \<Rightarrow> ('a \<times> 'a list) option" where
  "pq_pop [] = None"
| "pq_pop (x # q) = Some (x, q)"

definition pq_ok :: "('a \<Rightarrow> 'k::linorder) \<Rightarrow> 'a list \<Rightarrow> bool" where
  "pq_ok key q = sorted (map key q)"

lemma pq_pop_Some: "pq_pop q = Some (x, q') \<longleftrightarrow> q = x # q'"
  by (cases q) auto

lemma mset_pq_push: "mset (pq_push key x q) = add_mset x (mset q)"
  by (simp add: pq_push_def)

lemma set_pq_push [simp]: "set (pq_push key x q) = insert x (set q)"
  by (simp add: pq_push_def set_insort_key)

lemma distinct_pq_push [simp]: "distinct (pq_push key x q) \<longleftrightarrow> x \<notin> set q \<and> distinct q"
  using mset_eq_imp_distinct_iff [of "pq_push key x q" "x # q"] by (simp add: mset_pq_push)

interpretation key_queue: prio_queue "[]" "pq_push key" pq_pop mset key "pq_ok key" for key
proof
  show "pq_ok key []" by (simp add: pq_ok_def)
  show "mset [] = {#}" by simp
  show "pq_ok key q \<Longrightarrow> pq_ok key (pq_push key x q)" for q x
    by (simp add: pq_ok_def pq_push_def sorted_insort_key)
  show "mset (pq_push key x q) = add_mset x (mset q)" for x q by (rule mset_pq_push)
  show "pq_pop q = None \<longleftrightarrow> mset q = {#}" for q :: "'a list" by (cases q) simp_all
  show "pq_ok key q \<Longrightarrow> pq_pop q = Some (x, q') \<Longrightarrow> pq_ok key q'" for q x q'
    by (simp add: pq_pop_Some pq_ok_def)
  show "pq_pop q = Some (x, q') \<Longrightarrow> mset q = add_mset x (mset q')" for q q' :: "'a list" and x
    by (simp add: pq_pop_Some)
  show "pq_ok key q \<Longrightarrow> pq_pop q = Some (x, q') \<Longrightarrow> y \<in># mset q' \<Longrightarrow> key x \<le> key y" for q x q' y
    by (simp add: pq_pop_Some pq_ok_def)
qed

end
