(* ===== verification/GoapPlanner.thy ===== *)
theory GoapPlanner
  imports PrioQueue PyValue "HOL-Library.Product_Lexorder"
begin

text \<open>
  Goal-oriented planning: \<open>world_state.py\<close>, \<open>action.py\<close> and \<open>planner.py\<close> of \<open>core_graph/goap\<close>.
  A world is a set of facts; a frozen set is a set, iterated in sorted order where the code
  iterates it.  The A* search is a step function on the frontier (\<open>heapq\<close>, by its contract in
  \<open>PrioQueue\<close>), the tie-breaking counter, the visited costs and the number of expansions, run by
  \<open>run_loop\<close>; \<open>max_expansions + 2\<close> iterations are enough, since every iteration counts one
  expansion and the search stops above \<open>max_expansions\<close>.  Costs are exact rationals.
\<close>

subsection \<open>Worlds and actions\<close>

type_synonym world = "string set"

definition has_fact :: "world \<Rightarrow> string \<Rightarrow> bool" where
  "has_fact w f = (f \<in> w)"

definition satisfies_all :: "world \<Rightarrow> string set \<Rightarrow> bool" where
  "satisfies_all w ps = (\<forall>f\<in>ps. f \<in> w)"

definition missing :: "world \<Rightarrow> string set \<Rightarrow> string set" where
  "missing w ps = ps - w"

definition apply_effects :: "world \<Rightarrow> string set \<Rightarrow> world" where
  "apply_effects w es = w \<union> es"

record GoapAction =
  ga_operation_id :: string
  ga_plugin_id :: pyval
  ga_intent :: pyval
  preconditions :: "string set"
  effects :: "string set"
  effect_fields :: "(string \<times> string) list"
  ga_cost :: rat
  ga_candidate :: pyval
  ga_model :: pyval
  precondition_params :: "(string \<times> string) list"

text \<open>The data class compares all fields but the candidate.\<close>

definition action_key :: "GoapAction \<Rightarrow> GoapAction" where
  "action_key a = a\<lparr>ga_candidate := PNone\<rparr>"

definition same_action :: "GoapAction \<Rightarrow> GoapAction \<Rightarrow> bool" where
  "same_action a b = (action_key a = action_key b)"

definition pairs_get :: "(string \<times> string) list \<Rightarrow> string \<Rightarrow> string option" where
  "pairs_get ps k = map_of (rev ps) k"

record GoapPlan =
  gp_actions :: "GoapAction list"
  gp_steps :: "pydict list"
  gp_cost :: rat

subsection \<open>Compiling steps\<close>

definition step_ref :: "nat \<Rightarrow> string \<Rightarrow> string" where
  "step_ref j field = ''$steps['' @ show_nat j @ ''].'' @ field"

definition have_param :: "string \<Rightarrow> string option" where
  "have_param f = (if starts_with ''have:'' f then Some (drop 5 f) else None)"

definition or_param :: "string option \<Rightarrow> string \<Rightarrow> string" where
  "or_param v d = (case v of None \<Rightarrow> d | Some x \<Rightarrow> x)"

fun bind_precs ::
    "world \<Rightarrow> GoapAction list \<Rightarrow> GoapAction \<Rightarrow> string list \<Rightarrow> pydict \<Rightarrow> nat list \<Rightarrow> pydict \<times> nat list" where
  "bind_precs w0 before a [] b deps = (b, deps)"
| "bind_precs w0 before a (f # fs) b deps =
     (case have_param f of
        None \<Rightarrow> bind_precs w0 before a fs b deps
      | Some param \<Rightarrow>
          (if f \<in> w0 then bind_precs w0 before a fs b deps
           else case index_where (\<lambda>p. f \<in> effects p) before of
             None \<Rightarrow> bind_precs w0 before a fs b deps
           | Some j \<Rightarrow>
               bind_precs w0 before a fs
                 (dset (or_param (pairs_get (precondition_params a) f) param)
                    (PStr (step_ref j (or_param (pairs_get (effect_fields (before ! j)) f) param))) b)
                 (deps @ [j])))"

definition sorted_facts :: "string set \<Rightarrow> string list" where
  "sorted_facts ps = sorted_list_of_set ps"

definition compile_step :: "world \<Rightarrow> GoapAction list \<Rightarrow> GoapAction \<Rightarrow> pydict" where
  "compile_step w0 before a =
     (let (b, deps) = bind_precs w0 before a (sorted_facts (preconditions a)) [] [] in
      [(''operation_id'', PStr (ga_operation_id a)), (''plugin_id'', ga_plugin_id a),
       (''is_fast_path'', PBool (is_dict (ga_candidate a) \<and> truthy (ga_candidate a)
          \<and> truthy (dget_none ''is_fast_path'' (dict_of (ga_candidate a))))),
       (''intent'', ga_intent a), (''args'', PDict []), (''arg_bindings'', PDict b),
       (''depends_on'', if deps = [] then PNone else PInt (int (Max (set deps)))), (''model'', ga_model a)])"

definition compile_steps :: "GoapAction list \<Rightarrow> world \<Rightarrow> pydict list" where
  "compile_steps as w0 = map (\<lambda>i. compile_step w0 (take i as) (as ! i)) [0..<length as]"

subsection \<open>The search\<close>

record search_node =
  nd_f :: rat
  nd_counter :: nat
  nd_world :: world
  nd_path :: "GoapAction list"
  nd_g :: rat

text \<open>The key compares \<open>(f, counter)\<close>; the counters are distinct, so the rest never matters.\<close>

definition node_key :: "search_node \<Rightarrow> rat \<times> nat" where
  "node_key n = (nd_f n, nd_counter n)"

record search_state =
  frontier :: "search_node list"
  counter :: nat
  visited :: "(world \<times> rat) list"
  expansions :: int

datatype search_outcome = Found GoapPlan | Exhausted | OverBudget

definition try_action :: "string set \<Rightarrow> search_node \<Rightarrow> GoapAction \<Rightarrow> search_state \<Rightarrow> search_state" where
  "try_action goal n a s =
     (if list_ex (same_action a) (nd_path n) then s
      else if \<not> satisfies_all (nd_world n) (preconditions a) then s
      else (let w' = apply_effects (nd_world n) (effects a); g' = nd_g n + ga_cost a in
            if (case map_of (visited s) w' of None \<Rightarrow> False | Some c \<Rightarrow> c \<le> g') then s
            else s\<lparr>visited := dset w' g' (visited s),
                   frontier := pq_push node_key
                     \<lparr>nd_f = g' + of_nat (card (missing w' goal)), nd_counter = counter s, nd_world = w',
                      nd_path = nd_path n @ [a], nd_g = g'\<rparr> (frontier s),
                   counter := counter s + 1\<rparr>))"

definition expand_node :: "string set \<Rightarrow> GoapAction list \<Rightarrow> search_node \<Rightarrow> search_state \<Rightarrow> search_state" where
  "expand_node goal actions n s = fold (try_action goal n) actions s"

definition search_step ::
    "string set \<Rightarrow> world \<Rightarrow> GoapAction list \<Rightarrow> int \<Rightarrow> int \<Rightarrow> search_state \<Rightarrow> search_state + search_outcome" where
  "search_step goal w0 actions max_steps max_expansions s =
     (case pq_pop (frontier s) of
        None \<Rightarrow> Inr Exhausted
      | Some (n, rest) \<Rightarrow>
          (let s' = s\<lparr>frontier := rest, expansions := expansions s + 1\<rparr> in
           if expansions s' > max_expansions then Inr OverBudget
           else if satisfies_all (nd_world n) goal
           then Inr (Found \<lparr>gp_actions = nd_path n, gp_steps = compile_steps (nd_path n) w0, gp_cost = nd_g n\<rparr>)
           else if int (length (nd_path n)) \<ge> max_steps then Inl s'
           else Inl (expand_node goal actions n s')))"

definition init_search :: "string set \<Rightarrow> world \<Rightarrow> search_state" where
  "init_search goal w0 =
     \<lparr>frontier = pq_push node_key
        \<lparr>nd_f = of_nat (card (missing w0 goal)), nd_counter = 0, nd_world = w0, nd_path = [], nd_g = 0\<rparr> [],
      counter = 1, visited = [(w0, 0)], expansions = 0\<rparr>"

text \<open>\<open>None\<close> would be a loop that has not ended after \<open>max_expansions + 2\<close> rounds; \<open>search_ends\<close> below shows that there is none.\<close>

definition plan_search ::
    "string set \<Rightarrow> world \<Rightarrow> GoapAction list \<Rightarrow> int \<Rightarrow> int \<Rightarrow> search_outcome option" where
  "plan_search goal w0 actions max_steps max_expansions =
     (if satisfies_all w0 goal then Some (Found \<lparr>gp_actions = [], gp_steps = [], gp_cost = 0\<rparr>)
      else run_loop (search_step goal w0 actions max_steps max_expansions) (nat max_expansions + 2) (init_search goal w0))"

definition plan :: "string set \<Rightarrow> world \<Rightarrow> GoapAction list \<Rightarrow> int \<Rightarrow> int \<Rightarrow> GoapPlan option" where
  "plan goal w0 actions max_steps max_expansions =
     (case plan_search goal w0 actions max_steps max_expansions of Some (Found p) \<Rightarrow> Some p | _ \<Rightarrow> None)"

subsection \<open>Executions\<close>

fun runs_from :: "world \<Rightarrow> GoapAction list \<Rightarrow> bool" where
  "runs_from w [] = True"
| "runs_from w (a # as) = (satisfies_all w (preconditions a) \<and> runs_from (apply_effects w (effects a)) as)"

fun final_world :: "world \<Rightarrow> GoapAction list \<Rightarrow> world" where
  "final_world w [] = w"
| "final_world w (a # as) = final_world (apply_effects w (effects a)) as"

lemma final_world_append [plan_simps]: "final_world w (as @ bs) = final_world (final_world w as) bs"
  by (induction as arbitrary: w) simp_all

lemma runs_from_append [plan_simps]: "runs_from w (as @ bs) \<longleftrightarrow> runs_from w as \<and> runs_from (final_world w as) bs"
  by (induction as arbitrary: w) simp_all

lemma final_world_eq: "final_world w as = w \<union> (\<Union>a\<in>set as. effects a)"
  by (induction as arbitrary: w) (auto simp: apply_effects_def)

lemma satisfies_iff: "satisfies_all w ps \<longleftrightarrow> ps \<subseteq> w"
  by (auto simp: satisfies_all_def)

lemma same_action_effects: "same_action a b \<Longrightarrow> effects a = effects b"
  unfolding same_action_def action_key_def by (metis GoapAction.ext_inject GoapAction.surjective GoapAction.update_convs(8))

definition node_ok :: "world \<Rightarrow> GoapAction list \<Rightarrow> int \<Rightarrow> search_node \<Rightarrow> bool" where
  "node_ok w0 actions max_steps n \<longleftrightarrow>
     runs_from w0 (nd_path n) \<and> nd_world n = final_world w0 (nd_path n)
     \<and> nd_g n = sum_list (map ga_cost (nd_path n)) \<and> set (nd_path n) \<subseteq> set actions
     \<and> distinct (map action_key (nd_path n)) \<and> int (length (nd_path n)) \<le> max 0 max_steps"

text \<open>Closed worlds: expanded, not a goal, with every successor visited.\<close>

definition closed_world :: "string set \<Rightarrow> GoapAction list \<Rightarrow> (world \<times> rat) list \<Rightarrow> world \<Rightarrow> bool" where
  "closed_world goal actions vis w \<longleftrightarrow> \<not> satisfies_all w goal
     \<and> (\<forall>a\<in>set actions. satisfies_all w (preconditions a) \<longrightarrow> apply_effects w (effects a) \<in> fst ` set vis)"

definition sound_state :: "world \<Rightarrow> GoapAction list \<Rightarrow> int \<Rightarrow> search_state \<Rightarrow> bool" where
  "sound_state w0 actions max_steps s \<longleftrightarrow> (\<forall>n\<in>#mset (frontier s). node_ok w0 actions max_steps n)"

definition covering_state :: "string set \<Rightarrow> world \<Rightarrow> GoapAction list \<Rightarrow> search_state \<Rightarrow> bool" where
  "covering_state goal w0 actions s \<longleftrightarrow> w0 \<in> fst ` set (visited s)
     \<and> (\<forall>w\<in>fst ` set (visited s). w \<in> nd_world ` set (frontier s) \<or> closed_world goal actions (visited s) w)"

lemma try_action_sound:
  assumes "sound_state w0 actions ms s" "node_ok w0 actions ms n" "int (length (nd_path n)) < ms" "a \<in> set actions"
  shows "sound_state w0 actions ms (try_action goal n a s)"
proof (cases "list_ex (same_action a) (nd_path n) \<or> \<not> satisfies_all (nd_world n) (preconditions a)")
  case True
  with assms(1) show ?thesis by (auto simp: try_action_def)
next
  case False
  then have new: "action_key a \<notin> action_key ` set (nd_path n)"
    by (auto simp: list_ex_iff same_action_def)
  let ?n = "\<lparr>nd_f = nd_g n + ga_cost a + of_nat (card (missing (apply_effects (nd_world n) (effects a)) goal)),
      nd_counter = counter s, nd_world = apply_effects (nd_world n) (effects a), nd_path = nd_path n @ [a],
      nd_g = nd_g n + ga_cost a\<rparr>"
  have "node_ok w0 actions ms ?n"
    using assms(2-4) False new by (simp add: node_ok_def plan_simps)
  with assms(1) show ?thesis
    by (simp add: try_action_def Let_def sound_state_def key_queue.elems_push del: set_mset_mset split: option.split)
qed

lemma expand_sound:
  assumes "sound_state w0 actions ms s" "node_ok w0 actions ms n" "int (length (nd_path n)) < ms"
  shows "sound_state w0 actions ms (expand_node goal actions n s)"
proof -
  have "set as \<subseteq> set actions \<Longrightarrow> sound_state w0 actions ms s \<Longrightarrow> sound_state w0 actions ms (fold (try_action goal n) as s)"
    for as s by (induction as arbitrary: s) (simp_all add: try_action_sound [OF _ assms(2,3)])
  with assms(1) show ?thesis by (simp add: expand_node_def)
qed

definition handled :: "search_node \<Rightarrow> (world \<times> rat) list \<Rightarrow> GoapAction \<Rightarrow> bool" where
  "handled n vis a \<longleftrightarrow> list_ex (same_action a) (nd_path n) \<or> \<not> satisfies_all (nd_world n) (preconditions a)
     \<or> apply_effects (nd_world n) (effects a) \<in> fst ` set vis"

definition grows :: "search_state \<Rightarrow> search_state \<Rightarrow> bool" where
  "grows s s' \<longleftrightarrow> fst ` set (visited s) \<subseteq> fst ` set (visited s') \<and> set (frontier s) \<subseteq> set (frontier s')
     \<and> fst ` set (visited s') \<subseteq> fst ` set (visited s) \<union> nd_world ` set (frontier s')"

lemma un_incl: "C \<subseteq> B \<union> Y \<Longrightarrow> B \<subseteq> A \<union> X \<Longrightarrow> X \<subseteq> Y \<Longrightarrow> C \<subseteq> A \<union> Y"
  by blast

lemma grows_trans:
  assumes "grows s t" "grows t u"
  shows "grows s u"
proof -
  note g = assms [unfolded grows_def]
  have "nd_world ` set (frontier t) \<subseteq> nd_world ` set (frontier u)" by (rule image_mono) (use g in simp)
  then have "fst ` set (visited u) \<subseteq> fst ` set (visited s) \<union> nd_world ` set (frontier u)"
    by (rule un_incl [of "fst ` set (visited u)" "fst ` set (visited t)", rotated 2]) (use g in simp_all)
  moreover have "fst ` set (visited s) \<subseteq> fst ` set (visited u)" "set (frontier s) \<subseteq> set (frontier u)"
    using g by (simp_all add: order_trans [of _ "fst ` set (visited t)"] order_trans [of _ "set (frontier t)"])
  ultimately show ?thesis by (simp add: grows_def)
qed

lemma try_action_grows: "grows s (try_action goal n a s) \<and> handled n (visited (try_action goal n a s)) a"
proof (cases "list_ex (same_action a) (nd_path n) \<or> \<not> satisfies_all (nd_world n) (preconditions a)")
  case True
  then show ?thesis by (auto simp: try_action_def grows_def handled_def)
next
  case False
  let ?w = "apply_effects (nd_world n) (effects a)"
  show ?thesis
  proof (cases "case map_of (visited s) ?w of None \<Rightarrow> False | Some c \<Rightarrow> c \<le> nd_g n + ga_cost a")
    case True
    then have "?w \<in> fst ` set (visited s)" by (force split: option.splits dest: map_of_SomeD)
    with False True show ?thesis by (simp add: try_action_def Let_def grows_def handled_def)
  next
    case new: False
    let ?n = "\<lparr>nd_f = nd_g n + ga_cost a + of_nat (card (missing ?w goal)), nd_counter = counter s,
        nd_world = ?w, nd_path = nd_path n @ [a], nd_g = nd_g n + ga_cost a\<rparr>"
    have e: "try_action goal n a s = s\<lparr>visited := dset ?w (nd_g n + ga_cost a) (visited s),
        frontier := pq_push node_key ?n (frontier s), counter := counter s + 1\<rparr>"
      using False new by (simp add: try_action_def Let_def)
    have "fst ` set (visited (try_action goal n a s)) = insert ?w (fst ` set (visited s))"
      "set (frontier (try_action goal n a s)) = insert ?n (set (frontier s))"
      unfolding e by simp_all
    then show ?thesis by (auto simp: grows_def handled_def)
  qed
qed

lemma handled_mono: "handled n vis a \<Longrightarrow> fst ` set vis \<subseteq> fst ` set vis' \<Longrightarrow> handled n vis' a"
  by (auto simp: handled_def)

lemma expand_grows:
  "grows s (fold (try_action goal n) as s)
   \<and> (\<forall>a\<in>set as. handled n (visited (fold (try_action goal n) as s)) a)"
proof (induction as arbitrary: s)
  case Nil
  show ?case by (simp add: grows_def)
next
  case (Cons a as)
  let ?s1 = "try_action goal n a s" and ?s2 = "fold (try_action goal n) as (try_action goal n a s)"
  have g2: "grows ?s1 ?s2" "\<forall>b\<in>set as. handled n (visited ?s2) b" using Cons.IH [of ?s1] by blast+
  have g1: "grows s ?s1" "handled n (visited ?s1) a" using try_action_grows [of s goal n a] by blast+
  have "handled n (visited ?s2) a"
    by (rule handled_mono [OF g1(2)]) (use g2(1) in \<open>simp add: grows_def\<close>)
  with g2 grows_trans [OF g1(1) g2(1)] show ?case by simp
qed

lemma handled_closed:
  assumes "node_ok w0 actions ms n" "nd_world n \<in> fst ` set vis" "\<forall>a\<in>set actions. handled n vis a"
    and "\<not> satisfies_all (nd_world n) goal"
  shows "closed_world goal actions vis (nd_world n)"
  unfolding closed_world_def
proof (intro conjI ballI impI)
  fix a assume a: "a \<in> set actions" "satisfies_all (nd_world n) (preconditions a)"
  show "apply_effects (nd_world n) (effects a) \<in> fst ` set vis"
  proof (cases "list_ex (same_action a) (nd_path n)")
    case True
    then obtain b where b: "b \<in> set (nd_path n)" "same_action a b" by (auto simp: list_ex_iff)
    then have "effects a \<subseteq> nd_world n"
      using assms(1) same_action_effects [OF b(2)] by (auto simp: node_ok_def final_world_eq)
    then have "apply_effects (nd_world n) (effects a) = nd_world n" by (auto simp: apply_effects_def)
    with assms(2) show ?thesis by simp
  next
    case False
    with assms(3) a show ?thesis by (auto simp: handled_def)
  qed
qed (rule assms(4))

lemma closed_mono:
  "closed_world goal actions vis w \<Longrightarrow> fst ` set vis \<subseteq> fst ` set vis' \<Longrightarrow> closed_world goal actions vis' w"
  unfolding closed_world_def by blast

text \<open>A full path has used every action.\<close>

lemma full_path_handled:
  assumes "node_ok w0 actions ms n" "card (action_key ` set actions) \<le> length (nd_path n)" "a \<in> set actions"
  shows "handled n vis a"
proof -
  have sub: "action_key ` set (nd_path n) \<subseteq> action_key ` set actions"
    using assms(1) by (auto simp: node_ok_def)
  have "card (action_key ` set (nd_path n)) = length (nd_path n)"
    using assms(1) distinct_card [of "map action_key (nd_path n)"] by (simp add: node_ok_def)
  with sub assms(2) have "action_key ` set (nd_path n) = action_key ` set actions"
    by (intro card_seteq) auto
  with assms(3) obtain b where "b \<in> set (nd_path n)" "action_key a = action_key b" by auto
  then show ?thesis by (auto simp: handled_def list_ex_iff same_action_def)
qed

subsection \<open>The search loop\<close>

definition search_inv :: "string set \<Rightarrow> world \<Rightarrow> GoapAction list \<Rightarrow> int \<Rightarrow> search_state \<Rightarrow> bool" where
  "search_inv goal w0 actions ms s \<longleftrightarrow> sound_state w0 actions ms s
     \<and> (int (card (action_key ` set actions)) \<le> ms \<longrightarrow> covering_state goal w0 actions s)"

lemma search_step_cases:
  assumes "search_step goal w0 actions ms me s = Inl s'"
  obtains n rest where "pq_pop (frontier s) = Some (n, rest)" "expansions s + 1 \<le> me"
    "\<not> satisfies_all (nd_world n) goal"
    "s' = (if int (length (nd_path n)) \<ge> ms then s\<lparr>frontier := rest, expansions := expansions s + 1\<rparr>
           else expand_node goal actions n (s\<lparr>frontier := rest, expansions := expansions s + 1\<rparr>))"
  using assms that by (auto simp: search_step_def Let_def split: option.splits if_splits)

lemma expansions_fold [simp]: "expansions (fold (try_action goal n) as s) = expansions s"
proof (induction as arbitrary: s)
  case (Cons a as)
  have "expansions (try_action goal n a s) = expansions s" by (simp add: try_action_def Let_def)
  with Cons show ?case by simp
qed simp

lemma popped_ok:
  assumes "sound_state w0 actions ms s" "pq_pop (frontier s) = Some (n, rest)"
  shows "node_ok w0 actions ms n" "sound_state w0 actions ms (s\<lparr>frontier := rest, expansions := e\<rparr>)"
  using key_queue.invariant_pop [OF assms(1) [unfolded sound_state_def] assms(2)] by (simp_all add: sound_state_def)

lemma search_step_sound:
  assumes "sound_state w0 actions ms s" "search_step goal w0 actions ms me s = Inl s'"
  shows "sound_state w0 actions ms s'"
proof -
  from assms(2) obtain n rest where p: "pq_pop (frontier s) = Some (n, rest)"
    and s': "s' = (if int (length (nd_path n)) \<ge> ms then s\<lparr>frontier := rest, expansions := expansions s + 1\<rparr>
           else expand_node goal actions n (s\<lparr>frontier := rest, expansions := expansions s + 1\<rparr>))"
    by (rule search_step_cases)
  from popped_ok [OF assms(1) p] expand_sound [of w0 actions ms _ n goal] s' show ?thesis by simp
qed

lemma search_step_covering:
  assumes "sound_state w0 actions ms s" "covering_state goal w0 actions s"
    and "int (card (action_key ` set actions)) \<le> ms" "search_step goal w0 actions ms me s = Inl s'"
  shows "covering_state goal w0 actions s'"
proof -
  from assms(4) obtain n rest where p: "pq_pop (frontier s) = Some (n, rest)"
    and ng: "\<not> satisfies_all (nd_world n) goal"
    and s': "s' = (if int (length (nd_path n)) \<ge> ms then s\<lparr>frontier := rest, expansions := expansions s + 1\<rparr>
           else expand_node goal actions n (s\<lparr>frontier := rest, expansions := expansions s + 1\<rparr>))"
    by (rule search_step_cases)
  have ok: "node_ok w0 actions ms n" by (rule popped_ok(1) [OF assms(1) p])
  let ?s = "s\<lparr>frontier := rest, expansions := expansions s + 1\<rparr>"
  have f: "frontier s = n # rest" using p by (simp add: pq_pop_Some)
  have g: "grows ?s s'" and h: "\<forall>a\<in>set actions. handled n (visited s') a"
  proof -
    have "grows ?s s' \<and> (\<forall>a\<in>set actions. handled n (visited s') a)"
    proof (cases "int (length (nd_path n)) \<ge> ms")
      case True
      then have "card (action_key ` set actions) \<le> length (nd_path n)" using assms(3) by linarith
      with True s' show ?thesis using full_path_handled [OF ok] by (simp add: grows_def)
    next
      case False
      with s' expand_grows [of ?s goal n actions] show ?thesis by (simp add: expand_node_def)
    qed
    then show "grows ?s s'" "\<forall>a\<in>set actions. handled n (visited s') a" by blast+
  qed
  have keys: "fst ` set (visited s) \<subseteq> fst ` set (visited s')" "set rest \<subseteq> set (frontier s')"
    "fst ` set (visited s') \<subseteq> fst ` set (visited s) \<union> nd_world ` set (frontier s')"
    using g by (simp_all add: grows_def)
  have "w \<in> nd_world ` set (frontier s') \<or> closed_world goal actions (visited s') w"
    if w: "w \<in> fst ` set (visited s')" for w
  proof (cases "w \<in> fst ` set (visited s)")
    case True
    with assms(2) f consider "w = nd_world n" | "w \<in> nd_world ` set rest" | "closed_world goal actions (visited s) w"
      by (auto simp: covering_state_def)
    then show ?thesis
    proof cases
      case 1
      with handled_closed [OF ok _ h ng] w show ?thesis by simp
    next
      case 2
      with keys(2) show ?thesis by blast
    next
      case 3
      with closed_mono [OF 3 keys(1)] show ?thesis by blast
    qed
  next
    case False
    with keys(3) w show ?thesis by blast
  qed
  moreover have "w0 \<in> fst ` set (visited s')" using assms(2) keys(1) by (auto simp: covering_state_def)
  ultimately show ?thesis by (simp add: covering_state_def)
qed

interpretation search_loop: bounded_loop "search_step goal w0 actions ms me" "search_inv goal w0 actions ms"
    "\<lambda>s. nat (me + 1 - expansions s)" for goal w0 actions ms me
proof
  fix s s'
  assume i: "search_inv goal w0 actions ms s" and st: "search_step goal w0 actions ms me s = Inl s'"
  show "search_inv goal w0 actions ms s'"
    using i st search_step_sound [OF _ st] search_step_covering [OF _ _ _ st] by (simp add: search_inv_def)
  from st show "nat (me + 1 - expansions s') < nat (me + 1 - expansions s)"
    by (rule search_step_cases) (auto simp: expand_node_def)
qed

lemma init_inv: "search_inv goal w0 actions ms (init_search goal w0)"
  by (simp add: search_inv_def sound_state_def covering_state_def init_search_def pq_push_def node_ok_def)

lemma init_fuel: "nat (me + 1 - expansions (init_search goal w0)) < nat me + 2"
  by (simp add: init_search_def)

lemma search_exit:
  assumes "\<not> satisfies_all w0 goal"
  obtains s r where "plan_search goal w0 actions ms me = Some r" "search_inv goal w0 actions ms s"
    "search_step goal w0 actions ms me s = Inr r"
proof -
  obtain r where r: "run_loop (search_step goal w0 actions ms me) (nat me + 2) (init_search goal w0) = Some r"
    using search_loop.returns [OF init_inv init_fuel] by blast
  then have "plan_search goal w0 actions ms me = Some r" using assms by (simp add: plan_search_def)
  with search_loop.exits [OF init_inv r] that show thesis by blast
qed


subsection \<open>Data flow of compiled steps\<close>

text \<open>The argument a fact binds, the field it reads, and what \<open>bind_precs\<close> keeps: every binding is the reference
  of a missing fact to an earlier producer.\<close>

definition fact_key :: "GoapAction \<Rightarrow> string \<Rightarrow> string \<Rightarrow> string" where
  "fact_key a f p = or_param (pairs_get (precondition_params a) f) p"

definition fact_ref :: "GoapAction list \<Rightarrow> nat \<Rightarrow> string \<Rightarrow> string \<Rightarrow> pyval" where
  "fact_ref before j f p = PStr (step_ref j (or_param (pairs_get (effect_fields (before ! j)) f) p))"

definition binds_fact :: "world \<Rightarrow> GoapAction list \<Rightarrow> GoapAction \<Rightarrow> nat \<Rightarrow> string \<Rightarrow> pyval \<Rightarrow> bool" where
  "binds_fact w0 before a j k v \<longleftrightarrow>
     (\<exists>f\<in>preconditions a. \<exists>p. have_param f = Some p \<and> f \<notin> w0 \<and> f \<in> effects (before ! j)
        \<and> k = fact_key a f p \<and> v = fact_ref before j f p)"

definition bound_ok :: "world \<Rightarrow> GoapAction list \<Rightarrow> GoapAction \<Rightarrow> pydict \<Rightarrow> nat list \<Rightarrow> bool" where
  "bound_ok w0 before a b deps \<longleftrightarrow> (\<forall>(k, v)\<in>set b. \<exists>j\<in>set deps. binds_fact w0 before a j k v)
     \<and> (\<forall>j\<in>set deps. j < length before)"

lemma dset_subset: "set (dset k v d) \<subseteq> insert (k, v) (set d)"
  by (induction k v d rule: dset.induct) auto

lemma bound_ok_dset:
  assumes "bound_ok w0 before a b deps" "binds_fact w0 before a j k v" "j < length before"
  shows "bound_ok w0 before a (dset k v b) (deps @ [j])"
  using assms dset_subset [of k v b] unfolding bound_ok_def by fastforce

lemma bind_precs_ok:
  assumes "set fs \<subseteq> preconditions a" "bound_ok w0 before a b deps"
  shows "(case bind_precs w0 before a fs b deps of (b', deps') \<Rightarrow> bound_ok w0 before a b' deps'
     \<and> fst ` set b \<subseteq> fst ` set b'
     \<and> (\<forall>f\<in>set fs. \<forall>p. have_param f = Some p \<longrightarrow> f \<notin> w0 \<longrightarrow> (\<exists>q\<in>set before. f \<in> effects q) \<longrightarrow>
          fact_key a f p \<in> fst ` set b'))"
  using assms
proof (induction fs arbitrary: b deps)
  case Nil
  then show ?case by simp
next
  case (Cons f fs)
  have fs: "set fs \<subseteq> preconditions a" using Cons.prems(1) by simp
  show ?case
  proof (cases "have_param f = None \<or> f \<in> w0 \<or> index_where (\<lambda>p. f \<in> effects p) before = None")
    case True
    then have "bind_precs w0 before a (f # fs) b deps = bind_precs w0 before a fs b deps"
      by (auto split: option.split)
    moreover have "\<not> (\<exists>q\<in>set before. f \<in> effects q)" if "have_param f \<noteq> None" "f \<notin> w0"
      using True that by (simp add: index_where_None)
    ultimately show ?thesis using Cons.IH [OF fs Cons.prems(2)] by auto
  next
    case False
    then obtain p j where p: "have_param f = Some p" and j: "index_where (\<lambda>p. f \<in> effects p) before = Some j"
      and w: "f \<notin> w0" by auto
    from index_where_Some [OF j] have jl: "j < length before" "f \<in> effects (before ! j)" by auto
    let ?k = "fact_key a f p" and ?v = "fact_ref before j f p"
    have eq: "bind_precs w0 before a (f # fs) b deps = bind_precs w0 before a fs (dset ?k ?v b) (deps @ [j])"
      using p j w by (simp add: fact_key_def fact_ref_def)
    have "binds_fact w0 before a j ?k ?v" unfolding binds_fact_def using p w jl(2) Cons.prems(1) by auto
    from Cons.IH [OF fs bound_ok_dset [OF Cons.prems(2) this jl(1)]] show ?thesis
      unfolding eq using p by (auto split: prod.splits)
  qed
qed

lemma compile_step_fields:
  "bind_precs w0 before a (sorted_facts (preconditions a)) [] [] = (b, deps) \<Longrightarrow>
     dget ''arg_bindings'' (compile_step w0 before a) = Some (PDict b)
   \<and> dget ''depends_on'' (compile_step w0 before a) = Some (if deps = [] then PNone else PInt (int (Max (set deps))))
   \<and> dget ''operation_id'' (compile_step w0 before a) = Some (PStr (ga_operation_id a))"
  by (simp add: compile_step_def dget_def)

lemma runs_producer:
  assumes "runs_from w0 as" "i < length as" "f \<in> preconditions (as ! i)" "f \<notin> w0"
  shows "\<exists>q\<in>set (take i as). f \<in> effects q"
proof -
  have "runs_from w0 (take i as @ as ! i # drop (Suc i) as)" using assms(1,2) by (simp add: id_take_nth_drop [symmetric])
  then have "satisfies_all (final_world w0 (take i as)) (preconditions (as ! i))" by (simp add: plan_simps)
  with assms(3,4) show ?thesis by (auto simp: satisfies_iff final_world_eq)
qed

lemma compiled_bindings:
  assumes "runs_from w0 as" and "i < length as"
  obtains b where "dget ''arg_bindings'' (compile_steps as w0 ! i) = Some (PDict b)"
    "\<And>f p. f \<in> preconditions (as ! i) \<Longrightarrow> have_param f = Some p \<Longrightarrow> f \<notin> w0 \<Longrightarrow> finite (preconditions (as ! i)) \<Longrightarrow>
       fact_key (as ! i) f p \<in> fst ` set b"
    "\<And>k v. (k, v) \<in> set b \<Longrightarrow> \<exists>j d. j < i \<and> binds_fact w0 as (as ! i) j k v
       \<and> dget ''depends_on'' (compile_steps as w0 ! i) = Some (PInt (int d)) \<and> j \<le> d \<and> d < i"
proof -
  let ?a = "as ! i" and ?before = "take i as"
  have c: "compile_steps as w0 ! i = compile_step w0 ?before ?a" using assms(2) by (simp add: compile_steps_def)
  obtain b deps where e: "bind_precs w0 ?before ?a (sorted_facts (preconditions ?a)) [] [] = (b, deps)"
    by (metis surj_pair)
  have sub: "set (sorted_facts (preconditions ?a)) \<subseteq> preconditions ?a"
    unfolding sorted_facts_def by (cases "finite (preconditions ?a)") simp_all
  have "bound_ok w0 ?before ?a [] []" by (simp add: bound_ok_def)
  from bind_precs_ok [OF sub this, unfolded e prod.case] have ok: "bound_ok w0 ?before ?a b deps"
    and all: "\<forall>f\<in>set (sorted_facts (preconditions ?a)). \<forall>p. have_param f = Some p \<longrightarrow> f \<notin> w0 \<longrightarrow>
        (\<exists>q\<in>set ?before. f \<in> effects q) \<longrightarrow> fact_key ?a f p \<in> fst ` set b"
    by blast+
  note fields = compile_step_fields [OF e]
  have one: "fact_key ?a f p \<in> fst ` set b"
    if "f \<in> preconditions ?a" "have_param f = Some p" "f \<notin> w0" "finite (preconditions ?a)" for f p
    using all that runs_producer [OF assms that(1,3)] by (simp add: sorted_facts_def)
  have two: "\<exists>j d. j < i \<and> binds_fact w0 as ?a j k v
      \<and> dget ''depends_on'' (compile_step w0 ?before ?a) = Some (PInt (int d)) \<and> j \<le> d \<and> d < i"
    if kv: "(k, v) \<in> set b" for k v
  proof -
    from ok kv obtain j where j: "j \<in> set deps" "binds_fact w0 ?before ?a j k v" unfolding bound_ok_def by blast
    have lt: "\<forall>j\<in>set deps. j < i" using ok assms(2) by (simp add: bound_ok_def)
    have "deps \<noteq> []" using j(1) by auto
    then have d: "dget ''depends_on'' (compile_step w0 ?before ?a) = Some (PInt (int (Max (set deps))))"
      "Max (set deps) \<in> set deps" using fields by simp_all
    have "binds_fact w0 as ?a j k v" using j lt by (simp add: binds_fact_def fact_ref_def)
    moreover have "j \<le> Max (set deps)" "Max (set deps) < i" "j < i" using d(2) lt j(1) by auto
    ultimately show ?thesis using d(1) by blast
  qed
  show ?thesis by (rule that [of b]) (use fields one two c in simp_all)
qed

subsection \<open>Properties of the planner\<close>

lemma plan_found:
  assumes "plan goal w0 actions max_steps max_expansions = Some p"
  shows "runs_from w0 (gp_actions p) \<and> goal \<subseteq> final_world w0 (gp_actions p)
     \<and> set (gp_actions p) \<subseteq> set actions \<and> distinct (map action_key (gp_actions p))
     \<and> int (length (gp_actions p)) \<le> max 0 max_steps
     \<and> gp_cost p = sum_list (map ga_cost (gp_actions p))
     \<and> gp_steps p = compile_steps (gp_actions p) w0"
proof (cases "satisfies_all w0 goal")
  case True
  with assms show ?thesis by (auto simp: plan_def plan_search_def compile_steps_def satisfies_iff)
next
  case False
  from search_exit [OF this] obtain s r where res: "plan_search goal w0 actions max_steps max_expansions = Some r"
    and inv: "search_inv goal w0 actions max_steps s"
    and st: "search_step goal w0 actions max_steps max_expansions s = Inr r" .
  from assms res have "r = Found p"
    by (simp add: plan_def split: search_outcome.splits)
  with st obtain n rest where p: "pq_pop (frontier s) = Some (n, rest)" "satisfies_all (nd_world n) goal"
    "p = \<lparr>gp_actions = nd_path n, gp_steps = compile_steps (nd_path n) w0, gp_cost = nd_g n\<rparr>"
    by (auto simp: search_step_def Let_def split: option.splits if_splits)
  have "node_ok w0 actions max_steps n" using popped_ok(1) [OF _ p(1)] inv by (simp add: search_inv_def)
  with p(2,3) show ?thesis by (simp add: node_ok_def satisfies_iff)
qed

text \<open>
  C4: Plans are sound.  Whatever plan is returned can be executed from the initial world (each action's
  preconditions hold when it is reached), ends in a world that contains every goal fact, uses only
  the given actions and none twice, has at most \<open>max_steps\<close> of them, costs their sum and carries
  their compiled steps.
\<close>

theorem plan_sound:
  assumes "plan goal w0 actions max_steps max_expansions = Some p"
  shows "runs_from w0 (gp_actions p) \<and> goal \<subseteq> final_world w0 (gp_actions p)
     \<and> set (gp_actions p) \<subseteq> set actions \<and> distinct (map action_key (gp_actions p))
     \<and> int (length (gp_actions p)) \<le> max 0 max_steps
     \<and> gp_cost p = sum_list (map ga_cost (gp_actions p))
     \<and> gp_steps p = compile_steps (gp_actions p) w0"
  by (rule plan_found [OF assms])

definition act :: "string \<Rightarrow> string list \<Rightarrow> string list \<Rightarrow> GoapAction" where
  "act op pre eff = \<lparr>ga_operation_id = op, ga_plugin_id = PStr ''p'', ga_intent = PStr [], preconditions = set pre,
     effects = set eff, effect_fields = [], ga_cost = 1, ga_candidate = PNone, ga_model = PNone,
     precondition_params = []\<rparr>"

definition list_then_get :: "GoapAction list" where
  "list_then_get = [act ''get_session'' [''have:sessionId''] [''did:get_session''],
     act ''list_sessions'' [] [''have:sessionId'', ''did:list_sessions'']]"

theorem plan_sound_witness:
  "\<exists>p. plan {''did:get_session''} {} list_then_get 12 1000 = Some p
     \<and> {''did:get_session''} \<subseteq> final_world {} (gp_actions p)"
proof -
  have "plan {''did:get_session''} {} list_then_get 12 1000 \<noteq> None" by code_simp
  then obtain p where p: "plan {''did:get_session''} {} list_then_get 12 1000 = Some p" by blast
  with plan_sound [OF p] show ?thesis by blast
qed




text \<open>
  Compiled steps carry their data flow.  In the steps of an executable plan, every \<open>have:\<close>
  precondition that the initial world lacks is bound, every binding is the reference of such a
  precondition to an earlier step whose action produces the fact, in the field that action names for
  it, and \<open>depends_on\<close> is an earlier step no smaller than any bound one.
\<close>

theorem compiled_steps_data_flow:
  assumes "runs_from w0 as" and "i < length as"
  shows "\<exists>b. dget ''arg_bindings'' (compile_steps as w0 ! i) = Some (PDict b)
     \<and> (\<forall>f\<in>preconditions (as ! i). \<forall>p. have_param f = Some p \<and> f \<notin> w0 \<and> finite (preconditions (as ! i)) \<longrightarrow>
          or_param (pairs_get (precondition_params (as ! i)) f) p \<in> fst ` set b)
     \<and> (\<forall>(k, v)\<in>set b. \<exists>f\<in>preconditions (as ! i). \<exists>p j d. have_param f = Some p \<and> j < i \<and> f \<in> effects (as ! j)
          \<and> k = or_param (pairs_get (precondition_params (as ! i)) f) p
          \<and> v = PStr (step_ref j (or_param (pairs_get (effect_fields (as ! j)) f) p))
          \<and> dget ''depends_on'' (compile_steps as w0 ! i) = Some (PInt (int d)) \<and> j \<le> d \<and> d < i)"
proof -
  from compiled_bindings [OF assms] obtain b where
    b: "dget ''arg_bindings'' (compile_steps as w0 ! i) = Some (PDict b)"
    and keys: "\<And>f p. f \<in> preconditions (as ! i) \<Longrightarrow> have_param f = Some p \<Longrightarrow> f \<notin> w0 \<Longrightarrow>
       finite (preconditions (as ! i)) \<Longrightarrow> fact_key (as ! i) f p \<in> fst ` set b"
    and refs: "\<And>k v. (k, v) \<in> set b \<Longrightarrow> \<exists>j d. j < i \<and> binds_fact w0 as (as ! i) j k v
       \<and> dget ''depends_on'' (compile_steps as w0 ! i) = Some (PInt (int d)) \<and> j \<le> d \<and> d < i" by blast
  have "\<exists>f\<in>preconditions (as ! i). \<exists>p j d. have_param f = Some p \<and> j < i \<and> f \<in> effects (as ! j)
      \<and> k = or_param (pairs_get (precondition_params (as ! i)) f) p
      \<and> v = PStr (step_ref j (or_param (pairs_get (effect_fields (as ! j)) f) p))
      \<and> dget ''depends_on'' (compile_steps as w0 ! i) = Some (PInt (int d)) \<and> j \<le> d \<and> d < i"
    if "(k, v) \<in> set b" for k v
    using refs [OF that] unfolding binds_fact_def fact_key_def fact_ref_def by metis
  then show ?thesis using b keys unfolding fact_key_def by blast
qed

theorem compiled_steps_data_flow_witness:
  "\<exists>b. dget ''arg_bindings'' (compile_steps (rev list_then_get) {} ! 1) = Some (PDict b) \<and> ''sessionId'' \<in> fst ` set b"
proof -
  have r: "runs_from {} (rev list_then_get)" by code_simp
  have i: "1 < length (rev list_then_get)" by (simp add: list_then_get_def)
  have a: "rev list_then_get ! 1 = act ''get_session'' [''have:sessionId''] [''did:get_session'']"
    by (simp add: list_then_get_def)
  have h: "have_param ''have:sessionId'' = Some ''sessionId''" by code_simp
  from compiled_steps_data_flow [OF r i] obtain b where
    "dget ''arg_bindings'' (compile_steps (rev list_then_get) {} ! 1) = Some (PDict b)"
    "\<forall>f\<in>preconditions (rev list_then_get ! 1). \<forall>p. have_param f = Some p \<and> f \<notin> {}
        \<and> finite (preconditions (rev list_then_get ! 1)) \<longrightarrow>
          or_param (pairs_get (precondition_params (rev list_then_get ! 1)) f) p \<in> fst ` set b" by blast
  then show ?thesis using h unfolding a by (auto simp: act_def pairs_get_def or_param_def)
qed

text \<open>
  Plans need not be minimal.  The search orders nodes by cost plus the number of missing goal facts,
  which over-estimates when one action yields several facts: with unit costs it returns a plan of
  three actions where two suffice.
\<close>

theorem plan_not_minimal:
  "let a = act ''a'' [] [''x'']; b = act ''b'' [] [''y'']; c = act ''c'' [] [''z''];
       prep = act ''prep'' [] [''r'']; all = act ''all'' [''r''] [''x'', ''y'', ''z'']; goal = {''x'', ''y'', ''z''} in
   map_option gp_cost (plan goal {} [a, b, c, prep, all] 12 1000) = Some 3
   \<and> runs_from {} [prep, all] \<and> goal \<subseteq> final_world {} [prep, all]
   \<and> sum_list (map ga_cost [prep, all]) = 2"
  by code_simp

end
