(* ===== verification/GoapDerive.thy ===== *)
theory GoapDerive
  imports GoapPlanner
begin

text \<open>
  Actions from route candidates, \<open>core_graph/goap/derive.py\<close>: the parameters a call requires become \<open>have:\<close>
  preconditions, its operation id and resource become effects, and pairs say which argument a fact fills and which field
  of a result it is read from.  A candidate is a dictionary; \<open>None\<close> is an exception (a path, method or
  operation id that is no string, a required list that holds other values than strings).  \<open>words\<close> leaves out the
  empty pieces of \<open>re.split\<close>, which equal no verb.  Of two different plugin prefixes of one length at most one
  matches, so their order, that of a Python set, does not matter.
\<close>

subsection \<open>Parameters\<close>

text \<open>\<open>re.findall\<close> of \<open>\{([^}]+)\}\<close> and of \<open>:([a-zA-Z0-9_]+)\<close>.\<close>

function brace_params :: "string \<Rightarrow> string list" where
  "brace_params [] = []"
| "brace_params (c # cs) =
     (let p = takeWhile (\<lambda>d. d \<noteq> CHR ''}'') cs; t = dropWhile (\<lambda>d. d \<noteq> CHR ''}'') cs in
      if c = CHR ''{'' \<and> p \<noteq> [] \<and> t \<noteq> [] then p # brace_params (tl t) else brace_params cs)"
  by pat_completeness auto
termination
proof (relation "measure length")
  fix c :: char and cs p t
  assume "t = dropWhile (\<lambda>d. d \<noteq> CHR ''}'') cs"
  then have "length t \<le> length cs" by (simp add: length_dropWhile_le)
  then show "(tl t, c # cs) \<in> measure length" by simp
qed simp_all

definition is_word :: "char \<Rightarrow> bool" where
  "is_word c = (is_alnum c \<or> c = CHR ''_'')"

function colon_params :: "string \<Rightarrow> string list" where
  "colon_params [] = []"
| "colon_params (c # cs) =
     (if c = CHR '':'' \<and> takeWhile is_word cs \<noteq> [] then takeWhile is_word cs # colon_params (dropWhile is_word cs)
      else colon_params cs)"
  by pat_completeness auto
termination
  by (relation "measure length") (auto simp: le_imp_less_Suc length_dropWhile_le)

text \<open>\<open>candidate.get("path") or candidate.get("path_template") or ""\<close>.\<close>

definition path_of :: "pydict \<Rightarrow> string option" where
  "path_of c =
     (let v = (if truthy (dget_none ''path'' c) then dget_none ''path'' c else dget_none ''path_template'' c) in
      if \<not> truthy v then Some [] else (case v of PStr s \<Rightarrow> Some s | _ \<Rightarrow> None))"

definition path_params :: "pydict \<Rightarrow> string list option" where
  "path_params c = map_option (\<lambda>p. dedup (brace_params p @ colon_params p)) (path_of c)"

text \<open>\<open>list(v)\<close> for the required names: the strings of a list, the keys of a dictionary, the characters of a string.\<close>

definition name_list :: "pyval \<Rightarrow> string list option" where
  "name_list v =
     (case v of
        PList xs \<Rightarrow> (if list_all is_str xs then Some (map str_of xs) else None)
      | PDict d \<Rightarrow> Some (map fst d)
      | PStr s \<Rightarrow> Some (map (\<lambda>c. [c]) s)
      | _ \<Rightarrow> None)"

definition declared_params :: "pydict \<Rightarrow> string list option" where
  "declared_params c =
     (case dget_or ''parameters'' (PDict []) c of
        PDict ps \<Rightarrow>
          (if has_key ''properties'' ps then name_list (dget_or ''required'' (PList []) ps)
           else Some (map fst (filter (\<lambda>(n, sch). is_dict sch \<and> truthy (dget_none ''required'' (dict_of sch))) ps)))
      | _ \<Rightarrow> Some [])"

definition required_params :: "pydict \<Rightarrow> string list option" where
  "required_params c = do {
     req \<leftarrow> declared_params c;
     paths \<leftarrow> path_params c;
     Some (req @ filter (\<lambda>p. p \<notin> set req) paths)
   }"

definition schema_param_names :: "pydict \<Rightarrow> string list" where
  "schema_param_names c =
     (case dget_or ''parameters'' (PDict []) c of
        PDict ps \<Rightarrow>
          (case dget ''properties'' ps of
             Some (PDict props) \<Rightarrow> map fst props
           | _ \<Rightarrow> map fst (filter (\<lambda>(k, v). is_dict v) ps))
      | _ \<Rightarrow> [])"

subsection \<open>Operation names\<close>

definition prefix_suffixes :: "string list" where
  "prefix_suffixes = [''_plugin'', ''-plugin'', ''plugin'', ''_mcp'', ''-mcp'']"

definition longest_first :: "string list \<Rightarrow> string list" where
  "longest_first ss = sort_key (\<lambda>s. - int (length s)) ss"

definition plugin_prefixes :: "pyval \<Rightarrow> string list option" where
  "plugin_prefixes plugin_id =
     (if \<not> truthy plugin_id then Some []
      else case plugin_id of
        PStr s \<Rightarrow>
          (let pid = lower s;
               stems = map (\<lambda>suf. rstrip_of ''_-'' (take (length pid - length suf) pid))
                 (filter (\<lambda>suf. ends_with suf pid \<and> length pid > length suf) prefix_suffixes) in
           Some (longest_first (filter (\<lambda>p. length p \<ge> 3)
             (dedup (pid # replace_all ''-'' [] (replace_all ''_'' [] pid) # stems)))))
      | _ \<Rightarrow> None)"

fun strip_first :: "string \<Rightarrow> string list \<Rightarrow> string" where
  "strip_first op [] = op"
| "strip_first op (pref # prefs) =
     (let rest = lstrip_of ''_-'' (drop (length pref) op) in
      if starts_with pref (lower op) \<and> length op > length pref \<and> rest \<noteq> [] then rest else strip_first op prefs)"

definition strip_plugin_prefix :: "string \<Rightarrow> pyval \<Rightarrow> string option" where
  "strip_plugin_prefix op plugin_id = map_option (strip_first op) (plugin_prefixes plugin_id)"

definition proxy_stripped :: "string \<Rightarrow> string" where
  "proxy_stripped op = (case rpart ''__'' op of Some rest \<Rightarrow> rest | None \<Rightarrow> op)"

fun camel_sep :: "string \<Rightarrow> string" where
  "camel_sep [] = []"
| "camel_sep (c # cs) = c # concat (map (\<lambda>d. if is_upper d then [CHR ''_'', d] else [d]) cs)"

definition tokens_of :: "string \<Rightarrow> string list" where
  "tokens_of op = words is_alnum (lower (camel_sep op))"

definition resource_verbs :: "string list" where
  "resource_verbs = [''create'', ''get'', ''list'', ''update'', ''delete'', ''add'', ''send'',
     ''fetch'', ''find'', ''search'', ''post'', ''put'', ''patch'']"

fun noun_after :: "string \<Rightarrow> string list \<Rightarrow> string" where
  "noun_after op [] = []"
| "noun_after op (verb # verbs) =
     (if starts_with verb (lower op)
      then (case drop (length verb) op of
              [] \<Rightarrow> []
            | c # cs \<Rightarrow> (if c = CHR ''_'' \<or> is_upper c then lstrip_of ''_'' (c # cs) else noun_after op verbs))
      else noun_after op verbs)"

definition extract_noun :: "string \<Rightarrow> string" where
  "extract_noun op = noun_after op (longest_first resource_verbs)"

definition singular :: "string \<Rightarrow> string" where
  "singular s = (if ends_with ''s'' (lower s) then butlast (lower s) else lower s)"

definition static_segments :: "string \<Rightarrow> string list" where
  "static_segments path =
     filter (\<lambda>s. s \<noteq> [] \<and> \<not> (starts_with ''{'' s \<and> ends_with ''}'' s \<or> starts_with '':'' s)) (split_on (CHR ''/'') path)"

definition plugin_of :: "pydict \<Rightarrow> pyval" where
  "plugin_of c = dget_or ''plugin_id'' (PStr []) c"

definition resource_of :: "pydict \<Rightarrow> string option" where
  "resource_of c = do {
     op_id \<leftarrow> (let v = dget_none ''operation_id'' c in
       if \<not> truthy v then Some [] else case v of PStr s \<Rightarrow> Some (proxy_stripped s) | _ \<Rightarrow> None);
     noun \<leftarrow> (if extract_noun op_id \<noteq> [] then Some (extract_noun op_id)
       else map_option (\<lambda>s. if s \<noteq> op_id then extract_noun s else []) (strip_plugin_prefix op_id (plugin_of c)));
     if noun \<noteq> [] then Some (singular noun)
     else map_option (\<lambda>p. if static_segments p = [] then [] else singular (last (static_segments p))) (path_of c)
   }"

definition consumer_verbs :: "string list" where
  "consumer_verbs = [''fetch'', ''get'', ''retrieve'', ''read'', ''show'', ''open'']"

definition collection_verbs :: "string list" where
  "collection_verbs = [''search'', ''list'', ''find'', ''query'']"

definition id_aliases :: "string list" where
  "id_aliases = [''id'', ''userid'', ''user_id'', ''_id'']"

text \<open>A verb among the tokens of the name, or of the name without its plugin prefix.\<close>

definition has_verb :: "string list \<Rightarrow> string \<Rightarrow> bool" where
  "has_verb verbs op = list_ex (\<lambda>t. t \<in> set verbs) (tokens_of op)"

definition names_verb :: "string list \<Rightarrow> string \<Rightarrow> pyval \<Rightarrow> bool option" where
  "names_verb verbs stripped plugin_id =
     (if has_verb verbs stripped then Some True
      else map_option (\<lambda>s. s \<noteq> stripped \<and> has_verb verbs s) (strip_plugin_prefix stripped plugin_id))"

definition is_collection_op :: "string \<Rightarrow> pyval \<Rightarrow> bool option" where
  "is_collection_op op plugin_id = names_verb collection_verbs (proxy_stripped op) plugin_id"

definition id_consume_precondition :: "string \<Rightarrow> pydict \<Rightarrow> string option option" where
  "id_consume_precondition op c = do {
     is_coll \<leftarrow> is_collection_op op (plugin_of c);
     if is_coll then Some None
     else do {
       matched \<leftarrow> names_verb consumer_verbs (proxy_stripped op) (plugin_of c);
       Some (if matched \<and> ''id'' \<in> set (schema_param_names c) then Some ''have:id'' else None)
     }
   }"

subsection \<open>Actions\<close>

definition param_fact :: "bool \<Rightarrow> string list \<Rightarrow> string \<Rightarrow> string" where
  "param_fact is_get paths p =
     (if lower p \<in> set id_aliases \<and> \<not> (is_get \<and> p \<in> set paths) then ''have:id'' else ''have:'' @ p)"

definition aliased_params :: "bool \<Rightarrow> string list \<Rightarrow> string list \<Rightarrow> string list" where
  "aliased_params is_get paths req = filter (\<lambda>p. lower p \<in> set id_aliases \<and> \<not> (is_get \<and> p \<in> set paths)) req"

text \<open>The pairs of a fact and the argument it fills: the aliased parameters, or \<open>id\<close> itself for a consumer.\<close>

definition fact_params :: "string list \<Rightarrow> string option \<Rightarrow> (string \<times> string) list" where
  "fact_params aliased consume =
     (let pairs = map (\<lambda>p. (''have:id'', p)) aliased in
      sort (remdups (if consume \<noteq> None \<and> aliased = [] then [(''have:id'', ''id'')] else pairs)))"

text \<open>Effects in the order they are added, with the field each is read from.\<close>

definition resource_fields :: "string \<Rightarrow> string \<Rightarrow> (string \<times> string) list" where
  "resource_fields resource http =
     (if resource = [] then []
      else if http \<in> {''POST'', ''PUT'', ''PATCH''}
      then dset (''have:'' @ resource) resource (dset ''have:id'' ''id'' (dset (''have:'' @ resource @ ''_id'') ''id'' []))
      else dset (''have:'' @ resource) resource [])"

definition default_fields :: "string list \<Rightarrow> (string \<times> string) list \<Rightarrow> (string \<times> string) list" where
  "default_fields effs m =
     m @ map (\<lambda>e. (e, drop 5 e)) (filter (\<lambda>e. starts_with ''have:'' e \<and> map_of m e = None) effs)"

definition collection_fields :: "string \<Rightarrow> (string \<times> string) list \<Rightarrow> (string \<times> string) list" where
  "collection_fields resource m =
     (let f1 = dset ''have:id'' ''id'' m in
      if resource = [] then f1
      else dset (''have:'' @ resource @ ''Id'') ''id'' (dset (''have:'' @ resource @ ''_id'') ''id'' f1))"

definition derive_effects :: "string \<Rightarrow> string \<Rightarrow> string \<Rightarrow> bool \<Rightarrow> string list \<times> (string \<times> string) list" where
  "derive_effects op resource http is_coll =
     (let f1 = resource_fields resource http;
          effs = (''did:'' @ op) # map fst f1;
          f2 = default_fields effs f1;
          f3 = (if is_coll then collection_fields resource f2 else f2) in
      (effs @ map fst f3, sort_key fst f3))"

definition derive_model :: "pydict \<Rightarrow> pyval option" where
  "derive_model c =
     (let m = dget_none ''model'' c; meta = dget_none ''metadata'' c in
      if truthy m then Some m
      else if \<not> truthy meta then Some PNone
      else case meta of PDict d \<Rightarrow> Some (dget_none ''model'' d) | _ \<Rightarrow> None)"

definition derive_action :: "pydict \<Rightarrow> GoapAction option" where
  "derive_action c = do {
     req \<leftarrow> required_params c;
     paths \<leftarrow> path_params c;
     http \<leftarrow> (case dget_or ''method'' (PStr ''GET'') c of PStr m \<Rightarrow> Some (upper m) | _ \<Rightarrow> None);
     op \<leftarrow> (case dget_or ''operation_id'' (PStr []) c of PStr s \<Rightarrow> Some s | _ \<Rightarrow> None);
     consume \<leftarrow> id_consume_precondition op c;
     resource \<leftarrow> resource_of c;
     is_coll \<leftarrow> is_collection_op op (plugin_of c);
     model \<leftarrow> derive_model c;
     let eff = derive_effects op resource http is_coll;
     let is_get = (http = ''GET'');
     Some \<lparr>ga_operation_id = op, ga_plugin_id = plugin_of c, ga_intent = dget_or ''description'' (PStr []) c,
       preconditions = set (map (param_fact is_get paths) req) \<union> set_option consume,
       effects = set (fst eff), effect_fields = snd eff, ga_cost = 1, ga_candidate = PDict c, ga_model = model,
       precondition_params = fact_params (aliased_params is_get paths req) consume\<rparr>
   }"

fun derive_actions :: "pydict list \<Rightarrow> GoapAction list option" where
  "derive_actions [] = Some []"
| "derive_actions (c # cs) = do {
     a \<leftarrow> derive_action c;
     as \<leftarrow> derive_actions cs;
     Some (a # as)
   }"

subsection \<open>What an action asks and gives\<close>

lemma starts_have [simp]: "starts_with ''have:'' f \<longleftrightarrow> (\<exists>x. f = ''have:'' @ x)"
  by (auto simp: starts_with_iff)

lemma have_param_eq: "have_param f = Some p \<longleftrightarrow> f = ''have:'' @ p"
  by (auto simp: have_param_def)

lemma param_fact_have: "\<exists>x. param_fact is_get paths p = ''have:'' @ x"
  by (simp add: param_fact_def)

lemma derive_action_shape:
  assumes "derive_action c = Some a"
  obtains req paths m consume resource is_coll where
    "required_params c = Some req" "path_params c = Some paths" "dget_or ''method'' (PStr ''GET'') c = PStr m"
    "id_consume_precondition (ga_operation_id a) c = Some consume"
    "preconditions a = param_fact (upper m = ''GET'') paths ` set req \<union> set_option consume"
    "precondition_params a = fact_params (aliased_params (upper m = ''GET'') paths req) consume"
    "resource_of c = Some resource" "is_collection_op (ga_operation_id a) (plugin_of c) = Some is_coll"
    "effects a = set (fst (derive_effects (ga_operation_id a) resource (upper m) is_coll))"
    "effect_fields a = snd (derive_effects (ga_operation_id a) resource (upper m) is_coll)"
    "ga_cost a = 1" "ga_candidate a = PDict c" "ga_plugin_id a = plugin_of c"
  using assms by (auto simp: derive_action_def Let_def bind_eq_Some_conv split: pyval.splits)

lemma consume_have_id: "id_consume_precondition op c = Some consume \<Longrightarrow> consume \<in> {None, Some ''have:id''}"
  by (auto simp: id_consume_precondition_def bind_eq_Some_conv split: if_splits)

lemma derive_actions_all: "derive_actions cs = Some as \<Longrightarrow> list_all2 (\<lambda>c a. derive_action c = Some a) cs as"
  by (induction cs arbitrary: as) (auto simp: bind_eq_Some_conv)

lemma derived_from:
  assumes "derive_actions cs = Some as" "a \<in> set as"
  obtains c where "c \<in> set cs" "derive_action c = Some a"
  using derive_actions_all [OF assms(1)] assms(2) unfolding list_all2_conv_all_nth in_set_conv_nth by metis

lemma distinct_sorted_keys: "distinct (map fst (sort_key fst d)) = distinct (map fst d)" for d :: "('a::linorder \<times> 'b) list"
  by (rule mset_eq_imp_distinct_iff) simp

lemma map_of_sort_key [simp]:
  "distinct (map fst d) \<Longrightarrow> map_of (sort_key fst d) = map_of d" for d :: "('a::linorder \<times> 'b) list"
  by (simp add: map_of_inject_set distinct_sorted_keys)

text \<open>The field maps hold \<open>have:\<close> facts only, each once.\<close>

definition have_fields :: "(string \<times> string) list \<Rightarrow> bool" where
  "have_fields m \<longleftrightarrow> distinct (map fst m) \<and> (\<forall>f\<in>fst ` set m. \<exists>x. f = ''have:'' @ x)"

lemma have_fields_dset: "have_fields m \<Longrightarrow> starts_with ''have:'' k \<Longrightarrow> have_fields (dset k v m)"
  by (auto simp: have_fields_def distinct_dset)

lemma have_fields_Nil: "have_fields []"
  by (simp add: have_fields_def)

lemma have_fields_resource: "have_fields (resource_fields r m)"
  unfolding resource_fields_def by (simp only: split: if_split) (intro conjI impI have_fields_dset have_fields_Nil; simp)

lemma default_fields_none: "(\<And>e. e \<in> set effs \<Longrightarrow> starts_with ''have:'' e \<Longrightarrow> e \<in> fst ` set m) \<Longrightarrow> default_fields effs m = m"
  by (force simp: default_fields_def filter_empty_conv map_of_eq_None_iff simp del: starts_have)

lemma did_not_have: "starts_with ''have:'' (''did:'' @ op) = False"
  by (simp del: starts_have)

lemma derive_fields:
  "snd (derive_effects op r m col) = sort_key fst (if col then collection_fields r (resource_fields r m) else resource_fields r m)"
  "set (fst (derive_effects op r m col)) =
     insert (''did:'' @ op) (fst ` set (if col then collection_fields r (resource_fields r m) else resource_fields r m))"
proof -
  have "default_fields ((''did:'' @ op) # map fst (resource_fields r m)) (resource_fields r m) = resource_fields r m"
    by (rule default_fields_none) (use did_not_have [of op] in auto)
  then show "snd (derive_effects op r m col) = sort_key fst (if col then collection_fields r (resource_fields r m) else resource_fields r m)"
    "set (fst (derive_effects op r m col)) =
     insert (''did:'' @ op) (fst ` set (if col then collection_fields r (resource_fields r m) else resource_fields r m))"
    by (auto simp: derive_effects_def Let_def collection_fields_def)
qed

lemma have_fields_collection: "have_fields m \<Longrightarrow> have_fields (collection_fields r m)"
  unfolding collection_fields_def Let_def by (simp only: split: if_split) (intro conjI impI have_fields_dset; simp)

lemma derived_fields:
  assumes "derive_action c = Some a"
  shows "have_fields (effect_fields a)" "effects a = insert (''did:'' @ ga_operation_id a) (fst ` set (effect_fields a))"
    "sorted (map fst (effect_fields a))"
proof -
  obtain resource http is_coll where
    e: "effects a = set (fst (derive_effects (ga_operation_id a) resource http is_coll))"
    "effect_fields a = snd (derive_effects (ga_operation_id a) resource http is_coll)"
    by (rule derive_action_shape [OF assms])
  have ok: "have_fields (if is_coll then collection_fields resource (resource_fields resource http) else resource_fields resource http)"
    by (simp add: have_fields_resource have_fields_collection)
  show "have_fields (effect_fields a)" unfolding e(2) derive_fields(1) using ok by (simp add: have_fields_def distinct_sorted_keys)
  show "effects a = insert (''did:'' @ ga_operation_id a) (fst ` set (effect_fields a))" unfolding e derive_fields by simp
  show "sorted (map fst (effect_fields a))" unfolding e(2) derive_fields(1) by simp
qed

text \<open>The argument a derived fact binds.\<close>

lemma fact_params_keys: "(k, p) \<in> set (fact_params aliased consume) \<longleftrightarrow>
    k = ''have:id'' \<and> (if consume \<noteq> None \<and> aliased = [] then p = ''id'' else p \<in> set aliased)"
  by (auto simp: fact_params_def)

lemma pairs_get_in: "pairs_get ps k = Some p \<Longrightarrow> (k, p) \<in> set ps"
  by (auto simp: pairs_get_def dest: map_of_SomeD)

lemma pairs_get_None: "pairs_get ps k = None \<longleftrightarrow> (\<forall>p. (k, p) \<notin> set ps)"
  by (force simp: pairs_get_def map_of_eq_None_iff)

lemma pairs_get_distinct: "distinct (map fst ps) \<Longrightarrow> pairs_get ps k = map_of ps k"
proof -
  assume "distinct (map fst ps)"
  then have "map_of (rev ps) = map_of ps" by (subst map_of_inject_set) (simp_all add: rev_map [symmetric])
  then show ?thesis by (simp add: pairs_get_def)
qed

lemma have_field:
  assumes "derive_action c = Some a" "''have:'' @ p \<in> effects a"
  shows "\<exists>field. map_of (effect_fields a) (''have:'' @ p) = Some field \<and> pairs_get (effect_fields a) (''have:'' @ p) = Some field"
proof -
  note d = derived_fields [OF assms(1)]
  have "''have:'' @ p \<in> fst ` set (effect_fields a)" using assms(2) unfolding d(2) by auto
  then show ?thesis using d(1) by (auto simp: have_fields_def pairs_get_distinct)
qed

text \<open>\<open>feeds c q f\<close>: the required parameter \<open>q\<close> of the candidate asks for the fact \<open>f\<close>, and no other one does.\<close>

definition requires_fact :: "pydict \<Rightarrow> string \<Rightarrow> string \<Rightarrow> bool" where
  "requires_fact c q f =
     (case (required_params c, path_params c, dget_or ''method'' (PStr ''GET'') c) of
        (Some req, Some paths, PStr m) \<Rightarrow> q \<in> set req \<and> param_fact (upper m = ''GET'') paths q = f
      | _ \<Rightarrow> False)"

definition sole_consumer :: "pydict \<Rightarrow> string \<Rightarrow> string \<Rightarrow> bool" where
  "sole_consumer c q f =
     (requires_fact c q f \<and> (case required_params c of Some req \<Rightarrow> list_all (\<lambda>p. requires_fact c p f \<longrightarrow> p = q) req | None \<Rightarrow> False))"

lemma aliased_iff: "p \<in> set (aliased_params is_get paths req) \<longleftrightarrow> p \<in> set req \<and> lower p \<in> set id_aliases \<and> \<not> (is_get \<and> p \<in> set paths)"
  by (auto simp: aliased_params_def)

lemma param_fact_aliased: "p \<in> set (aliased_params is_get paths req) \<Longrightarrow> param_fact is_get paths p = ''have:id''"
  by (simp add: aliased_iff param_fact_def)

lemma param_fact_plain: "p \<in> set req \<Longrightarrow> p \<notin> set (aliased_params is_get paths req) \<Longrightarrow> param_fact is_get paths p = ''have:'' @ p"
  by (auto simp: aliased_iff param_fact_def)

lemma other_fact_key:
  assumes "derive_action c = Some a" "p \<noteq> ''id''"
  shows "fact_key a (''have:'' @ p) p = p"
proof -
  obtain aliased consume where "precondition_params a = fact_params aliased consume"
    by (rule derive_action_shape [OF assms(1)])
  then have "pairs_get (precondition_params a) (''have:'' @ p) = None"
    using assms(2) by (simp add: pairs_get_None fact_params_keys)
  then show ?thesis by (simp add: fact_key_def or_param_def)
qed

lemma id_fact_key:
  assumes "derive_action c = Some a"
  obtains req paths is_get where "required_params c = Some req" "preconditions a \<subseteq> insert ''have:id'' (param_fact is_get paths ` set req)"
    "fact_key a ''have:id'' ''id'' \<in> insert ''id'' (set (aliased_params is_get paths req))"
    "aliased_params is_get paths req \<noteq> [] \<Longrightarrow> fact_key a ''have:id'' ''id'' \<in> set (aliased_params is_get paths req)"
    "\<And>q f. requires_fact c q f \<longleftrightarrow> q \<in> set req \<and> param_fact is_get paths q = f"
    "param_fact is_get paths ` set req \<subseteq> preconditions a"
proof -
  obtain req paths m consume where s: "required_params c = Some req" "path_params c = Some paths"
    "dget_or ''method'' (PStr ''GET'') c = PStr m" "id_consume_precondition (ga_operation_id a) c = Some consume"
    "preconditions a = param_fact (upper m = ''GET'') paths ` set req \<union> set_option consume"
    "precondition_params a = fact_params (aliased_params (upper m = ''GET'') paths req) consume"
    by (rule derive_action_shape [OF assms])
  let ?al = "aliased_params (upper m = ''GET'') paths req"
  have pre: "preconditions a \<subseteq> insert ''have:id'' (param_fact (upper m = ''GET'') paths ` set req)"
    using s(5) consume_have_id [OF s(4)] by auto
  have key: "fact_key a ''have:id'' ''id'' \<in> (if ?al = [] then {''id''} else set ?al)"
  proof (cases "pairs_get (precondition_params a) ''have:id''")
    case None
    then have "?al = []" unfolding s(6) pairs_get_None fact_params_keys by (cases ?al) auto
    with None show ?thesis by (simp add: fact_key_def or_param_def)
  next
    case (Some p)
    from pairs_get_in [OF this] have "if ?al = [] then p = ''id'' else p \<in> set ?al"
      unfolding s(6) fact_params_keys by (auto split: if_splits)
    with Some show ?thesis by (simp add: fact_key_def or_param_def)
  qed
  show thesis by (rule that [OF s(1) pre]) (use key s(1-3,5) in \<open>auto simp: requires_fact_def split: if_splits\<close>)
qed

text \<open>Two facts never bind the same argument, and a parameter that alone asks for its fact is the argument bound.\<close>

lemma fact_key_inj:
  assumes a: "derive_action c = Some a" and f: "''have:'' @ p \<in> preconditions a" and g: "''have:'' @ q \<in> preconditions a"
    and k: "fact_key a (''have:'' @ p) p = fact_key a (''have:'' @ q) q"
  shows "p = q"
proof -
  have clash: False if "''have:'' @ x \<in> preconditions a" "x \<noteq> ''id''" "fact_key a ''have:id'' ''id'' = x" for x
  proof -
    obtain req paths is_get where i: "preconditions a \<subseteq> insert ''have:id'' (param_fact is_get paths ` set req)"
      "fact_key a ''have:id'' ''id'' \<in> insert ''id'' (set (aliased_params is_get paths req))"
      by (rule id_fact_key [OF a])
    from i(2) that have al: "x \<in> set (aliased_params is_get paths req)" by simp
    from i(1) that(1,2) obtain y where y: "y \<in> set req" "param_fact is_get paths y = ''have:'' @ x" by auto
    then have "y = x" using that(2) by (auto simp: param_fact_def split: if_splits)
    with y(2) param_fact_aliased [OF al] that(2) show False by simp
  qed
  show ?thesis
  proof (cases "p = ''id'' \<or> q = ''id''")
    case True
    then show ?thesis using clash [OF f] clash [OF g] k other_fact_key [OF a] by (cases "p = ''id''"; cases "q = ''id''") auto
  next
    case False
    then show ?thesis using k other_fact_key [OF a] by simp
  qed
qed

lemma sole_key:
  assumes a: "derive_action c = Some a" and q: "sole_consumer c q (''have:'' @ p)"
  shows "fact_key a (''have:'' @ p) p = q \<and> ''have:'' @ p \<in> preconditions a"
proof -
  obtain req paths is_get where i: "required_params c = Some req"
    "preconditions a \<subseteq> insert ''have:id'' (param_fact is_get paths ` set req)"
    "fact_key a ''have:id'' ''id'' \<in> insert ''id'' (set (aliased_params is_get paths req))"
    "aliased_params is_get paths req \<noteq> [] \<Longrightarrow> fact_key a ''have:id'' ''id'' \<in> set (aliased_params is_get paths req)"
    "\<And>q f. requires_fact c q f \<longleftrightarrow> q \<in> set req \<and> param_fact is_get paths q = f"
    "param_fact is_get paths ` set req \<subseteq> preconditions a"
    by (rule id_fact_key [OF a]) blast
  let ?al = "aliased_params is_get paths req"
  from q i(1,5) have r: "q \<in> set req" "param_fact is_get paths q = ''have:'' @ p"
    and only: "\<And>x. x \<in> set req \<Longrightarrow> param_fact is_get paths x = ''have:'' @ p \<Longrightarrow> x = q"
    by (auto simp: sole_consumer_def list_all_iff)
  have al: "x \<in> set req \<and> param_fact is_get paths x = ''have:id''" if "x \<in> set ?al" for x
    using that param_fact_aliased aliased_iff by blast
  have "fact_key a (''have:'' @ p) p = q"
  proof (cases "q \<in> set ?al")
    case True
    then have p: "p = ''id''" using r(2) al [OF True] by simp
    from True i(4) have "fact_key a ''have:id'' ''id'' \<in> set ?al" by (cases ?al) auto
    with al only p show ?thesis by simp
  next
    case False
    with r have p: "p = q" by (simp add: param_fact_plain)
    show ?thesis
    proof (cases "q = ''id''")
      case True
      have "?al = []"
      proof (rule ccontr)
        assume "?al \<noteq> []"
        then obtain x where "x \<in> set ?al" by (cases ?al) auto
        with al only p True False show False by force
      qed
      with i(3) p True show ?thesis by simp
    next
      case False
      with p other_fact_key [OF a] show ?thesis by simp
    qed
  qed
  with r i(6) show ?thesis by force
qed

lemma derived_finite: "derive_action c = Some a \<Longrightarrow> finite (preconditions a)"
  by (erule derive_action_shape) simp

lemma planned_binding:
  assumes "derive_actions candidates = Some actions"
    and "plan goal w0 actions max_steps max_expansions = Some p" and "i < length (gp_actions p)"
    and "derive_action c = Some (gp_actions p ! i)" and "sole_consumer c q (''have:'' @ x)" and "''have:'' @ x \<notin> w0"
  shows "\<exists>b j field. dget ''arg_bindings'' (gp_steps p ! i) = Some (PDict b) \<and> j < i
     \<and> dget q b = Some (PStr (step_ref j field))
     \<and> map_of (effect_fields (gp_actions p ! j)) (''have:'' @ x) = Some field"
proof -
  note plan = plan_found [OF assms(2)]
  let ?as = "gp_actions p" and ?f = "''have:'' @ x"
  have runs: "runs_from w0 ?as" and steps: "gp_steps p = compile_steps ?as w0" using plan by simp_all
  have key: "fact_key (?as ! i) ?f x = q" "?f \<in> preconditions (?as ! i)" using sole_key [OF assms(4,5)] by simp_all
  from compiled_bindings [OF runs assms(3)] obtain b where b: "dget ''arg_bindings'' (gp_steps p ! i) = Some (PDict b)"
    and keys: "\<And>f p. f \<in> preconditions (?as ! i) \<Longrightarrow> have_param f = Some p \<Longrightarrow> f \<notin> w0 \<Longrightarrow>
       finite (preconditions (?as ! i)) \<Longrightarrow> fact_key (?as ! i) f p \<in> fst ` set b"
    and refs: "\<And>k v. (k, v) \<in> set b \<Longrightarrow> \<exists>j. j < i \<and> binds_fact w0 ?as (?as ! i) j k v"
    unfolding steps by metis
  from keys [OF key(2) _ assms(6) derived_finite [OF assms(4)], of x] key(1) have "q \<in> fst ` set b" by (simp add: have_param_eq)
  then obtain v where v: "map_of b q = Some v" by (cases "map_of b q") (auto simp: map_of_eq_None_iff)
  from refs [OF map_of_SomeD [OF v]] obtain j f' y where j: "j < i" "f' \<in> preconditions (?as ! i)" "f' = ''have:'' @ y"
    "f' \<in> effects (?as ! j)" "q = fact_key (?as ! i) f' y" "v = fact_ref ?as j f' y"
    unfolding binds_fact_def have_param_eq by blast
  have xy: "x = y" by (rule fact_key_inj [OF assms(4)]) (use j key in simp_all)
  have "?as ! j \<in> set actions" using plan j(1) assms(3) by force
  from derived_from [OF assms(1) this] obtain d where "derive_action d = Some (?as ! j)" .
  from have_field [OF this, of x] j(3,4) xy obtain field where
    field: "map_of (effect_fields (?as ! j)) ?f = Some field" "pairs_get (effect_fields (?as ! j)) ?f = Some field" by auto
  then have "dget q b = Some (PStr (step_ref j field))"
    using v j(3,6) xy by (simp add: dget_def fact_ref_def or_param_def)
  with b j(1) field(1) show ?thesis by blast
qed

text \<open>
  C6: Plans over derived actions hand every required argument over.  Take a plan over the actions of the
  candidates and a required parameter of one of its calls that alone asks for its fact.  Unless the
  initial world already has the fact, the compiled step binds exactly this parameter to a reference to an
  earlier step, in the field that step's action names for the fact.
\<close>

theorem derived_plan_binds_parameters:
  assumes "derive_actions candidates = Some actions"
    and "plan goal w0 actions max_steps max_expansions = Some p" and "i < length (gp_actions p)"
    and "derive_action c = Some (gp_actions p ! i)" and "sole_consumer c q (''have:'' @ x)" and "''have:'' @ x \<notin> w0"
  shows "\<exists>b j field. dget ''arg_bindings'' (gp_steps p ! i) = Some (PDict b) \<and> j < i
     \<and> dget q b = Some (PStr (step_ref j field))
     \<and> map_of (effect_fields (gp_actions p ! j)) (''have:'' @ x) = Some field"
  by (rule planned_binding [OF assms])

definition jules_list :: pydict where
  "jules_list = [(''operation_id'', PStr ''proxy__juleslist_sessions''), (''plugin_id'', PStr ''jules_plugin''),
     (''method'', PStr ''GET''), (''path'', PStr ''/v1/sessions''), (''parameters'', PDict [])]"

definition jules_get :: pydict where
  "jules_get = [(''operation_id'', PStr ''julesget_session''), (''plugin_id'', PStr ''jules_plugin''),
     (''path'', PStr ''/v1/sessions/{sessionId}''), (''parameters'', PDict [])]"

definition jules_get_action :: GoapAction where
  "jules_get_action =
     \<lparr>ga_operation_id = ''julesget_session'', ga_plugin_id = PStr ''jules_plugin'', ga_intent = PStr [],
        preconditions = {''have:sessionId''}, effects = {''did:julesget_session'', ''have:session''},
        effect_fields = [(''have:session'', ''session'')], ga_cost = 1, ga_candidate = PDict jules_get, ga_model = PNone,
        precondition_params = []\<rparr>"

definition jules_list_action :: GoapAction where
  "jules_list_action =
     \<lparr>ga_operation_id = ''proxy__juleslist_sessions'', ga_plugin_id = PStr ''jules_plugin'', ga_intent = PStr [],
        preconditions = {},
        effects = {''did:proxy__juleslist_sessions'', ''have:session'', ''have:id'', ''have:session_id'', ''have:sessionId''},
        effect_fields = [(''have:id'', ''id''), (''have:session'', ''session''), (''have:sessionId'', ''id''), (''have:session_id'', ''id'')],
        ga_cost = 1, ga_candidate = PDict jules_list, ga_model = PNone, precondition_params = []\<rparr>"

lemma jules_derived:
  "derive_action jules_get = Some jules_get_action" "derive_action jules_list = Some jules_list_action"
  by code_simp+

lemma jules_plan:
  obtains p where "plan {''did:julesget_session''} {} [jules_get_action, jules_list_action] 12 1000 = Some p"
    "1 < length (gp_actions p)" "gp_actions p ! 1 = jules_get_action"
proof -
  have "case plan {''did:julesget_session''} {} [jules_get_action, jules_list_action] 12 1000 of None \<Rightarrow> False
     | Some p \<Rightarrow> map ga_operation_id (gp_actions p) = [''proxy__juleslist_sessions'', ''julesget_session'']"
    by code_simp
  then obtain p where p: "plan {''did:julesget_session''} {} [jules_get_action, jules_list_action] 12 1000 = Some p"
    "map ga_operation_id (gp_actions p) = [''proxy__juleslist_sessions'', ''julesget_session'']"
    by (auto split: option.splits)
  then have l: "1 < length (gp_actions p)" "ga_operation_id (gp_actions p ! 1) = ''julesget_session''"
    by (auto simp: map_eq_Cons_conv)
  have "gp_actions p ! 1 \<in> {jules_get_action, jules_list_action}" using plan_found [OF p(1)] nth_mem [OF l(1)] by auto
  with l(2) have "gp_actions p ! 1 = jules_get_action" by (auto simp: jules_list_action_def)
  with p(1) l(1) that show thesis by blast
qed

theorem derived_plan_binds_parameters_witness:
  "\<exists>(p :: GoapPlan) b j field. dget ''arg_bindings'' (gp_steps p ! 1) = Some (PDict b) \<and> j < 1
     \<and> dget ''sessionId'' b = Some (PStr (step_ref j field))"
proof -
  obtain p where p: "plan {''did:julesget_session''} {} [jules_get_action, jules_list_action] 12 1000 = Some p"
    "1 < length (gp_actions p)" "gp_actions p ! 1 = jules_get_action" by (rule jules_plan)
  have d: "derive_actions [jules_get, jules_list] = Some [jules_get_action, jules_list_action]"
    "derive_action jules_get = Some (gp_actions p ! 1)" using jules_derived p(3) by simp_all
  have q: "sole_consumer jules_get ''sessionId'' (''have:'' @ ''sessionId'')" by code_simp
  from derived_plan_binds_parameters [OF d(1) p(1,2) d(2) q] show ?thesis by blast
qed

text \<open>
  A derived action asks and gives what its call does.  Every required parameter is a \<open>have:\<close>
  precondition, or an id alias filled from \<open>have:id\<close>; the \<open>have:\<close> effects are exactly the facts with a
  field, each once and in order; the call's own \<open>did:\<close> fact is an effect, and every call costs one.
\<close>

theorem derived_action_interface:
  assumes "derive_action c = Some a" "required_params c = Some req"
  shows "(\<forall>q\<in>set req. ''have:'' @ q \<in> preconditions a
       \<or> lower q \<in> set id_aliases \<and> ''have:id'' \<in> preconditions a \<and> (''have:id'', q) \<in> set (precondition_params a))
     \<and> (\<forall>f\<in>preconditions a. starts_with ''have:'' f) \<and> finite (preconditions a)
     \<and> ''did:'' @ ga_operation_id a \<in> effects a \<and> {f \<in> effects a. starts_with ''have:'' f} = fst ` set (effect_fields a)
     \<and> distinct (map fst (effect_fields a)) \<and> sorted (map fst (effect_fields a)) \<and> ga_cost a = 1 \<and> ga_candidate a = PDict c"
proof -
  obtain paths m consume where s: "id_consume_precondition (ga_operation_id a) c = Some consume"
    "preconditions a = param_fact (upper m = ''GET'') paths ` set req \<union> set_option consume"
    "precondition_params a = fact_params (aliased_params (upper m = ''GET'') paths req) consume"
    "ga_cost a = 1" "ga_candidate a = PDict c"
    by (rule derive_action_shape [OF assms(1)]) (use assms(2) in auto)
  note d = derived_fields [OF assms(1)]
  have "''have:'' @ q \<in> preconditions a
       \<or> lower q \<in> set id_aliases \<and> ''have:id'' \<in> preconditions a \<and> (''have:id'', q) \<in> set (precondition_params a)"
    if q: "q \<in> set req" for q
  proof (cases "q \<in> set (aliased_params (upper m = ''GET'') paths req)")
    case True
    then have "''have:id'' \<in> preconditions a" unfolding s(2) using q param_fact_aliased by (metis UnI1 imageI)
    moreover have "(''have:id'', q) \<in> set (precondition_params a)" unfolding s(3) fact_params_keys using True by auto
    ultimately show ?thesis using True by (simp add: aliased_iff)
  next
    case False
    from param_fact_plain [OF q False] q show ?thesis unfolding s(2) by force
  qed
  moreover have "starts_with ''have:'' f" if "f \<in> preconditions a" for f
    using that consume_have_id [OF s(1)] param_fact_have unfolding s(2) by fastforce
  moreover have "{f \<in> effects a. starts_with ''have:'' f} = fst ` set (effect_fields a)"
    unfolding d(2) using d(1) did_not_have unfolding have_fields_def starts_have by blast
  moreover have "finite (preconditions a)" by (rule derived_finite [OF assms(1)])
  moreover have "''did:'' @ ga_operation_id a \<in> effects a" unfolding d(2) by simp
  ultimately show ?thesis using d(1,3) s(4,5) by (simp add: have_fields_def)
qed

theorem derived_action_interface_witness:
  "\<exists>a. derive_action jules_get = Some a \<and> ''have:sessionId'' \<in> preconditions a \<and> ''did:julesget_session'' \<in> effects a"
proof -
  have r: "required_params jules_get = Some [''sessionId'']" and n: "lower ''sessionId'' \<notin> set id_aliases" by code_simp+
  have "ga_operation_id jules_get_action = ''julesget_session''" by (simp add: jules_get_action_def)
  with derived_action_interface [OF jules_derived(1) r] jules_derived(1) n show ?thesis by (intro exI [of _ jules_get_action]) simp
qed

text \<open>
  Listing supplies ids.  The action of a collection operation on a resource yields \<open>have:id\<close> and the
  resource's id under both spellings, each read from the field \<open>id\<close>.
\<close>

theorem collection_supplies_ids:
  assumes "derive_action c = Some a" "is_collection_op (ga_operation_id a) (plugin_of c) = Some True"
    and "resource_of c = Some r" "r \<noteq> []"
  shows "\<forall>f\<in>{''have:id'', ''have:'' @ r @ ''_id'', ''have:'' @ r @ ''Id''}. f \<in> effects a \<and> map_of (effect_fields a) f = Some ''id''"
proof -
  obtain m where e: "effect_fields a = snd (derive_effects (ga_operation_id a) r m True)"
    by (rule derive_action_shape [OF assms(1)]) (use assms(2,3) in auto)
  have ok: "have_fields (collection_fields r (resource_fields r m))" by (simp add: have_fields_resource have_fields_collection)
  have f: "map_of (effect_fields a) = map_of (collection_fields r (resource_fields r m))"
    unfolding e derive_fields(1) using ok by (simp add: have_fields_def)
  have g: "map_of (effect_fields a) f = Some ''id''" if "f \<in> {''have:id'', ''have:'' @ r @ ''_id'', ''have:'' @ r @ ''Id''}" for f
    unfolding f using that assms(4) by (auto simp: collection_fields_def Let_def)
  have "f \<in> effects a" if "map_of (effect_fields a) f = Some v" for f v
    unfolding derived_fields(2) [OF assms(1)] using map_of_SomeD [OF that] by force
  with g show ?thesis by blast
qed

theorem collection_supplies_ids_witness:
  "\<exists>a. derive_action jules_list = Some a \<and> map_of (effect_fields a) ''have:sessionId'' = Some ''id''"
proof -
  have c: "is_collection_op (ga_operation_id jules_list_action) (plugin_of jules_list) = Some True" by code_simp
  have r: "resource_of jules_list = Some ''session''" by code_simp
  from collection_supplies_ids [OF jules_derived(2) c r] jules_derived(2) show ?thesis by auto
qed

text \<open>
  Two required id aliases ask for one fact, and the compiled step fills only the later of them: a call
  that requires both \<open>id\<close> and \<open>user_id\<close> runs with \<open>id\<close> unbound.
\<close>

definition two_ids :: pydict where
  "two_ids = [(''operation_id'', PStr ''update_member''), (''method'', PStr ''POST''),
     (''parameters'', PDict [(''properties'', PDict []), (''required'', PList [PStr ''id'', PStr ''user_id''])])]"

lemma second_id_alias_unbound:
  "map_option (\<lambda>as. map (dget ''arg_bindings'') (compile_steps as {})) (derive_actions [jules_list, two_ids])
   = Some [Some (PDict []), Some (PDict [(''user_id'', PStr ''$steps[0].id'')])]"
  by code_simp

end
