(* ===== verification/SeedWorld.thy ===== *)
theory SeedWorld
  imports SeedHygiene GoapDerive
begin

text \<open>
  The seed world of a plan, \<open>core_graph/goap/integrate/seed_world.py\<close>: it holds the seed facts, the keys of the working
  memory and the trusted seeds, and \<open>goap_plan_from_goal\<close> plans in it over the derived actions.  Seed facts are strings;
  the step limit of the configuration is an argument.  \<open>None\<close> is an exception.
\<close>

subsection \<open>The world\<close>

definition note_fact :: "string \<Rightarrow> string list \<Rightarrow> string list" where
  "note_fact f fs = (if f \<in> set fs then fs else fs @ [f])"

definition seed_fact :: "string \<Rightarrow> string list \<Rightarrow> string list" where
  "seed_fact f fs =
     (if starts_with ''have:'' f \<and> lower (drop 5 f) \<in> set id_aliases then note_fact ''have:id'' (note_fact f fs) else note_fact f fs)"

definition key_facts :: "pydict \<Rightarrow> string list" where
  "key_facts d = map (\<lambda>k. ''have:'' @ k) (map fst d)"

definition build_seed_world :: "string list \<Rightarrow> pydict \<Rightarrow> pydict \<Rightarrow> world" where
  "build_seed_world seed_facts wm seed_values =
     set (fold seed_fact (key_facts (sanitize_seed_values seed_values wm))
       (fold seed_fact (key_facts wm) (fold seed_fact seed_facts [])))"


subsection \<open>Facts of the seed world\<close>

definition id_alias_fact :: "string \<Rightarrow> bool" where
  "id_alias_fact f = (starts_with ''have:'' f \<and> lower (drop 5 f) \<in> set id_aliases)"

lemma set_note_fact [simp]: "set (note_fact f fs) = insert f (set fs)"
  by (auto simp: note_fact_def)

lemma set_seed_fact: "set (seed_fact f fs) = insert f (set fs) \<union> (if id_alias_fact f then {''have:id''} else {})"
  unfolding seed_fact_def id_alias_fact_def by (simp only: split: if_split) auto

lemma set_seed_facts: "set (fold seed_fact xs fs) = set fs \<union> set xs \<union> (if \<exists>f\<in>set xs. id_alias_fact f then {''have:id''} else {})"
proof (induction xs arbitrary: fs)
  case (Cons x xs)
  show ?case unfolding fold_Cons o_apply Cons.IH set_seed_fact by auto
qed simp

lemma world_facts:
  assumes "f \<in> build_seed_world seed_facts wm seeds" "f \<noteq> ''have:id''"
  shows "f \<in> set seed_facts \<or> f \<in> set (key_facts wm) \<or> f \<in> set (key_facts (sanitize_seed_values seeds wm))"
  using assms unfolding build_seed_world_def set_seed_facts by (auto split: if_splits)

lemma key_facts_iff: "''have:'' @ k \<in> set (key_facts d) \<longleftrightarrow> has_key k d"
  by (auto simp: key_facts_def has_key_iff)

lemma trusted_ids_only:
  assumes "''have:'' @ k \<in> build_seed_world seed_facts wm seeds" "is_id_like_param k" "k \<noteq> ''id''"
  shows "''have:'' @ k \<in> set seed_facts \<or> has_key k wm \<or> (\<exists>v. (k, v) \<in> set seeds \<and> looks_like_real_id v)"
proof -
  have "''have:'' @ k \<noteq> ''have:id''" using assms(3) by simp
  from world_facts [OF assms(1) this] consider "''have:'' @ k \<in> set seed_facts" | "has_key k wm"
    | "has_key k (sanitize_seed_values seeds wm)"
    unfolding key_facts_iff by blast
  then show ?thesis
  proof cases
    case 3
    then obtain v where v: "(k, v) \<in> set (sanitize_seed_values seeds wm)" by (auto simp: has_key_iff)
    from sanitize_trusted [OF this assms(2)] have "has_key k wm \<or> looks_like_real_id v"
      by (auto simp: has_key_def dget_or_def split: option.splits)
    with v sanitize_subset show ?thesis by blast
  qed simp_all
qed

text \<open>
  Only trusted ids enter the seed world.  A fact \<open>have:k\<close> for an id-like name other than \<open>id\<close> comes
  from the seed facts, from the working memory, or from a seed whose value looks like a real id.
\<close>

theorem seed_world_trusts_ids:
  assumes "''have:'' @ k \<in> build_seed_world seed_facts wm seeds" "is_id_like_param k" "k \<noteq> ''id''"
  shows "''have:'' @ k \<in> set seed_facts \<or> has_key k wm \<or> (\<exists>v. (k, v) \<in> set seeds \<and> looks_like_real_id v)"
  by (rule trusted_ids_only [OF assms])

theorem seed_world_trusts_ids_witness:
  "''have:sessionId'' \<in> build_seed_world [] [] [(''sessionId'', PInt 4711)]
     \<and> looks_like_real_id (PInt 4711)"
proof -
  have w: "''have:'' @ ''sessionId'' \<in> build_seed_world [] [] [(''sessionId'', PInt 4711)]" and i: "is_id_like_param ''sessionId''"
    by code_simp+
  from seed_world_trusts_ids [OF w i] w show ?thesis by (auto simp: has_key_def dget_def)
qed

subsection \<open>Trusted names\<close>








text \<open>The alias \<open>userid\<close> is not an id-like name, so a made-up seed for it counts, and \<open>have:id\<close> holds with it.\<close>

lemma made_up_userid_trusted: "''have:id'' \<in> build_seed_world [] [] [(''userid'', PStr ''Jules'')]"
  by code_simp

end
