(* ===== verification/PlanSteps.thy ===== *)
theory PlanSteps
  imports PyValue
begin

text \<open>
  Reading and writing the dictionaries of plan steps, as the editing passes of \<open>core_graph/goap/integrate\<close> do:
  membership in a value of unknown type, \<open>step.get(k) or {}\<close>, assignment below a key, the look-up of candidates by
  operation id, and loops whose body may fail.  \<open>None\<close> is an exception.
\<close>

fun ofold :: "('a \<Rightarrow> 's \<Rightarrow> 's option) \<Rightarrow> 'a list \<Rightarrow> 's \<Rightarrow> 's option" where
  "ofold f [] s = Some s"
| "ofold f (x # xs) s = (case f x s of None \<Rightarrow> None | Some t \<Rightarrow> ofold f xs t)"

fun omap :: "('a \<Rightarrow> 'b option) \<Rightarrow> 'a list \<Rightarrow> 'b list option" where
  "omap f [] = Some []"
| "omap f (x # xs) = (case f x of None \<Rightarrow> None | Some y \<Rightarrow> map_option ((#) y) (omap f xs))"

text \<open>\<open>k in v\<close> for a string \<open>k\<close>.\<close>

definition in_value :: "string \<Rightarrow> pyval \<Rightarrow> bool option" where
  "in_value k v =
     (case v of
        PDict d \<Rightarrow> Some (has_key k d)
      | PList xs \<Rightarrow> Some (py_in (PStr k) xs)
      | PStr s \<Rightarrow> Some (contains k s)
      | _ \<Rightarrow> None)"

text \<open>\<open>step.get(k) or {}\<close>, and the same where only a dictionary works.\<close>

definition get_or_empty :: "string \<Rightarrow> pydict \<Rightarrow> pyval" where
  "get_or_empty k step = (let v = dget_none k step in if truthy v then v else PDict [])"

definition dict_or_empty :: "string \<Rightarrow> pydict \<Rightarrow> pydict option" where
  "dict_or_empty k step = (case get_or_empty k step of PDict d \<Rightarrow> Some d | _ \<Rightarrow> None)"

definition set_default :: "string \<Rightarrow> pyval \<Rightarrow> pydict \<Rightarrow> pydict" where
  "set_default k v d = (if has_key k d then d else dset k v d)"

text \<open>\<open>step[k][p] = v\<close>.\<close>

definition set_under :: "string \<Rightarrow> string \<Rightarrow> pyval \<Rightarrow> pydict \<Rightarrow> pydict option" where
  "set_under k p v step = (case dget k step of Some (PDict d) \<Rightarrow> Some (dset k (PDict (dset p v d)) step) | _ \<Rightarrow> None)"

text \<open>\<open>{c["operation_id"]: c for c in candidates if "operation_id" in c}\<close> and its look-up; equal keys have one canonical form.\<close>

fun by_operation :: "pydict list \<Rightarrow> (pyval \<times> pydict) list \<Rightarrow> (pyval \<times> pydict) list option" where
  "by_operation [] m = Some m"
| "by_operation (c # cs) m =
     (case dget ''operation_id'' c of
        None \<Rightarrow> by_operation cs m
      | Some k \<Rightarrow> (if hashable k then by_operation cs (dset (canon k) c m) else None))"

definition candidate_of :: "(pyval \<times> pydict) list \<Rightarrow> pyval \<Rightarrow> pydict option option" where
  "candidate_of m op = (if hashable op then Some (map_of m (canon op)) else None)"

subsection \<open>Laws\<close>

lemma ofold_induct:
  assumes "ofold f xs s = Some t" "P s" "\<And>x u v. x \<in> set xs \<Longrightarrow> P u \<Longrightarrow> f x u = Some v \<Longrightarrow> P v"
  shows "P t"
  using assms by (induction f xs s rule: ofold.induct) (auto split: option.splits)

lemma omap_nth:
  "omap f xs = Some ys \<Longrightarrow> length ys = length xs \<and> (\<forall>i<length xs. f (xs ! i) = Some (ys ! i))"
proof (induction xs arbitrary: ys)
  case (Cons x xs)
  then obtain y zs where "f x = Some y" "omap f xs = Some zs" "ys = y # zs" by (auto split: option.splits)
  with Cons.IH [of zs] show ?case by (auto simp: less_Suc_eq_0_disj)
qed simp

lemma omap_cong_fst: "omap f xs = Some ys \<Longrightarrow> (\<And>x y. x \<in> set xs \<Longrightarrow> f x = Some y \<Longrightarrow> R x y) \<Longrightarrow> list_all2 R xs ys"
  by (auto simp: list_all2_conv_all_nth dest: omap_nth)

lemma find_SomeD: "find p xs = Some x \<Longrightarrow> x \<in> set xs \<and> p x"
  by (induction xs) (auto split: if_splits)

lemma set_under_dget:
  assumes "set_under k p v step = Some step'"
  obtains d where "dget k step = Some (PDict d)" "step' = dset k (PDict (dset p v d)) step"
  using assms by (auto simp: set_under_def split: option.splits pyval.splits)

end
