(* ===== verification/FillArgs.thy ===== *)
theory FillArgs
  imports SeedHygiene PlanSteps GoapDerive
begin

text \<open>
  The literal arguments of plan steps, \<open>fill_literal_args\<close> of \<open>core_graph/goap/integrate/seed_world.py\<close>: every
  step gets its missing required arguments from the trusted seeds or the working memory, a single search parameter
  falls back to the topical query, and bare labels in instruction parameters become briefs.  Steps are passed as values:
  the passes change each step dictionary in place and the steps are distinct objects.  \<open>None\<close> is an exception.
\<close>

subsection \<open>The passes\<close>

definition given_text :: "string option \<Rightarrow> bool" where
  "given_text s = (or_empty s \<noteq> [])"

definition enrich_args :: "(pyval \<Rightarrow> string) \<Rightarrow> string option \<Rightarrow> pydict \<Rightarrow> pydict" where
  "enrich_args str_py uq args =
     map (\<lambda>(p, v). (p, if is_instruction_param p \<and> is_weak_instruction_value v then enrich_instruction_value str_py v uq else v)) args"

definition enrich_instruction_fields :: "(pyval \<Rightarrow> string) \<Rightarrow> string option \<Rightarrow> pydict \<Rightarrow> pydict option" where
  "enrich_instruction_fields str_py uq step =
     (if strip (or_empty uq) = [] then Some step
      else (case dget_or ''args'' (PDict []) step of
         PDict args \<Rightarrow>
           (let step1 = dset ''args'' (PDict (enrich_args str_py uq args)) step in
            case dget_none ''for_each_values'' step1 of
              PList (v # vs) \<Rightarrow>
                (case dict_or_empty ''arg_bindings'' step1 of
                   None \<Rightarrow> None
                 | Some b \<Rightarrow>
                     Some (if list_ex (\<lambda>(p, ref). is_instruction_param p \<and> ref = PStr ''$item'') b
                           then dset ''for_each_values'' (PList (map (\<lambda>u. if is_weak_instruction_value u
                                   then enrich_instruction_value str_py u uq else u) (v # vs))) step1
                           else step1))
            | _ \<Rightarrow> Some step1)
       | _ \<Rightarrow> None))"

text \<open>Whether a parameter of a step already has an argument or a binding.\<close>

definition filled :: "string \<Rightarrow> pydict \<Rightarrow> bool option" where
  "filled p step = do {
     a \<leftarrow> in_value p (dget_or ''args'' (PDict []) step);
     if a then Some True else in_value p (get_or_empty ''arg_bindings'' step)
   }"

definition fill_required ::
    "pydict \<Rightarrow> pydict \<Rightarrow> string option \<Rightarrow> string \<Rightarrow> pydict \<Rightarrow> pydict option" where
  "fill_required seeds wm uq p step0 =
     (let step = set_default ''args'' (PDict []) step0 in
      case filled p step of
        None \<Rightarrow> None
      | Some True \<Rightarrow> Some step
      | Some False \<Rightarrow>
          (case dget p seeds of
             Some v \<Rightarrow>
               (if is_list v \<or> is_instruction_param p \<and> is_weak_instruction_value v \<and> \<not> given_text uq
                   \<or> p \<in> set search_param_names \<and> is_bare_search_followup v
                then Some step else set_under ''args'' p v step)
           | None \<Rightarrow> (case dget p wm of Some v \<Rightarrow> set_under ''args'' p v step | None \<Rightarrow> Some step)))"

text \<open>The required search parameters without a value, and the fallback for a single one.\<close>

fun unfilled_free_text :: "pydict \<Rightarrow> string list \<Rightarrow> string list option" where
  "unfilled_free_text step [] = Some []"
| "unfilled_free_text step (p # ps) = do {
     f \<leftarrow> filled p step;
     rest \<leftarrow> unfilled_free_text step ps;
     Some (if \<not> f \<and> \<not> is_instruction_param p \<and> p \<in> set search_param_names then p # rest else rest)
   }"

definition fill_fallback :: "string option \<Rightarrow> string list \<Rightarrow> pydict \<Rightarrow> pydict option" where
  "fill_fallback fallback req step =
     (case fallback of
        Some q \<Rightarrow>
          (if q = [] then Some step
           else case unfilled_free_text step req of
             None \<Rightarrow> None
           | Some [p] \<Rightarrow> (if is_bare_search_followup (PStr q) then Some step else set_under ''args'' p (PStr q) step)
           | Some _ \<Rightarrow> Some step)
      | None \<Rightarrow> Some step)"

definition fill_step ::
    "(pyval \<Rightarrow> string) \<Rightarrow> (pyval \<times> pydict) list \<Rightarrow> pydict \<Rightarrow> pydict \<Rightarrow> string option \<Rightarrow> string option \<Rightarrow> pydict \<Rightarrow> pydict option" where
  "fill_step str_py cands seeds wm uq fallback step =
     (let op = dget_none ''operation_id'' step in
      if \<not> truthy op then Some step
      else case candidate_of cands op of
        None \<Rightarrow> None
      | Some None \<Rightarrow> Some step
      | Some (Some cand) \<Rightarrow> do {
          req \<leftarrow> required_params cand;
          s1 \<leftarrow> ofold (fill_required seeds wm uq) req step;
          s2 \<leftarrow> fill_fallback fallback req s1;
          enrich_instruction_fields str_py uq s2
        })"

definition fill_seed ::
    "(pyval \<Rightarrow> string) \<Rightarrow> string list option \<Rightarrow> pydict \<Rightarrow> string option \<Rightarrow> string \<times> pyval \<Rightarrow> pydict \<Rightarrow> pydict option" where
  "fill_seed str_py allowed wm uq seed step =
     (case seed of (p, v) \<Rightarrow>
        (case filled p step of
           None \<Rightarrow> None
         | Some True \<Rightarrow> Some step
         | Some False \<Rightarrow>
             (if (case allowed of Some names \<Rightarrow> p \<notin> set names | None \<Rightarrow> False) \<or> is_list v then Some step
              else if is_id_like_param p \<and> \<not> looks_like_real_id v \<and> \<not> has_key p wm then Some step
              else if is_instruction_param p \<and> is_weak_instruction_value v
              then (if given_text uq then set_under ''args'' p (enrich_instruction_value str_py v uq) step else Some step)
              else if p \<in> set search_param_names \<and> is_bare_search_followup v then Some step
              else set_under ''args'' p v step)))"

text \<open>The bindings are read as a dictionary first: those to \<open>$item\<close> are filled anyway.\<close>

definition defensive_fill ::
    "(pyval \<Rightarrow> string) \<Rightarrow> (pyval \<times> pydict) list \<Rightarrow> pydict \<Rightarrow> pydict \<Rightarrow> string option \<Rightarrow> pydict \<Rightarrow> pydict option" where
  "defensive_fill str_py cands seeds wm uq step0 =
     (let step = set_default ''args'' (PDict []) step0 in do {
        cand \<leftarrow> candidate_of cands (dget_none ''operation_id'' step);
        b \<leftarrow> dict_or_empty ''arg_bindings'' step;
        s1 \<leftarrow> ofold (fill_seed str_py (map_option schema_param_names cand) wm uq) seeds step;
        enrich_instruction_fields str_py uq s1
      })"

definition fill_literal_args ::
    "(pyval \<Rightarrow> string) \<Rightarrow> pydict list \<Rightarrow> pydict list \<Rightarrow> pydict \<Rightarrow> pydict \<Rightarrow> string option \<Rightarrow> pyval list \<Rightarrow> string option
      \<Rightarrow> pydict list option" where
  "fill_literal_args str_py steps candidates seed_values wm uq history last_summary =
     (case by_operation candidates [] of
        None \<Rightarrow> None
      | Some cands \<Rightarrow>
          (let seeds = sanitize_seed_values seed_values wm;
               fallback = resolve_search_query str_py uq history last_summary in do {
             s1 \<leftarrow> omap (fill_step str_py cands seeds wm uq fallback) steps;
             s2 \<leftarrow> (if seeds = [] then Some s1 else omap (defensive_fill str_py cands seeds wm uq) s1);
             (if given_text uq then omap (enrich_instruction_fields str_py uq) s2 else Some s2)
           }))"

subsection \<open>What filling keeps\<close>

definition step_arg :: "string \<Rightarrow> pydict \<Rightarrow> pyval option" where
  "step_arg p step = (case dget ''args'' step of Some (PDict a) \<Rightarrow> dget p a | _ \<Rightarrow> None)"

text \<open>Where an argument may come from: a trusted seed that is no list, the memory, or the fallback query.\<close>

definition arg_source :: "pydict \<Rightarrow> pydict \<Rightarrow> string option \<Rightarrow> string \<Rightarrow> pyval \<Rightarrow> bool" where
  "arg_source seeds wm fallback p v \<longleftrightarrow>
     (p, v) \<in> set seeds \<and> \<not> is_list v \<or> dget p wm = Some v
     \<or> p \<in> set search_param_names \<and> (\<exists>q. fallback = Some q \<and> v = PStr q)"

text \<open>A filled step: other keys untouched, arguments kept, new ones from a source; instruction parameters may be rewritten.\<close>

definition fills :: "(string \<Rightarrow> pyval \<Rightarrow> bool) \<Rightarrow> pydict \<Rightarrow> pydict \<Rightarrow> bool" where
  "fills src step step' \<longleftrightarrow>
     (\<forall>k. k \<notin> {''args'', ''for_each_values''} \<longrightarrow> dget k step' = dget k step)
     \<and> (\<forall>p v. \<not> is_instruction_param p \<longrightarrow> step_arg p step = Some v \<longrightarrow> step_arg p step' = Some v)
     \<and> (\<forall>p v. \<not> is_instruction_param p \<longrightarrow> step_arg p step' = Some v \<longrightarrow> step_arg p step = Some v \<or> src p v)"

lemma fills_refl: "fills src step step"
  by (simp add: fills_def)

lemma fills_trans:
  assumes "fills src s t" "fills src t u"
  shows "fills src s u"
proof -
  note st = assms(1) [unfolded fills_def] and tu = assms(2) [unfolded fills_def]
  have "dget k u = dget k s" if "k \<notin> {''args'', ''for_each_values''}" for k
    using st [THEN conjunct1, rule_format, OF that] tu [THEN conjunct1, rule_format, OF that] by simp
  moreover have "step_arg p u = Some v" if "\<not> is_instruction_param p" "step_arg p s = Some v" for p v
    using tu [THEN conjunct2, THEN conjunct1, rule_format, OF that(1) st [THEN conjunct2, THEN conjunct1, rule_format, OF that]] .
  moreover have "step_arg p s = Some v \<or> src p v" if "\<not> is_instruction_param p" "step_arg p u = Some v" for p v
    using tu [THEN conjunct2, THEN conjunct2, rule_format, OF that] st [THEN conjunct2, THEN conjunct2, rule_format, OF that(1)] by blast
  ultimately show ?thesis unfolding fills_def by blast
qed

lemma fills_default: "fills src step (set_default ''args'' (PDict []) step)"
  by (auto simp: fills_def set_default_def step_arg_def has_key_def dget_def)

lemma fills_set_arg:
  assumes "filled p step = Some False" "set_under ''args'' p v step = Some step'" "\<not> is_instruction_param p \<Longrightarrow> src p v"
  shows "fills src step step'"
proof -
  obtain d where d: "dget ''args'' step = Some (PDict d)" "step' = dset ''args'' (PDict (dset p v d)) step"
    by (rule set_under_dget [OF assms(2)])
  have "dget p d = None"
    using assms(1) d(1) by (auto simp: filled_def in_value_def dget_or_def has_key_def bind_eq_Some_conv split: if_splits)
  then show ?thesis using d assms(3) by (auto simp: fills_def step_arg_def split: if_splits)
qed

lemma fills_mono: "(\<And>p v. src p v \<Longrightarrow> src' p v) \<Longrightarrow> fills src s t \<Longrightarrow> fills src' s t"
  unfolding fills_def by blast

lemma fills_omap:
  assumes "omap f xs = Some ys" "\<And>x y. f x = Some y \<Longrightarrow> fills src x y"
  shows "list_all2 (fills src) xs ys"
  using omap_cong_fst [OF assms(1)] assms(2) by blast

lemma fills_ofold:
  assumes "ofold f xs s = Some t" "\<And>x u v. x \<in> set xs \<Longrightarrow> f x u = Some v \<Longrightarrow> fills src u v"
  shows "fills src s t"
  by (rule ofold_induct [OF assms(1), of "fills src s"]) (auto intro: fills_refl fills_trans assms(2))

lemma enrich_args_other: "\<not> is_instruction_param p \<Longrightarrow> dget p (enrich_args str_py uq args) = dget p args"
  by (induction args) (auto simp: enrich_args_def dget_def)

lemma dget_Nil: "dget k [] = None"
  by (simp add: dget_def)

lemma fills_enriched: "dget_or ''args'' (PDict []) step = PDict args \<Longrightarrow> fills src step (dset ''args'' (PDict (enrich_args str_py uq args)) step)"
  by (auto simp: fills_def step_arg_def enrich_args_other dget_or_def dget_Nil split: option.splits)

lemma fills_values: "fills src step (dset ''for_each_values'' v step)"
  by (auto simp: fills_def step_arg_def)

lemma fills_enrich:
  assumes "enrich_instruction_fields str_py uq step = Some step'"
  shows "fills src step step'"
proof (cases "strip (or_empty uq) = []")
  case True
  with assms show ?thesis by (simp add: enrich_instruction_fields_def fills_refl)
next
  case False
  with assms obtain args where a: "dget_or ''args'' (PDict []) step = PDict args"
    by (auto simp: enrich_instruction_fields_def split: pyval.splits)
  let ?s = "dset ''args'' (PDict (enrich_args str_py uq args)) step"
  have "step' = ?s \<or> (\<exists>v. step' = dset ''for_each_values'' v ?s)"
    using assms False a unfolding enrich_instruction_fields_def Let_def
    by (auto simp del: dget_or_dset split: pyval.splits list.splits option.splits if_splits)
  then show ?thesis using fills_enriched [OF a] fills_values fills_trans by blast
qed

lemma fills_required:
  assumes "fill_required seeds wm uq p step = Some step'"
  shows "fills (arg_source seeds wm fb) step step'"
proof -
  let ?s = "set_default ''args'' (PDict []) step"
  obtain f where f: "filled p ?s = Some f" using assms by (auto simp: fill_required_def Let_def split: option.splits)
  have "step' = ?s \<or> f = False \<and> (\<exists>v. set_under ''args'' p v ?s = Some step' \<and> arg_source seeds wm fb p v)"
    using assms f
    by (cases f) (auto simp: fill_required_def Let_def arg_source_def dget_def dest: map_of_SomeD split: option.splits if_splits)
  then show ?thesis using f fills_default fills_set_arg fills_trans by blast
qed

lemma unfilled_free: "unfilled_free_text step ps = Some qs \<Longrightarrow> q \<in> set qs \<Longrightarrow> filled q step = Some False \<and> q \<in> set search_param_names"
  by (induction ps arbitrary: qs) (auto simp: bind_eq_Some_conv split: if_splits)

lemma fills_fallback:
  assumes "fill_fallback fb req step = Some step'"
  shows "fills (arg_source seeds wm fb) step step'"
proof (cases "step' = step")
  case False
  with assms obtain q p where q: "fb = Some q" "unfilled_free_text step req = Some [p]" "set_under ''args'' p (PStr q) step = Some step'"
    by (auto simp: fill_fallback_def split: option.splits if_splits list.splits)
  from unfilled_free [OF q(2), of p] have "filled p step = Some False" "p \<in> set search_param_names" by simp_all
  then show ?thesis using q by (intro fills_set_arg [OF _ q(3)]) (simp_all add: arg_source_def)
qed (simp add: fills_refl)

lemma fills_step:
  assumes "fill_step str_py cands seeds wm uq fb step = Some step'"
  shows "fills (arg_source seeds wm fb) step step'"
proof (cases "step' = step")
  case False
  with assms obtain req s1 s2 where s: "ofold (fill_required seeds wm uq) req step = Some s1"
    "fill_fallback fb req s1 = Some s2" "enrich_instruction_fields str_py uq s2 = Some step'"
    by (auto simp: fill_step_def Let_def bind_eq_Some_conv split: option.splits if_splits)
  have "fills (arg_source seeds wm fb) step s1" by (rule fills_ofold [OF s(1)]) (rule fills_required)
  then show ?thesis using fills_fallback [OF s(2)] fills_enrich [OF s(3)] fills_trans by blast
qed (simp add: fills_refl)

lemma fills_seed:
  assumes "fill_seed str_py allowed wm uq seed step = Some step'" "seed \<in> set seeds"
  shows "fills (arg_source seeds wm fb) step step'"
proof (cases "step' = step")
  case False
  obtain p v where pv: "seed = (p, v)" by force
  obtain f where f: "filled p step = Some f" using assms(1) pv by (auto simp: fill_seed_def split: option.splits)
  have "f = False \<and> (\<exists>u. set_under ''args'' p u step = Some step' \<and> (is_instruction_param p \<or> u = v \<and> \<not> is_list v))"
    using assms(1) False f pv by (cases f) (auto simp: fill_seed_def split: option.splits if_splits)
  then obtain u where "set_under ''args'' p u step = Some step'" "is_instruction_param p \<or> u = v \<and> \<not> is_list v" "f = False" by blast
  then show ?thesis using f assms(2) pv by (intro fills_set_arg [of p step u]) (auto simp: arg_source_def)
qed (simp add: fills_refl)

lemma fills_defensive:
  assumes "defensive_fill str_py cands seeds wm uq step = Some step'"
  shows "fills (arg_source seeds wm fb) step step'"
proof -
  from assms obtain names s1 where s: "ofold (fill_seed str_py names wm uq) seeds (set_default ''args'' (PDict []) step) = Some s1"
    "enrich_instruction_fields str_py uq s1 = Some step'"
    by (auto simp: defensive_fill_def Let_def bind_eq_Some_conv)
  have "fills (arg_source seeds wm fb) (set_default ''args'' (PDict []) step) s1"
    by (rule fills_ofold [OF s(1)]) (rule fills_seed)
  then show ?thesis using fills_default fills_enrich [OF s(2)] fills_trans by blast
qed

lemma fills_pass:
  assumes "list_all2 (fills src) xs ys" "omap f ys = Some zs" "\<And>x y. f x = Some y \<Longrightarrow> fills src x y"
  shows "list_all2 (fills src) xs zs"
  using list_all2_trans [OF _ assms(1) fills_omap [OF assms(2,3)]] fills_trans by blast

lemma fill_literal_args_fills:
  assumes "fill_literal_args str_py steps candidates seed_values wm uq history last_summary = Some steps'"
  shows "list_all2 (fills (arg_source (sanitize_seed_values seed_values wm) wm
     (resolve_search_query str_py uq history last_summary))) steps steps'"
proof -
  let ?seeds = "sanitize_seed_values seed_values wm" and ?fb = "resolve_search_query str_py uq history last_summary"
  let ?R = "fills (arg_source ?seeds wm ?fb)"
  from assms obtain cands s1 s2 where s: "omap (fill_step str_py cands ?seeds wm uq ?fb) steps = Some s1"
    "(if ?seeds = [] then Some s1 else omap (defensive_fill str_py cands ?seeds wm uq) s1) = Some s2"
    "(if given_text uq then omap (enrich_instruction_fields str_py uq) s2 else Some s2) = Some steps'"
    by (auto simp: fill_literal_args_def Let_def bind_eq_Some_conv split: option.splits)
  have 1: "list_all2 ?R steps s1" by (rule fills_omap [OF s(1)]) (rule fills_step)
  have 2: "list_all2 ?R steps s2"
    using s(2) 1 fills_pass [OF 1, of "defensive_fill str_py cands ?seeds wm uq" s2] fills_defensive by (auto split: if_splits)
  show ?thesis
    using s(3) 2 fills_pass [OF 2, of "enrich_instruction_fields str_py uq" steps'] fills_enrich by (auto split: if_splits)
qed

text \<open>
  Filling adds arguments and changes nothing else.  The steps keep their number and order; apart from
  instruction parameters, which may be expanded, every argument a step had stays, and each new one is
  a kept seed that is no list, a value of the working memory under the same name, or the
  fallback query in a search parameter.  Operation, bindings and dependencies are untouched.
\<close>

theorem fill_adds_sourced_arguments:
  assumes "fill_literal_args str_py steps candidates seeds wm uq history last_summary = Some steps'"
  shows "length steps' = length steps \<and> (\<forall>i<length steps.
     (\<forall>k. k \<notin> {''args'', ''for_each_values''} \<longrightarrow> dget k (steps' ! i) = dget k (steps ! i))
     \<and> (\<forall>p. \<not> is_instruction_param p \<longrightarrow>
          (\<forall>v. step_arg p (steps ! i) = Some v \<longrightarrow> step_arg p (steps' ! i) = Some v)
          \<and> (\<forall>v. step_arg p (steps' ! i) = Some v \<longrightarrow> step_arg p (steps ! i) = Some v
               \<or> (p, v) \<in> set seeds \<and> keeps_seed wm p v \<and> \<not> is_list v \<or> dget p wm = Some v
               \<or> p \<in> set search_param_names \<and> (\<exists>q. resolve_search_query str_py uq history last_summary = Some q \<and> v = PStr q))))"
proof -
  note all = fill_literal_args_fills [OF assms]
  have "fills (\<lambda>p v. (p, v) \<in> set seeds \<and> keeps_seed wm p v \<and> \<not> is_list v \<or> dget p wm = Some v
               \<or> p \<in> set search_param_names \<and> (\<exists>q. resolve_search_query str_py uq history last_summary = Some q \<and> v = PStr q))
       (steps ! i) (steps' ! i)"
    if "i < length steps" for i
    by (rule fills_mono [OF _ list_all2_nthD [OF all that]]) (auto simp: arg_source_def sanitize_seed_values_def)
  then show ?thesis using list_all2_lengthD [OF all] unfolding fills_def by simp
qed

lemma lower_newline: "lower_char c = newline \<longleftrightarrow> c = newline"
proof (cases "is_upper c")
  case True
  then have "ch (lower_char c) > 10" "ch c > 10" using ch_less [of c] by (auto simp: lower_char_def is_upper_def Let_def)
  moreover have "ch newline = 10" by (simp add: newline_def)
  ultimately show ?thesis by auto
qed (simp add: lower_char_def)

lemma drop_newline_lower: "drop_newline (lower s) = lower (drop_newline s)"
  by (cases "s = []") (simp_all add: drop_newline_def lower_def last_map lower_newline map_butlast)

definition names_id :: "string \<Rightarrow> bool" where
  "names_id s = ends_with ''id'' (drop_newline s)"

lemma ends_with_lower: "ends_with p s \<Longrightarrow> ends_with (lower p) (lower s)"
  by (auto simp: ends_with_iff lower_def)

lemma ends_with_trans: "ends_with a b \<Longrightarrow> ends_with b c \<Longrightarrow> ends_with a c"
  by (auto simp: ends_with_iff)

lemma id_like_names_id: "is_id_like_param p \<Longrightarrow> names_id (lower p)"
proof -
  assume "is_id_like_param p"
  then have "\<exists>x\<in>set [''id'', ''_id'', ''Id'', ''ID'', ''_ID'']. ends_with x (drop_newline p)"
    by (auto simp: is_id_like_param_def Let_def ends_with_iff)
  then obtain x where x: "x \<in> set [''id'', ''_id'', ''Id'', ''ID'', ''_ID'']" "ends_with x (drop_newline p)" by blast
  have "list_all (\<lambda>x. ends_with ''id'' (lower x)) [''id'', ''_id'', ''Id'', ''ID'', ''_ID'']" by code_simp
  with x(1) have "ends_with ''id'' (lower x)" unfolding list_all_iff by blast
  from ends_with_trans [OF this ends_with_lower [OF x(2)]] show ?thesis by (simp add: names_id_def drop_newline_lower)
qed

lemma id_like_other: "is_id_like_param p \<Longrightarrow> \<not> is_instruction_param p \<and> p \<notin> set search_param_names"
proof -
  assume "is_id_like_param p"
  then have id: "names_id (lower p)" by (rule id_like_names_id)
  have "list_all (\<lambda>n. lower n = n \<and> \<not> names_id n) (instruction_param_names @ search_param_names)" by code_simp
  then have "lower p \<notin> set instruction_param_names" "p \<notin> set instruction_param_names" "p \<notin> set search_param_names"
    using id by (auto simp: list_all_iff)
  then show ?thesis by (simp add: is_instruction_param_def)
qed

text \<open>
  Fabricated ids never become arguments.  An id-like argument of a filled step was there before, is named
  in the working memory, or looks like a real id.
\<close>

theorem fill_no_fabricated_ids:
  assumes "fill_literal_args str_py steps candidates seeds wm uq history last_summary = Some steps'"
    and "i < length steps" "is_id_like_param p" "step_arg p (steps' ! i) = Some v"
  shows "step_arg p (steps ! i) = Some v \<or> has_key p wm \<or> looks_like_real_id v"
proof -
  have "fills (arg_source (sanitize_seed_values seeds wm) wm (resolve_search_query str_py uq history last_summary)) (steps ! i) (steps' ! i)"
    using fill_literal_args_fills [OF assms(1)] assms(2) by (simp add: list_all2_conv_all_nth)
  then have "step_arg p (steps ! i) = Some v \<or> (p, v) \<in> set (sanitize_seed_values seeds wm) \<or> dget p wm = Some v"
    using id_like_other [OF assms(3)] assms(4) unfolding fills_def arg_source_def by blast
  then show ?thesis using sanitize_trusted [of p v seeds wm] assms(3) by (auto simp: has_key_def dget_or_def split: option.splits)
qed

definition session_candidate :: pydict where
  "session_candidate = [(''operation_id'', PStr ''search_sessions''),
     (''parameters'', PDict [(''required'', PList [PStr ''sessionId'', PStr ''query'']),
        (''properties'', PDict [(''sessionId'', PDict []), (''query'', PDict [])])])]"

definition session_seeds :: pydict where
  "session_seeds = [(''sessionId'', PStr ''Jules'')]"

definition session_step :: pydict where
  "session_step = [(''operation_id'', PStr ''search_sessions'')]"

lemma session_operation: "by_operation [session_candidate] [] = Some [(PStr ''search_sessions'', session_candidate)]"
  by code_simp

lemma fill_example:
  "fill_literal_args (\<lambda>v. []) [session_step] [session_candidate] session_seeds [] (Some ''first session'') [] None
   = Some [[(''operation_id'', PStr ''search_sessions''), (''args'', PDict [(''query'', PStr ''first session'')])]]"
proof -
  let ?out = "[(''operation_id'', PStr ''search_sessions''), (''args'', PDict [(''query'', PStr ''first session'')])]"
  have "sanitize_seed_values session_seeds [] = []" by code_simp
  moreover have "resolve_search_query (\<lambda>v. []) (Some ''first session'') [] None = Some ''first session''" by code_simp
  moreover have "fill_step (\<lambda>v. []) [(PStr ''search_sessions'', session_candidate)] [] [] (Some ''first session'') (Some ''first session'') session_step = Some ?out"
    by code_simp
  moreover have "given_text (Some ''first session'')" "enrich_instruction_fields (\<lambda>v. []) (Some ''first session'') ?out = Some ?out"
    by code_simp+
  ultimately show ?thesis unfolding fill_literal_args_def session_operation by (simp add: Let_def)
qed

lemma fill_numeric_id:
  "fill_literal_args (\<lambda>v. []) [session_step] [session_candidate] [(''sessionId'', PStr ''4711'')] [] None [] None
     = Some [[(''operation_id'', PStr ''search_sessions''), (''args'', PDict [(''sessionId'', PStr ''4711'')])]]"
proof -
  let ?seeds = "[(''sessionId'', PStr ''4711'')]"
  let ?out = "[(''operation_id'', PStr ''search_sessions''), (''args'', PDict ?seeds)]"
  have "sanitize_seed_values ?seeds [] = ?seeds" by code_simp
  moreover have "resolve_search_query (\<lambda>v. []) None [] None = None" by code_simp
  moreover have "fill_step (\<lambda>v. []) [(PStr ''search_sessions'', session_candidate)] ?seeds [] None None session_step = Some ?out"
    by code_simp
  moreover have "\<not> given_text None" "defensive_fill (\<lambda>v. []) [(PStr ''search_sessions'', session_candidate)] ?seeds [] None ?out = Some ?out"
    by code_simp+
  ultimately show ?thesis unfolding fill_literal_args_def session_operation by (simp add: Let_def)
qed
theorem fill_adds_sourced_arguments_witness:
  "resolve_search_query (\<lambda>v. []) (Some ''first session'') [] None = Some ''first session''"
proof -
  let ?q = "PStr ''first session''"
  let ?out = "[(''operation_id'', PStr ''search_sessions''), (''args'', PDict [(''query'', ?q)])]"
  have q: "\<not> is_instruction_param ''query''" by code_simp
  have l: "0 < length [session_step]" by simp
  have a: "step_arg ''query'' ([?out] ! 0) = Some ?q" "step_arg ''query'' ([session_step] ! 0) \<noteq> Some ?q" "(''query'', ?q) \<notin> set session_seeds"
    by (simp_all add: step_arg_def dget_def session_step_def session_seeds_def)
  from fill_adds_sourced_arguments [OF fill_example, THEN conjunct2, THEN spec, THEN mp, OF l, THEN conjunct2, THEN spec, THEN mp, OF q,
      THEN conjunct2, THEN spec, THEN mp, OF a(1)] a(2,3)
  obtain t where "resolve_search_query (\<lambda>v. []) (Some ''first session'') [] None = Some t" "?q = PStr t" by (auto simp: dget_def)
  then show ?thesis by simp
qed

theorem fill_no_fabricated_ids_witness:
  "step_arg ''sessionId'' (the (map_option hd (fill_literal_args (\<lambda>v. []) [session_step] [session_candidate]
      [(''sessionId'', PStr ''4711'')] [] None [] None))) = Some (PStr ''4711'') \<and> looks_like_real_id (PStr ''4711'')"
proof -
  have i: "is_id_like_param ''sessionId''" by code_simp
  from fill_no_fabricated_ids [OF fill_numeric_id _ i, of 0 "PStr ''4711''"] show ?thesis unfolding fill_numeric_id
    by (simp add: step_arg_def dget_def session_step_def has_key_def)
qed

end
