(* ===== verification/PlanRefs.thy ===== *)
theory PlanRefs
  imports PyValue
begin

text \<open>
  References between plan steps.  A step names the result of step \<open>n\<close> in its texts as \<open>$steps[n]\<close>; the
  planning code finds these with the regular expression \<open>\$steps\[(\d+)\]\<close> and rewrites them with
  \<open>re.sub\<close>.  \<open>sub_refs g\<close> is that substitution, where \<open>g\<close> maps the digits of a reference to the digits that replace them
  (the same digits where the code returns the match unchanged), \<open>refs_of\<close> is \<open>re.findall\<close> with the numbers read, and
  \<open>map_strs\<close> and \<open>strs_of\<close> carry both through the lists and dictionaries of a step.  \<open>\d\<close> is an ASCII digit.
\<close>

definition ref_open :: string where
  "ref_open = ''$steps[''"

text \<open>A match at the start of the text: its digits and what follows it.\<close>

definition match_ref :: "string \<Rightarrow> (string \<times> string) option" where
  "match_ref s =
     (if starts_with ref_open s then
        (let ds = takeWhile is_digit (drop 7 s); rest = dropWhile is_digit (drop 7 s) in
         if ds \<noteq> [] \<and> starts_with '']'' rest then Some (ds, tl rest) else None)
      else None)"

lemma match_ref_parts:
  "match_ref s = Some (ds, rest) \<Longrightarrow> s = ref_open @ ds @ '']'' @ rest \<and> ds \<noteq> [] \<and> list_all is_digit ds"
proof -
  assume m: "match_ref s = Some (ds, rest)"
  then have open': "starts_with ref_open s" and ds: "ds = takeWhile is_digit (drop 7 s)" "ds \<noteq> []"
    and rest: "starts_with '']'' (dropWhile is_digit (drop 7 s))" "rest = tl (dropWhile is_digit (drop 7 s))"
    by (auto simp: match_ref_def Let_def split: if_splits)
  from open' obtain t where "s = ref_open @ t" by (auto simp: starts_with_iff)
  then have t: "s = ref_open @ drop 7 s" by (simp add: ref_open_def)
  have "drop 7 s = ds @ dropWhile is_digit (drop 7 s)" using ds by simp
  moreover have "dropWhile is_digit (drop 7 s) = '']'' @ rest" using rest by (auto simp: starts_with_iff)
  moreover have "list_all is_digit ds" using ds(1) by (auto simp: list_all_iff dest: set_takeWhileD)
  ultimately show ?thesis using t ds(2) by metis
qed

lemma match_ref_shorter: "match_ref s = Some (ds, rest) \<Longrightarrow> length rest < length s"
  by (drule match_ref_parts) (simp add: ref_open_def)

function sub_refs :: "(string \<Rightarrow> string) \<Rightarrow> string \<Rightarrow> string" where
  "sub_refs g [] = []"
| "sub_refs g (c # cs) =
     (case match_ref (c # cs) of
        Some (ds, rest) \<Rightarrow> ref_open @ g ds @ '']'' @ sub_refs g rest
      | None \<Rightarrow> c # sub_refs g cs)"
  by pat_completeness auto
termination
  by (relation "measure (\<lambda>(g, s). length s)") (auto dest: match_ref_shorter)

function ref_digits :: "string \<Rightarrow> string list" where
  "ref_digits [] = []"
| "ref_digits (c # cs) =
     (case match_ref (c # cs) of
        Some (ds, rest) \<Rightarrow> ds # ref_digits rest
      | None \<Rightarrow> ref_digits cs)"
  by pat_completeness auto
termination
  by (relation "measure length") (auto dest: match_ref_shorter)

definition refs_of :: "string \<Rightarrow> nat list" where
  "refs_of s = map read_nat (ref_digits s)"

declare sub_refs.simps(2) [simp del]
declare ref_digits.simps(2) [simp del]

primrec map_strs :: "(string \<Rightarrow> string) \<Rightarrow> pyval \<Rightarrow> pyval" where
  "map_strs h PNone = PNone"
| "map_strs h (PBool b) = PBool b"
| "map_strs h (PInt i) = PInt i"
| "map_strs h (PFloat r) = PFloat r"
| "map_strs h (PStr s) = PStr (h s)"
| "map_strs h (PList xs) = PList (map (map_strs h) xs)"
| "map_strs h (PDict d) = PDict (map (map_prod id (map_strs h)) d)"

primrec strs_of :: "pyval \<Rightarrow> string list" where
  "strs_of PNone = []"
| "strs_of (PBool b) = []"
| "strs_of (PInt i) = []"
| "strs_of (PFloat r) = []"
| "strs_of (PStr s) = [s]"
| "strs_of (PList xs) = concat (map strs_of xs)"
| "strs_of (PDict d) = concat (map snd (map (map_prod id strs_of) d))"

definition map_step :: "(string \<Rightarrow> string) \<Rightarrow> pydict \<Rightarrow> pydict" where
  "map_step h d = map (map_prod id (map_strs h)) d"

definition step_refs :: "pydict \<Rightarrow> nat list" where
  "step_refs d = concat (map refs_of (strs_of (PDict d)))"

subsection \<open>Laws\<close>

text \<open>A reference of digits keeps its shape under substitution.\<close>

definition digits_to_digits :: "(string \<Rightarrow> string) \<Rightarrow> bool" where
  "digits_to_digits g \<longleftrightarrow> (\<forall>ds. ds \<noteq> [] \<and> list_all is_digit ds \<longrightarrow> g ds \<noteq> [] \<and> list_all is_digit (g ds))"

lemma match_ref_written:
  assumes "ds \<noteq> []" "list_all is_digit ds"
  shows "match_ref (ref_open @ ds @ '']'' @ rest) = Some (ds, rest)"
proof -
  have "\<not> is_digit (CHR '']'')" by code_simp
  then have "takeWhile is_digit (ds @ '']'' @ rest) = ds" "dropWhile is_digit (ds @ '']'' @ rest) = '']'' @ rest"
    using assms(2) by (simp_all add: list_all_iff takeWhile_append2 dropWhile_append2)
  then show ?thesis using assms(1) by (simp add: match_ref_def Let_def ref_open_def)
qed

lemma match_ref_Cons: "match_ref (c # cs) = Some (ds, rest) \<Longrightarrow> c = CHR ''$''"
  by (drule match_ref_parts) (simp add: ref_open_def)

text \<open>Substitution leaves the text before the first dollar sign alone.\<close>

lemma sub_refs_until_dollar: "takeWhile (\<lambda>c. c \<noteq> CHR ''$'') (sub_refs g s) = takeWhile (\<lambda>c. c \<noteq> CHR ''$'') s"
proof (induction g s rule: sub_refs.induct)
  case (2 g c cs)
  show ?case
  proof (cases "match_ref (c # cs)")
    case None
    then show ?thesis using "2.IH"(1) by (simp add: sub_refs.simps(2))
  next
    case (Some p)
    obtain ds rest where p: "p = (ds, rest)" by (cases p)
    have "c = CHR ''$''" using match_ref_Cons Some p by blast
    then show ?thesis using Some p by (simp add: sub_refs.simps(2) ref_open_def)
  qed
qed simp

lemma match_ref_sub:
  assumes "match_ref (c # cs) = None"
  shows "match_ref (c # sub_refs g cs) = None"
proof (rule ccontr)
  assume "match_ref (c # sub_refs g cs) \<noteq> None"
  then obtain ds rest where m: "match_ref (c # sub_refs g cs) = Some (ds, rest)" by auto
  let ?pre = "''steps['' @ ds @ '']''"
  from match_ref_parts [OF m] have sub: "c # sub_refs g cs = ref_open @ ds @ '']'' @ rest" "ds \<noteq> []" "list_all is_digit ds" by simp_all
  have "\<not> is_digit (CHR ''$'')" by code_simp
  with sub(3) have "\<forall>x\<in>set ?pre. x \<noteq> CHR ''$''" by (auto simp: list_all_iff)
  then have "takeWhile (\<lambda>c. c \<noteq> CHR ''$'') (?pre @ rest) = ?pre @ takeWhile (\<lambda>c. c \<noteq> CHR ''$'') rest"
    by (intro takeWhile_append2) blast
  moreover have "sub_refs g cs = ?pre @ rest" using sub(1) by (simp add: ref_open_def)
  ultimately have "takeWhile (\<lambda>c. c \<noteq> CHR ''$'') cs = ?pre @ takeWhile (\<lambda>c. c \<noteq> CHR ''$'') rest"
    using sub_refs_until_dollar [of g cs] by simp
  then obtain more where "cs = ?pre @ more" by (metis append_assoc takeWhile_dropWhile_id)
  moreover have "c = CHR ''$''" using sub(1) by (simp add: ref_open_def)
  ultimately have "c # cs = ref_open @ ds @ '']'' @ more" by (simp add: ref_open_def)
  with assms match_ref_written [OF sub(2,3), of more] show False by simp
qed

lemma written_matches:
  assumes "digits_to_digits g" "match_ref s = Some (ds, rest)"
  shows "match_ref (ref_open @ g ds @ '']'' @ more) = Some (g ds, more)"
proof -
  from match_ref_parts [OF assms(2)] assms(1) have "g ds \<noteq> []" "list_all is_digit (g ds)" by (simp_all add: digits_to_digits_def)
  then show ?thesis by (rule match_ref_written)
qed

lemma ref_open_Cons: "ref_open = CHR ''$'' # ''steps[''"
  by (simp add: ref_open_def)

lemma ref_digits_sub: "digits_to_digits g \<Longrightarrow> ref_digits (sub_refs g s) = map g (ref_digits s)"
proof (induction g s rule: sub_refs.induct)
  case (2 g c cs)
  show ?case
  proof (cases "match_ref (c # cs)")
    case None
    with 2 show ?thesis by (simp add: sub_refs.simps(2) ref_digits.simps(2) match_ref_sub)
  next
    case (Some p)
    obtain ds rest where p: "match_ref (c # cs) = Some (ds, rest)" using Some by (cases p) simp
    let ?t = "''steps['' @ g ds @ '']'' @ sub_refs g rest"
    have "sub_refs g (c # cs) = CHR ''$'' # ?t" by (simp add: sub_refs.simps(2) p ref_open_Cons)
    moreover have "match_ref (CHR ''$'' # ?t) = Some (g ds, sub_refs g rest)"
      using written_matches [OF "2.prems" p, of "sub_refs g rest"] by (simp add: ref_open_Cons)
    ultimately show ?thesis using "2.IH"(2) [OF p refl "2.prems"] p
      by (simp add: ref_digits.simps(2))
  qed
qed simp

lemma sub_refs_sub: "digits_to_digits g \<Longrightarrow> sub_refs h (sub_refs g s) = sub_refs (h \<circ> g) s"
proof (induction g s rule: sub_refs.induct)
  case (2 g c cs)
  show ?case
  proof (cases "match_ref (c # cs)")
    case None
    with 2 show ?thesis by (simp add: sub_refs.simps(2) match_ref_sub)
  next
    case (Some p)
    obtain ds rest where p: "match_ref (c # cs) = Some (ds, rest)" using Some by (cases p) simp
    let ?t = "''steps['' @ g ds @ '']'' @ sub_refs g rest"
    have sub: "sub_refs g (c # cs) = CHR ''$'' # ?t" by (simp add: sub_refs.simps(2) p ref_open_Cons)
    have "match_ref (CHR ''$'' # ?t) = Some (g ds, sub_refs g rest)"
      using written_matches [OF "2.prems" p, of "sub_refs g rest"] by (simp add: ref_open_Cons)
    then show ?thesis unfolding sub using "2.IH"(2) [OF p refl "2.prems"] p
      by (simp add: sub_refs.simps(2))
  qed
qed simp

lemma sub_refs_same: "g = id \<Longrightarrow> sub_refs g s = s"
proof (induction g s rule: sub_refs.induct)
  case (2 g c cs)
  show ?case
  proof (cases "match_ref (c # cs)")
    case None
    with 2 show ?thesis by (simp add: sub_refs.simps(2))
  next
    case (Some p)
    obtain ds rest where p: "match_ref (c # cs) = Some (ds, rest)" using Some by (cases p) simp
    have "sub_refs g (c # cs) = ref_open @ ds @ '']'' @ rest"
      using "2.IH"(2) [OF p refl "2.prems"] "2.prems" p by (simp add: sub_refs.simps(2))
    also have "\<dots> = c # cs" using match_ref_parts [OF p] by simp
    finally show ?thesis .
  qed
qed simp

lemma map_strs_map_strs: "map_strs h (map_strs k v) = map_strs (h \<circ> k) v"
  by (induction v) (auto simp: snds.simps)

lemma map_strs_id: "map_strs id v = v"
  by (induction v) (auto simp: snds.simps intro!: map_idI)

lemma strs_of_map_strs: "strs_of (map_strs h v) = map h (strs_of v)"
proof (induction v)
  case (PList xs)
  then show ?case by (induction xs) simp_all
next
  case (PDict d)
  have "strs_of (map_strs h (snd kv)) = map h (strs_of (snd kv))" if "kv \<in> set d" for kv
    using PDict [OF that, of "snd kv"] by (simp add: snds.simps)
  then show ?case by (induction d) auto
qed simp_all

lemma map_step_map_step: "map_step h (map_step k d) = map_step (h \<circ> k) d"
  by (auto simp: map_step_def map_strs_map_strs)

lemma dget_map_step: "dget key (map_step h d) = map_option (map_strs h) (dget key d)"
  by (induction d) (auto simp: map_step_def dget_def)

lemma step_refs_sub:
  assumes "digits_to_digits g" "\<And>ds. read_nat (g ds) = r (read_nat ds)"
  shows "step_refs (map_step (sub_refs g) d) = map r (step_refs d)"
proof -
  have "strs_of (PDict (map_step (sub_refs g) d)) = map (sub_refs g) (strs_of (PDict d))"
    using strs_of_map_strs [of "sub_refs g" "PDict d"] by (simp add: map_step_def)
  then have "step_refs (map_step (sub_refs g) d) = concat (map (\<lambda>s. refs_of (sub_refs g s)) (strs_of (PDict d)))"
    by (simp only: step_refs_def map_map comp_def)
  also have "(\<lambda>s. refs_of (sub_refs g s)) = (\<lambda>s. map r (refs_of s))"
    using assms by (simp add: refs_of_def ref_digits_sub comp_def fun_eq_iff)
  also have "concat (map (\<lambda>s. map r (refs_of s)) (strs_of (PDict d))) = map r (step_refs d)"
    by (simp add: step_refs_def map_concat comp_def del: strs_of.simps)
  finally show ?thesis .
qed

text \<open>A step with the number of every reference blotted out.\<close>

definition skeleton :: "pydict \<Rightarrow> pydict" where
  "skeleton d = map_step (sub_refs (\<lambda>ds. ''0'')) d"

lemma skeleton_sub: "digits_to_digits g \<Longrightarrow> skeleton (map_step (sub_refs g) d) = skeleton d"
proof -
  assume "digits_to_digits g"
  then have "sub_refs (\<lambda>ds. ''0'') \<circ> sub_refs g = sub_refs (\<lambda>ds. ''0'')"
    by (simp add: fun_eq_iff sub_refs_sub comp_def)
  then show ?thesis by (simp only: skeleton_def map_step_map_step)
qed

end
