(* ===== verification/WaitInject.thy ===== *)
theory WaitInject
  imports PlanRefs
begin

text \<open>
  Poll steps behind asynchronous operations, \<open>core_graph/goap/wait_inject.py\<close>.  A plan is a list of step
  dictionaries; the loop over the growing plan is the function \<open>wait_loop\<close>, which ends because the number of steps
  not yet visited falls.  \<open>None\<close> is an exception: an operation id that is no string
  (\<open>AttributeError\<close>), a poll spec without one of its keys (\<open>KeyError\<close>), or \<open>args\<close> that cannot be searched (\<open>TypeError\<close>).
  The poll specs of the plugins and \<open>str\<close> of a value are arguments.  \<open>str.replace\<close> of \<open>$create.\<close> is \<open>replace_all\<close>.
\<close>

definition shift_digits :: "nat \<Rightarrow> string \<Rightarrow> string" where
  "shift_digits k ds = (if read_nat ds \<ge> k then show_nat (read_nat ds + 1) else ds)"

definition shift_refs :: "nat \<Rightarrow> pydict \<Rightarrow> pydict" where
  "shift_refs k step = map_step (sub_refs (shift_digits k)) step"

definition rewrite_create :: "nat \<Rightarrow> pyval \<Rightarrow> pyval" where
  "rewrite_create i v = map_strs (replace_all ''$create.'' (''$steps['' @ show_nat i @ ''].'')) v"

definition op_text :: "pydict \<Rightarrow> string option" where
  "op_text d = (case dget_or ''operation_id'' (PStr []) d of PStr s \<Rightarrow> Some s | _ \<Rightarrow> None)"

definition unproxied :: "string \<Rightarrow> string" where
  "unproxied op = (if starts_with ''proxy_'' op then drop 6 op else op)"

text \<open>The candidate of an operation: the last one listed under the name.\<close>

fun cands_by_op :: "pydict list \<Rightarrow> (string \<times> pydict) list \<Rightarrow> (string \<times> pydict) list option" where
  "cands_by_op [] m = Some m"
| "cands_by_op (c # cs) m =
     (case op_text c of None \<Rightarrow> None | Some op \<Rightarrow> cands_by_op cs (dset (unproxied op) c m))"

fun specs_by_after :: "pydict list \<Rightarrow> (pyval \<times> pydict) list \<Rightarrow> (pyval \<times> pydict) list option" where
  "specs_by_after [] m = Some m"
| "specs_by_after (s # ss) m =
     (case dget ''after'' s of
        None \<Rightarrow> None
      | Some k \<Rightarrow> (if hashable k then specs_by_after ss (dset k s m) else None))"

text \<open>Membership of \<open>projectId\<close> in the step's \<open>args\<close>.\<close>

definition project_id :: "pydict \<Rightarrow> pyval option option" where
  "project_id step =
     (case dget_or ''args'' (PDict []) step of
        PDict a \<Rightarrow> Some (dget ''projectId'' a)
      | PList xs \<Rightarrow> (if py_in (PStr ''projectId'') xs then None else Some None)
      | PStr s \<Rightarrow> (if contains ''projectId'' s then None else Some None)
      | _ \<Rightarrow> None)"

definition wait_step :: "(pyval \<Rightarrow> string) \<Rightarrow> pydict \<Rightarrow> pydict \<Rightarrow> pydict \<Rightarrow> string \<Rightarrow> nat \<Rightarrow> pydict option" where
  "wait_step str_py spec cand step poll_op i =
     (case (dget ''until'' spec, project_id step) of
        (Some until, Some pid) \<Rightarrow>
          Some ([(''operation_id'', dget_or ''operation_id'' (PStr poll_op) cand),
                 (''plugin_id'', dget_or ''plugin_id'' (dget_none ''plugin_id'' step) cand),
                 (''kind'', PStr ''wait''),
                 (''intent'', PStr (''Poll '' @ poll_op @ '' until '' @ str_py until)),
                 (''args'', PDict (case pid of None \<Rightarrow> [] | Some v \<Rightarrow> [(''projectId'', v)])),
                 (''arg_bindings'', PDict []),
                 (''match'', rewrite_create i (dget_or ''match'' (PDict []) spec)),
                 (''until'', until),
                 (''fail_on'', dget_or ''fail_on'' (PList []) spec),
                 (''interval_s'', dget_or ''interval_s'' (PInt 10) spec),
                 (''max_polls'', dget_or ''max_polls'' (PInt 30) spec),
                 (''depends_on'', PInt (int i))]
                @ (case dget ''is_fast_path'' cand of None \<Rightarrow> [] | Some v \<Rightarrow> [(''is_fast_path'', v)]))
      | _ \<Rightarrow> None)"

definition already_waiting :: "pydict list \<Rightarrow> nat \<Rightarrow> string \<Rightarrow> bool option" where
  "already_waiting plan i poll_op =
     (if i + 1 < length plan \<and> py_eq (dget_none ''kind'' (plan ! (i + 1))) (PStr ''wait'')
      then (case op_text (plan ! (i + 1)) of None \<Rightarrow> None | Some op \<Rightarrow> Some (unproxied op = poll_op))
      else Some False)"

text \<open>The plan with a wait step behind step \<open>i\<close>.\<close>

definition insert_wait :: "pydict \<Rightarrow> nat \<Rightarrow> pydict list \<Rightarrow> pydict list" where
  "insert_wait w i plan = take (i + 1) plan @ w # map (shift_refs (i + 1)) (drop (i + 1) plan)"

datatype wait_action = SkipStep | InsertWait pydict

definition wait_action_at ::
    "(pyval \<Rightarrow> string) \<Rightarrow> (pyval \<times> pydict) list \<Rightarrow> (string \<times> pydict) list \<Rightarrow> pydict list \<Rightarrow> nat \<Rightarrow> wait_action option" where
  "wait_action_at str_py specs cands plan i =
     (case op_text (plan ! i) of
        None \<Rightarrow> None
      | Some op \<Rightarrow>
          (case map_of specs (PStr (unproxied op)) of
             None \<Rightarrow> Some SkipStep
           | Some spec \<Rightarrow>
               (case dget ''poll_op'' spec of
                  None \<Rightarrow> None
                | Some (PStr poll_op) \<Rightarrow>
                    (case map_of cands poll_op of
                       None \<Rightarrow> Some SkipStep
                     | Some cand \<Rightarrow>
                         (case already_waiting plan i poll_op of
                            None \<Rightarrow> None
                          | Some True \<Rightarrow> Some SkipStep
                          | Some False \<Rightarrow> map_option InsertWait (wait_step str_py spec cand (plan ! i) poll_op i)))
                | Some v \<Rightarrow> (if hashable v then Some SkipStep else None))))"

function wait_loop ::
    "(pyval \<Rightarrow> string) \<Rightarrow> (pyval \<times> pydict) list \<Rightarrow> (string \<times> pydict) list \<Rightarrow> pydict list \<Rightarrow> nat \<Rightarrow> pydict list option" where
  "wait_loop str_py specs cands plan i =
     (if i < length plan then
        (case wait_action_at str_py specs cands plan i of
           None \<Rightarrow> None
         | Some SkipStep \<Rightarrow> wait_loop str_py specs cands plan (i + 1)
         | Some (InsertWait w) \<Rightarrow> wait_loop str_py specs cands (insert_wait w i plan) (i + 2))
      else Some plan)"
  by pat_completeness auto
termination
  by (relation "measure (\<lambda>(str_py, specs, cands, plan, i). length plan - i)") (auto simp: insert_wait_def)

declare wait_loop.simps [simp del]

definition inject_wait_steps ::
    "(pyval \<Rightarrow> string) \<Rightarrow> pydict list \<Rightarrow> pydict list \<Rightarrow> pydict list \<Rightarrow> pydict list option" where
  "inject_wait_steps str_py specs plan candidates =
     (if specs = [] then Some plan
      else case (cands_by_op candidates [], specs_by_after specs []) of
        (Some cands, Some sm) \<Rightarrow> wait_loop str_py sm cands plan 0
      | _ \<Rightarrow> None)"

subsection \<open>References survive\<close>

definition shift_at :: "nat \<Rightarrow> nat \<Rightarrow> nat" where
  "shift_at k n = (if n \<ge> k then n + 1 else n)"

lemma shift_digits_ok: "digits_to_digits (shift_digits k)" "read_nat (shift_digits k ds) = shift_at k (read_nat ds)"
  by (auto simp: digits_to_digits_def shift_digits_def shift_at_def list_all_iff dest: digit_show)

lemma shift_refs_facts: "step_refs (shift_refs k d) = map (shift_at k) (step_refs d)" "skeleton (shift_refs k d) = skeleton d"
  unfolding shift_refs_def by (rule step_refs_sub [OF shift_digits_ok], rule skeleton_sub [OF shift_digits_ok(1)])

text \<open>
  \<open>woven P f Q\<close>: step \<open>k\<close> of the plan \<open>P\<close> is step \<open>f k\<close> of \<open>Q\<close>, in the same order, changed only in the numbers of its
  references, each of which still names the same step; every other step of \<open>Q\<close> waits for the step before it.
\<close>

definition woven_step :: "(nat \<Rightarrow> nat) \<Rightarrow> pydict \<Rightarrow> pydict \<Rightarrow> bool" where
  "woven_step f old new \<longleftrightarrow>
     (\<exists>g h. digits_to_digits g \<and> (\<forall>ds. read_nat (g ds) = h (read_nat ds)) \<and> new = map_step (sub_refs g) old
        \<and> (\<forall>r\<in>set (step_refs old). h r = f r))"

lemma woven_step_facts:
  assumes "woven_step f old new"
  shows "skeleton new = skeleton old" "step_refs new = map f (step_refs old)"
proof -
  from assms obtain g h where g: "digits_to_digits g" "\<And>ds. read_nat (g ds) = h (read_nat ds)" "new = map_step (sub_refs g) old"
    and h: "\<forall>r\<in>set (step_refs old). h r = f r" by (auto simp: woven_step_def)
  show "skeleton new = skeleton old" unfolding g(3) by (rule skeleton_sub [OF g(1)])
  have "step_refs new = map h (step_refs old)" unfolding g(3) by (rule step_refs_sub [OF g(1,2)])
  with h show "step_refs new = map f (step_refs old)" by simp
qed

lemma woven_step_same: "woven_step id d d"
proof -
  have "sub_refs id = id" by (rule ext) (simp add: sub_refs_same)
  then have "map_step (sub_refs id) d = d"
    by (auto simp: map_step_def map_strs_id intro!: map_idI)
  then show ?thesis unfolding woven_step_def by (intro exI [of _ id]) (simp add: digits_to_digits_def)
qed

lemma woven_step_cong: "woven_step f old new \<Longrightarrow> (\<And>r. r \<in> set (step_refs old) \<Longrightarrow> f' r = f r) \<Longrightarrow> woven_step f' old new"
  by (auto simp: woven_step_def)

lemma woven_step_shift:
  assumes "woven_step f old new" "\<And>r. r \<in> set (step_refs old) \<Longrightarrow> f' r = shift_at k (f r)"
  shows "woven_step f' old (shift_refs k new)"
proof -
  from assms(1) obtain g h where g: "digits_to_digits g" "\<And>ds. read_nat (g ds) = h (read_nat ds)" "new = map_step (sub_refs g) old"
    and h: "\<forall>r\<in>set (step_refs old). h r = f r" by (auto simp: woven_step_def)
  have "sub_refs (shift_digits k) \<circ> sub_refs g = sub_refs (shift_digits k \<circ> g)" by (simp add: fun_eq_iff sub_refs_sub [OF g(1)])
  then have "shift_refs k new = map_step (sub_refs (shift_digits k \<circ> g)) old"
    by (simp only: shift_refs_def g(3) map_step_map_step)
  moreover have "digits_to_digits (shift_digits k \<circ> g)" using g(1) shift_digits_ok(1) [of k] by (simp add: digits_to_digits_def)
  moreover have "read_nat ((shift_digits k \<circ> g) ds) = (shift_at k \<circ> h) (read_nat ds)" for ds by (simp add: shift_digits_ok(2) g(2))
  moreover have "\<forall>r\<in>set (step_refs old). (shift_at k \<circ> h) r = f' r" using h assms(2) by simp
  ultimately show ?thesis unfolding woven_step_def by blast
qed

text \<open>The references of the bindings alone.\<close>

lemma dget_refs: "dget key d = Some v \<Longrightarrow> set (concat (map refs_of (strs_of v))) \<subseteq> set (step_refs d)"
proof -
  assume "dget key d = Some v"
  then have "(key, v) \<in> set d" by (simp add: dget_def map_of_SomeD)
  then have "set (strs_of v) \<subseteq> set (strs_of (PDict d))" by force
  then show ?thesis by (auto simp: step_refs_def simp del: strs_of.simps)
qed

lemma woven_bindings:
  assumes "woven_step f old new" "dget key old = Some (PDict b)"
  shows "\<exists>b'. dget key new = Some (PDict b') \<and> step_refs b' = map f (step_refs b)"
proof -
  from assms(1) obtain g h where g: "digits_to_digits g" "\<And>ds. read_nat (g ds) = h (read_nat ds)" "new = map_step (sub_refs g) old"
    and h: "\<forall>r\<in>set (step_refs old). h r = f r" by (auto simp: woven_step_def)
  have "dget key new = Some (PDict (map_step (sub_refs g) b))" unfolding g(3) dget_map_step assms(2) by (simp add: map_step_def)
  moreover have "step_refs (map_step (sub_refs g) b) = map h (step_refs b)" by (rule step_refs_sub [OF g(1,2)])
  moreover have "set (step_refs b) \<subseteq> set (step_refs old)" using dget_refs [OF assms(2)] by (simp only: step_refs_def)
  ultimately show ?thesis using h by auto
qed

definition waits_for :: "nat \<Rightarrow> pydict \<Rightarrow> bool" where
  "waits_for p step \<longleftrightarrow> dget ''kind'' step = Some (PStr ''wait'') \<and> dget ''depends_on'' step = Some (PInt (int p))"

definition woven :: "pydict list \<Rightarrow> (nat \<Rightarrow> nat) \<Rightarrow> pydict list \<Rightarrow> bool" where
  "woven P f Q \<longleftrightarrow>
     (\<forall>j k. j < k \<and> k < length P \<longrightarrow> f j < f k)
     \<and> (\<forall>k<length P. f k < length Q \<and> woven_step f (P ! k) (Q ! f k))
     \<and> (\<forall>p<length Q. p \<notin> f ` {..<length P} \<longrightarrow> p > 0 \<and> p - 1 \<in> f ` {..<length P} \<and> waits_for (p - 1) (Q ! p))"

definition backward :: "pydict list \<Rightarrow> bool" where
  "backward P \<longleftrightarrow> (\<forall>k<length P. \<forall>r\<in>set (step_refs (P ! k)). r < k)"

text \<open>The rest of the plan from position \<open>i\<close> on is the rest of the original from step \<open>m\<close> on.\<close>

definition aligned :: "nat \<Rightarrow> (nat \<Rightarrow> nat) \<Rightarrow> nat \<Rightarrow> nat \<Rightarrow> nat \<Rightarrow> bool" where
  "aligned n f i m len \<longleftrightarrow> m \<le> n \<and> len = i + (n - m) \<and> (\<forall>k. m \<le> k \<and> k < n \<longrightarrow> f k = i + (k - m))"

lemma wait_step_waits: "wait_step str_py spec cand step poll_op i = Some w \<Longrightarrow> waits_for i w"
  by (auto simp: wait_step_def waits_for_def dget_def split: option.splits)

lemma inserted_waits: "wait_action_at str_py specs cands plan i = Some (InsertWait w) \<Longrightarrow> waits_for i w"
  by (auto simp: wait_action_at_def dest: wait_step_waits split: option.splits pyval.splits bool.splits if_splits)

lemma nth_insert_wait:
  assumes "i < length Q"
  shows "length (insert_wait w i Q) = length Q + 1"
    and "p \<le> i \<Longrightarrow> insert_wait w i Q ! p = Q ! p"
    and "insert_wait w i Q ! (i + 1) = w"
    and "i < p \<Longrightarrow> p < length Q \<Longrightarrow> insert_wait w i Q ! (p + 1) = shift_refs (i + 1) (Q ! p)"
proof -
  show "length (insert_wait w i Q) = length Q + 1" using assms by (simp add: insert_wait_def)
  show "p \<le> i \<Longrightarrow> insert_wait w i Q ! p = Q ! p" using assms by (simp add: insert_wait_def nth_append)
  show "insert_wait w i Q ! (i + 1) = w" using assms by (simp add: insert_wait_def nth_append)
  assume "i < p" "p < length Q"
  then obtain q where "p = i + 1 + q" by (metis less_iff_Suc_add Suc_eq_plus1 add_Suc_right add_Suc)
  with \<open>p < length Q\<close> show "insert_wait w i Q ! (p + 1) = shift_refs (i + 1) (Q ! p)"
    by (simp add: insert_wait_def nth_append)
qed

lemma woven_insert:
  assumes "woven P f Q" "aligned (length P) f i m (length Q)" "backward P" "i < length Q" "waits_for i w"
  defines "f' \<equiv> \<lambda>k. if k \<le> m then f k else f k + 1"
  shows "woven P f' (insert_wait w i Q) \<and> aligned (length P) f' (i + 2) (m + 1) (length (insert_wait w i Q))"
proof -
  let ?n = "length P" and ?Q = "insert_wait w i Q"
  have m: "m < ?n" "f m = i" and tail: "\<And>k. m \<le> k \<Longrightarrow> k < ?n \<Longrightarrow> f k = i + (k - m)" and len: "length Q = i + (?n - m)"
    using assms(2,4) by (auto simp: aligned_def)
  have mono: "\<And>j k. j < k \<Longrightarrow> k < ?n \<Longrightarrow> f j < f k"
    and steps: "\<And>k. k < ?n \<Longrightarrow> f k < length Q \<and> woven_step f (P ! k) (Q ! f k)"
    and others: "\<And>p. p < length Q \<Longrightarrow> p \<notin> f ` {..<?n} \<Longrightarrow> p > 0 \<and> p - 1 \<in> f ` {..<?n} \<and> waits_for (p - 1) (Q ! p)"
    using assms(1) by (auto simp: woven_def)
  have low: "f k \<le> i" if "k \<le> m" for k using mono [of k m] m that by (cases "k = m") auto
  have high: "i < f k" if "m < k" "k < ?n" for k using mono [of m k] m(2) that by simp
  have f': "f' k = shift_at (i + 1) (f k)" if "k < ?n" for k
    using low [of k] high [of k] that by (cases "k \<le> m") (auto simp: f'_def shift_at_def)
  have earlier: "r < k" if "r \<in> set (step_refs (P ! k))" "k < ?n" for r k using assms(3) that by (auto simp: backward_def)
  have "f' j < f' k" if "j < k" "k < ?n" for j k using mono [OF that] that by (auto simp: f'_def)
  moreover have "f' k < length ?Q \<and> woven_step f' (P ! k) (?Q ! f' k)" if k: "k < ?n" for k
  proof (cases "k \<le> m")
    case True
    then have "?Q ! f' k = Q ! f k" using nth_insert_wait(2) [OF assms(4) low [OF True]] by (simp add: f'_def)
    moreover have "woven_step f' (P ! k) (Q ! f k)"
      by (rule woven_step_cong [of f]) (use steps [OF k] True in \<open>auto simp: f'_def dest!: earlier [OF _ k]\<close>)
    ultimately show ?thesis using steps [OF k] True nth_insert_wait(1) [OF assms(4)] by (auto simp: f'_def)
  next
    case False
    then have fk: "?Q ! f' k = shift_refs (i + 1) (Q ! f k)"
      using nth_insert_wait(4) [OF assms(4) high [of k]] steps [OF k] k by (simp add: f'_def)
    have "f' r = shift_at (i + 1) (f r)" if "r \<in> set (step_refs (P ! k))" for r
      using f' [of r] earlier [OF that k] k by simp
    then have "woven_step f' (P ! k) (shift_refs (i + 1) (Q ! f k))" using steps [OF k] by (intro woven_step_shift) simp_all
    then show ?thesis using steps [OF k] False nth_insert_wait(1) [OF assms(4)] unfolding fk by (simp add: f'_def)
  qed
  moreover have "p > 0 \<and> p - 1 \<in> f' ` {..<?n} \<and> waits_for (p - 1) (?Q ! p)" if p: "p < length ?Q" "p \<notin> f' ` {..<?n}" for p
  proof -
    have "p \<le> i + 1"
    proof (rule ccontr)
      assume "\<not> p \<le> i + 1"
      then have "p = f' (m + (p - 1 - i))" "m + (p - 1 - i) < ?n"
        using tail [of "m + (p - 1 - i)"] p(1) len nth_insert_wait(1) [OF assms(4), of w] by (auto simp: f'_def)
      with p(2) show False by blast
    qed
    then consider "p = i + 1" | "p < i" | "p = i" by linarith
    then show ?thesis
    proof cases
      case 1
      have "f' m = i" "m < ?n" using m by (simp_all add: f'_def)
      with 1 assms(5) nth_insert_wait(3) [OF assms(4), of w] show ?thesis by force
    next
      case 2
      have same: "q = f k \<longleftrightarrow> q = f' k" if "k < ?n" "q \<le> i" for k q
        using f' [OF that(1)] that(2) by (auto simp: shift_at_def)
      have image: "q \<in> f ` {..<?n} \<longleftrightarrow> q \<in> f' ` {..<?n}" if "q \<le> i" for q
        unfolding image_iff using same [OF _ that] by (metis lessThan_iff)
      from 2 p(2) image [of p] have "p \<notin> f ` {..<?n}" by simp
      with others [of p] 2 assms(4) have "p > 0 \<and> p - 1 \<in> f ` {..<?n} \<and> waits_for (p - 1) (Q ! p)" by auto
      with 2 image [of "p - 1"] nth_insert_wait(2) [OF assms(4), of p w] show ?thesis by simp
    next
      case 3
      have "f' m = i" "m < ?n" using m by (simp_all add: f'_def)
      with 3 p(2) show ?thesis by blast
    qed
  qed
  ultimately have "woven P f' ?Q" unfolding woven_def by blast
  moreover have "aligned ?n f' (i + 2) (m + 1) (length ?Q)"
    using m tail len nth_insert_wait(1) [OF assms(4), of w] by (auto simp: aligned_def f'_def)
  ultimately show ?thesis ..
qed

lemma woven_skip:
  assumes "aligned n f i m len" "i < len"
  shows "aligned n f (i + 1) (m + 1) len"
  using assms by (auto simp: aligned_def)

subsection \<open>Every asynchronous operation is polled\<close>

text \<open>If step \<open>p\<close> has a poll spec whose poll operation is offered, the next step is a wait step of that operation.\<close>

definition polled :: "(pyval \<times> pydict) list \<Rightarrow> (string \<times> pydict) list \<Rightarrow> pydict list \<Rightarrow> nat \<Rightarrow> bool" where
  "polled specs cands plan p \<longleftrightarrow>
     (\<forall>op spec poll_op. op_text (plan ! p) = Some op \<longrightarrow> map_of specs (PStr (unproxied op)) = Some spec
        \<longrightarrow> dget ''poll_op'' spec = Some (PStr poll_op) \<longrightarrow> map_of cands poll_op \<noteq> None \<longrightarrow> already_waiting plan p poll_op = Some True)"

definition cands_named :: "(string \<times> pydict) list \<Rightarrow> bool" where
  "cands_named cands \<longleftrightarrow> (\<forall>(k, c)\<in>set cands. map_option unproxied (op_text c) = Some k)"

lemma cands_by_op_named: "cands_by_op cs m = Some cands \<Longrightarrow> cands_named m \<Longrightarrow> cands_named cands"
proof (induction cs m rule: cands_by_op.induct)
  case (2 c cs m)
  then obtain op where op: "op_text c = Some op" "cands_by_op cs (dset (unproxied op) c m) = Some cands" by (auto split: option.splits)
  have "set (dset k v d) \<subseteq> insert (k, v) (set d)" for k :: string and v :: pydict and d
    by (induction k v d rule: dset.induct) auto
  with op(1) "2.prems"(2) have "cands_named (dset (unproxied op) c m)" by (fastforce simp: cands_named_def)
  with 2 op show ?case by simp
qed simp

lemma wait_step_polls:
  assumes "wait_step str_py spec cand step poll_op i = Some w" "map_option unproxied (op_text cand) = Some poll_op"
  shows "py_eq (dget_none ''kind'' w) (PStr ''wait'') \<and> map_option unproxied (op_text w) = Some poll_op"
proof -
  from assms(1) have id: "dget ''operation_id'' w = Some (dget_or ''operation_id'' (PStr poll_op) cand)" and kind: "dget ''kind'' w = Some (PStr ''wait'')"
    by (auto simp: wait_step_def dget_def split: option.splits)
  have "map_option unproxied (op_text w) = Some poll_op"
  proof (cases "dget ''operation_id'' cand")
    case None
    with assms(2) have "poll_op = unproxied []" by (simp add: op_text_def dget_or_def)
    then have "poll_op = []" by (simp add: unproxied_def)
    with id None show ?thesis by (simp add: op_text_def dget_or_def unproxied_def)
  next
    case (Some v)
    with id have "op_text w = op_text cand" by (simp add: op_text_def dget_or_def)
    with assms(2) show ?thesis by simp
  qed
  with kind show ?thesis by (simp add: dget_or_def)
qed

lemma named_cand: "cands_named cands \<Longrightarrow> map_of cands k = Some c \<Longrightarrow> map_option unproxied (op_text c) = Some k"
  by (auto simp: cands_named_def dest!: map_of_SomeD)

lemma skipped_polled:
  assumes "wait_action_at str_py specs cands Q i = Some SkipStep"
  shows "polled specs cands Q i"
  using assms by (auto simp: polled_def wait_action_at_def split: option.splits bool.splits)

lemma inserted_polled:
  assumes "wait_action_at str_py specs cands Q i = Some (InsertWait w)" "cands_named cands" "i < length Q"
  shows "polled specs cands (insert_wait w i Q) i"
proof -
  from assms(1) obtain op spec poll_op cand where a: "op_text (Q ! i) = Some op" "map_of specs (PStr (unproxied op)) = Some spec"
    "dget ''poll_op'' spec = Some (PStr poll_op)" "map_of cands poll_op = Some cand"
    "wait_step str_py spec cand (Q ! i) poll_op i = Some w"
    by (auto simp: wait_action_at_def split: option.splits pyval.splits bool.splits if_splits)
  from wait_step_polls [OF a(5) named_cand [OF assms(2) a(4)]]
  have w: "py_eq (dget_none ''kind'' w) (PStr ''wait'')" "map_option unproxied (op_text w) = Some poll_op" by simp_all
  then have "already_waiting (insert_wait w i Q) i poll_op = Some True"
    using nth_insert_wait(1,3) [OF assms(3), of w] assms(3) by (auto simp: already_waiting_def)
  then show ?thesis using a(1-3) nth_insert_wait(2) [OF assms(3), of i w] by (auto simp: polled_def)
qed

lemma polled_insert:
  assumes "polled specs cands Q p" "p < i" "i < length Q"
  shows "polled specs cands (insert_wait w i Q) p"
proof -
  have "insert_wait w i Q ! p = Q ! p" "insert_wait w i Q ! (p + 1) = Q ! (p + 1)"
    using nth_insert_wait(2) [OF assms(3)] assms(2) by simp_all
  then have "already_waiting (insert_wait w i Q) p = already_waiting Q p"
    using assms(2,3) nth_insert_wait(1) [OF assms(3), of w] by (simp add: already_waiting_def fun_eq_iff)
  with assms(1) \<open>insert_wait w i Q ! p = Q ! p\<close> show ?thesis by (simp add: polled_def)
qed

text \<open>The visited steps of the original plan.\<close>

definition visited_ok :: "(pyval \<times> pydict) list \<Rightarrow> (string \<times> pydict) list \<Rightarrow> (nat \<Rightarrow> nat) \<Rightarrow> nat \<Rightarrow> nat \<Rightarrow> pydict list \<Rightarrow> bool" where
  "visited_ok specs cands f m i Q \<longleftrightarrow> (\<forall>k<m. f k < i \<and> polled specs cands Q (f k))"

lemma wait_loop_woven:
  "wait_loop str_py specs cands Q i = Some R \<Longrightarrow> woven P f Q \<Longrightarrow> aligned (length P) f i m (length Q) \<Longrightarrow> backward P
     \<Longrightarrow> cands_named cands \<Longrightarrow> visited_ok specs cands f m i Q
     \<Longrightarrow> \<exists>f'. woven P f' R \<and> (\<forall>k<length P. polled specs cands R (f' k))"
proof (induction str_py specs cands Q i arbitrary: f m rule: wait_loop.induct)
  case (1 str_py specs cands Q i)
  show ?case
  proof (cases "i < length Q")
    case False
    with "1.prems" have "R = Q" "m = length P" by (auto simp: wait_loop.simps aligned_def)
    with "1.prems"(2,6) show ?thesis by (auto simp: visited_ok_def)
  next
    case True
    with "1.prems"(1) obtain a where a: "wait_action_at str_py specs cands Q i = Some a"
      by (auto simp: wait_loop.simps [of _ _ _ Q] split: option.splits)
    from "1.prems"(3) True have m: "m < length P" "f m = i" by (auto simp: aligned_def)
    show ?thesis
    proof (cases a)
      case SkipStep
      with True a "1.prems"(1) have loop: "wait_loop str_py specs cands Q (i + 1) = Some R" by (simp add: wait_loop.simps [of _ _ _ Q])
      have "visited_ok specs cands f (m + 1) (i + 1) Q"
        using "1.prems"(6) skipped_polled a SkipStep m(2) by (auto simp: visited_ok_def less_Suc_eq)
      from "1.IH"(1) [OF True a SkipStep loop "1.prems"(2) woven_skip [OF "1.prems"(3) True] "1.prems"(4,5) this] show ?thesis .
    next
      case (InsertWait w)
      with True a "1.prems"(1) have loop: "wait_loop str_py specs cands (insert_wait w i Q) (i + 2) = Some R"
        by (simp add: wait_loop.simps [of _ _ _ Q])
      let ?f = "\<lambda>k. if k \<le> m then f k else f k + 1"
      have "visited_ok specs cands ?f (m + 1) (i + 2) (insert_wait w i Q)"
        using "1.prems"(6) polled_insert [OF _ _ True] inserted_polled [OF a [unfolded InsertWait] "1.prems"(5) True] m(2)
        by (auto simp: visited_ok_def less_Suc_eq)
      with "1.IH"(2) [OF True a InsertWait loop] woven_insert [OF "1.prems"(2,3,4) True] inserted_waits [OF a [unfolded InsertWait]] "1.prems"(4,5)
      show ?thesis by blast
    qed
  qed
qed

lemma inject_woven:
  assumes "inject_wait_steps str_py specs plan candidates = Some out" "specs \<noteq> []" "backward plan"
  obtains f where "woven plan f out"
    "\<forall>k<length plan. polled (the (specs_by_after specs [])) (the (cands_by_op candidates [])) out (f k)"
proof -
  from assms(1,2) obtain cands sm where c: "cands_by_op candidates [] = Some cands" "specs_by_after specs [] = Some sm"
    "wait_loop str_py sm cands plan 0 = Some out" by (auto simp: inject_wait_steps_def split: option.splits)
  have "woven plan id plan" by (auto simp: woven_def woven_step_same)
  moreover have "aligned (length plan) id 0 0 (length plan)" by (simp add: aligned_def)
  moreover have "cands_named cands" using cands_by_op_named [OF c(1)] by (simp add: cands_named_def)
  moreover have "visited_ok sm cands id 0 0 plan" by (simp add: visited_ok_def)
  ultimately obtain f where "woven plan f out" "\<forall>k<length plan. polled sm cands out (f k)"
    using wait_loop_woven [OF c(3)] assms(3) by blast
  with c(1,2) that show ?thesis by simp
qed

text \<open>
  C9: Poll steps are woven in without breaking the plan.  For a plan whose references point backwards, the
  result holds every step of the plan in its order, changed only in the numbers of its
  references, each of which still names the same step; every other step of the result waits for the
  step just before it; and every step of the plan whose operation has a poll spec, with its
  poll operation among the candidates, is followed by a wait step of that operation.
\<close>

theorem wait_steps_woven:
  assumes "inject_wait_steps str_py specs plan candidates = Some out" "specs \<noteq> []" "backward plan"
  shows "\<exists>f. (\<forall>j k. j < k \<and> k < length plan \<longrightarrow> f j < f k)
     \<and> (\<forall>k<length plan. f k < length out \<and> skeleton (out ! f k) = skeleton (plan ! k)
          \<and> step_refs (out ! f k) = map f (step_refs (plan ! k))
          \<and> polled (the (specs_by_after specs [])) (the (cands_by_op candidates [])) out (f k))
     \<and> (\<forall>p<length out. p \<notin> f ` {..<length plan} \<longrightarrow> p > 0 \<and> p - 1 \<in> f ` {..<length plan} \<and> waits_for (p - 1) (out ! p))"
proof -
  obtain f where f: "woven plan f out"
    "\<forall>k<length plan. polled (the (specs_by_after specs [])) (the (cands_by_op candidates [])) out (f k)"
    by (rule inject_woven [OF assms])
  from f(1) have "(\<forall>j k. j < k \<and> k < length plan \<longrightarrow> f j < f k)" by (simp add: woven_def)
  moreover have "f k < length out \<and> skeleton (out ! f k) = skeleton (plan ! k) \<and> step_refs (out ! f k) = map f (step_refs (plan ! k))"
    if "k < length plan" for k
  proof -
    from f(1) that have "f k < length out" "woven_step f (plan ! k) (out ! f k)" by (simp_all add: woven_def)
    with woven_step_facts show ?thesis by simp
  qed
  moreover have "\<forall>p<length out. p \<notin> f ` {..<length plan} \<longrightarrow> p > 0 \<and> p - 1 \<in> f ` {..<length plan} \<and> waits_for (p - 1) (out ! p)"
    using f(1) by (simp add: woven_def)
  ultimately show ?thesis using f(2) by (intro exI [of _ f]) simp
qed

subsection \<open>A sample plan\<close>

definition sample_specs :: "pydict list" where
  "sample_specs = [[(''after'', PStr ''create_session''), (''poll_op'', PStr ''get_session''),
     (''until'', PDict [(''state'', PStr ''DONE'')]), (''match'', PDict [(''id'', PStr ''$create.id'')])]]"

definition sample_candidates :: "pydict list" where
  "sample_candidates = [[(''operation_id'', PStr ''proxy_get_session''), (''plugin_id'', PStr ''jules'')]]"

definition plain_step :: "string \<Rightarrow> pyval \<Rightarrow> pydict \<Rightarrow> pydict" where
  "plain_step op dep bindings =
     [(''operation_id'', PStr op), (''plugin_id'', PStr ''jules''), (''args'', PDict []), (''arg_bindings'', PDict bindings), (''depends_on'', dep)]"

definition sample_plan :: "pydict list" where
  "sample_plan =
     [plain_step ''create_session'' PNone [], plain_step ''list_files'' PNone [],
      plain_step ''post_note'' (PInt 1) [(''file'', PStr ''$steps[1].id''), (''session'', PStr ''$steps[0].id'')]]"

definition sample_woven :: "pydict list" where
  "sample_woven =
     [plain_step ''create_session'' PNone [],
      [(''operation_id'', PStr ''proxy_get_session''), (''plugin_id'', PStr ''jules''), (''kind'', PStr ''wait''),
       (''intent'', PStr ''Poll get_session until done''), (''args'', PDict []), (''arg_bindings'', PDict []),
       (''match'', PDict [(''id'', PStr ''$steps[0].id'')]), (''until'', PDict [(''state'', PStr ''DONE'')]), (''fail_on'', PList []),
       (''interval_s'', PInt 10), (''max_polls'', PInt 30), (''depends_on'', PInt 0)],
      plain_step ''list_files'' PNone [],
      plain_step ''post_note'' (PInt 1) [(''file'', PStr ''$steps[2].id''), (''session'', PStr ''$steps[0].id'')]]"

lemma sample_injected: "inject_wait_steps (\<lambda>v. ''done'') sample_specs sample_plan sample_candidates = Some sample_woven"
  by code_simp

lemma sample_backward: "backward sample_plan"
proof -
  have "list_all (\<lambda>k. list_all (\<lambda>r. r < k) (step_refs (sample_plan ! k))) [0..<length sample_plan]" by code_simp
  then show ?thesis by (simp add: backward_def list_all_iff)
qed

theorem wait_steps_woven_witness:
  "\<exists>f :: nat \<Rightarrow> nat. skeleton (sample_woven ! f 2) = skeleton (sample_plan ! 2) \<and> step_refs (sample_woven ! f 2) = map f [1, 0] \<and> f 0 < f 1"
proof -
  have refs: "step_refs (sample_plan ! 2) = [1, 0]" by code_simp
  have len: "length sample_plan = 3" "sample_specs \<noteq> []" by (simp_all add: sample_plan_def sample_specs_def)
  obtain f where "\<forall>j k. j < k \<and> k < length sample_plan \<longrightarrow> f j < f k"
    "\<forall>k<length sample_plan. skeleton (sample_woven ! f k) = skeleton (sample_plan ! k) \<and> step_refs (sample_woven ! f k) = map f (step_refs (sample_plan ! k))"
    using wait_steps_woven [OF sample_injected len(2) sample_backward] by blast
  then have "f 0 < f 1" "skeleton (sample_woven ! f 2) = skeleton (sample_plan ! 2)" "step_refs (sample_woven ! f 2) = map f [1, 0]"
    unfolding len refs [symmetric] by simp_all
  then show ?thesis by blast
qed

end
