(* ===== verification/PlanSchedule.thy ===== *)
theory PlanSchedule
  imports WaitInject
begin

text \<open>
  Models and parallel groups of a plan, \<open>core_graph/goap/integrate/scheduling.py\<close>, and the stamping of a finished
  plan, \<open>_apply_post_plan_stamping\<close> of \<open>core_graph/node/planner.py\<close>.  The dependencies of a step are the earlier steps
  its \<open>depends_on\<close> and its bindings name; its level is one above its highest dependency; a group holds the
  steps of a level, with fan-out and wait steps in groups of their own.  Steps and pool entries are dictionaries
  as JSON gives them, so that the sets and tuples the code also scans do not occur; \<open>None\<close> is an exception.
\<close>

subsection \<open>Models of steps\<close>

definition strip_op_prefix :: "string \<Rightarrow> string" where
  "strip_op_prefix op = (case rpart ''__'' op of Some rest \<Rightarrow> rest | None \<Rightarrow> op)"

definition verb_categories :: "(string list \<times> string) list" where
  "verb_categories =
     [([''search'', ''list'', ''find'', ''get'', ''read'', ''fetch'', ''query'', ''lookup''], ''data_retrieval''),
      ([''summarize'', ''summary'', ''analyze'', ''analyse'', ''evaluate'', ''assess'', ''reason'', ''plan'', ''classify'', ''decide''], ''reasoning''),
      ([''create'', ''update'', ''insert'', ''write'', ''render'', ''format'', ''compose'', ''draft'', ''build'', ''generate''], ''formatting'')]"

definition is_lower_alnum :: "char \<Rightarrow> bool" where
  "is_lower_alnum c = (is_lower c \<or> is_digit c)"

definition classify_step_task :: "pydict \<Rightarrow> string option" where
  "classify_step_task step =
     (let v = dget_none ''operation_id'' step in
      if truthy v \<and> \<not> is_str v then None
      else (let tokens = words is_lower_alnum (lower (strip_op_prefix (str_of v))) in
            case find (\<lambda>(verbs, label). list_ex (\<lambda>t. list_ex (\<lambda>v. starts_with v t) verbs) tokens) verb_categories of
              Some (verbs, label) \<Rightarrow> Some label
            | None \<Rightarrow> Some ''data_retrieval''))"

text \<open>\<open>max\<close> and \<open>min\<close> over the entries' strengths, compared as Python compares them.\<close>

fun py_extreme :: "(pyval \<Rightarrow> pyval \<Rightarrow> bool option) \<Rightarrow> (pydict \<Rightarrow> pyval) \<Rightarrow> pydict \<Rightarrow> pydict list \<Rightarrow> pydict option" where
  "py_extreme better key best [] = Some best"
| "py_extreme better key best (e # es) =
     (case better (key e) (key best) of
        None \<Rightarrow> None
      | Some b \<Rightarrow> py_extreme better key (if b then e else best) es)"

definition entry_strength :: "pydict \<Rightarrow> pyval" where
  "entry_strength e = dget_or ''strength'' (PFloat 0) e"

definition strength_pick :: "pydict \<Rightarrow> pydict \<Rightarrow> pydict \<Rightarrow> pyval" where
  "strength_pick strongest weakest step =
     (let complex = truthy (dget_none ''arg_bindings'' step) \<or> dget_none ''depends_on'' step \<noteq> PNone in
      dget_none ''name'' (if complex then strongest else weakest))"

text \<open>The model named by a table of the policy, when it is an active one.\<close>

definition named_or_pick :: "pyval list \<Rightarrow> pyval \<Rightarrow> pyval \<Rightarrow> pyval \<Rightarrow> pyval option" where
  "named_or_pick names table key pick =
     (case table of
        PDict t \<Rightarrow>
          (if \<not> hashable key then None
           else (let name = (case key of PStr k \<Rightarrow> dget_none k t | _ \<Rightarrow> PNone) in
                 if \<not> hashable name then None else Some (if py_in name names then name else pick)))
      | _ \<Rightarrow> Some (if py_in PNone names then PNone else pick))"

definition stamp_model :: "pyval list \<Rightarrow> pydict \<Rightarrow> pydict \<Rightarrow> pyval \<Rightarrow> pyval \<Rightarrow> pydict \<Rightarrow> pydict option" where
  "stamp_model names strongest weakest policy strategy step =
     (let pick = strength_pick strongest weakest step;
          table = (\<lambda>k. case policy of PDict p \<Rightarrow> dget_none k p | _ \<Rightarrow> PNone) in
      if truthy (dget_none ''model'' step) \<or> py_eq strategy (PStr ''off'') then Some step
      else if py_eq strategy (PStr ''explicit'') then
        map_option (\<lambda>m. dset ''model'' m step) (named_or_pick names (table ''op_overrides'') (dget_none ''operation_id'' step) pick)
      else if py_eq strategy (PStr ''task_type'') then
        (case classify_step_task step of
           None \<Rightarrow> None
         | Some tt \<Rightarrow> map_option (\<lambda>m. dset ''model'' m step) (named_or_pick names (table ''task_type_map'') (PStr tt) pick))
      else Some (dset ''model'' pick step))"

fun stamp_models :: "(pydict \<Rightarrow> pydict option) \<Rightarrow> pydict list \<Rightarrow> pydict list option" where
  "stamp_models stamp [] = Some []"
| "stamp_models stamp (s # ss) =
     (case stamp s of
        None \<Rightarrow> None
      | Some s' \<Rightarrow> map_option ((#) s') (stamp_models stamp ss))"

definition assign_step_models :: "pydict list \<Rightarrow> pydict list \<Rightarrow> pyval \<Rightarrow> pydict list option" where
  "assign_step_models steps pool_entries policy =
     (case filter (\<lambda>e. truthy (dget_none ''is_active'' e)) pool_entries of
        [] \<Rightarrow> Some steps
      | e # es \<Rightarrow>
          (case (py_extreme py_gt entry_strength e es, py_extreme py_less entry_strength e es) of
             (Some strongest, Some weakest) \<Rightarrow>
               (let names = List.map_filter (dget ''name'') (e # es);
                    strategy = (case policy of PDict p \<Rightarrow> dget_or ''strategy'' (PStr ''strength'') p | _ \<Rightarrow> PStr ''strength'') in
                if \<not> list_all hashable names then None
                else stamp_models (stamp_model names strongest weakest policy strategy) steps)
           | _ \<Rightarrow> None))"

subsection \<open>Parallel groups\<close>

definition earlier_int :: "nat \<Rightarrow> pyval \<Rightarrow> nat list" where
  "earlier_int i v = (case int_of_py v of Some d \<Rightarrow> (if 0 \<le> d \<and> d < int i then [nat d] else []) | None \<Rightarrow> [])"

definition step_deps :: "nat \<Rightarrow> pydict \<Rightarrow> nat list" where
  "step_deps i step =
     (case dget_none ''depends_on'' step of
        PList xs \<Rightarrow> concat (map (earlier_int i) xs)
      | v \<Rightarrow> earlier_int i v)
     @ (case dget_none ''arg_bindings'' step of
          PDict b \<Rightarrow> filter (\<lambda>j. j < i) (step_refs b)
        | _ \<Rightarrow> [])"

definition isolatable :: "pydict \<Rightarrow> bool" where
  "isolatable step =
     (truthy (dget_none ''for_each'' step) \<or> truthy (dget_none ''for_each_values'' step)
      \<or> py_eq (dget_none ''kind'' step) (PStr ''wait''))"

fun levels_from :: "nat list \<Rightarrow> nat list list \<Rightarrow> nat list" where
  "levels_from lv [] = lv"
| "levels_from lv (ds # dss) =
     levels_from (lv @ [if ds = [] then 0 else 1 + Max (set (map (\<lambda>d. lv ! d) ds))]) dss"

definition step_levels :: "pydict list \<Rightarrow> nat list" where
  "step_levels steps = levels_from [] (map (\<lambda>(i, s). step_deps i s) (enumerate 0 steps))"

definition level_groups :: "pydict list \<Rightarrow> nat list \<Rightarrow> nat \<Rightarrow> nat list list" where
  "level_groups steps lv l =
     (let non_iso = filter (\<lambda>i. lv ! i = l \<and> \<not> isolatable (steps ! i)) [0..<length steps];
          iso = filter (\<lambda>i. lv ! i = l \<and> isolatable (steps ! i)) [0..<length steps] in
      (if non_iso = [] then [] else [non_iso]) @ map (\<lambda>i. [i]) iso)"

definition derive_parallel_groups :: "pydict list \<Rightarrow> nat list list" where
  "derive_parallel_groups steps =
     (if steps = [] then []
      else (let lv = step_levels steps in concat (map (level_groups steps lv) [0..<Max (set lv) + 1])))"

definition apply_post_plan_stamping ::
    "(pyval \<Rightarrow> string) \<Rightarrow> pydict list \<Rightarrow> pydict list \<Rightarrow> pydict list \<Rightarrow> pydict \<Rightarrow> pydict list
      \<Rightarrow> (pydict list \<times> nat list list) option" where
  "apply_post_plan_stamping str_py specs plan pool policy candidates =
     (case assign_step_models plan pool (PDict policy) of
        None \<Rightarrow> None
      | Some stamped \<Rightarrow>
          (case inject_wait_steps str_py specs stamped candidates of
             None \<Rightarrow> None
           | Some out \<Rightarrow>
               Some (out, if truthy (dget_none ''parallel_enabled'' policy) then derive_parallel_groups out else [])))"

subsection \<open>Levels\<close>

lemma levels_from_length: "length (levels_from lv dss) = length lv + length dss"
  by (induction lv dss rule: levels_from.induct) simp_all

lemma levels_from_prefix: "take (length lv) (levels_from lv dss) = lv"
proof (induction lv dss rule: levels_from.induct)
  case (2 lv ds dss)
  let ?lv = "lv @ [if ds = [] then 0 else 1 + Max (set (map (\<lambda>d. lv ! d) ds))]"
  have "take (length lv) (levels_from lv (ds # dss)) = take (length lv) (take (length ?lv) (levels_from ?lv dss))" by simp
  also have "\<dots> = take (length lv) ?lv" by (simp only: "2.IH")
  finally show ?case by simp
qed simp

lemma levels_from_nth: "k < length lv \<Longrightarrow> levels_from lv dss ! k = lv ! k"
  by (metis levels_from_prefix nth_take)

lemma levels_from_step:
  "k < length dss \<Longrightarrow> \<forall>j<length dss. \<forall>d\<in>set (dss ! j). d < length lv + j \<Longrightarrow>
     levels_from lv dss ! (length lv + k) =
       (if dss ! k = [] then 0 else 1 + Max ((\<lambda>d. levels_from lv dss ! d) ` set (dss ! k)))"
proof (induction lv dss arbitrary: k rule: levels_from.induct)
  case (2 lv ds dss)
  let ?l = "if ds = [] then 0 else 1 + Max (set (map (\<lambda>d. lv ! d) ds))"
  let ?lv = "lv @ [?l]"
  show ?case
  proof (cases k)
    case 0
    have "levels_from ?lv dss ! length lv = ?l" by (simp add: levels_from_nth)
    moreover have "levels_from ?lv dss ! d = lv ! d" if "d \<in> set ds" for d
    proof -
      have "d < length lv" using "2.prems"(2) [rule_format, of 0 d] that by simp
      then show ?thesis by (simp add: levels_from_nth nth_append)
    qed
    ultimately show ?thesis using 0 by (auto intro!: arg_cong [of _ _ Max])
  next
    case (Suc k')
    have "\<forall>j<length dss. \<forall>d\<in>set (dss ! j). d < length ?lv + j" using "2.prems"(2) by force
    from "2.IH" [OF _ this, of k'] Suc "2.prems"(1) show ?thesis by simp
  qed
qed simp

lemma step_deps_earlier: "d \<in> set (step_deps i s) \<Longrightarrow> d < i"
  by (auto simp: step_deps_def earlier_int_def split: pyval.splits option.splits if_splits)

lemma length_step_levels [simp]: "length (step_levels steps) = length steps"
  by (simp add: step_levels_def levels_from_length)

lemma dep_lower:
  assumes "i < length steps" "d \<in> set (step_deps i (steps ! i))"
  shows "step_levels steps ! d < step_levels steps ! i"
proof -
  let ?dss = "map (\<lambda>(i, s). step_deps i s) (enumerate 0 steps)"
  have nth: "?dss ! j = step_deps j (steps ! j)" if "j < length steps" for j
    using that by (simp add: nth_enumerate_eq)
  have ok: "\<forall>j<length ?dss. \<forall>d\<in>set (?dss ! j). d < length ([] :: nat list) + j"
    using step_deps_earlier nth by auto
  have "levels_from [] ?dss ! (length ([] :: nat list) + i) =
      (if ?dss ! i = [] then 0 else 1 + Max ((\<lambda>d. levels_from [] ?dss ! d) ` set (?dss ! i)))"
    using assms(1) by (intro levels_from_step [OF _ ok]) simp
  then have "step_levels steps ! i = 1 + Max ((\<lambda>d. step_levels steps ! d) ` set (step_deps i (steps ! i)))"
    unfolding nth [OF assms(1)] step_levels_def [symmetric] using assms(2) by (auto split: if_splits)
  moreover have "step_levels steps ! d \<le> Max ((\<lambda>d. step_levels steps ! d) ` set (step_deps i (steps ! i)))"
    using assms(2) by (intro Max_ge) auto
  ultimately show ?thesis by simp
qed

subsection \<open>Groups\<close>

lemma concat_level_groups:
  "concat (level_groups steps lv l) =
     filter (\<lambda>i. lv ! i = l \<and> \<not> isolatable (steps ! i)) [0..<length steps] @ filter (\<lambda>i. lv ! i = l \<and> isolatable (steps ! i)) [0..<length steps]"
proof -
  have "concat (map (\<lambda>i. [i]) xs) = xs" for xs :: "nat list" by (induction xs) simp_all
  then show ?thesis by (simp add: level_groups_def Let_def)
qed

lemma set_level: "set (concat (level_groups steps lv l)) = {i. i < length steps \<and> lv ! i = l}"
  unfolding concat_level_groups by auto

lemma distinct_level: "distinct (concat (level_groups steps lv l))"
  unfolding concat_level_groups by auto

lemma distinct_levels:
  "distinct ls \<Longrightarrow> distinct (concat (concat (map (level_groups steps lv) ls)))
     \<and> set (concat (concat (map (level_groups steps lv) ls))) = {i. i < length steps \<and> lv ! i \<in> set ls}"
proof (induction ls)
  case (Cons l ls)
  have "concat (concat (map (level_groups steps lv) (l # ls)))
      = concat (level_groups steps lv l) @ concat (concat (map (level_groups steps lv) ls))" by simp
  moreover have "set (concat (level_groups steps lv l)) \<inter> set (concat (concat (map (level_groups steps lv) ls))) = {}"
    using Cons unfolding set_level by auto
  ultimately show ?case using Cons distinct_level [of steps lv l] set_level [of steps lv l] by (auto simp del: set_concat)
qed simp

lemma group_member:
  assumes "i < length steps" "lv ! i \<in> set ls"
  obtains a where "a < length (concat (map (level_groups steps lv) ls))" "i \<in> set (concat (map (level_groups steps lv) ls) ! a)"
proof -
  have "i \<in> set (concat (level_groups steps lv (lv ! i)))" unfolding set_level using assms(1) by simp
  with assms(2) obtain g where "g \<in> set (concat (map (level_groups steps lv) ls))" "i \<in> set g" by auto
  with that show ?thesis by (metis in_set_conv_nth)
qed

lemma split_upt: "k \<le> n \<Longrightarrow> [0..<n] = [0..<k] @ [k..<n]"
  by (metis le_add_diff_inverse plus_nat.add_0 upt_add_eq_append zero_le)

lemma level_in_range: "i < length steps \<Longrightarrow> step_levels steps ! i \<in> set [0..<Max (set (step_levels steps)) + 1]"
proof -
  assume "i < length steps"
  then have "step_levels steps ! i \<le> Max (set (step_levels steps))" by (intro Max_ge) simp_all
  then show ?thesis by (auto simp: le_eq_less_or_eq)
qed

lemma groups_eq:
  "steps \<noteq> [] \<Longrightarrow> derive_parallel_groups steps =
     concat (map (level_groups steps (step_levels steps)) [0..<Max (set (step_levels steps)) + 1])"
  by (simp add: derive_parallel_groups_def Let_def)

lemma parallel_groups_order:
  assumes "steps \<noteq> []" and i: "i < length steps" "d \<in> set (step_deps i (steps ! i))"
  shows "\<exists>a b. a < b \<and> b < length (derive_parallel_groups steps)
     \<and> d \<in> set (derive_parallel_groups steps ! a) \<and> i \<in> set (derive_parallel_groups steps ! b)"
proof -
  let ?lv = "step_levels steps" and ?M = "Max (set (step_levels steps))"
  let ?G = "level_groups steps ?lv" and ?gs = "derive_parallel_groups steps"
  note gs = groups_eq [OF assms(1)] and lv = level_in_range [of _ steps]
  let ?l = "?lv ! d"
  have d: "d < length steps" using step_deps_earlier [OF i(2)] i(1) by simp
  have less: "?l < ?lv ! i" by (rule dep_lower [OF i])
  let ?A = "concat (map ?G [0..<?l + 1])" and ?B = "concat (map ?G [?l + 1..<?M + 1])"
  have "[0..<?M + 1] = [0..<?l + 1] @ [?l + 1..<?M + 1]"
    by (rule split_upt) (use lv [OF d] in auto)
  then have split: "?gs = ?A @ ?B" unfolding gs by (metis concat_append map_append)
  have "?l \<in> set [0..<?l + 1]" "?lv ! i \<in> set [?l + 1..<?M + 1]" using less lv [OF i(1)] by auto
  note in_range = this
  obtain a where a: "a < length ?A" "d \<in> set (?A ! a)" by (rule group_member [OF d in_range(1)])
  obtain b where b: "b < length ?B" "i \<in> set (?B ! b)" by (rule group_member [OF i(1) in_range(2)])
  have "?gs ! a = ?A ! a" using a(1) by (simp only: split nth_append if_True)
  moreover have "?gs ! (length ?A + b) = ?B ! b" by (simp only: split nth_append_length_plus)
  moreover have "length ?gs = length ?A + length ?B" by (simp only: split length_append)
  ultimately show ?thesis using a b by (intro exI [of _ a] exI [of _ "length ?A + b"]) (simp del: concat_append map_append upt_Suc)
qed

text \<open>
  C10: The parallel groups are a schedule.  Every step of the plan is in exactly one group, no group is
  empty, a step comes in a later group than every step it depends on, and a fan-out or wait
  step is alone in its group.
\<close>

theorem parallel_groups_schedule:
  assumes "steps \<noteq> []"
  shows "(let gs = derive_parallel_groups steps in
     distinct (concat gs) \<and> set (concat gs) = {..<length steps} \<and> [] \<notin> set gs
     \<and> (\<forall>i<length steps. \<forall>d\<in>set (step_deps i (steps ! i)).
          \<exists>a b. a < b \<and> b < length gs \<and> d \<in> set (gs ! a) \<and> i \<in> set (gs ! b))
     \<and> (\<forall>i<length steps. isolatable (steps ! i) \<longrightarrow> [i] \<in> set gs))"
proof -
  let ?lv = "step_levels steps" and ?M = "Max (set (step_levels steps))"
  let ?G = "level_groups steps ?lv" and ?gs = "derive_parallel_groups steps"
  note gs = groups_eq [OF assms] and lv = level_in_range [of _ steps]
  have "distinct (concat ?gs) \<and> set (concat ?gs) = {..<length steps}"
    unfolding gs using distinct_levels [of "[0..<?M + 1]" steps ?lv] lv by auto
  moreover have "[] \<notin> set ?gs" unfolding gs by (auto simp: level_groups_def Let_def split: if_splits)
  moreover have "\<exists>a b. a < b \<and> b < length ?gs \<and> d \<in> set (?gs ! a) \<and> i \<in> set (?gs ! b)"
    if "i < length steps" "d \<in> set (step_deps i (steps ! i))" for i d
    by (rule parallel_groups_order [OF assms that])
  moreover have "[i] \<in> set ?gs" if "i < length steps" "isolatable (steps ! i)" for i
  proof -
    have "[i] \<in> set (?G (?lv ! i))" using that by (auto simp: level_groups_def Let_def)
    with lv [OF that(1)] show ?thesis unfolding gs by auto
  qed
  ultimately show ?thesis by (simp add: Let_def)
qed

lemma groups_of_refs:
  assumes "i < length steps" "dget ''arg_bindings'' (steps ! i) = Some (PDict b)" "j \<in> set (step_refs b)" "j < i"
  shows "j \<in> set (step_deps i (steps ! i))"
  using assms by (simp add: step_deps_def dget_or_def)

text \<open>
  Polling and grouping keep the data flow.  When wait steps are woven into a plan with backward
  references and the result is grouped, every step runs in a later group than each step that one of
  its bindings reads, although both have moved.
\<close>

theorem bound_steps_after_producers:
  assumes "inject_wait_steps str_py specs plan candidates = Some out" "specs \<noteq> []" "backward plan"
  shows "\<exists>f. (\<forall>k<length plan. skeleton (out ! f k) = skeleton (plan ! k))
     \<and> (\<forall>k<length plan. \<forall>b. dget ''arg_bindings'' (plan ! k) = Some (PDict b) \<longrightarrow>
          (\<forall>r\<in>set (step_refs b). \<exists>x y. x < y \<and> y < length (derive_parallel_groups out)
             \<and> f r \<in> set (derive_parallel_groups out ! x) \<and> f k \<in> set (derive_parallel_groups out ! y)))"
proof -
  obtain f where f: "woven plan f out" by (rule inject_woven [OF assms])
  have "\<exists>x y. x < y \<and> y < length (derive_parallel_groups out)
             \<and> f r \<in> set (derive_parallel_groups out ! x) \<and> f k \<in> set (derive_parallel_groups out ! y)"
    if k: "k < length plan" and b: "dget ''arg_bindings'' (plan ! k) = Some (PDict b)" and r: "r \<in> set (step_refs b)" for k b r
  proof -
    from f k have step: "f k < length out" "woven_step f (plan ! k) (out ! f k)" and mono: "\<And>j. j < k \<Longrightarrow> f j < f k"
      by (simp_all add: woven_def)
    from woven_bindings [OF step(2) b] obtain b' where b': "dget ''arg_bindings'' (out ! f k) = Some (PDict b')" "step_refs b' = map f (step_refs b)" by blast
    have "r \<in> set (step_refs (plan ! k))" using dget_refs [OF b] r by (auto simp: step_refs_def)
    with assms(3) k have "f r < f k" by (intro mono) (simp add: backward_def)
    with b' r step(1) have "f r \<in> set (step_deps (f k) (out ! f k))" by (intro groups_of_refs) auto
    moreover have "out \<noteq> []" using step(1) by auto
    ultimately show ?thesis using parallel_groups_order [OF _ step(1)] by blast
  qed
  moreover have "skeleton (out ! f k) = skeleton (plan ! k)" if "k < length plan" for k
  proof -
    have "woven_step f (plan ! k) (out ! f k)" using f that by (simp add: woven_def)
    then show ?thesis by (rule woven_step_facts(1))
  qed
  ultimately show ?thesis by (intro exI [of _ f]) blast
qed

theorem parallel_groups_schedule_witness:
  "distinct (concat (derive_parallel_groups sample_woven)) \<and> [1] \<in> set (derive_parallel_groups sample_woven)"
proof -
  have ne: "sample_woven \<noteq> []" by (simp add: sample_woven_def)
  have "isolatable (sample_woven ! 1)" "1 < length sample_woven" by code_simp+
  then show ?thesis using parallel_groups_schedule [OF ne] unfolding Let_def by blast
qed

theorem bound_steps_after_producers_witness:
  "\<exists>f :: nat \<Rightarrow> nat. \<exists>x y. x < y \<and> f 1 \<in> set (derive_parallel_groups sample_woven ! x) \<and> f 2 \<in> set (derive_parallel_groups sample_woven ! y)"
proof -
  have len: "2 < length sample_plan" "sample_specs \<noteq> []" by (simp_all add: sample_plan_def sample_specs_def)
  have b: "dget ''arg_bindings'' (sample_plan ! 2) = Some (PDict [(''file'', PStr ''$steps[1].id''), (''session'', PStr ''$steps[0].id'')])"
    by (simp add: sample_plan_def plain_step_def dget_def)
  have "list_ex (\<lambda>r. r = 1) (step_refs [(''file'', PStr ''$steps[1].id''), (''session'', PStr ''$steps[0].id'')])" by code_simp
  then have r: "1 \<in> set (step_refs [(''file'', PStr ''$steps[1].id''), (''session'', PStr ''$steps[0].id'')])"
    unfolding list_ex_iff by blast
  from bound_steps_after_producers [OF sample_injected len(2) sample_backward] len(1) b r show ?thesis by blast
qed

text \<open>
  A number in \<open>depends_on\<close> is not shifted with the references.  A step that depends on another by its number alone
  can be grouped before it once a wait step has been inserted.
\<close>

definition numbered_plan :: "pydict list" where
  "numbered_plan =
     [plain_step ''create_session'' PNone [], plain_step ''list_files'' PNone [], plain_step ''merge'' (PInt 1) [], plain_step ''publish'' (PInt 2) []]"

lemma wait_insertion_misorders_depends_on:
  "(case inject_wait_steps (\<lambda>v. ''done'') sample_specs numbered_plan sample_candidates of
      Some out \<Rightarrow> map (\<lambda>g. map (\<lambda>i. op_text (out ! i)) g) (derive_parallel_groups out)
    | None \<Rightarrow> [])
   = [[Some ''create_session'', Some ''list_files''], [Some ''publish''], [Some ''proxy_get_session''], [Some ''merge'']]
   \<and> map (\<lambda>g. map (\<lambda>i. op_text (numbered_plan ! i)) g) (derive_parallel_groups numbered_plan)
   = [[Some ''create_session'', Some ''list_files''], [Some ''merge''], [Some ''publish'']]"
  by code_simp

end
