(* ===== verification/Fanout.thy ===== *)
theory Fanout
  imports PlanSchedule PlanSteps GoapDerive
begin

text \<open>
  Fan-out of plan steps, \<open>core_graph/goap/integrate/fanout.py\<close> but for the collapse of equal steps: how many items a query
  asks for, which step takes an id, the fan-out a search followed by a fetch gets without being asked, and the fan-out over
  literal lists.  Steps are passed as values.  \<open>None\<close> is an exception, or a step whose \<open>args\<close> or
  \<open>arg_bindings\<close> is neither empty nor a dictionary (the passes read them as dictionaries).
  A word boundary \<open>\b\<close> lies between characters of \<open>is_word\<close> and others, so that \<open>\b(\d{1,3})\b\<close> is a whole word.
\<close>

subsection \<open>Counts in the query\<close>

definition num_words :: "(string \<times> int) list" where
  "num_words = [(''one'', 1), (''two'', 2), (''three'', 3), (''four'', 4), (''five'', 5), (''six'', 6),
     (''seven'', 7), (''eight'', 8), (''nine'', 9), (''ten'', 10), (''both'', 2), (''couple'', 2), (''few'', 3), (''several'', 3)]"

definition is_count :: "string \<Rightarrow> bool" where
  "is_count w = (list_all is_digit w \<and> w \<noteq> [] \<and> length w \<le> 3 \<and> 1 \<le> read_nat w \<and> read_nat w \<le> 100)"

definition detect_fanout_count :: "string option \<Rightarrow> int option" where
  "detect_fanout_count user_query =
     (case user_query of
        None \<Rightarrow> None
      | Some uq \<Rightarrow>
          (let ws = words is_word (lower uq) in
           case find is_count ws of
             Some w \<Rightarrow> Some (int (read_nat w))
           | None \<Rightarrow> map_option snd (find (\<lambda>(w, n). w \<in> set ws) num_words)))"

subsection \<open>Ids and references of a step\<close>

definition by_id_op_verbs :: "string list" where
  "by_id_op_verbs = [''fetch'', ''get'', ''read'', ''retrieve'', ''show'', ''detail'', ''view'', ''load'']"

definition collection_op_verbs :: "string list" where
  "collection_op_verbs = [''search'', ''list'', ''find'', ''query'', ''all'']"

definition is_id_name :: "string \<Rightarrow> bool" where
  "is_id_name param = (let p = lower param in p \<in> {''id'', ''page_id'', ''notion_id''} \<or> ends_with ''_id'' p)"

text \<open>\<open>(step.get("operation_id") or "").lower()\<close>.\<close>

definition op_lower :: "pydict \<Rightarrow> string option" where
  "op_lower step =
     (let v = dget_none ''operation_id'' step in
      if \<not> truthy v then Some [] else (case v of PStr s \<Rightarrow> Some (lower s) | _ \<Rightarrow> None))"

definition mentions :: "string list \<Rightarrow> string \<Rightarrow> bool" where
  "mentions verbs op = list_ex (\<lambda>v. contains v op) verbs"

definition id_param_of :: "pydict \<Rightarrow> string option option" where
  "id_param_of step = do {
     b \<leftarrow> dict_or_empty ''arg_bindings'' step;
     a \<leftarrow> dict_or_empty ''args'' step;
     case find is_id_name (map fst b @ map fst a) of
       Some p \<Rightarrow> Some (Some p)
     | None \<Rightarrow> map_option (\<lambda>op. if mentions by_id_op_verbs op then Some ''id'' else None) (op_lower step)
   }"

definition is_fetch :: "pydict \<Rightarrow> bool option" where
  "is_fetch step = do {
     op \<leftarrow> op_lower step;
     if mentions by_id_op_verbs op then Some True else map_option (\<lambda>p. p \<noteq> None) (id_param_of step)
   }"

text \<open>The last step that takes an id: its place.\<close>

fun last_fetch :: "pydict list \<Rightarrow> nat \<Rightarrow> nat option option" where
  "last_fetch steps 0 = Some None"
| "last_fetch steps (Suc i) =
     (case is_fetch (steps ! i) of
        None \<Rightarrow> None
      | Some True \<Rightarrow> Some (Some i)
      | Some False \<Rightarrow> last_fetch steps i)"

definition find_fetch_step :: "pydict list \<Rightarrow> nat option option" where
  "find_fetch_step steps = last_fetch steps (length steps)"

text \<open>\<open>^\$steps\[(\d+)\](?:\.(.+))?$\<close> on a stripped text: the step and the field.\<close>

definition step_ref_match :: "string \<Rightarrow> (nat \<times> string option) option" where
  "step_ref_match text =
     (case match_ref (strip text) of
        None \<Rightarrow> None
      | Some (ds, rest) \<Rightarrow>
          (if rest = [] then Some (read_nat ds, None)
           else if hd rest = CHR ''.'' \<and> tl rest \<noteq> [] \<and> char_of (10::nat) \<notin> set (tl rest) then Some (read_nat ds, Some (tl rest))
           else None))"

definition item_ref :: "string option \<Rightarrow> pyval" where
  "item_ref field = PStr (''$item.'' @ (case field of None \<Rightarrow> ''id'' | Some f \<Rightarrow> f))"

definition item_binding :: "nat option \<Rightarrow> pyval \<Rightarrow> pyval" where
  "item_binding source ref =
     (case ref of
        PStr s \<Rightarrow> (case step_ref_match s of
            Some (i, field) \<Rightarrow> (if source = None \<or> source = Some i then item_ref field else ref)
          | None \<Rightarrow> ref)
      | _ \<Rightarrow> ref)"

definition normalize_item_bindings :: "pydict \<Rightarrow> pydict option" where
  "normalize_item_bindings step =
     (case dget_none ''for_each'' step of
        PStr fe \<Rightarrow>
          (if \<not> starts_with ''$steps['' fe then Some step
           else case dict_or_empty ''arg_bindings'' step of
             None \<Rightarrow> None
           | Some b \<Rightarrow>
               (let source = map_option fst (step_ref_match fe);
                    out = map (\<lambda>(param, ref). (param, item_binding source ref)) b in
                Some (if out \<noteq> b then dset ''arg_bindings'' (PDict out) step else step)))
      | _ \<Rightarrow> Some step)"

subsection \<open>Defensive fan-out\<close>

definition cap :: "int option \<Rightarrow> pyval list \<Rightarrow> pyval list" where
  "cap limit xs = (case limit of Some l \<Rightarrow> (if l > 0 then take (nat l) xs else xs) | None \<Rightarrow> xs)"

definition set_limit :: "int option \<Rightarrow> pydict \<Rightarrow> pydict" where
  "set_limit limit step = (case limit of Some l \<Rightarrow> (if l > 0 then dset ''for_each_limit'' (PInt l) step else step) | None \<Rightarrow> step)"

definition fans_out :: "pydict \<Rightarrow> bool" where
  "fans_out step = (truthy (dget_none ''for_each'' step) \<or> truthy (dget_none ''for_each_values'' step))"

text \<open>Case 0: the queue of ids still to be fetched.\<close>

definition fan_pending :: "int option \<Rightarrow> pyval list \<Rightarrow> pydict \<Rightarrow> pydict option" where
  "fan_pending limit pending target = do {
     p \<leftarrow> id_param_of target;
     b \<leftarrow> dict_or_empty ''arg_bindings'' target;
     Some (dpop ''for_each'' (dset ''arg_bindings'' (PDict (dset (case p of Some x \<Rightarrow> x | None \<Rightarrow> ''id'') (PStr ''$item'') b))
       (dset ''for_each_values'' (PList (cap limit pending)) target)))
   }"

text \<open>Case 1: a collection call followed by a consumer of its result.\<close>

definition producer_param :: "nat \<Rightarrow> pydict \<Rightarrow> string option" where
  "producer_param i b =
     map_option fst (find (\<lambda>(param, ref). case ref of
        PStr s \<Rightarrow> map_option fst (step_ref_match s) = Some i | _ \<Rightarrow> False) b)"

definition fan_consumer :: "int option \<Rightarrow> nat \<Rightarrow> pydict \<Rightarrow> pydict \<Rightarrow> pydict option" where
  "fan_consumer limit i producer consumer =
     (if fans_out consumer then Some consumer
      else do {
        op \<leftarrow> op_lower producer;
        if \<not> mentions collection_op_verbs op then Some consumer
        else do {
          b \<leftarrow> dict_or_empty ''arg_bindings'' consumer;
          case producer_param i b of
            None \<Rightarrow> Some consumer
          | Some param \<Rightarrow> Some (set_limit limit (dset ''arg_bindings'' (PDict (dset param (PStr ''$item.id'') b))
              (dset ''for_each'' (PStr (''$steps['' @ show_nat i @ ''].results'')) consumer)))
        }
      })"

definition fan_pair :: "int option \<Rightarrow> nat \<Rightarrow> pydict list \<Rightarrow> pydict list option" where
  "fan_pair limit i steps = map_option (\<lambda>c. steps[i + 1 := c]) (fan_consumer limit i (steps ! i) (steps ! (i + 1)))"

text \<open>Case 2: ids the working memory already holds.\<close>

definition id_plural_keys :: "string list" where
  "id_plural_keys = [''pending_fetch_ids'', ''page_ids'', ''notion_ids'', ''ids'']"

definition plural_ids :: "pydict \<Rightarrow> pyval list option" where
  "plural_ids wm =
     map_option (\<lambda>k. list_of (dget_none k wm))
       (find (\<lambda>k. case dget_none k wm of PList xs \<Rightarrow> length xs > 1 | _ \<Rightarrow> False) id_plural_keys)"

definition fan_memory :: "int option \<Rightarrow> pydict \<Rightarrow> pydict \<Rightarrow> pydict option" where
  "fan_memory limit wm step =
     (if fans_out step then Some step
      else do {
        b \<leftarrow> dict_or_empty ''arg_bindings'' step;
        case (find is_id_name (map fst b), plural_ids wm) of
          (Some param, Some ids) \<Rightarrow>
            Some (dset ''arg_bindings'' (PDict (dset param (PStr ''$item'') b)) (dset ''for_each_values'' (PList (cap limit ids)) step))
        | _ \<Rightarrow> Some step
      })"

definition inject_defensive_fanout :: "int option \<Rightarrow> pydict \<Rightarrow> pydict list \<Rightarrow> pydict list option" where
  "inject_defensive_fanout limit wm steps =
     (let rest = (do {
            s1 \<leftarrow> ofold (fan_pair limit) [0..<length steps - 1] steps;
            if wm = [] then Some s1 else omap (fan_memory limit wm) s1
          }) in
      case dget_none ''pending_fetch_ids'' wm of
        PList (x # xs) \<Rightarrow>
          (case find_fetch_step steps of
             None \<Rightarrow> None
           | Some (Some t) \<Rightarrow>
               (if \<not> truthy (dget_none ''for_each_values'' (steps ! t))
                then map_option (\<lambda>s. steps[t := s]) (fan_pending limit (x # xs) (steps ! t)) else rest)
           | Some None \<Rightarrow> rest)
      | _ \<Rightarrow> rest)"

subsection \<open>Literal lists\<close>

definition fan_literal ::
    "int option \<Rightarrow> (pyval \<times> pydict) list \<Rightarrow> string \<Rightarrow> pyval list \<Rightarrow> pydict \<Rightarrow> pydict option" where
  "fan_literal limit cands p xs step =
     (let op = dget_none ''operation_id'' step in
      if \<not> truthy op then Some step
      else case candidate_of cands op of
        None \<Rightarrow> None
      | Some None \<Rightarrow> Some step
      | Some (Some cand) \<Rightarrow>
          (if p \<notin> set (schema_param_names cand) \<or> has_key ''for_each'' step \<or> has_key ''for_each_values'' step then Some step
           else do {
             s1 \<leftarrow> set_under ''arg_bindings'' p (PStr ''$item'') (set_default ''arg_bindings'' (PDict []) (dset ''for_each_values'' (PList (cap limit xs)) step));
             case dget_or ''args'' (PDict []) s1 of
               PDict a \<Rightarrow> Some (set_limit limit (dset ''args'' (PDict (dpop p a)) s1))
             | _ \<Rightarrow> None
           }))"

definition inject_literal_list_fanout ::
    "int option \<Rightarrow> pydict \<Rightarrow> pydict list \<Rightarrow> pydict list \<Rightarrow> pydict list option" where
  "inject_literal_list_fanout limit seeds candidates steps =
     (if steps = [] \<or> seeds = [] then Some steps
      else case by_operation candidates [] of
        None \<Rightarrow> None
      | Some cands \<Rightarrow>
          ofold (\<lambda>(p, v) ss. case v of
              PList xs \<Rightarrow> (if length xs \<le> 1 then Some ss else omap (fan_literal limit cands p xs) ss)
            | _ \<Rightarrow> Some ss) seeds steps)"

subsection \<open>What fan-out does\<close>

text \<open>
  A fan-out count is small: whatever number the query names, at most a hundred items and at least one.
\<close>

theorem fanout_count_bounded:
  assumes "detect_fanout_count user_query = Some n"
  shows "1 \<le> n \<and> n \<le> 100"
proof -
  have small: "list_all (\<lambda>x. 1 \<le> snd x \<and> snd x \<le> 100) num_words" by code_simp
  show ?thesis
  proof (cases user_query)
    case (Some uq)
    let ?ws = "words is_word (lower uq)"
    show ?thesis
    proof (cases "find is_count ?ws")
      case None
      with assms Some obtain x where "find (\<lambda>(w, n). w \<in> set ?ws) num_words = Some x" "n = snd x"
        by (auto simp: detect_fanout_count_def Let_def)
      with find_SomeD small show ?thesis by (metis list_all_iff)
    next
      case w: (Some w)
      with find_SomeD [OF w] assms Some show ?thesis by (auto simp: detect_fanout_count_def Let_def is_count_def)
    qed
  qed (use assms in \<open>simp add: detect_fanout_count_def\<close>)
qed

theorem fanout_count_bounded_witness:
  "detect_fanout_count (Some ''Pick 5 of the 2000 pages'') = Some 5 \<and> (5 :: int) \<le> 100"
proof -
  have d: "detect_fanout_count (Some ''Pick 5 of the 2000 pages'') = Some 5" by code_simp
  from fanout_count_bounded [OF d] d show ?thesis by simp
qed

text \<open>
  Bindings of a fanned-out step are per item.  After normalisation of a step that fans out over the results
  of step \<open>i\<close>, no binding reads step \<open>i\<close> any more: each of them became the same field of the item, and all
  other bindings and keys are as before.
\<close>

theorem normalized_bindings_per_item:
  assumes "normalize_item_bindings step = Some step'"
    and "dget ''for_each'' step = Some (PStr fe)" "starts_with ''$steps['' fe" "step_ref_match fe = Some (i, part)"
    and "dget ''arg_bindings'' step = Some (PDict b)"
  shows "\<exists>b'. dget ''arg_bindings'' step' = Some (PDict b') \<and> map fst b' = map fst b
     \<and> (\<forall>k. k \<noteq> ''arg_bindings'' \<longrightarrow> dget k step' = dget k step)
     \<and> (\<forall>n<length b. snd (b' ! n) = (case snd (b ! n) of
            PStr s \<Rightarrow> (case step_ref_match s of Some (j, field) \<Rightarrow> (if j = i then item_ref field else PStr s) | None \<Rightarrow> PStr s)
          | v \<Rightarrow> v))"
proof -
  let ?out = "map (\<lambda>(param, ref). (param, item_binding (Some i) ref)) b"
  have d: "dict_or_empty ''arg_bindings'' step = Some b"
    using assms(5) by (auto simp: dict_or_empty_def get_or_empty_def dget_or_def truthy_def)
  have s: "step' = (if ?out \<noteq> b then dset ''arg_bindings'' (PDict ?out) step else step)"
    using assms(1-4) d by (simp add: normalize_item_bindings_def dget_or_def Let_def del: starts_with_Cons)
  have "dget ''arg_bindings'' step' = Some (PDict ?out)" using s assms(5) by (cases "?out = b") simp_all
  moreover have "map fst ?out = map fst b" by (induction b) auto
  moreover have "dget k step' = dget k step" if "k \<noteq> ''arg_bindings''" for k using s that by simp
  moreover have "snd (?out ! n) = (case snd (b ! n) of
            PStr s \<Rightarrow> (case step_ref_match s of Some (j, field) \<Rightarrow> (if j = i then item_ref field else PStr s) | None \<Rightarrow> PStr s)
          | v \<Rightarrow> v)" if "n < length b" for n
    using that by (auto simp: item_binding_def split_def split: pyval.splits option.splits)
  ultimately show ?thesis by blast
qed

text \<open>The relation every defensive change keeps.\<close>

definition step_binding :: "string \<Rightarrow> pydict \<Rightarrow> pyval option" where
  "step_binding p step = (case dget ''arg_bindings'' step of Some (PDict b) \<Rightarrow> dget p b | _ \<Rightarrow> None)"

definition fanout_keys :: "string list" where
  "fanout_keys = [''for_each'', ''for_each_values'', ''for_each_limit'', ''arg_bindings'']"

definition memory_ids :: "int option \<Rightarrow> pydict \<Rightarrow> pyval \<Rightarrow> bool" where
  "memory_ids limit wm v \<longleftrightarrow> (\<exists>k\<in>set id_plural_keys. \<exists>ids. dget k wm = Some (PList ids) \<and> v = PList (cap limit ids))"

definition fanned :: "int option \<Rightarrow> pydict \<Rightarrow> pydict \<Rightarrow> pydict \<Rightarrow> bool" where
  "fanned limit wm s t \<longleftrightarrow>
     (\<forall>k. k \<notin> set fanout_keys \<longrightarrow> dget k t = dget k s)
     \<and> (truthy (dget_none ''for_each_values'' s) \<longrightarrow> t = s)
     \<and> (\<forall>v. dget ''for_each_values'' t = Some v \<longrightarrow> dget ''for_each_values'' s = Some v \<or> memory_ids limit wm v)
     \<and> (\<forall>p v. step_binding p t = Some v \<longrightarrow> step_binding p s = Some v \<or> v = PStr ''$item'' \<or> v = PStr ''$item.id'')"

lemma fanned_refl: "fanned limit wm s s"
  by (simp add: fanned_def)

lemma fanned_trans:
  assumes "fanned limit wm s t" "fanned limit wm t u"
  shows "fanned limit wm s u"
proof (cases "truthy (dget_none ''for_each_values'' s)")
  case True
  with assms have "t = s" by (simp add: fanned_def)
  with assms(2) show ?thesis by simp
next
  case False
  note st = assms(1) [unfolded fanned_def] and tu = assms(2) [unfolded fanned_def]
  have "dget k u = dget k s" if "k \<notin> set fanout_keys" for k
    using st [THEN conjunct1, rule_format, OF that] tu [THEN conjunct1, rule_format, OF that] by simp
  moreover have "dget ''for_each_values'' s = Some v \<or> memory_ids limit wm v" if "dget ''for_each_values'' u = Some v" for v
    using tu [THEN conjunct2, THEN conjunct2, THEN conjunct1, rule_format, OF that]
      st [THEN conjunct2, THEN conjunct2, THEN conjunct1, rule_format, of v] by blast
  moreover have "step_binding p s = Some v \<or> v = PStr ''$item'' \<or> v = PStr ''$item.id''" if "step_binding p u = Some v" for p v
    using tu [THEN conjunct2, THEN conjunct2, THEN conjunct2, rule_format, OF that]
      st [THEN conjunct2, THEN conjunct2, THEN conjunct2, rule_format, of p v] by blast
  ultimately show ?thesis using False unfolding fanned_def by blast
qed

lemma binding_dict: "dict_or_empty ''arg_bindings'' s = Some b \<Longrightarrow> dget p b = Some v \<Longrightarrow> step_binding p s = Some v"
  by (auto simp: dict_or_empty_def get_or_empty_def step_binding_def dget_or_def dget_def Let_def
      split: option.splits if_splits pyval.splits)

lemma binding_dset:
  assumes "dict_or_empty ''arg_bindings'' s = Some b" "dget ''arg_bindings'' t = Some (PDict (dset q w b))"
  shows "step_binding p t = Some v \<longrightarrow> step_binding p s = Some v \<or> v = w"
  using assms(2) binding_dict [OF assms(1)] by (auto simp: step_binding_def split: if_splits)

lemma fannedI:
  assumes "\<And>k. k \<notin> set fanout_keys \<Longrightarrow> dget k t = dget k s" "\<not> truthy (dget_none ''for_each_values'' s)"
    and "\<And>v. dget ''for_each_values'' t = Some v \<Longrightarrow> dget ''for_each_values'' s = Some v \<or> memory_ids limit wm v"
    and "dict_or_empty ''arg_bindings'' s = Some b" "dget ''arg_bindings'' t = Some (PDict (dset q (PStr w) b))"
    and "w = ''$item'' \<or> w = ''$item.id''"
  shows "fanned limit wm s t"
  using assms(1-3) binding_dset [OF assms(4,5)] assms(6) unfolding fanned_def by blast

lemma fanned_pending:
  assumes "fan_pending limit ids s = Some t" "\<not> truthy (dget_none ''for_each_values'' s)"
    "dget ''pending_fetch_ids'' wm = Some (PList ids)"
  shows "fanned limit wm s t"
proof -
  from assms(1) obtain q b where b: "dict_or_empty ''arg_bindings'' s = Some b"
    "t = dpop ''for_each'' (dset ''arg_bindings'' (PDict (dset q (PStr ''$item'') b)) (dset ''for_each_values'' (PList (cap limit ids)) s))"
    by (auto simp: fan_pending_def bind_eq_Some_conv)
  have "memory_ids limit wm (PList (cap limit ids))" using assms(3) by (auto simp: memory_ids_def id_plural_keys_def)
  then show ?thesis using assms(2) b by (intro fannedI [of t s limit wm b q "''$item''"]) (auto simp: fanout_keys_def)
qed

lemma dget_set_limit: "k \<noteq> ''for_each_limit'' \<Longrightarrow> dget k (set_limit limit s) = dget k s"
  by (simp add: set_limit_def split: option.split)

lemma fanned_consumer:
  assumes "fan_consumer limit i producer s = Some t"
  shows "fanned limit wm s t"
proof (cases "t = s")
  case False
  with assms obtain q b where b: "dict_or_empty ''arg_bindings'' s = Some b" "\<not> fans_out s"
    "t = set_limit limit (dset ''arg_bindings'' (PDict (dset q (PStr ''$item.id'') b)) (dset ''for_each'' (PStr (''$steps['' @ show_nat i @ ''].results'')) s))"
    by (auto simp: fan_consumer_def bind_eq_Some_conv split: if_splits option.splits)
  then show ?thesis by (intro fannedI [of t s limit wm b q "''$item.id''"]) (auto simp: fanout_keys_def fans_out_def dget_set_limit)
qed (simp add: fanned_refl)

lemma plural_ids_memory: "plural_ids wm = Some ids \<Longrightarrow> memory_ids limit wm (PList (cap limit ids))"
proof -
  assume "plural_ids wm = Some ids"
  then obtain k where k: "find (\<lambda>k. case dget_none k wm of PList xs \<Rightarrow> length xs > 1 | _ \<Rightarrow> False) id_plural_keys = Some k"
    "ids = list_of (dget_none k wm)" by (auto simp: plural_ids_def)
  from find_SomeD [OF k(1)] k(2) have "k \<in> set id_plural_keys" "dget k wm = Some (PList ids)"
    by (auto simp: dget_or_def split: pyval.splits option.splits)
  then show ?thesis by (auto simp: memory_ids_def)
qed

lemma fanned_memory:
  assumes "fan_memory limit wm s = Some t"
  shows "fanned limit wm s t"
proof (cases "t = s")
  case False
  from assms False obtain b where b: "dict_or_empty ''arg_bindings'' s = Some b" "\<not> fans_out s"
    by (auto simp: fan_memory_def bind_eq_Some_conv split: if_splits)
  with assms False obtain q ids where q: "plural_ids wm = Some ids"
    "t = dset ''arg_bindings'' (PDict (dset q (PStr ''$item'') b)) (dset ''for_each_values'' (PList (cap limit ids)) s)"
    by (cases "find is_id_name (map fst b)"; cases "plural_ids wm") (auto simp: fan_memory_def)
  from plural_ids_memory [OF q(1)] b q(2) show ?thesis
    by (intro fannedI [of t s limit wm b q "''$item''"]) (auto simp: fanout_keys_def fans_out_def)
qed (simp add: fanned_refl)

lemma fanned_update:
  assumes "list_all2 (fanned limit wm) xs ys" "fanned limit wm (ys ! j) t"
  shows "list_all2 (fanned limit wm) xs (ys[j := t])"
proof (cases "j < length ys")
  case True
  have "fanned limit wm (xs ! i) (ys[j := t] ! i)" if "i < length ys" for i
    using assms True that fanned_trans [of limit wm "xs ! j" "ys ! j" t]
    by (cases "i = j") (simp_all add: list_all2_conv_all_nth)
  then show ?thesis using assms(1) by (simp add: list_all2_conv_all_nth)
next
  case False
  then have "ys[j := t] = ys" by (simp add: list_update_beyond)
  with assms(1) show ?thesis by simp
qed

lemma defensive_fanned:
  assumes "inject_defensive_fanout limit wm steps = Some steps'"
  shows "list_all2 (fanned limit wm) steps steps'"
proof -
  have refl: "list_all2 (fanned limit wm) ss ss" for ss by (simp add: list_all2_refl fanned_refl)
  have rest: "list_all2 (fanned limit wm) steps out"
    if "ofold (fan_pair limit) [0..<length steps - 1] steps = Some s1" "(if wm = [] then Some s1 else omap (fan_memory limit wm) s1) = Some out" for s1 out
  proof -
    have 1: "list_all2 (fanned limit wm) steps s1"
      by (rule ofold_induct [OF that(1), of "list_all2 (fanned limit wm) steps"])
        (auto simp: refl fan_pair_def intro!: fanned_update fanned_consumer)
    show ?thesis
    proof (cases "wm = []")
      case True
      with 1 that(2) show ?thesis by simp
    next
      case False
      with that(2) have "omap (fan_memory limit wm) s1 = Some out" by simp
      from omap_cong_fst [OF this, of "fanned limit wm"] have "list_all2 (fanned limit wm) s1 out" using fanned_memory by blast
      with 1 show ?thesis using list_all2_trans [of "fanned limit wm" "fanned limit wm" "fanned limit wm"] fanned_trans by blast
    qed
  qed
  show ?thesis
  proof (cases "\<exists>x xs t s. dget_none ''pending_fetch_ids'' wm = PList (x # xs) \<and> \<not> truthy (dget_none ''for_each_values'' (steps ! t))
      \<and> fan_pending limit (x # xs) (steps ! t) = Some s \<and> steps' = steps[t := s]")
    case True
    then obtain x xs t s where s: "dget_none ''pending_fetch_ids'' wm = PList (x # xs)" "\<not> truthy (dget_none ''for_each_values'' (steps ! t))"
      "fan_pending limit (x # xs) (steps ! t) = Some s" "steps' = steps[t := s]" by blast
    then have "dget ''pending_fetch_ids'' wm = Some (PList (x # xs))" by (auto simp: dget_or_def split: option.splits)
    from fanned_pending [OF s(3,2) this] show ?thesis unfolding s(4) by (intro fanned_update refl)
  next
    case False
    then show ?thesis using assms rest
      by (auto simp: inject_defensive_fanout_def Let_def bind_eq_Some_conv split: pyval.splits list.splits option.splits if_splits)
  qed
qed

text \<open>
  Defensive fan-out is conservative.  A step that already fans out over values is unchanged; elsewhere only
  the fan-out keys and bindings change, a new list of values is one of the working memory's id
  lists, cut to the limit, and a changed binding reads the item.
\<close>

theorem defensive_fanout_conservative:
  assumes "inject_defensive_fanout limit wm steps = Some steps'"
  shows "length steps' = length steps \<and> (\<forall>i<length steps.
       (\<forall>k. k \<notin> {''for_each'', ''for_each_values'', ''for_each_limit'', ''arg_bindings''} \<longrightarrow> dget k (steps' ! i) = dget k (steps ! i))
     \<and> (truthy (dget_none ''for_each_values'' (steps ! i)) \<longrightarrow> steps' ! i = steps ! i)
     \<and> (\<forall>v. dget ''for_each_values'' (steps' ! i) = Some v \<longrightarrow> dget ''for_each_values'' (steps ! i) = Some v
          \<or> (\<exists>k\<in>set id_plural_keys. \<exists>ids. dget k wm = Some (PList ids) \<and> v = PList (cap limit ids)))
     \<and> (\<forall>p v. step_binding p (steps' ! i) = Some v \<longrightarrow> step_binding p (steps ! i) = Some v \<or> v = PStr ''$item'' \<or> v = PStr ''$item.id''))"
  using defensive_fanned [OF assms] unfolding list_all2_conv_all_nth fanned_def memory_ids_def fanout_keys_def by simp

text \<open>A step fanned out over a literal list.\<close>

definition literal_fanned :: "int option \<Rightarrow> (pyval \<times> pydict) list \<Rightarrow> pydict \<Rightarrow> pydict \<Rightarrow> pydict \<Rightarrow> bool" where
  "literal_fanned limit cands seeds s t \<longleftrightarrow> t = s \<or>
     \<not> has_key ''for_each'' s \<and> \<not> has_key ''for_each_values'' s \<and>
     (\<exists>p xs cand a. (p, PList xs) \<in> set seeds \<and> length xs > 1 \<and> candidate_of cands (dget_none ''operation_id'' s) = Some (Some cand)
        \<and> p \<in> set (schema_param_names cand) \<and> dget ''for_each_values'' t = Some (PList (cap limit xs))
        \<and> step_binding p t = Some (PStr ''$item'') \<and> dget ''args'' t = Some (PDict a) \<and> dget p a = None)"

lemma literal_fanned_trans: "literal_fanned limit cands seeds s t \<Longrightarrow> literal_fanned limit cands seeds t u \<Longrightarrow> literal_fanned limit cands seeds s u"
  by (auto simp: literal_fanned_def has_key_def)

lemma fan_literal_fanned:
  assumes "fan_literal limit cands p xs s = Some t" "(p, PList xs) \<in> set seeds" "length xs > 1"
  shows "literal_fanned limit cands seeds s t"
proof (cases "t = s")
  case False
  let ?s0 = "set_default ''arg_bindings'' (PDict []) (dset ''for_each_values'' (PList (cap limit xs)) s)"
  from assms(1) False obtain cand where c: "candidate_of cands (dget_none ''operation_id'' s) = Some (Some cand)"
    "p \<in> set (schema_param_names cand)" "\<not> has_key ''for_each'' s" "\<not> has_key ''for_each_values'' s"
    by (auto simp: fan_literal_def Let_def split: if_splits option.splits)
  with assms(1) False obtain s1 where s1: "set_under ''arg_bindings'' p (PStr ''$item'') ?s0 = Some s1"
    "(case dget_or ''args'' (PDict []) s1 of PDict a \<Rightarrow> Some (set_limit limit (dset ''args'' (PDict (dpop p a)) s1)) | _ \<Rightarrow> None) = Some t"
    by (auto simp: fan_literal_def Let_def bind_eq_Some_conv split: if_splits)
  from s1(2) obtain a where t: "t = set_limit limit (dset ''args'' (PDict (dpop p a)) s1)" by (auto split: pyval.splits)
  obtain b where b: "s1 = dset ''arg_bindings'' (PDict (dset p (PStr ''$item'') b)) ?s0" by (rule set_under_dget [OF s1(1)])
  have "dget ''for_each_values'' t = Some (PList (cap limit xs))" "dget ''args'' t = Some (PDict (dpop p a))"
    "dget ''arg_bindings'' t = Some (PDict (dset p (PStr ''$item'') b))"
    by (simp_all add: t b dget_set_limit set_default_def has_key_def)
  then show ?thesis using assms(2,3) c by (auto simp: literal_fanned_def step_binding_def)
qed (simp add: literal_fanned_def)

lemma literal_fanout_fanned:
  assumes "inject_literal_list_fanout limit seeds candidates steps = Some steps'" "by_operation candidates [] = Some cands"
  shows "list_all2 (literal_fanned limit cands seeds) steps steps'"
proof -
  let ?R = "literal_fanned limit cands seeds"
  let ?f = "\<lambda>(p, v) ss. case v of
              PList xs \<Rightarrow> (if length xs \<le> 1 then Some ss else omap (fan_literal limit cands p xs) ss)
            | _ \<Rightarrow> Some ss"
  have refl: "list_all2 ?R ss ss" for ss by (simp add: list_all2_refl literal_fanned_def)
  have "list_all2 ?R steps v" if "x \<in> set seeds" "list_all2 ?R steps u" "?f x u = Some v" for x u v
  proof -
    have "list_all2 ?R u v"
    proof (cases "v = u")
      case False
      with that(3) obtain p xs where x: "x = (p, PList xs)" "length xs > 1" "omap (fan_literal limit cands p xs) u = Some v"
        by (auto split: prod.splits pyval.splits if_splits)
      from omap_cong_fst [OF x(3), of ?R] show ?thesis using fan_literal_fanned [of limit cands p xs _ _ seeds] that(1) x(1,2) by blast
    qed (simp add: refl)
    with that(2) show ?thesis using list_all2_trans [of ?R ?R ?R] literal_fanned_trans by blast
  qed
  then have "list_all2 ?R steps t" if "ofold ?f seeds steps = Some t" for t
    using ofold_induct [OF that, of "list_all2 ?R steps"] refl by blast
  then show ?thesis using assms refl by (auto simp: inject_literal_list_fanout_def split: if_splits)
qed

text \<open>
  Literal lists fan out declared parameters.  A step the literal fan-out changes did not fan out before, its
  candidate declares the parameter of a seed with several values, it now runs over that list cut to
  the limit with the parameter bound to the item, and no literal argument is left for it.
\<close>

theorem literal_fanout_sound:
  assumes "inject_literal_list_fanout limit seeds candidates steps = Some steps'" "by_operation candidates [] = Some cands"
  shows "length steps' = length steps \<and> (\<forall>i<length steps. steps' ! i = steps ! i
     \<or> \<not> has_key ''for_each'' (steps ! i) \<and> \<not> has_key ''for_each_values'' (steps ! i) \<and>
       (\<exists>p xs cand a. (p, PList xs) \<in> set seeds \<and> length xs > 1
          \<and> candidate_of cands (dget_none ''operation_id'' (steps ! i)) = Some (Some cand) \<and> p \<in> set (schema_param_names cand)
          \<and> dget ''for_each_values'' (steps' ! i) = Some (PList (cap limit xs)) \<and> step_binding p (steps' ! i) = Some (PStr ''$item'')
          \<and> dget ''args'' (steps' ! i) = Some (PDict a) \<and> dget p a = None))"
  using literal_fanout_fanned [OF assms] unfolding list_all2_conv_all_nth literal_fanned_def by simp

definition page_candidate :: pydict where
  "page_candidate = [(''operation_id'', PStr ''fetch_page''), (''parameters'', PDict [(''pageId'', PDict [(''required'', PBool True)])])]"

definition page_steps :: "pydict list" where
  "page_steps = [[(''operation_id'', PStr ''search_pages'')],
     [(''operation_id'', PStr ''fetch_page''), (''arg_bindings'', PDict [(''pageId'', PStr ''$steps[0].id'')])]]"

theorem literal_fanout_sound_witness:
  "\<exists>out. inject_literal_list_fanout (Some 2) [(''pageId'', PList [PInt 1, PInt 2, PInt 3])] [page_candidate] page_steps = Some out
     \<and> length out = 2"
proof -
  have l: "inject_literal_list_fanout (Some 2) [(''pageId'', PList [PInt 1, PInt 2, PInt 3])] [page_candidate] page_steps
    = Some [[(''operation_id'', PStr ''search_pages'')],
        [(''operation_id'', PStr ''fetch_page''), (''arg_bindings'', PDict [(''pageId'', PStr ''$item'')]),
         (''for_each_values'', PList [PInt 1, PInt 2]), (''args'', PDict []), (''for_each_limit'', PInt 2)]]" by code_simp
  have c: "by_operation [page_candidate] [] = Some [(PStr ''fetch_page'', page_candidate)]" by code_simp
  from literal_fanout_sound [OF l c] l show ?thesis by (simp add: page_steps_def)
qed

theorem defensive_fanout_conservative_witness:
  "\<exists>out. inject_defensive_fanout (Some 5) [] page_steps = Some out
     \<and> (\<forall>v. step_binding ''pageId'' (out ! 1) = Some v \<longrightarrow> v \<in> {PStr ''$steps[0].id'', PStr ''$item'', PStr ''$item.id''})"
proof -
  obtain out where l: "inject_defensive_fanout (Some 5) [] page_steps = Some out"
    by (cases "inject_defensive_fanout (Some 5) [] page_steps") (code_simp, blast)
  have i: "1 < length page_steps" and b: "step_binding ''pageId'' (page_steps ! 1) = Some (PStr ''$steps[0].id'')"
    by (simp_all add: page_steps_def step_binding_def dget_def)
  note t = defensive_fanout_conservative [OF l, THEN conjunct2, THEN spec, THEN mp, OF i,
      THEN conjunct2, THEN conjunct2, THEN conjunct2, THEN spec [of _ "''pageId''"], THEN spec, THEN mp]
  have "v \<in> {PStr ''$steps[0].id'', PStr ''$item'', PStr ''$item.id''}" if "step_binding ''pageId'' (out ! 1) = Some v" for v
    using t [OF that] unfolding b by blast
  with l show ?thesis by blast
qed

theorem normalized_bindings_per_item_witness:
  "\<exists>b'. map fst b' = [''pageId''] \<and> snd (b' ! 0) = PStr ''$item.id''"
proof -
  let ?s = "[(''for_each'', PStr ''$steps[0].results''), (''arg_bindings'', PDict [(''pageId'', PStr ''$steps[0].id'')])]"
  let ?t = "[(''for_each'', PStr ''$steps[0].results''), (''arg_bindings'', PDict [(''pageId'', PStr ''$item.id'')])]"
  have n: "normalize_item_bindings ?s = Some ?t" and m: "step_ref_match ''$steps[0].results'' = Some (0, Some ''results'')"
    "step_ref_match ''$steps[0].id'' = Some (0, Some ''id'')" "starts_with ''$steps['' ''$steps[0].results''" by code_simp+
  have f: "dget ''for_each'' ?s = Some (PStr ''$steps[0].results'')" "dget ''arg_bindings'' ?s = Some (PDict [(''pageId'', PStr ''$steps[0].id'')])"
    by (simp_all add: dget_def)
  from normalized_bindings_per_item [OF n f(1) m(3,1) f(2)] obtain b' where b: "map fst b' = map fst [(''pageId'', PStr ''$steps[0].id'')]"
    and v: "\<forall>n<length [(''pageId'', PStr ''$steps[0].id'')]. snd (b' ! n) = (case snd ([(''pageId'', PStr ''$steps[0].id'')] ! n) of
            PStr s \<Rightarrow> (case step_ref_match s of Some (j, field) \<Rightarrow> (if j = 0 then item_ref field else PStr s) | None \<Rightarrow> PStr s)
          | v \<Rightarrow> v)" by blast
  from v [rule_format, of 0] m(2) have "snd (b' ! 0) = PStr ''$item.id''" by (simp add: item_ref_def)
  with b show ?thesis by (intro exI [of _ b']) simp
qed

end
