(* ===== verification/FanoutCollapse.thy ===== *)
theory FanoutCollapse
  imports Fanout
begin

text \<open>
  The collapse of equal steps, \<open>collapse_homogeneous_fanout\<close> of \<open>core_graph/goap/integrate/fanout.py\<close>: steps that
  differ in one literal argument only become one step that runs over the list of its values, and the
  references of the remaining steps are renumbered.  The loop that partitions the steps of an operation ends because
  a found group contains the step it was found for.  \<open>None\<close> is an exception, or a step whose \<open>args\<close> is neither empty
  nor a dictionary.
\<close>

subsection \<open>Groups\<close>

definition ignored_keys :: "string list" where
  "ignored_keys = [''args'', ''arg_bindings'', ''for_each_values'', ''for_each'', ''for_each_limit'']"

definition same_others :: "pydict \<Rightarrow> pydict \<Rightarrow> bool" where
  "same_others s1 s2 =
     list_all (\<lambda>k. k \<in> set ignored_keys \<or> py_eq (dget_none k s1) (dget_none k s2)) (map fst s1 @ map fst s2)"

definition has_fanout_key :: "pydict \<Rightarrow> bool" where
  "has_fanout_key s = (has_key ''for_each'' s \<or> has_key ''for_each_values'' s)"

definition same_args_but :: "string \<Rightarrow> pydict \<Rightarrow> pydict \<Rightarrow> bool" where
  "same_args_but p a1 a2 =
     (set (map fst a1) = set (map fst a2) \<and> has_key p a1
      \<and> list_all (\<lambda>k. k = p \<or> py_eq (dget_none k a1) (dget_none k a2)) (map fst a1))"

definition are_homogeneous_except_p :: "pydict \<Rightarrow> pydict \<Rightarrow> string \<Rightarrow> bool option" where
  "are_homogeneous_except_p s1 s2 p =
     (if \<not> py_eq (dget_none ''operation_id'' s1) (dget_none ''operation_id'' s2) then Some False
      else if has_fanout_key s1 \<or> has_fanout_key s2 then Some False
      else if \<not> same_others s1 s2 then Some False
      else if \<not> py_eq (get_or_empty ''arg_bindings'' s1) (get_or_empty ''arg_bindings'' s2) then Some False
      else do {
        bound \<leftarrow> in_value p (get_or_empty ''arg_bindings'' s1);
        if bound then Some False
        else do {
          a1 \<leftarrow> dict_or_empty ''args'' s1;
          a2 \<leftarrow> dict_or_empty ''args'' s2;
          Some (same_args_but p a1 a2)
        }
      })"

text \<open>Indexed steps that agree with a step but for one argument.\<close>

fun members :: "pydict \<Rightarrow> string \<Rightarrow> (nat \<times> pydict) list \<Rightarrow> (nat \<times> pydict) list option" where
  "members step p [] = Some []"
| "members step p ((i, s) # rest) =
     (case are_homogeneous_except_p step s p of
        None \<Rightarrow> None
      | Some b \<Rightarrow> map_option (\<lambda>g. if b then (i, s) # g else g) (members step p rest))"

definition arg_value :: "string \<Rightarrow> pydict \<Rightarrow> pyval" where
  "arg_value p s = dget_none p (dict_of (dget_or ''args'' (PDict []) s))"

fun find_group :: "pydict \<Rightarrow> (nat \<times> pydict) list \<Rightarrow> string list \<Rightarrow> (string \<times> nat list) option option" where
  "find_group step remaining [] = Some None"
| "find_group step remaining (p # ps) =
     (case in_value p (get_or_empty ''arg_bindings'' step) of
        None \<Rightarrow> None
      | Some True \<Rightarrow> find_group step remaining ps
      | Some False \<Rightarrow>
          (case members step p remaining of
             None \<Rightarrow> None
           | Some g \<Rightarrow>
               (let vs = map (\<lambda>(i, s). arg_value p s) g in
                if length g \<ge> 2 \<and> \<not> list_all hashable vs then None
                else if length g \<ge> 2 \<and> distinct (map canon vs) then Some (Some (p, map fst g))
                else find_group step remaining ps)))"

lemma homogeneous_self:
  "are_homogeneous_except_p s s p = Some b \<Longrightarrow> \<not> has_fanout_key s \<Longrightarrow> dict_or_empty ''args'' s = Some a \<Longrightarrow> p \<in> fst ` set a
     \<Longrightarrow> in_value p (get_or_empty ''arg_bindings'' s) = Some False \<Longrightarrow> b"
  by (auto simp: are_homogeneous_except_p_def same_others_def same_args_but_def has_key_iff list_all_iff)

lemma find_group_Some:
  "find_group step remaining ps = Some (Some (p, g)) \<Longrightarrow>
     \<exists>m. members step p remaining = Some m \<and> g = map fst m \<and> p \<in> set ps \<and> length m \<ge> 2
       \<and> in_value p (get_or_empty ''arg_bindings'' step) = Some False \<and> distinct (map (\<lambda>(i, s). canon (arg_value p s)) m)"
  by (induction ps) (auto simp: Let_def comp_def split_def split: option.splits bool.splits if_splits)

lemma members_filter:
  "members step p remaining = Some m \<Longrightarrow> m = filter (\<lambda>(i, s). are_homogeneous_except_p step s p = Some True) remaining
     \<and> (\<forall>(i, s)\<in>set remaining. are_homogeneous_except_p step s p \<noteq> None)"
  by (induction remaining arbitrary: m) (force split: option.splits if_splits)+

lemma find_group_self:
  assumes "find_group step ((i, step) # rest) ps = Some (Some (p, g))" "\<not> has_fanout_key step"
    "dict_or_empty ''args'' step = Some a" "set ps \<subseteq> fst ` set a"
  shows "i \<in> set g"
proof -
  from find_group_Some [OF assms(1)] obtain m where m: "members step p ((i, step) # rest) = Some m" "g = map fst m" "p \<in> set ps"
    "in_value p (get_or_empty ''arg_bindings'' step) = Some False" by blast
  from members_filter [OF m(1)] obtain b where b: "are_homogeneous_except_p step step p = Some b"
    "m = filter (\<lambda>(i, s). are_homogeneous_except_p step s p = Some True) ((i, step) # rest)" by auto
  from homogeneous_self [OF b(1) assms(2,3) _ m(4)] m(3) assms(4) have "b" by blast
  with b m(2) show ?thesis by simp
qed

function partition_groups :: "(nat \<times> pydict) list \<Rightarrow> (string \<times> nat list) list option" where
  "partition_groups [] = Some []"
| "partition_groups ((i, step) # rest) =
     (case dict_or_empty ''args'' step of
        None \<Rightarrow> None
      | Some a \<Rightarrow>
          (if has_fanout_key step then partition_groups rest
           else case find_group step ((i, step) # rest) (map fst a) of
             None \<Rightarrow> None
           | Some (Some (p, g)) \<Rightarrow>
               map_option ((#) (p, g)) (partition_groups (filter (\<lambda>(j, s). j \<notin> set g) ((i, step) # rest)))
           | Some None \<Rightarrow> partition_groups rest))"
  by pat_completeness auto
termination
  by (relation "measure length") (auto simp: le_imp_less_Suc dest!: find_group_self)

text \<open>The steps of each operation, in order of their first step.\<close>

fun steps_by_op :: "nat \<Rightarrow> pydict list \<Rightarrow> (pyval \<times> (nat \<times> pydict) list) list \<Rightarrow> (pyval \<times> (nat \<times> pydict) list) list option" where
  "steps_by_op i [] m = Some m"
| "steps_by_op i (s # ss) m =
     (let op = dget_none ''operation_id'' s in
      if \<not> hashable op then None
      else steps_by_op (i + 1) ss
        (dset (canon op) ((case map_of m (canon op) of None \<Rightarrow> [] | Some xs \<Rightarrow> xs) @ [(i, s)]) m))"

fun groups_of_ops :: "(pyval \<times> (nat \<times> pydict) list) list \<Rightarrow> (string \<times> nat list) list option" where
  "groups_of_ops [] = Some []"
| "groups_of_ops ((op, xs) # ops) = do {
     gs \<leftarrow> (if length xs \<ge> 2 then partition_groups xs else Some []);
     rest \<leftarrow> groups_of_ops ops;
     Some (gs @ rest)
   }"

subsection \<open>The collapsed plan\<close>

definition fan_group :: "int option \<Rightarrow> string \<times> nat list \<Rightarrow> pydict list \<Rightarrow> pydict list option" where
  "fan_group limit pg steps =
     (case pg of (p, g) \<Rightarrow>
        (let vals = map (\<lambda>i. arg_value p (steps ! i)) g in do {
           t1 \<leftarrow> set_under ''arg_bindings'' p (PStr ''$item'')
             (set_default ''arg_bindings'' (PDict []) (dset ''for_each_values'' (PList (cap limit vals)) (steps ! hd g)));
           case dget_or ''args'' (PDict []) t1 of
             PDict a \<Rightarrow> Some (steps[hd g := set_limit limit (dset ''args'' (PDict (dpop p a)) t1)])
           | _ \<Rightarrow> None
         }))"

text \<open>The steps that go, the step that stands for each, and its place among those that stay.\<close>

definition removed_of :: "(string \<times> nat list) list \<Rightarrow> nat list" where
  "removed_of groups = concat (map (\<lambda>(p, g). tl g) groups)"

fun survivor_of :: "(string \<times> nat list) list \<Rightarrow> nat \<Rightarrow> nat" where
  "survivor_of [] k = k"
| "survivor_of ((p, g) # groups) k = (if k \<in> set (tl g) then hd g else survivor_of groups k)"

definition new_place :: "(string \<times> nat list) list \<Rightarrow> nat \<Rightarrow> nat" where
  "new_place groups k = length (filter (\<lambda>j. j \<notin> set (removed_of groups)) [0..<survivor_of groups k])"

definition reindex_refs :: "nat \<Rightarrow> (nat \<Rightarrow> nat) \<Rightarrow> pyval \<Rightarrow> pyval" where
  "reindex_refs n f v = map_strs (sub_refs (\<lambda>ds. if read_nat ds < n then show_nat (f (read_nat ds)) else ds)) v"

definition reindex_int :: "nat \<Rightarrow> (nat \<Rightarrow> nat) \<Rightarrow> pyval \<Rightarrow> pyval" where
  "reindex_int n f v = (case int_of_py v of
      Some d \<Rightarrow> (if 0 \<le> d \<and> d < int n then PInt (int (f (nat d))) else v)
    | None \<Rightarrow> v)"

fun reindex_list :: "nat \<Rightarrow> (nat \<Rightarrow> nat) \<Rightarrow> pyval list \<Rightarrow> pyval list \<Rightarrow> pyval list" where
  "reindex_list n f [] seen = []"
| "reindex_list n f (x # xs) seen =
     (if int_of_py x = None then x # reindex_list n f xs seen
      else if py_in (reindex_int n f x) seen then reindex_list n f xs seen
      else reindex_int n f x # reindex_list n f xs (reindex_int n f x # seen))"

definition reindex_depends_on :: "nat \<Rightarrow> (nat \<Rightarrow> nat) \<Rightarrow> pyval \<Rightarrow> pyval" where
  "reindex_depends_on n f dep = (case dep of PList xs \<Rightarrow> PList (reindex_list n f xs []) | v \<Rightarrow> reindex_int n f v)"

definition reindex_step :: "nat \<Rightarrow> (nat \<Rightarrow> nat) \<Rightarrow> pydict \<Rightarrow> pydict" where
  "reindex_step n f step =
     map (\<lambda>(k, v). (k, if k \<in> {''args'', ''arg_bindings'', ''for_each''} then reindex_refs n f v
        else if k = ''depends_on'' then reindex_depends_on n f v else v)) step"

definition collapse_homogeneous_fanout :: "int option \<Rightarrow> pydict list \<Rightarrow> pydict list option" where
  "collapse_homogeneous_fanout limit steps =
     (if length steps < 2 then Some steps
      else case Option.bind (steps_by_op 0 steps []) groups_of_ops of
        None \<Rightarrow> None
      | Some [] \<Rightarrow> Some steps
      | Some groups \<Rightarrow>
          (case ofold (fan_group limit) groups steps of
             None \<Rightarrow> None
           | Some copied \<Rightarrow>
               Some (map (\<lambda>k. reindex_step (length steps) (new_place groups) (copied ! k))
                 (filter (\<lambda>k. k \<notin> set (removed_of groups)) [0..<length steps]))))"

definition fetch_n :: "int \<Rightarrow> pydict" where
  "fetch_n n = [(''operation_id'', PStr ''fetch_page''), (''args'', PDict [(''pageId'', PInt n), (''full'', PBool True)])]"

definition fetch_plan :: "pydict list" where
  "fetch_plan = [fetch_n 1, [(''operation_id'', PStr ''list_tags''), (''depends_on'', PNone)], fetch_n 2, fetch_n 3,
     [(''operation_id'', PStr ''summarise''), (''arg_bindings'', PDict [(''text'', PStr ''$steps[2].body''), (''tag'', PStr ''$steps[1].name'')]),
      (''depends_on'', PList [PInt 1, PInt 2, PInt 0])]]"

subsection \<open>The groups are disjoint and alike\<close>

text \<open>Indexed steps: places in order, each with its step.\<close>

definition indexed :: "pydict list \<Rightarrow> (nat \<times> pydict) list \<Rightarrow> bool" where
  "indexed steps xs \<longleftrightarrow> sorted_wrt (<) (map fst xs) \<and> (\<forall>(i, s)\<in>set xs. i < length steps \<and> s = steps ! i)"

definition alike :: "pydict list \<Rightarrow> string \<times> nat list \<Rightarrow> bool" where
  "alike steps pg \<longleftrightarrow> (case pg of (p, g) \<Rightarrow> length g \<ge> 2 \<and> sorted_wrt (<) g
     \<and> (\<forall>j\<in>set g. j < length steps \<and> are_homogeneous_except_p (steps ! hd g) (steps ! j) p = Some True))"

lemma indexed_filter: "indexed steps xs \<Longrightarrow> indexed steps (filter q xs)"
  by (auto simp: indexed_def sorted_wrt_map intro: sorted_wrt_filter)

lemma partition_sound:
  "partition_groups xs = Some gs \<Longrightarrow> indexed steps xs \<Longrightarrow>
     (\<forall>pg\<in>set gs. alike steps pg \<and> set (snd pg) \<subseteq> fst ` set xs) \<and> distinct (concat (map snd gs))"
proof (induction xs arbitrary: gs rule: partition_groups.induct)
  case (2 i step rest)
  have rest: "indexed steps rest" using "2.prems"(2) by (auto simp: indexed_def)
  obtain a where a: "dict_or_empty ''args'' step = Some a" using "2.prems"(1) by (auto split: option.splits)
  show ?case
  proof (cases "has_fanout_key step \<or> find_group step ((i, step) # rest) (map fst a) = Some None")
    case True
    then have gs: "partition_groups rest = Some gs" using "2.prems"(1) a by (auto split: if_splits)
    have "(\<forall>pg\<in>set gs. alike steps pg \<and> set (snd pg) \<subseteq> fst ` set rest) \<and> distinct (concat (map snd gs))"
    proof (cases "has_fanout_key step")
      case key: True
      show ?thesis by (rule "2.IH"(1) [OF a key gs rest])
    next
      case key: False
      with True have none: "find_group step ((i, step) # rest) (map fst a) = Some None" by simp
      show ?thesis by (rule "2.IH"(2) [OF a key none refl gs rest])
    qed
    then show ?thesis by auto
  next
    case False
    then obtain p g where f: "find_group step ((i, step) # rest) (map fst a) = Some (Some (p, g))"
      using "2.prems"(1) a by (auto split: option.splits prod.splits)
    let ?xs = "filter (\<lambda>(j, s). j \<notin> set g) ((i, step) # rest)"
    obtain hs where hs: "partition_groups ?xs = Some hs" "gs = (p, g) # hs"
      using "2.prems"(1) a f False by (auto split: if_splits)
    have IH: "(\<forall>pg\<in>set hs. alike steps pg \<and> set (snd pg) \<subseteq> fst ` set ?xs) \<and> distinct (concat (map snd hs))"
      using "2.IH"(3) [OF a _ f refl refl hs(1)] False indexed_filter [OF "2.prems"(2)] by blast
    from find_group_Some [OF f] obtain m where m: "members step p ((i, step) # rest) = Some m" "g = map fst m" "length m \<ge> 2" by blast
    note mf = members_filter [OF m(1), THEN conjunct1]
    have self: "i \<in> set g" by (rule find_group_self [OF f _ a]) (use False in auto)
    have im: "indexed steps m" unfolding mf by (rule indexed_filter [OF "2.prems"(2)])
    have hd: "hd g = i"
    proof -
      from im m(2) have s: "sorted_wrt (<) g" by (simp add: indexed_def)
      have ge: "j \<in> set g \<Longrightarrow> i \<le> j" for j using "2.prems"(2) unfolding m(2) mf by (auto simp: indexed_def less_imp_le split: if_splits)
      obtain x g' where g: "g = x # g'" using m(2,3) by (cases m) auto
      with self s have "x \<le> i" by (auto simp: less_imp_le)
      with ge [of x] g show ?thesis by simp
    qed
    have "alike steps (p, g)"
    proof -
      have "j < length steps \<and> are_homogeneous_except_p (steps ! i) (steps ! j) p = Some True" if j: "j \<in> set g" for j
      proof -
        from j m(2) obtain s where s: "(j, s) \<in> set m" by auto
        with im have "j < length steps" "s = steps ! j" by (auto simp: indexed_def)
        moreover have "are_homogeneous_except_p step s p = Some True" using s unfolding mf set_filter by blast
        moreover have "step = steps ! i" using "2.prems"(2) by (simp add: indexed_def)
        ultimately show ?thesis by simp
      qed
      then show ?thesis using im m(2,3) hd by (simp add: alike_def indexed_def)
    qed
    moreover have "set g \<subseteq> fst ` set ((i, step) # rest)"
      unfolding m(2) mf set_map by (rule image_mono) (unfold set_filter, blast)
    moreover have "set g \<inter> set (concat (map snd hs)) = {}"
    proof -
      have "fst ` set ?xs \<inter> set g = {}" by auto
      moreover have "set (concat (map snd hs)) \<subseteq> fst ` set ?xs" using IH by (simp add: UN_subset_iff)
      ultimately show ?thesis by blast
    qed
    moreover have "distinct g" using im m(2) by (simp add: indexed_def strict_sorted_iff)
    moreover have "\<forall>pg\<in>set hs. alike steps pg \<and> set (snd pg) \<subseteq> fst ` set ((i, step) # rest)"
    proof -
      have "fst ` set ?xs \<subseteq> fst ` set ((i, step) # rest)" by (rule image_mono) (rule filter_is_subset)
      with IH show ?thesis by blast
    qed
    ultimately have 1: "\<forall>pg\<in>set gs. alike steps pg \<and> set (snd pg) \<subseteq> fst ` set ((i, step) # rest)"
      and 2: "distinct (g @ concat (map snd hs))"
      using IH unfolding hs(2) set_simps by (simp_all del: set_simps)
    then show ?thesis unfolding hs(2) by simp
  qed
qed simp

text \<open>Sorting by operation loses and doubles no step.\<close>

definition places :: "('a \<times> (nat \<times> pydict) list) list \<Rightarrow> nat list" where
  "places m = concat (map (\<lambda>(op, xs). map fst xs) m)"

lemma distinct_places_dset:
  assumes "distinct (places m)" "i \<notin> set (places m)"
  shows "distinct (places (dset k ((case map_of m k of None \<Rightarrow> [] | Some xs \<Rightarrow> xs) @ [(i, s)]) m))
     \<and> set (places (dset k ((case map_of m k of None \<Rightarrow> [] | Some xs \<Rightarrow> xs) @ [(i, s)]) m)) = insert i (set (places m))"
  using assms
proof (induction m)
  case (Cons kx m)
  obtain k' xs where kx: "kx = (k', xs)" by force
  have d: "distinct (map fst xs)" "distinct (places m)" "fst ` set xs \<inter> set (places m) = {}" "i \<notin> fst ` set xs"
    "i \<notin> set (places m)" using Cons.prems by (auto simp: places_def kx)
  show ?case
  proof (cases "k' = k")
    case True
    then show ?thesis using d by (auto simp: kx places_def)
  next
    case False
    then show ?thesis using d Cons.IH [OF d(2,5)] by (auto simp: kx places_def)
  qed
qed (simp add: places_def)

lemma steps_by_op_sound:
  assumes "steps_by_op i ss m = Some m'" "ss = drop i steps" "i \<le> length steps"
    and "\<forall>(op, xs)\<in>set m. indexed steps xs" "distinct (places m)" "\<forall>j\<in>set (places m). j < i"
  shows "(\<forall>(op, xs)\<in>set m'. indexed steps xs) \<and> distinct (places m')"
  using assms
proof (induction i ss m rule: steps_by_op.induct)
  case (2 i s ss m)
  let ?k = "canon (dget_none ''operation_id'' s)"
  let ?old = "case map_of m ?k of None \<Rightarrow> [] | Some xs \<Rightarrow> xs"
  let ?m = "dset ?k (?old @ [(i, s)]) m"
  have i: "i < length steps" "s = steps ! i" "ss = drop (i + 1) steps"
    using "2.prems"(2,3) by (metis drop_eq_Nil list.distinct(1) not_le, metis Cons_nth_drop_Suc list.inject drop_eq_Nil list.distinct(1) not_le,
        metis Cons_nth_drop_Suc list.inject drop_eq_Nil list.distinct(1) not_le Suc_eq_plus1)
  have in_old: "indexed steps ?old \<and> set (map fst ?old) \<subseteq> set (places m)" if "\<forall>(op, xs)\<in>set m. indexed steps xs"
  proof (cases "map_of m ?k")
    case None
    then show ?thesis by (simp add: indexed_def)
  next
    case (Some xs)
    with map_of_SomeD [OF Some] that show ?thesis by (force simp: places_def)
  qed
  have old: "indexed steps ?old" and lt: "\<forall>j\<in>set (map fst ?old). j < i"
    using in_old [OF "2.prems"(4)] "2.prems"(6) by (blast, blast)
  have new: "indexed steps (?old @ [(i, s)])" using old lt i by (auto simp: indexed_def sorted_wrt_append)
  have "\<forall>(op, xs)\<in>set ?m. indexed steps xs" using "2.prems"(4) new dset_subset [of ?k "?old @ [(i, s)]" m] by blast
  moreover have "i \<notin> set (places m)" using "2.prems"(6) by blast
  note p = distinct_places_dset [OF "2.prems"(5) this, of ?k s]
  moreover have "\<forall>j\<in>set (places ?m). j < i + 1" using p "2.prems"(6) by auto
  ultimately show ?case using "2.IH" [OF refl] "2.prems"(1) i by (auto simp: Let_def split: if_splits)
qed simp

lemma groups_of_ops_sound:
  assumes "groups_of_ops ops = Some gs" "\<forall>(op, xs)\<in>set ops. indexed steps xs" "distinct (places ops)"
  shows "(\<forall>pg\<in>set gs. alike steps pg \<and> set (snd pg) \<subseteq> set (places ops)) \<and> distinct (concat (map snd gs))"
  using assms
proof (induction ops arbitrary: gs)
  case (Cons opx ops)
  obtain op xs where o: "opx = (op, xs)" by force
  from Cons.prems(1) o obtain g1 g2 where g: "(if length xs \<ge> 2 then partition_groups xs else Some []) = Some g1"
    "groups_of_ops ops = Some g2" "gs = g1 @ g2" by (auto simp: bind_eq_Some_conv)
  have 1: "(\<forall>pg\<in>set g1. alike steps pg \<and> set (snd pg) \<subseteq> fst ` set xs) \<and> distinct (concat (map snd g1))"
    using g(1) partition_sound [of xs g1 steps] Cons.prems(2) o by (auto split: if_splits)
  have d: "distinct (places ops)" "fst ` set xs \<inter> set (places ops) = {}" using Cons.prems(3) o by (auto simp: places_def)
  have 2: "(\<forall>pg\<in>set g2. alike steps pg \<and> set (snd pg) \<subseteq> set (places ops)) \<and> distinct (concat (map snd g2))"
    by (rule Cons.IH [OF g(2) _ d(1)]) (use Cons.prems(2) in auto)
  have p: "set (places (opx # ops)) = fst ` set xs \<union> set (places ops)" by (simp add: places_def o)
  have "set (concat (map snd g1)) \<subseteq> fst ` set xs" "set (concat (map snd g2)) \<subseteq> set (places ops)" using 1 2 by auto
  then have "distinct (concat (map snd gs))" unfolding g(3) using 1 2 d(2) by auto
  then show ?case using 1 2 unfolding p g(3) by auto
qed simp

definition grouped :: "pydict list \<Rightarrow> (string \<times> nat list) list \<Rightarrow> bool" where
  "grouped steps gs \<longleftrightarrow> (\<forall>pg\<in>set gs. alike steps pg) \<and> distinct (concat (map snd gs))"

lemma collapse_groups:
  assumes "Option.bind (steps_by_op 0 steps []) groups_of_ops = Some gs"
  shows "grouped steps gs"
proof -
  from assms obtain m where m: "steps_by_op 0 steps [] = Some m" "groups_of_ops m = Some gs" by (auto simp: bind_eq_Some_conv)
  have "(\<forall>(op, xs)\<in>set m. indexed steps xs) \<and> distinct (places m)"
    by (rule steps_by_op_sound [OF m(1)]) (simp_all add: places_def)
  with groups_of_ops_sound [OF m(2), of steps] show ?thesis by (simp add: grouped_def)
qed

subsection \<open>Places in the collapsed plan\<close>

lemma in_tl: "x \<in> set (tl g) \<Longrightarrow> x \<in> set g" by (cases g) auto

lemma head_tail: "length g \<ge> 2 \<Longrightarrow> g = hd g # tl g" by (cases g) auto

lemma grouped_facts:
  assumes "grouped steps groups" "(p, g) \<in> set groups"
  shows "g = hd g # tl g" "hd g < length steps" "\<forall>k\<in>set (tl g). hd g < k" "hd g \<notin> set (removed_of groups)"
proof -
  from assms have a: "alike steps (p, g)" by (auto simp: grouped_def)
  then have l: "length g \<ge> 2" by (simp add: alike_def)
  show g: "g = hd g # tl g" by (rule head_tail [OF l])
  with a show "hd g < length steps" unfolding alike_def by (metis (no_types, lifting) case_prod_conv list.set_intros(1))
  from a have "sorted_wrt (<) g" by (simp add: alike_def)
  with g show "\<forall>k\<in>set (tl g). hd g < k" by (metis sorted_wrt.simps(2))
  have d: "distinct (concat (map snd groups))" using assms(1) by (simp add: grouped_def)
  from assms(2) obtain xs ys where gs: "groups = xs @ (p, g) # ys" by (meson split_list)
  have own: "hd g \<in> set g" "hd g \<notin> set (tl g)" using d gs l by (cases g; auto)+
  have sub: "set (removed_of zs) \<subseteq> set (concat (map snd zs))" for zs :: "(string \<times> nat list) list"
    by (induction zs) (auto simp: removed_of_def dest: in_tl)
  from d own(1) have "hd g \<notin> set (concat (map snd xs))" "hd g \<notin> set (concat (map snd ys))" unfolding gs by auto
  with sub [of xs] sub [of ys] have "hd g \<notin> set (removed_of xs)" "hd g \<notin> set (removed_of ys)" by blast+
  with own(2) show "hd g \<notin> set (removed_of groups)" unfolding gs by (simp add: removed_of_def)
qed

lemma removed_iff: "k \<in> set (removed_of groups) \<longleftrightarrow> (\<exists>(p, g)\<in>set groups. k \<in> set (tl g))"
  by (auto simp: removed_of_def)

lemma survivor_kept: "k \<notin> set (removed_of groups) \<Longrightarrow> survivor_of groups k = k"
  by (induction groups k rule: survivor_of.induct) (auto simp: removed_of_def)

lemma survivor_member: "survivor_of groups k = k \<or> (\<exists>(p, g)\<in>set groups. k \<in> set (tl g) \<and> survivor_of groups k = hd g)"
  by (induction groups k rule: survivor_of.induct) auto

lemma survivor_group:
  assumes "distinct (concat (map snd groups))" "(p, g) \<in> set groups" "k \<in> set g" "g = hd g # tl g"
  shows "survivor_of groups k = hd g"
  using assms
proof (induction groups k rule: survivor_of.induct)
  case (2 q h groups k)
  show ?case
  proof (cases "(q, h) = (p, g)")
    case True
    have "k = hd g" if "k \<notin> set (tl g)" using "2.prems"(3,4) that by (metis set_ConsD)
    moreover have "survivor_of groups k = k" if "k \<in> set g"
      by (rule survivor_kept) (use "2.prems"(1) True that in \<open>force simp: removed_iff dest: in_tl\<close>)
    ultimately show ?thesis using True "2.prems"(3) by auto
  next
    case False
    then have "(p, g) \<in> set groups" using "2.prems"(2) by auto
    moreover have "k \<notin> set (tl h)" using "2.prems"(1,3) calculation by (force dest: in_tl)
    ultimately show ?thesis using "2.IH" "2.prems" by simp
  qed
qed simp

lemma survivor_bounds:
  assumes "grouped steps groups"
  shows "survivor_of groups k \<le> k \<and> survivor_of groups k \<notin> set (removed_of groups)"
proof (cases "k \<in> set (removed_of groups)")
  case True
  then obtain p g where g: "(p, g) \<in> set groups" "k \<in> set (tl g)" by (auto simp: removed_iff)
  note f = grouped_facts [OF assms g(1)]
  have "survivor_of groups k = hd g"
    by (rule survivor_group [OF _ g(1)]) (use assms g(2) f(1) in \<open>auto simp: grouped_def dest: in_tl\<close>)
  then show ?thesis using f(3,4) g(2) by (simp add: less_imp_le)
next
  case False
  then show ?thesis by (simp add: survivor_kept)
qed

lemma kept_place:
  assumes "a < n" "a \<notin> set K"
  defines "kept \<equiv> filter (\<lambda>j. j \<notin> set K) [0..<n]" and "place \<equiv> \<lambda>a. length (filter (\<lambda>j. j \<notin> set K) [0..<a])"
  shows "place a < length kept \<and> kept ! place a = a" and "a < b \<Longrightarrow> place a < place b"
proof -
  have split: "[0..<m] = [0..<a] @ a # [Suc a..<m]" if "a < m" for m using that upt_add_eq_append [of 0 a "m - a"] upt_conv_Cons [of a m] by simp
  show "place a < length kept \<and> kept ! place a = a" unfolding kept_def place_def split [OF assms(1)] using assms(2) by simp
  show "place a < place b" if "a < b" unfolding place_def split [OF that] using assms(2) by simp
qed

subsection \<open>The fanned steps\<close>

lemma fan_group_step:
  assumes "fan_group limit (p, g) steps = Some steps'" "hd g < length steps"
  shows "\<exists>t. steps' = steps[hd g := t] \<and> dget ''for_each_values'' t = Some (PList (cap limit (map (\<lambda>i. arg_value p (steps ! i)) g)))
     \<and> step_binding p t = Some (PStr ''$item'') \<and> (\<exists>a. dget ''args'' t = Some (PDict a) \<and> \<not> has_key p a)
     \<and> (\<forall>k. k \<notin> set ignored_keys \<longrightarrow> dget k t = dget k (steps ! hd g))"
proof -
  let ?v = "PList (cap limit (map (\<lambda>i. arg_value p (steps ! i)) g))"
  let ?t0 = "set_default ''arg_bindings'' (PDict []) (dset ''for_each_values'' ?v (steps ! hd g))"
  from assms(1) obtain t1 where u: "set_under ''arg_bindings'' p (PStr ''$item'') ?t0 = Some t1"
    "(case dget_or ''args'' (PDict []) t1 of PDict a \<Rightarrow> Some (steps[hd g := set_limit limit (dset ''args'' (PDict (dpop p a)) t1)]) | _ \<Rightarrow> None) = Some steps'"
    unfolding fan_group_def Let_def case_prod_conv bind_eq_Some_conv by blast
  then obtain a where t1: "set_under ''arg_bindings'' p (PStr ''$item'') ?t0 = Some t1" "dget_or ''args'' (PDict []) t1 = PDict a"
    "steps' = steps[hd g := set_limit limit (dset ''args'' (PDict (dpop p a)) t1)]"
    by (cases "dget_or ''args'' (PDict []) t1") auto
  from t1(1) obtain d where d: "dget ''arg_bindings'' ?t0 = Some (PDict d)" "t1 = dset ''arg_bindings'' (PDict (dset p (PStr ''$item'') d)) ?t0"
    by (rule set_under_dget)
  let ?t = "set_limit limit (dset ''args'' (PDict (dpop p a)) t1)"
  have "dget ''for_each_values'' ?t = Some ?v" unfolding d(2) by (simp add: dget_set_limit set_default_def)
  moreover have "step_binding p ?t = Some (PStr ''$item'')" unfolding d(2) by (simp add: dget_set_limit step_binding_def)
  moreover have "dget ''args'' ?t = Some (PDict (dpop p a))" by (simp add: dget_set_limit)
  moreover have "\<not> has_key p (dpop p a)" by (auto simp: has_key_iff dpop_def)
  moreover have "dget k ?t = dget k (steps ! hd g)" if "k \<notin> set ignored_keys" for k
    using that unfolding d(2) ignored_keys_def by (auto simp add: dget_set_limit set_default_def)
  ultimately show ?thesis unfolding t1(3) by blast
qed

text \<open>A step that stands for a group: it runs over the group's values, one at a time.\<close>

definition stands_for :: "int option \<Rightarrow> pydict list \<Rightarrow> string \<times> nat list \<Rightarrow> pydict \<Rightarrow> bool" where
  "stands_for limit steps pg t \<longleftrightarrow> (case pg of (p, g) \<Rightarrow>
     dget ''for_each_values'' t = Some (PList (cap limit (map (\<lambda>i. arg_value p (steps ! i)) g)))
     \<and> step_binding p t = Some (PStr ''$item'') \<and> (\<exists>a. dget ''args'' t = Some (PDict a) \<and> \<not> has_key p a)
     \<and> (\<forall>k. k \<notin> set (''depends_on'' # ignored_keys) \<longrightarrow> dget k t = dget k (steps ! hd g)))"

lemma stands_for_cong:
  assumes "\<forall>i\<in>set g. st ! i = steps ! i" "g \<noteq> []"
  shows "stands_for limit st (p, g) t \<longleftrightarrow> stands_for limit steps (p, g) t"
proof -
  have "map (\<lambda>i. arg_value p (st ! i)) g = map (\<lambda>i. arg_value p (steps ! i)) g" using assms(1) by simp
  moreover have "st ! hd g = steps ! hd g" using assms by simp
  ultimately show ?thesis unfolding stands_for_def by (simp only: case_prod_conv)
qed

lemma fan_groups:
  assumes "ofold (fan_group limit) groups st = Some out" "distinct (concat (map snd groups))"
    and "\<forall>(p, g)\<in>set groups. g \<noteq> [] \<and> hd g < length st" "\<forall>(p, g)\<in>set groups. \<forall>i\<in>set g. st ! i = steps ! i"
  shows "length out = length st \<and> (\<forall>(p, g)\<in>set groups. stands_for limit steps (p, g) (out ! hd g))
     \<and> (\<forall>k. k \<notin> set (concat (map snd groups)) \<longrightarrow> out ! k = st ! k)"
  using assms
proof (induction groups arbitrary: st)
  case (Cons pg groups)
  obtain p g where pg: "pg = (p, g)" by force
  from Cons.prems(1) pg obtain st1 where st1: "fan_group limit (p, g) st = Some st1" "ofold (fan_group limit) groups st1 = Some out"
    by (auto split: option.splits)
  have g: "g \<noteq> []" "hd g < length st" "\<forall>i\<in>set g. st ! i = steps ! i" using Cons.prems(3,4) pg by auto
  from fan_group_step [OF st1(1) g(2)] obtain t where t: "st1 = st[hd g := t]" "stands_for limit st (p, g) t"
    unfolding stands_for_def by auto
  have d: "distinct (concat (map snd groups))" "set g \<inter> set (concat (map snd groups)) = {}" using Cons.prems(2) pg by auto
  have keep: "st1 ! k = st ! k" if "k \<noteq> hd g" for k using that unfolding t(1) by simp
  have hd: "hd g \<in> set g" using g(1) by simp
  have "st1 ! i = steps ! i" if "(p, h) \<in> set groups" "i \<in> set h" for p h i
  proof -
    have "i \<in> set (concat (map snd groups))" using that by force
    with d(2) hd have "i \<noteq> hd g" by blast
    moreover have "st ! i = steps ! i" using Cons.prems(4) that unfolding pg by auto
    ultimately show ?thesis using keep by simp
  qed
  then have "\<forall>(p, h)\<in>set groups. \<forall>i\<in>set h. st1 ! i = steps ! i" by blast
  moreover have "\<forall>(p, h)\<in>set groups. h \<noteq> [] \<and> hd h < length st1" using Cons.prems(3) t(1) by auto
  ultimately have IH: "length out = length st1 \<and> (\<forall>(p, g)\<in>set groups. stands_for limit steps (p, g) (out ! hd g))
     \<and> (\<forall>k. k \<notin> set (concat (map snd groups)) \<longrightarrow> out ! k = st1 ! k)"
    using Cons.IH [OF st1(2) d(1)] by blast
  have "hd g \<notin> set (concat (map snd groups))" using d(2) hd by blast
  then have "out ! hd g = t" using IH g(2) t(1) by simp
  then have "stands_for limit steps (p, g) (out ! hd g)" using t(2) stands_for_cong [OF g(3,1)] by simp
  moreover have "out ! k = st ! k" if "k \<notin> set (concat (map snd (pg # groups)))" for k
  proof -
    from that have k: "k \<notin> set g" "k \<notin> set (concat (map snd groups))" by (auto simp: pg)
    with hd have "k \<noteq> hd g" by blast
    with k(2) IH keep show ?thesis by simp
  qed
  ultimately show ?case using IH t(1) unfolding pg by simp
qed simp

lemma dget_reindex_step:
  "dget k (reindex_step n f s) = map_option (\<lambda>v. if k \<in> {''args'', ''arg_bindings'', ''for_each''} then reindex_refs n f v
     else if k = ''depends_on'' then reindex_depends_on n f v else v) (dget k s)"
  unfolding reindex_step_def dget_def by (induction s) auto

lemma stands_for_reindex:
  assumes "stands_for limit steps pg t"
  shows "stands_for limit steps pg (reindex_step n f t)"
proof -
  obtain p g where pg: "pg = (p, g)" by force
  from assms obtain b a where b: "dget ''arg_bindings'' t = Some (PDict b)" "dget p b = Some (PStr ''$item'')"
    and a: "dget ''args'' t = Some (PDict a)" "\<not> has_key p a"
    by (auto simp: stands_for_def pg step_binding_def split: option.splits pyval.splits)
  have item: "sub_refs h ''$item'' = ''$item''" for h
    by (simp add: sub_refs.simps(2) match_ref_def ref_open_def starts_with_iff)
  have d: "dget p (map (map_prod id h) d) = map_option h (dget p d)" for h :: "pyval \<Rightarrow> pyval" and d
    unfolding dget_def by (induction d) auto
  have "step_binding p (reindex_step n f t) = Some (PStr ''$item'')"
    using b by (simp add: step_binding_def dget_reindex_step reindex_refs_def d item)
  moreover have "\<exists>a. dget ''args'' (reindex_step n f t) = Some (PDict a) \<and> \<not> has_key p a"
    using a by (simp add: dget_reindex_step reindex_refs_def has_key_iff image_image)
  moreover have "dget k (reindex_step n f t) = dget k t" if "k \<notin> set (''depends_on'' # ''arg_bindings'' # ''args'' # [''for_each''])" for k
    using that by (simp add: dget_reindex_step map_option.identity [unfolded id_def])
  ultimately show ?thesis using assms unfolding stands_for_def pg ignored_keys_def by simp
qed

text \<open>
  C12: A collapsed plan covers the plan.  Either nothing changes, or there are disjoint groups of
  steps that agree but for one literal argument, and every step has a place in the new plan, which moves
  no step behind an earlier one: a step outside the groups is there with its
  references renumbered to the new places, and the members of a group share a step that runs over their values, in
  order and up to the limit.
\<close>

theorem collapse_covers:
  assumes "collapse_homogeneous_fanout limit steps = Some out"
  shows "out = steps \<or> (\<exists>groups. groups \<noteq> [] \<and> grouped steps groups
     \<and> (\<forall>k<length steps. new_place groups k < length out)
     \<and> (\<forall>j k. j < k \<and> k < length steps \<and> k \<notin> set (removed_of groups) \<longrightarrow> new_place groups j < new_place groups k)
     \<and> (\<forall>k<length steps. k \<notin> set (concat (map snd groups)) \<longrightarrow>
          out ! new_place groups k = reindex_step (length steps) (new_place groups) (steps ! k))
     \<and> (\<forall>(p, g)\<in>set groups. \<forall>k\<in>set g. stands_for limit steps (p, g) (out ! new_place groups k)))"
proof (cases "out = steps")
  case False
  with assms obtain groups copied where g: "Option.bind (steps_by_op 0 steps []) groups_of_ops = Some groups" "groups \<noteq> []"
    "ofold (fan_group limit) groups steps = Some copied"
    "out = map (\<lambda>k. reindex_step (length steps) (new_place groups) (copied ! k))
       (filter (\<lambda>k. k \<notin> set (removed_of groups)) [0..<length steps])"
    by (auto simp: collapse_homogeneous_fanout_def split: if_splits option.splits list.splits)
  have gr: "grouped steps groups" by (rule collapse_groups [OF g(1)])
  note facts = grouped_facts [OF gr]
  let ?R = "removed_of groups" and ?new = "new_place groups"
  have new: "?new k < length out \<and> out ! ?new k = reindex_step (length steps) ?new (copied ! survivor_of groups k)"
    if "k < length steps" for k
    using kept_place(1) [of "survivor_of groups k" "length steps" ?R] survivor_bounds [OF gr, of k] that
    unfolding g(4) new_place_def by simp
  have order: "?new j < ?new k" if "j < k" "k < length steps" "k \<notin> set ?R" for j k
    using kept_place(2) [of "survivor_of groups j" "length steps" ?R "survivor_of groups k"] survivor_bounds [OF gr, of j]
      survivor_kept [OF that(3)] that unfolding new_place_def by simp
  have "g \<noteq> [] \<and> hd g < length steps" if "(p, g) \<in> set groups" for p g using facts(1,2) [OF that] by (metis list.distinct(1))
  then have "\<forall>(p, g)\<in>set groups. g \<noteq> [] \<and> hd g < length steps" by blast
  from fan_groups [OF g(3) _ this] have copied: "\<forall>(p, g)\<in>set groups. stands_for limit steps (p, g) (copied ! hd g)"
    "\<forall>k. k \<notin> set (concat (map snd groups)) \<longrightarrow> copied ! k = steps ! k" using gr by (auto simp: grouped_def)
  have alone: "out ! ?new k = reindex_step (length steps) ?new (steps ! k)"
    if k: "k < length steps" "k \<notin> set (concat (map snd groups))" for k
  proof -
    have "k \<notin> set ?R" using k(2) by (fastforce simp: removed_iff dest: in_tl)
    with new [OF k(1)] copied(2) k(2) show ?thesis by (simp add: survivor_kept)
  qed
  have shared: "stands_for limit steps (p, h) (out ! ?new k)" if h: "(p, h) \<in> set groups" "k \<in> set h" for p h k
  proof -
    have "k < length steps" using gr h by (auto simp: grouped_def alike_def)
    moreover have "survivor_of groups k = hd h" by (rule survivor_group [OF _ h facts(1) [OF h(1)]]) (use gr in \<open>simp add: grouped_def\<close>)
    ultimately show ?thesis using new [of k] copied(1) h(1) stands_for_reindex by auto
  qed
  show ?thesis using g(2) gr new order alone shared by (intro disjI2 exI [of _ groups]) blast
qed simp

definition fetch_collapsed :: "pydict list" where
  "fetch_collapsed =
     [[(''operation_id'', PStr ''fetch_page''), (''args'', PDict [(''full'', PBool True)]),
       (''for_each_values'', PList [PInt 1, PInt 2, PInt 3]), (''arg_bindings'', PDict [(''pageId'', PStr ''$item'')])],
      [(''operation_id'', PStr ''list_tags''), (''depends_on'', PNone)],
      [(''operation_id'', PStr ''summarise''), (''arg_bindings'', PDict [(''text'', PStr ''$steps[0].body''), (''tag'', PStr ''$steps[1].name'')]),
       (''depends_on'', PList [PInt 1, PInt 0])]]"

lemma fetch_plan_collapses: "collapse_homogeneous_fanout None fetch_plan = Some fetch_collapsed"
  by code_simp

theorem collapse_covers_witness:
  "\<exists>groups. groups \<noteq> [] \<and> grouped fetch_plan groups
     \<and> (\<forall>k<5. new_place groups k < 3)
     \<and> (\<forall>(p, g)\<in>set groups. \<forall>k\<in>set g. stands_for None fetch_plan (p, g) (fetch_collapsed ! new_place groups k))"
proof -
  have len: "length fetch_plan = 5" "length fetch_collapsed = 3" by (simp_all add: fetch_plan_def fetch_collapsed_def)
  then have "fetch_collapsed \<noteq> fetch_plan" by auto
  with collapse_covers [OF fetch_plan_collapses] show ?thesis unfolding len by blast
qed

end
