(* ===== verification/ChainRepair.thy ===== *)
theory ChainRepair
  imports SeedHygiene Fanout
begin

text \<open>
  Chain repair, \<open>core_graph/goap/integrate/chain_repair.py\<close>: a step whose call requires an id gets it from a step that
  produces it, which is found in the plan, moved before it, or inserted from the candidates.  A repaired plan is a pair of
  the steps and the candidates by operation; the scan over a step's parameters stops at the first move or
  insertion, and a changed plan is scanned again, at most as often as the code allows.  \<open>None\<close> is an exception.
\<close>

type_synonym cand_map = "(pyval \<times> pydict) list"

definition id_like_required_params :: "pydict \<Rightarrow> string list option" where
  "id_like_required_params c = map_option (filter is_id_like_param) (required_params c)"

definition has_step_binding :: "pydict \<Rightarrow> string \<Rightarrow> bool option" where
  "has_step_binding step p =
     map_option (\<lambda>b. case dget_none p b of PStr s \<Rightarrow> match_ref s \<noteq> None | _ \<Rightarrow> False) (dict_or_empty ''arg_bindings'' step)"

definition fact_for_param :: "string \<Rightarrow> string" where
  "fact_for_param p = ''have:'' @ p"

definition producer_field :: "GoapAction \<Rightarrow> string \<Rightarrow> string" where
  "producer_field a need = (case pairs_get (effect_fields a) need of None \<Rightarrow> ''id'' | Some f \<Rightarrow> f)"

text \<open>The candidate of a step, or a minimal one made from the step.\<close>

definition known_candidate :: "cand_map \<Rightarrow> pydict \<Rightarrow> pydict option option" where
  "known_candidate m step =
     (let op = dget_none ''operation_id'' step in if truthy op then candidate_of m op else Some None)"

definition minimal_candidate :: "pydict \<Rightarrow> pydict" where
  "minimal_candidate step =
     [(''operation_id'', dget_none ''operation_id'' step), (''plugin_id'', dget_or ''plugin_id'' (PStr []) step),
      (''method'', PStr ''CALL''), (''parameters'', PDict [])]"

definition action_of_step :: "cand_map \<Rightarrow> pydict \<Rightarrow> GoapAction option" where
  "action_of_step m step = do {
     known \<leftarrow> known_candidate m step;
     derive_action (case known of Some c \<Rightarrow> c | None \<Rightarrow> minimal_candidate step)
   }"

fun find_producer_in_plan :: "cand_map \<Rightarrow> string \<Rightarrow> nat \<Rightarrow> pydict list \<Rightarrow> nat option option" where
  "find_producer_in_plan m need i [] = Some None"
| "find_producer_in_plan m need i (s # ss) =
     (case action_of_step m s of
        None \<Rightarrow> None
      | Some a \<Rightarrow> (if need \<in> effects a then Some (Some i) else find_producer_in_plan m need (i + 1) ss))"

text \<open>\<open>c.get(k) or ""\<close>.\<close>

definition or_blank :: "string \<Rightarrow> pydict \<Rightarrow> pyval" where
  "or_blank k c = (let v = dget_none k c in if truthy v then v else PStr [])"

text \<open>The first candidate that produces a fact, among the collection operations or among all.\<close>

fun first_producer :: "bool \<Rightarrow> string \<Rightarrow> pyval list \<Rightarrow> pydict list \<Rightarrow> pydict option option" where
  "first_producer only_coll need exclude [] = Some None"
| "first_producer only_coll need exclude (c # cs) =
     (let op = or_blank ''operation_id'' c in
      if \<not> hashable op then None
      else if py_in op exclude then first_producer only_coll need exclude cs
      else case derive_action c of
        None \<Rightarrow> None
      | Some a \<Rightarrow>
          (if need \<notin> effects a then first_producer only_coll need exclude cs
           else if \<not> only_coll then Some (Some c)
           else case is_collection_op (str_of op) (or_blank ''plugin_id'' c) of
             None \<Rightarrow> None
           | Some True \<Rightarrow> Some (Some c)
           | Some False \<Rightarrow> first_producer only_coll need exclude cs))"

definition find_producer_candidate :: "pydict list \<Rightarrow> string \<Rightarrow> pyval list \<Rightarrow> pydict option option" where
  "find_producer_candidate cands need exclude =
     (case first_producer True need exclude cands of
        None \<Rightarrow> None
      | Some (Some c) \<Rightarrow> Some (Some c)
      | Some None \<Rightarrow> first_producer False need exclude cands)"

text \<open>References renumbered by a map of places.\<close>

definition renumber :: "(nat \<Rightarrow> nat) \<Rightarrow> string \<Rightarrow> string" where
  "renumber f ds = show_nat (f (read_nat ds))"

definition reindex_step_refs :: "(nat \<Rightarrow> nat) \<Rightarrow> pydict \<Rightarrow> pydict" where
  "reindex_step_refs f step = map_step (sub_refs (renumber f)) step"

definition place_after_move :: "nat \<Rightarrow> nat \<Rightarrow> nat \<Rightarrow> nat" where
  "place_after_move ci later old =
     (if old < ci then old else if old = later then ci else if old < later then old + 1 else old)"

definition place_after_insert :: "nat \<Rightarrow> nat \<Rightarrow> nat \<Rightarrow> nat" where
  "place_after_insert ci n old = (if ci \<le> old \<and> old < n then old + 1 else old)"

definition add_dependency :: "nat \<Rightarrow> pyval \<Rightarrow> pyval" where
  "add_dependency j deps =
     (case deps of
        PNone \<Rightarrow> PInt (int j)
      | PList xs \<Rightarrow> (if py_in (PInt (int j)) xs then deps else PList (xs @ [PInt (int j)]))
      | _ \<Rightarrow> (case int_of_py deps of Some d \<Rightarrow> (if d \<ge> int j then deps else PInt (int j)) | None \<Rightarrow> deps))"

definition bind_consumer_to_producer :: "nat \<Rightarrow> string \<Rightarrow> string \<Rightarrow> pydict \<Rightarrow> pydict option" where
  "bind_consumer_to_producer j p field consumer = do {
     b \<leftarrow> dict_or_empty ''arg_bindings'' consumer;
     a \<leftarrow> dict_or_empty ''args'' consumer;
     let bound = dset ''args'' (PDict (dpop p a)) (dset ''arg_bindings'' (PDict (dset p (PStr (step_ref j field)) b)) consumer);
     let deps = dget_none ''depends_on'' consumer;
     let deps' = add_dependency j deps;
     Some (if deps' = deps then bound else dset ''depends_on'' deps' bound)
   }"

subsection \<open>One scan\<close>

text \<open>\<open>next(i for i, s in enumerate(steps) if s.get("operation_id") == op)\<close>.\<close>

fun step_with_op :: "pyval \<Rightarrow> nat \<Rightarrow> pydict list \<Rightarrow> nat option" where
  "step_with_op op i [] = None"
| "step_with_op op i (s # ss) = (if py_eq (dget_none ''operation_id'' s) op then Some i else step_with_op op (i + 1) ss)"

definition inserted_step :: "pydict \<Rightarrow> pydict" where
  "inserted_step c =
     [(''operation_id'', dget_none ''operation_id'' c), (''plugin_id'', dget_none ''plugin_id'' c),
      (''is_fast_path'', PBool (truthy (dget_none ''is_fast_path'' c))),
      (''intent'', if truthy (dget_none ''description'' c) then dget_none ''description'' c else PStr ''List (chain repair)''),
      (''args'', PDict []), (''arg_bindings'', PDict []), (''depends_on'', PNone), (''model'', dget_none ''model'' c)]"

definition bind_at :: "pydict list \<Rightarrow> nat \<Rightarrow> nat \<Rightarrow> string \<Rightarrow> GoapAction \<Rightarrow> pydict list option" where
  "bind_at steps ci j p a =
     map_option (\<lambda>c. steps[ci := c]) (bind_consumer_to_producer j p (producer_field a (fact_for_param p)) (steps ! ci))"

definition move_producer :: "nat \<Rightarrow> nat \<Rightarrow> pydict list \<Rightarrow> pydict list" where
  "move_producer ci later steps =
     map (reindex_step_refs (place_after_move ci later))
       (take ci steps @ steps ! later # take (later - ci) (drop ci steps) @ drop (later + 1) steps)"

definition insert_producer :: "nat \<Rightarrow> pydict \<Rightarrow> pydict list \<Rightarrow> pydict list" where
  "insert_producer ci c steps =
     (let f = reindex_step_refs (place_after_insert ci (length steps)) in
      map f (take ci steps) @ inserted_step c # map f (drop ci steps))"

text \<open>The candidate to insert for a fact: none that is already in the plan.\<close>

definition absent_producer :: "pydict list \<Rightarrow> pydict list \<Rightarrow> string \<Rightarrow> pydict option option" where
  "absent_producer cands steps need =
     (let ops = map (dget_none ''operation_id'') steps in
      if \<not> list_all hashable (filter truthy ops) then None
      else case find_producer_candidate cands need (filter truthy ops) of
        None \<Rightarrow> None
      | Some (Some c) \<Rightarrow> Some (Some c)
      | Some None \<Rightarrow>
          (case find_producer_candidate cands need [] of
             None \<Rightarrow> None
           | Some None \<Rightarrow> Some None
           | Some (Some c) \<Rightarrow> (if py_in (dget_none ''operation_id'' c) ops then Some None else Some (Some c))))"

fun repair_params ::
  "pydict list \<Rightarrow> nat \<Rightarrow> string list \<Rightarrow> pydict list \<times> cand_map \<times> bool \<Rightarrow> (pydict list \<times> cand_map \<times> bool) option" where
  "repair_params cands ci [] st = Some st"
| "repair_params cands ci (p # ps) (steps, m, changed) =
     (case has_step_binding (steps ! ci) p of
        None \<Rightarrow> None
      | Some True \<Rightarrow> repair_params cands ci ps (steps, m, changed)
      | Some False \<Rightarrow>
          (case find_producer_in_plan m (fact_for_param p) 0 (take ci steps) of
             None \<Rightarrow> None
           | Some (Some j) \<Rightarrow>
               (case Option.bind (action_of_step m (steps ! j)) (bind_at steps ci j p) of
                  None \<Rightarrow> None
                | Some steps' \<Rightarrow> repair_params cands ci ps (steps', m, True))
           | Some None \<Rightarrow>
               (case find_producer_in_plan m (fact_for_param p) 0 steps of
                  None \<Rightarrow> None
                | Some (Some later) \<Rightarrow>
                    (if later > ci then
                       (let steps1 = move_producer ci later steps in do {
                          a \<leftarrow> action_of_step m (steps1 ! ci);
                          steps2 \<leftarrow> bind_at steps1 (ci + 1) ci p a;
                          Some (steps2, m, True)
                        })
                     else repair_params cands ci ps (steps, m, changed))
                | Some None \<Rightarrow>
                    (case absent_producer cands steps (fact_for_param p) of
                       None \<Rightarrow> None
                     | Some None \<Rightarrow> repair_params cands ci ps (steps, m, changed)
                     | Some (Some c) \<Rightarrow>
                         (case step_with_op (dget_none ''operation_id'' c) 0 steps of
                            Some e \<Rightarrow>
                              (if e > ci then repair_params cands ci ps (steps, m, changed)
                               else case Option.bind (derive_action c) (bind_at steps ci e p) of
                                 None \<Rightarrow> None
                               | Some steps' \<Rightarrow> repair_params cands ci ps (steps', m, True))
                          | None \<Rightarrow> do {
                              a \<leftarrow> derive_action c;
                              steps' \<leftarrow> bind_at (insert_producer ci c steps) (ci + 1) ci p a;
                              op \<leftarrow> dget ''operation_id'' c;
                              if hashable op then Some (steps', dset (canon op) c m, True) else None
                            })))))"

text \<open>The parameters a step may need repaired: those of a known call that is no collection operation.\<close>

definition open_params :: "cand_map \<Rightarrow> pydict \<Rightarrow> string list option" where
  "open_params m step =
     (case known_candidate m step of
        None \<Rightarrow> None
      | Some None \<Rightarrow> Some []
      | Some (Some c) \<Rightarrow>
          (case id_like_required_params c of
             None \<Rightarrow> None
           | Some [] \<Rightarrow> Some []
           | Some ps \<Rightarrow>
               (case dget_none ''operation_id'' step of
                  PStr op \<Rightarrow>
                    map_option (\<lambda>is_coll. if is_coll then [] else ps)
                      (is_collection_op op (or_blank ''plugin_id'' c))
                | _ \<Rightarrow> None)))"

fun repair_scan :: "pydict list \<Rightarrow> nat list \<Rightarrow> pydict list \<times> cand_map \<Rightarrow> (pydict list \<times> cand_map \<times> bool) option" where
  "repair_scan cands [] (steps, m) = Some (steps, m, False)"
| "repair_scan cands (ci # rest) (steps, m) =
     (case open_params m (steps ! ci) of
        None \<Rightarrow> None
      | Some ps \<Rightarrow>
          (case repair_params cands ci ps (steps, m, False) of
             None \<Rightarrow> None
           | Some (steps', m', changed) \<Rightarrow>
               (if changed then Some (steps', m', True) else repair_scan cands rest (steps', m'))))"

fun repair_rounds :: "pydict list \<Rightarrow> nat \<Rightarrow> pydict list \<times> cand_map \<Rightarrow> (pydict list \<times> cand_map) option" where
  "repair_rounds cands 0 st = Some st"
| "repair_rounds cands (Suc n) (steps, m) =
     (case repair_scan cands [0..<length steps] (steps, m) of
        None \<Rightarrow> None
      | Some (steps', m', changed) \<Rightarrow> (if changed then repair_rounds cands n (steps', m') else Some (steps', m')))"

definition repair_collection_consumer_chain :: "pydict list \<Rightarrow> pydict list \<Rightarrow> pydict list option" where
  "repair_collection_consumer_chain steps cands =
     (if steps = [] then Some steps
      else do {
        m \<leftarrow> by_operation (filter (\<lambda>c. truthy (dget_none ''operation_id'' c)) cands) [];
        st \<leftarrow> repair_rounds cands (max 4 (length steps + 2)) (steps, m);
        Some (fst st)
      })"

subsection \<open>Repair keeps the steps\<close>

text \<open>A step but for its arguments, bindings and dependencies, with the numbers of its references blotted out.\<close>

definition core_of :: "pydict \<Rightarrow> pydict" where
  "core_of step = skeleton (filter (\<lambda>(k, v). k \<notin> {''args'', ''arg_bindings'', ''depends_on''}) step)"

lemma renumber_digits: "digits_to_digits (renumber f)"
  by (simp add: digits_to_digits_def renumber_def list_all_iff digit_show)

lemma core_dset: "k \<in> {''args'', ''arg_bindings'', ''depends_on''} \<Longrightarrow> core_of (dset k v step) = core_of step"
proof -
  assume k: "k \<in> {''args'', ''arg_bindings'', ''depends_on''}"
  have "filter (\<lambda>(k, v). k \<notin> {''args'', ''arg_bindings'', ''depends_on''}) (dset k v step)
      = filter (\<lambda>(k, v). k \<notin> {''args'', ''arg_bindings'', ''depends_on''}) step"
    using k by (induction step) auto
  then show ?thesis by (simp only: core_of_def)
qed

lemma core_reindex: "core_of (reindex_step_refs f step) = core_of step"
proof -
  have "filter (\<lambda>(k, v). k \<notin> K) (map_step h d) = map_step h (filter (\<lambda>(k, v). k \<notin> K) d)" for K h and d :: pydict
    unfolding map_step_def by (induction d) auto
  then show ?thesis by (simp only: core_of_def reindex_step_refs_def skeleton_sub [OF renumber_digits])
qed

lemma bind_consumerD:
  assumes "bind_consumer_to_producer j p field consumer = Some c"
  shows "core_of c = core_of consumer" "step_binding p c = Some (PStr (step_ref j field))"
    "\<exists>a. dget ''args'' c = Some (PDict a) \<and> \<not> has_key p a"
proof -
  from assms obtain a b where c: "c \<in> {dset ''args'' (PDict (dpop p a)) (dset ''arg_bindings'' (PDict (dset p (PStr (step_ref j field)) b)) consumer),
     dset ''depends_on'' (add_dependency j (dget_none ''depends_on'' consumer))
       (dset ''args'' (PDict (dpop p a)) (dset ''arg_bindings'' (PDict (dset p (PStr (step_ref j field)) b)) consumer))}"
    by (auto simp: bind_consumer_to_producer_def Let_def bind_eq_Some_conv split: if_splits)
  then show "core_of c = core_of consumer" by (auto simp: core_dset)
  from c show "step_binding p c = Some (PStr (step_ref j field))" by (auto simp: step_binding_def)
  have "\<not> has_key p (dpop p a)" by (auto simp: has_key_iff dpop_def)
  with c show "\<exists>a. dget ''args'' c = Some (PDict a) \<and> \<not> has_key p a" by auto
qed

lemma bind_atD:
  assumes "bind_at steps ci j p a = Some steps'"
  obtains c where "steps' = steps[ci := c]" "bind_consumer_to_producer j p (producer_field a (fact_for_param p)) (steps ! ci) = Some c"
  using assms by (auto simp: bind_at_def)

lemma bind_at_cores:
  assumes "bind_at steps ci j p a = Some steps'"
  shows "map core_of steps' = map core_of steps" "length steps' = length steps"
proof -
  obtain c where c: "steps' = steps[ci := c]" "bind_consumer_to_producer j p (producer_field a (fact_for_param p)) (steps ! ci) = Some c"
    by (rule bind_atD [OF assms])
  from bind_consumerD(1) [OF c(2)] show "map core_of steps' = map core_of steps"
    unfolding c(1) by (metis list_update_id map_update nth_map list_update_beyond not_le)
  show "length steps' = length steps" unfolding c(1) by simp
qed

lemma move_parts:
  assumes "ci < later" "later < length steps"
  shows "steps = take ci steps @ take (later - ci) (drop ci steps) @ steps ! later # drop (later + 1) steps"
proof -
  have "drop ci steps = take (later - ci) (drop ci steps) @ drop (later - ci) (drop ci steps)" by (simp only: append_take_drop_id)
  also have "drop (later - ci) (drop ci steps) = steps ! later # drop (later + 1) steps"
    using assms by (simp add: Cons_nth_drop_Suc)
  finally show ?thesis by (metis append_take_drop_id)
qed

lemma move_cores:
  assumes "ci < later" "later < length steps"
  shows "mset (map core_of (move_producer ci later steps)) = mset (map core_of steps)"
    "length (move_producer ci later steps) = length steps"
proof -
  have "mset (map core_of (move_producer ci later steps))
      = mset (map core_of (take ci steps @ steps ! later # take (later - ci) (drop ci steps) @ drop (later + 1) steps))"
    unfolding move_producer_def map_map by (simp add: core_reindex comp_def)
  also have "\<dots> = mset (map core_of (take ci steps @ take (later - ci) (drop ci steps) @ steps ! later # drop (later + 1) steps))"
    by simp
  also have "\<dots> = mset (map core_of steps)" using move_parts [OF assms] by simp
  finally show m: "mset (map core_of (move_producer ci later steps)) = mset (map core_of steps)" .
  show "length (move_producer ci later steps) = length steps" using arg_cong [OF m, of size] by simp
qed

lemma insert_cores: "mset (map core_of (insert_producer ci c steps)) = add_mset (core_of (inserted_step c)) (mset (map core_of steps))"
proof -
  have "mset (map core_of (insert_producer ci c steps))
      = mset (map core_of (take ci steps) @ core_of (inserted_step c) # map core_of (drop ci steps))"
    unfolding insert_producer_def Let_def by (simp add: core_reindex comp_def)
  also have "\<dots> = add_mset (core_of (inserted_step c)) (mset (map core_of (take ci steps @ drop ci steps)))" by (simp only: map_append) simp
  finally show ?thesis by simp
qed

lemma find_producerD:
  "find_producer_in_plan m need i ss = Some (Some j) \<Longrightarrow>
     i \<le> j \<and> j < i + length ss \<and> (\<exists>a. action_of_step m (ss ! (j - i)) = Some a \<and> need \<in> effects a)"
proof (induction m need i ss rule: find_producer_in_plan.induct)
  case (2 m need i s ss)
  then obtain a where a: "action_of_step m s = Some a" by (auto split: option.splits)
  show ?case
  proof (cases "need \<in> effects a")
    case True
    then show ?thesis using "2.prems" a by simp
  next
    case False
    then have "find_producer_in_plan m need (i + 1) ss = Some (Some j)" using "2.prems" a by simp
    from "2.IH" [OF a False this] show ?thesis by (auto simp: nth_Cons')
  qed
qed simp

lemma first_producerD:
  "first_producer b need ex cs = Some (Some c) \<Longrightarrow> c \<in> set cs \<and> (\<exists>a. derive_action c = Some a \<and> need \<in> effects a)
     \<and> \<not> py_in (or_blank ''operation_id'' c) ex"
  by (induction cs) (auto simp: Let_def split: if_splits option.splits bool.splits)

lemma producer_candidateD:
  "find_producer_candidate cs need ex = Some (Some c) \<Longrightarrow> c \<in> set cs \<and> (\<exists>a. derive_action c = Some a \<and> need \<in> effects a)
     \<and> \<not> py_in (or_blank ''operation_id'' c) ex"
  unfolding find_producer_candidate_def by (auto split: option.splits dest!: first_producerD)

lemma absent_producerD:
  assumes "absent_producer cs steps need = Some (Some c)"
  shows "c \<in> set cs" "\<exists>a. derive_action c = Some a \<and> need \<in> effects a"
  using assms by (auto simp: absent_producer_def Let_def split: if_splits option.splits dest!: producer_candidateD)

text \<open>What becomes of a parameter.\<close>

lemma repair_param_cases:
  assumes "repair_params cands ci (p # ps) (steps, m, changed) = Some r"
  obtains (skip) "repair_params cands ci ps (steps, m, changed) = Some r"
  | (bind) j a steps' where "find_producer_in_plan m (fact_for_param p) 0 (take ci steps) = Some (Some j)" "action_of_step m (steps ! j) = Some a"
      "bind_at steps ci j p a = Some steps'" "repair_params cands ci ps (steps', m, True) = Some r"
  | (move) later a steps' where "find_producer_in_plan m (fact_for_param p) 0 steps = Some (Some later)" "ci < later"
      "action_of_step m (move_producer ci later steps ! ci) = Some a" "bind_at (move_producer ci later steps) (ci + 1) ci p a = Some steps'"
      "r = (steps', m, True)"
  | (existing) c e a steps' where "absent_producer cands steps (fact_for_param p) = Some (Some c)"
      "step_with_op (dget_none ''operation_id'' c) 0 steps = Some e" "derive_action c = Some a" "bind_at steps ci e p a = Some steps'"
      "repair_params cands ci ps (steps', m, True) = Some r"
  | (insert) c a op steps' where "absent_producer cands steps (fact_for_param p) = Some (Some c)"
      "step_with_op (dget_none ''operation_id'' c) 0 steps = None" "derive_action c = Some a" "dget ''operation_id'' c = Some op"
      "bind_at (insert_producer ci c steps) (ci + 1) ci p a = Some steps'" "r = (steps', dset (canon op) c m, True)" "hashable op"
proof (cases "has_step_binding (steps ! ci) p")
  case None
  with assms show ?thesis by simp
next
  case (Some bound)
  show ?thesis
  proof (cases bound)
    case True
    with assms Some show ?thesis by (auto intro: skip)
  next
    case False
    then have unbound: "has_step_binding (steps ! ci) p = Some False" using Some by simp
    show ?thesis
    proof (cases "find_producer_in_plan m (fact_for_param p) 0 (take ci steps)")
      case None
      with assms unbound show ?thesis by simp
    next
      case (Some before)
      show ?thesis
      proof (cases before)
        case (Some j)
        with \<open>find_producer_in_plan m (fact_for_param p) 0 (take ci steps) = Some before\<close> assms unbound show ?thesis
          by (auto split: option.splits simp: bind_eq_Some_conv intro: bind)
      next
        case None
        note nobefore = \<open>find_producer_in_plan m (fact_for_param p) 0 (take ci steps) = Some before\<close> [unfolded None]
        show ?thesis
        proof (cases "find_producer_in_plan m (fact_for_param p) 0 steps")
          case None
          with assms unbound nobefore show ?thesis by simp
        next
          case (Some any)
          note any = this
          show ?thesis
          proof (cases any)
            case (Some later)
            show ?thesis
            proof (cases "later > ci")
              case True
              with assms unbound nobefore any Some show ?thesis by (auto simp: Let_def bind_eq_Some_conv intro: move)
            next
              case False
              with assms unbound nobefore any Some show ?thesis by (auto intro: skip)
            qed
          next
            case None
            note notin = any [unfolded None]
            show ?thesis
            proof (cases "absent_producer cands steps (fact_for_param p)")
              case None
              with assms unbound nobefore notin show ?thesis by simp
            next
              case (Some found)
              note found = this
              show ?thesis
              proof (cases found)
                case None
                with assms unbound nobefore notin found show ?thesis by (auto intro: skip)
              next
                case (Some c)
                note absent = found [unfolded Some]
                show ?thesis
                proof (cases "step_with_op (dget_none ''operation_id'' c) 0 steps")
                  case None
                  with assms unbound nobefore notin absent show ?thesis
                    by (auto simp: bind_eq_Some_conv split: if_splits intro: insert)
                next
                  case (Some e)
                  show ?thesis
                  proof (cases "e > ci")
                    case True
                    with assms unbound nobefore notin absent Some show ?thesis by (auto intro: skip)
                  next
                    case False
                    with assms unbound nobefore notin absent Some show ?thesis
                      by (auto simp: bind_eq_Some_conv split: option.splits intro: existing)
                  qed
                qed
              qed
            qed
          qed
        qed
      qed
    qed
  qed
qed

definition adds_producers :: "pydict list \<Rightarrow> nat \<Rightarrow> pydict list \<Rightarrow> pydict list \<Rightarrow> bool" where
  "adds_producers cands n steps steps' \<longleftrightarrow> (\<exists>added. set added \<subseteq> set cands \<and> length added \<le> n
     \<and> mset (map core_of steps') = mset (map core_of steps) + mset (map (core_of \<circ> inserted_step) added))"

lemma adds_none: "mset (map core_of steps') = mset (map core_of steps) \<Longrightarrow> adds_producers cands n steps steps'"
  unfolding adds_producers_def by (rule exI [of _ "[]"]) simp

lemma adds_trans:
  assumes "adds_producers cands a s t" "adds_producers cands b t u"
  shows "adds_producers cands (a + b) s u"
proof -
  from assms obtain xs ys where "set xs \<subseteq> set cands" "length xs \<le> a" "mset (map core_of t) = mset (map core_of s) + mset (map (core_of \<circ> inserted_step) xs)"
    "set ys \<subseteq> set cands" "length ys \<le> b" "mset (map core_of u) = mset (map core_of t) + mset (map (core_of \<circ> inserted_step) ys)"
    unfolding adds_producers_def by blast
  then show ?thesis unfolding adds_producers_def by (intro exI [of _ "xs @ ys"]) simp
qed

lemma repair_params_adds:
  "repair_params cands ci ps (steps, m, changed) = Some (steps', m', changed') \<Longrightarrow> adds_producers cands 1 steps steps'"
proof (induction ps arbitrary: steps m changed)
  case Nil
  then show ?case by (simp add: adds_none)
next
  case (Cons p ps)
  from Cons.prems show ?case
  proof (cases rule: repair_param_cases)
    case skip
    then show ?thesis by (rule Cons.IH)
  next
    case (bind j a steps1)
    from Cons.IH [OF bind(4)] show ?thesis unfolding adds_producers_def bind_at_cores(1) [OF bind(3)] .
  next
    case (move later a steps1)
    have "later < length steps" using find_producerD [OF move(1)] by simp
    note move_cores(1) [OF move(2) this] bind_at_cores(1) [OF move(4)]
    then show ?thesis using move(5) by (simp add: adds_none)
  next
    case (existing c e a steps1)
    from Cons.IH [OF existing(5)] show ?thesis unfolding adds_producers_def bind_at_cores(1) [OF existing(4)] .
  next
    case (insert c a op steps1)
    have "mset (map core_of steps') = mset (map core_of steps) + mset (map (core_of \<circ> inserted_step) [c])"
      using insert(6) bind_at_cores(1) [OF insert(5)] insert_cores by simp
    then show ?thesis unfolding adds_producers_def using absent_producerD(1) [OF insert(1)] by (intro exI [of _ "[c]"]) simp
  qed
qed

lemma repair_params_unchanged:
  "repair_params cands ci ps (steps, m, changed) = Some (steps', m', False) \<Longrightarrow> \<not> changed \<and> steps' = steps \<and> m' = m"
proof (induction ps arbitrary: steps m changed)
  case (Cons p ps)
  from Cons.prems show ?case
  proof (cases rule: repair_param_cases)
    case (bind j a steps1)
    from Cons.IH [OF bind(4)] show ?thesis by simp
  next
    case (existing c e a steps1)
    from Cons.IH [OF existing(5)] show ?thesis by simp
  qed (auto dest: Cons.IH)
qed simp

text \<open>A scan repairs the first step that needs it.\<close>

lemma repair_scanD:
  assumes "repair_scan cands places (steps, m) = Some (steps', m', changed)"
  shows "if changed then \<exists>ci\<in>set places. \<exists>ps. open_params m (steps ! ci) = Some ps
       \<and> repair_params cands ci ps (steps, m, False) = Some (steps', m', True)
     else steps' = steps \<and> m' = m"
  using assms
proof (induction places)
  case (Cons ci places)
  from Cons.prems obtain ps where ps: "open_params m (steps ! ci) = Some ps" by (auto split: option.splits)
  with Cons.prems obtain r where r: "repair_params cands ci ps (steps, m, False) = Some r" by (auto split: option.splits)
  obtain s1 m1 ch where r': "r = (s1, m1, ch)" by (cases r)
  show ?case
  proof (cases ch)
    case True
    then show ?thesis using Cons.prems ps r r' by auto
  next
    case False
    with r r' have same: "s1 = steps" "m1 = m" using repair_params_unchanged by auto
    with Cons.prems ps r r' False have "repair_scan cands places (steps, m) = Some (steps', m', changed)" by simp
    from Cons.IH [OF this] show ?thesis by (auto split: if_splits)
  qed
qed simp

lemma repair_rounds_adds: "repair_rounds cands n (steps, m) = Some (steps', m') \<Longrightarrow> adds_producers cands n steps steps'"
proof (induction n arbitrary: steps m)
  case (Suc n)
  then obtain s1 m1 ch where scan: "repair_scan cands [0..<length steps] (steps, m) = Some (s1, m1, ch)"
    and rest: "(if ch then repair_rounds cands n (s1, m1) else Some (s1, m1)) = Some (steps', m')"
    by (auto split: option.splits)
  show ?case
  proof (cases ch)
    case True
    with repair_scanD [OF scan] obtain ci ps where "repair_params cands ci ps (steps, m, False) = Some (s1, m1, True)" by auto
    from adds_trans [OF repair_params_adds [OF this] Suc.IH [of s1 m1]] rest True show ?thesis by simp
  next
    case False
    with repair_scanD [OF scan] rest show ?thesis by (simp add: adds_none)
  qed
qed (simp add: adds_none)

text \<open>
  C13: Repair keeps every step: the repaired plan is a permutation of the plan and of inserted steps made from candidates, one per
  round at most, where only arguments, bindings, dependencies and the numbers of references may differ.
\<close>

theorem chain_repair_keeps_steps:
  assumes "repair_collection_consumer_chain steps cands = Some out"
  shows "\<exists>added. set added \<subseteq> set cands \<and> length added \<le> max 4 (length steps + 2)
     \<and> mset (map core_of out) = mset (map core_of steps) + mset (map (\<lambda>c. core_of (inserted_step c)) added)"
proof (cases "steps = []")
  case True
  with assms show ?thesis by (intro exI [of _ "[]"]) (simp add: repair_collection_consumer_chain_def)
next
  case False
  with assms obtain m m' where "repair_rounds cands (max 4 (length steps + 2)) (steps, m) = Some (out, m')"
    by (auto simp: repair_collection_consumer_chain_def bind_eq_Some_conv)
  from repair_rounds_adds [OF this] show ?thesis unfolding adds_producers_def comp_def .
qed

subsection \<open>Repaired steps read from producers\<close>

text \<open>
  Step \<open>i\<close> gets the parameter \<open>p\<close> from an earlier step, whose action produces the fact, by the field the action names;
  the literal argument is gone.
\<close>

definition fed :: "cand_map \<Rightarrow> pydict list \<Rightarrow> nat \<Rightarrow> string \<Rightarrow> bool" where
  "fed m steps i p \<longleftrightarrow> i < length steps \<and> (\<exists>j<i. \<exists>a. action_of_step m (steps ! j) = Some a \<and> fact_for_param p \<in> effects a
     \<and> step_binding p (steps ! i) = Some (PStr (step_ref j (producer_field a (fact_for_param p))))
     \<and> (\<exists>d. dget ''args'' (steps ! i) = Some (PDict d) \<and> \<not> has_key p d))"

text \<open>Ids of operations and plugins hold no references to steps.\<close>

definition plain_ids :: "pydict \<Rightarrow> bool" where
  "plain_ids step \<longleftrightarrow> (\<forall>f. dget ''operation_id'' (reindex_step_refs f step) = dget ''operation_id'' step
     \<and> dget ''plugin_id'' (reindex_step_refs f step) = dget ''plugin_id'' step)"

lemma sub_refs_no_dollar: "CHR ''$'' \<notin> set s \<Longrightarrow> sub_refs g s = s"
proof (induction s)
  case (Cons c cs)
  then have "match_ref (c # cs) = None" using match_ref_Cons by (cases "match_ref (c # cs)") auto
  with Cons show ?case by (simp add: sub_refs.simps(2))
qed simp

lemma plain_idsI:
  assumes "dget ''operation_id'' step = Some (PStr op)" "CHR ''$'' \<notin> set op"
    "dget ''plugin_id'' step \<in> {None, Some PNone} \<or> (\<exists>s. dget ''plugin_id'' step = Some (PStr s) \<and> CHR ''$'' \<notin> set s)"
  shows "plain_ids step"
  using assms by (auto simp: plain_ids_def reindex_step_refs_def dget_map_step sub_refs_no_dollar)

lemma action_of_step_cong:
  assumes "dget ''operation_id'' s = dget ''operation_id'' t" "dget ''plugin_id'' s = dget ''plugin_id'' t"
  shows "action_of_step m s = action_of_step m t"
proof -
  have "minimal_candidate s = minimal_candidate t" by (simp add: minimal_candidate_def dget_or_def assms)
  moreover have "known_candidate m s = known_candidate m t" by (simp add: known_candidate_def dget_or_def assms(1))
  ultimately show ?thesis by (simp only: action_of_step_def)
qed

lemma bind_at_fed:
  assumes "bind_at steps ci j p a = Some steps'" "j < ci" "ci < length steps"
    "action_of_step m (steps ! j) = Some a" "fact_for_param p \<in> effects a"
  shows "fed m steps' ci p"
proof -
  obtain c where c: "steps' = steps[ci := c]" "bind_consumer_to_producer j p (producer_field a (fact_for_param p)) (steps ! ci) = Some c"
    by (rule bind_atD [OF assms(1)])
  from assms(2) have "steps' ! j = steps ! j" unfolding c(1) by simp
  moreover have "steps' ! ci = c" "ci < length steps'" using assms(3) unfolding c(1) by simp_all
  ultimately show ?thesis using assms(2,4,5) bind_consumerD(2,3) [OF c(2)] by (auto simp: fed_def)
qed

lemma bind_at_plain:
  assumes "bind_at steps ci j p a = Some steps'" "\<forall>s\<in>set steps. plain_ids s"
  shows "\<forall>s\<in>set steps'. plain_ids s"
proof (cases "ci < length steps")
  case True
  obtain c where c: "steps' = steps[ci := c]" "bind_consumer_to_producer j p (producer_field a (fact_for_param p)) (steps ! ci) = Some c"
    by (rule bind_atD [OF assms(1)])
  from c(2) have d: "dget k c = dget k (steps ! ci)" if "k \<notin> {''args'', ''arg_bindings'', ''depends_on''}" for k
    using that by (auto simp: bind_consumer_to_producer_def Let_def bind_eq_Some_conv split: if_splits)
  have "plain_ids (steps ! ci)" using assms(2) True by simp
  then have "plain_ids c" by (simp add: plain_ids_def reindex_step_refs_def dget_map_step d)
  then show ?thesis using assms(2) set_update_subset_insert [of steps ci c] unfolding c(1) by blast
next
  case False
  then show ?thesis using assms by (auto simp: bind_at_def list_update_beyond)
qed

lemma step_with_opD: "step_with_op op i ss = Some e \<Longrightarrow> i \<le> e \<and> e < i + length ss \<and> py_eq (dget_none ''operation_id'' (ss ! (e - i))) op"
proof (induction op i ss rule: step_with_op.induct)
  case (2 op i s ss)
  then show ?case by (cases "py_eq (dget_none ''operation_id'' s) op") (auto simp: nth_Cons')
qed simp

lemma derived_op_str:
  assumes "derive_action c = Some a" "truthy (dget_none ''operation_id'' c)"
  shows "\<exists>op. dget ''operation_id'' c = Some (PStr op) \<and> op \<noteq> []"
proof -
  have "\<exists>op. dget_or ''operation_id'' (PStr []) c = PStr op"
    using assms(1) unfolding derive_action_def by (cases "dget_or ''operation_id'' (PStr []) c") (auto simp: bind_eq_Some_conv)
  then obtain op where op: "dget_or ''operation_id'' (PStr []) c = PStr op" ..
  have none: "\<not> truthy PNone" by (simp add: truthy_def)
  show ?thesis
  proof (cases "dget ''operation_id'' c")
    case None
    then have "dget_none ''operation_id'' c = PNone" by (simp only: dget_or_def option.case)
    with assms(2) none show ?thesis by (simp only:)
  next
    case (Some v)
    then have "v = PStr op" "dget_none ''operation_id'' c = v" using op by (simp_all only: dget_or_def option.case)
    with assms(2) Some show ?thesis by (auto simp: truthy_def)
  qed
qed

lemma no_existing:
  assumes "absent_producer cs steps need = Some (Some c)" "truthy (dget_none ''operation_id'' c)"
  shows "step_with_op (dget_none ''operation_id'' c) 0 steps = None"
proof (rule ccontr)
  assume "step_with_op (dget_none ''operation_id'' c) 0 steps \<noteq> None"
  then obtain e where "step_with_op (dget_none ''operation_id'' c) 0 steps = Some e" by blast
  from step_with_opD [OF this] have e: "e < length steps" "py_eq (dget_none ''operation_id'' (steps ! e)) (dget_none ''operation_id'' c)"
    by simp_all
  from absent_producerD(2) [OF assms(1)] obtain a where "derive_action c = Some a" by blast
  from derived_op_str [OF this assms(2)] obtain op where op: "dget_none ''operation_id'' c = PStr op" "op \<noteq> []" unfolding dget_or_def by auto
  from e(2) op(1) have "dget_none ''operation_id'' (steps ! e) = PStr op" by simp
  then have "PStr op \<in> set (map (dget_none ''operation_id'') steps)" using e(1) by (metis length_map nth_map nth_mem)
  then have mem: "PStr op \<in> set (filter truthy (map (dget_none ''operation_id'') steps))" "PStr op \<in> set (map (dget_none ''operation_id'') steps)"
    using op(2) by (simp_all add: truthy_def)
  have in': "py_in (PStr op) ws" if "PStr op \<in> set ws" for ws using that by (auto simp: py_in_def list_ex_iff intro!: bexI [of _ "PStr op"])
  have blank: "or_blank ''operation_id'' c = PStr op" using op by (simp add: or_blank_def truthy_def)
  from assms(1) show False
    using producer_candidateD [of cs need "filter truthy (map (dget_none ''operation_id'') steps)" c] in' [OF mem(1)] in' [OF mem(2)] blank op(1)
    by (auto simp: absent_producer_def Let_def split: if_splits option.splits)
qed

lemma known_inserted:
  assumes "derive_action c = Some a" "dget ''operation_id'' c = Some op" "truthy op"
  shows "action_of_step (dset (canon op) c m) (inserted_step c) = Some a"
proof -
  have op: "dget_none ''operation_id'' (inserted_step c) = op" using assms(2) by (simp add: inserted_step_def dget_or_def dget_def)
  have "hashable op" using derived_op_str [OF assms(1)] assms(2,3) by (auto simp: dget_or_def)
  then show ?thesis using assms(1,3) by (simp add: action_of_step_def known_candidate_def candidate_of_def op)
qed

text \<open>The last change of a scan feeds a parameter.\<close>

lemma repair_params_fed:
  assumes "repair_params cands ci ps (steps, m, changed) = Some (steps', m', True)" "ci < length steps"
    and "\<forall>c\<in>set cands. truthy (dget_none ''operation_id'' c)" "\<forall>s\<in>set steps. plain_ids s"
    and "changed \<Longrightarrow> \<exists>i p. fed m steps i p"
  shows "\<exists>i p. fed m' steps' i p"
  using assms
proof (induction ps arbitrary: steps changed)
  case (Cons p ps)
  from Cons.prems(1) show ?case
  proof (cases rule: repair_param_cases)
    case skip
    show ?thesis by (rule Cons.IH [OF skip Cons.prems(2-5)])
  next
    case (bind j a steps1)
    from find_producerD [OF bind(1)] obtain b where j: "j < ci" "action_of_step m (steps ! j) = Some b" "fact_for_param p \<in> effects b"
      by auto
    have "fed m steps1 ci p" by (rule bind_at_fed [OF bind(3) j(1) Cons.prems(2)]) (use bind(2) j in auto)
    moreover have "\<forall>s\<in>set steps1. plain_ids s"
      using bind(3) Cons.prems(4) by (rule bind_at_plain)
    ultimately show ?thesis using Cons.IH [OF bind(4) _ Cons.prems(3)] Cons.prems(2) bind_at_cores(2) [OF bind(3)] by auto
  next
    case (move later a steps1)
    from find_producerD [OF move(1)] obtain b where l: "later < length steps" "action_of_step m (steps ! later) = Some b" "fact_for_param p \<in> effects b"
      by auto
    have nth: "move_producer ci later steps ! ci = reindex_step_refs (place_after_move ci later) (steps ! later)"
      using Cons.prems(2) by (simp add: move_producer_def nth_append)
    have "plain_ids (steps ! later)" using Cons.prems(4) l(1) by simp
    then have "action_of_step m (move_producer ci later steps ! ci) = action_of_step m (steps ! later)"
      unfolding nth by (intro action_of_step_cong) (simp_all add: plain_ids_def)
    with move(3) l have "fact_for_param p \<in> effects a" by simp
    moreover have "ci + 1 < length (move_producer ci later steps)" using move(2) l(1) move_cores(2) [OF move(2) l(1)] by simp
    ultimately have "fed m steps1 (ci + 1) p" using bind_at_fed [OF move(4) _ _ move(3)] by simp
    then show ?thesis using move(5) by auto
  next
    case (existing c e a steps1)
    from no_existing [OF existing(1)] existing(2) absent_producerD(1) [OF existing(1)] Cons.prems(3) show ?thesis by simp
  next
    case (insert c a op steps1)
    have nth: "insert_producer ci c steps ! ci = inserted_step c" "length (insert_producer ci c steps) = length steps + 1"
      using Cons.prems(2) by (simp_all add: insert_producer_def Let_def nth_append)
    from absent_producerD [OF insert(1)] insert(3) have c: "c \<in> set cands" "fact_for_param p \<in> effects a" by auto
    have "action_of_step m' (insert_producer ci c steps ! ci) = Some a"
      unfolding nth using known_inserted [OF insert(3,4), of m] insert(4,6) Cons.prems(3) c(1) by (auto simp: dget_or_def)
    then have "fed m' steps1 (ci + 1) p" using bind_at_fed [OF insert(5)] nth(2) Cons.prems(2) c(2) by simp
    then show ?thesis using insert(6) by auto
  qed
qed simp

lemma repair_params_bound:
  "\<forall>p\<in>set ps. has_step_binding (steps ! ci) p = Some True \<Longrightarrow> repair_params cands ci ps (steps, m, changed) = Some (steps, m, changed)"
  by (induction ps) simp_all

text \<open>A plan whose calls all have their ids bound is left alone.\<close>

theorem chained_plan_unchanged:
  assumes "by_operation (filter (\<lambda>c. truthy (dget_none ''operation_id'' c)) cands) [] = Some m"
    and "\<forall>s\<in>set steps. \<exists>ps. open_params m s = Some ps \<and> (\<forall>p\<in>set ps. has_step_binding s p = Some True)"
  shows "repair_collection_consumer_chain steps cands = Some steps"
proof -
  have "repair_scan cands places (steps, m) = Some (steps, m, False)" if "set places \<subseteq> {0..<length steps}" for places
    using that
  proof (induction places)
    case (Cons ci places)
    then have "steps ! ci \<in> set steps" by simp
    with assms(2) obtain ps where ps: "open_params m (steps ! ci) = Some ps" "\<forall>p\<in>set ps. has_step_binding (steps ! ci) p = Some True"
      by blast
    with Cons repair_params_bound [OF ps(2), of cands m False] show ?case by simp
  qed simp
  then have "repair_scan cands [0..<length steps] (steps, m) = Some (steps, m, False)" by simp
  then have "repair_rounds cands (Suc n) (steps, m) = Some (steps, m)" for n by simp
  moreover have "\<exists>n. max 4 (length steps + 2) = Suc n" by (rule not0_implies_Suc) simp
  ultimately show ?thesis using assms(1) by (auto simp: repair_collection_consumer_chain_def)
qed

text \<open>
  C14: A scan that changes the plan feeds a call: some step now reads a parameter from an earlier step whose action
  produces that fact, through the field the action names, and its literal argument is dropped.
\<close>

theorem repair_scan_feeds:
  assumes "repair_scan cands [0..<length steps] (steps, m) = Some (steps', m', True)"
    and "\<forall>c\<in>set cands. truthy (dget_none ''operation_id'' c)" "\<forall>s\<in>set steps. plain_ids s"
  shows "\<exists>i p j a d. j < i \<and> i < length steps' \<and> action_of_step m' (steps' ! j) = Some a \<and> fact_for_param p \<in> effects a
     \<and> step_binding p (steps' ! i) = Some (PStr (step_ref j (producer_field a (fact_for_param p))))
     \<and> dget ''args'' (steps' ! i) = Some (PDict d) \<and> \<not> has_key p d"
proof -
  from repair_scanD [OF assms(1)] obtain ci ps where r: "ci \<in> set [0..<length steps]" "repair_params cands ci ps (steps, m, False) = Some (steps', m', True)"
    by auto
  have "\<exists>i p. fed m' steps' i p" by (rule repair_params_fed [OF r(2) _ assms(2,3)]) (use r(1) in simp_all)
  then show ?thesis unfolding fed_def by blast
qed

subsection \<open>Samples\<close>

definition route :: "string \<Rightarrow> string list \<Rightarrow> pydict" where
  "route op ps =
     [(''operation_id'', PStr op), (''plugin_id'', PStr ''jules''), (''method'', PStr ''GET''),
      (''parameters'', PDict (map (\<lambda>p. (p, PDict [(''required'', PBool True)])) ps))]"

definition call_of :: "string \<Rightarrow> pydict \<Rightarrow> pyval \<Rightarrow> pydict" where
  "call_of op b deps = [(''operation_id'', PStr op), (''args'', PDict []), (''arg_bindings'', PDict b), (''depends_on'', deps)]"

definition session_routes :: "pydict list" where
  "session_routes = [route ''get_session'' [''session_id''], route ''list_sessions'' [], route ''publish'' [], route ''pick_team'' []]"

definition get_first :: "pydict list" where
  "get_first = [call_of ''get_session'' [] PNone, call_of ''list_sessions'' [] PNone]"

definition numbered_chain :: "pydict list" where
  "numbered_chain = [call_of ''get_session'' [] PNone, call_of ''publish'' [] (PInt 0)]"

definition reading_producer :: "pydict list" where
  "reading_producer =
     [call_of ''get_session'' [] PNone, call_of ''pick_team'' [] PNone, call_of ''list_sessions'' [(''team'', PStr ''$steps[1].id'')] PNone]"

lemma get_first_repaired: "repair_collection_consumer_chain get_first session_routes = Some
     [call_of ''list_sessions'' [] PNone, call_of ''get_session'' [(''session_id'', PStr ''$steps[0].id'')] (PInt 0)]"
  by code_simp

theorem chain_repair_keeps_steps_witness:
  "\<exists>added. set added \<subseteq> set session_routes \<and> length added \<le> max 4 (length get_first + 2)
     \<and> mset (map core_of [call_of ''list_sessions'' [] PNone, call_of ''get_session'' [(''session_id'', PStr ''$steps[0].id'')] (PInt 0)])
       = mset (map core_of get_first) + mset (map (\<lambda>c. core_of (inserted_step c)) added)"
  by (rule chain_repair_keeps_steps [OF get_first_repaired])

text \<open>An inserted step does not move the numbers in \<open>depends_on\<close>: the publication waits for the list, not for the session.\<close>

lemma insert_leaves_depends_on: "repair_collection_consumer_chain numbered_chain session_routes = Some
     [inserted_step (route ''list_sessions'' []), call_of ''get_session'' [(''session_id'', PStr ''$steps[0].id'')] (PInt 0),
      call_of ''publish'' [] (PInt 0)]"
  by code_simp

text \<open>A moved producer may read a step it was moved over: the list of sessions now reads from step 2, which comes after it.\<close>

lemma moved_producer_reads_forward: "repair_collection_consumer_chain reading_producer session_routes = Some
     [call_of ''list_sessions'' [(''team'', PStr ''$steps[2].id'')] PNone, call_of ''get_session'' [(''session_id'', PStr ''$steps[0].id'')] (PInt 0),
      call_of ''pick_team'' [] PNone]"
  by code_simp

definition session_map :: cand_map where
  "session_map = map (\<lambda>c. (dget_none ''operation_id'' c, c)) session_routes"

lemma get_first_scan: "repair_scan session_routes [0..<length get_first] (get_first, session_map) = Some
     ([call_of ''list_sessions'' [] PNone, call_of ''get_session'' [(''session_id'', PStr ''$steps[0].id'')] (PInt 0)], session_map, True)"
  by code_simp

theorem repair_scan_feeds_witness:
  "\<exists>i p j a d. let out = [call_of ''list_sessions'' [] PNone, call_of ''get_session'' [(''session_id'', PStr ''$steps[0].id'')] (PInt 0)] in
     j < i \<and> i < length out \<and> action_of_step session_map (out ! j) = Some a \<and> fact_for_param p \<in> effects a
     \<and> step_binding p (out ! i) = Some (PStr (step_ref j (producer_field a (fact_for_param p))))
     \<and> dget ''args'' (out ! i) = Some (PDict d) \<and> \<not> has_key p d"
proof -
  have "\<forall>c\<in>set session_routes. truthy (dget_none ''operation_id'' c)" by code_simp
  moreover have "plain_ids s" if "s \<in> set get_first" for s
    using that by (intro plain_idsI [of s "str_of (dget_none ''operation_id'' s)"]) (auto simp: get_first_def call_of_def dget_def dget_or_def)
  ultimately show ?thesis unfolding Let_def using repair_scan_feeds [OF get_first_scan] by blast
qed

end
