(* ===== verification/GraphTopology.thy ===== *)
theory GraphTopology
  imports PyValue
begin

text \<open>
  The graph of the planner: the specs of \<open>core_graph/graph_spec.py\<close> and \<open>core_graph/subgraphs\<close>, their resolution and
  validation, and the routers of \<open>core_graph/node/routers.py\<close> that choose the next node.  The only predicate specs
  use is the configuration flag for decomposition, so predicates and computed targets are functions of it.  Importing a
  dotted path is an argument of the builder.  The breadth-first search ends because every turn takes a node from the
  queue and each node enters it once.  A router's \<open>None\<close> is an exception.
\<close>

subsection \<open>Specs\<close>

record NodeSpec =
  ns_name :: string
  ns_factory :: string
  ns_when :: "(bool \<Rightarrow> bool) option"

record StaticEdge =
  se_source :: string
  se_target :: string
  se_when :: "(bool \<Rightarrow> bool) option"

datatype target = Named string | Computed "bool \<Rightarrow> string"

record ConditionalEdge =
  ce_source :: string
  ce_router :: string
  ce_mapping :: "(string \<times> target) list"

record GraphSpec =
  gs_entry :: string
  gs_nodes :: "NodeSpec list"
  gs_static :: "StaticEdge list"
  gs_conditional :: "ConditionalEdge list"

record ResolvedTopology =
  rt_entry :: string
  rt_nodes :: "string list"
  rt_edges :: "(string \<times> string \<times> bool) list"

definition decompose_first_enabled :: "bool \<Rightarrow> bool" where
  "decompose_first_enabled flag = flag"

definition planning_entry :: "bool \<Rightarrow> string" where
  "planning_entry flag = (if decompose_first_enabled flag then ''decompose'' else ''embedder'')"

definition replan_entry :: "bool \<Rightarrow> string" where
  "replan_entry flag = (if decompose_first_enabled flag then ''decompose'' else ''planner'')"

definition included :: "bool \<Rightarrow> (bool \<Rightarrow> bool) option \<Rightarrow> bool" where
  "included flag w = (case w of None \<Rightarrow> True | Some f \<Rightarrow> f flag)"

definition target_of :: "bool \<Rightarrow> target \<Rightarrow> string" where
  "target_of flag t = (case t of Named s \<Rightarrow> s | Computed f \<Rightarrow> f flag)"

definition resolve_topology :: "bool \<Rightarrow> GraphSpec \<Rightarrow> ResolvedTopology" where
  "resolve_topology flag spec =
     \<lparr>rt_entry = gs_entry spec,
      rt_nodes = remdups (map ns_name (filter (\<lambda>n. included flag (ns_when n)) (gs_nodes spec))),
      rt_edges =
        map (\<lambda>e. (se_source e, se_target e, False))
          (filter (\<lambda>e. included flag (se_when e) \<and> se_target e \<noteq> ''END'') (gs_static spec))
        @ concat (map (\<lambda>e. map (\<lambda>t. (ce_source e, t, True))
            (filter (\<lambda>t. t \<noteq> ''END'') (map (\<lambda>(k, t). target_of flag t) (ce_mapping e)))) (gs_conditional spec))\<rparr>"

subsection \<open>Validation\<close>

datatype topology_error = Undeclared "string \<times> string" | BadEntry string | Unreachable "string list"

definition neighbours :: "(string \<times> string \<times> bool) list \<Rightarrow> string \<Rightarrow> string list" where
  "neighbours edges n = map (\<lambda>(s, t, c). t) (filter (\<lambda>(s, t, c). s = n) edges)"

definition visit :: "string \<Rightarrow> string list \<times> string list \<Rightarrow> string list \<times> string list" where
  "visit t vq = (case vq of (visited, queue) \<Rightarrow> if t \<in> set visited then vq else (t # visited, queue @ [t]))"

lemma visit_pair: "visit t (visited, queue) = (if t \<in> set visited then (visited, queue) else (t # visited, queue @ [t]))"
  by (simp add: visit_def)

lemma visit_fold:
  "fold visit ts (visited, queue) = (v, q) \<Longrightarrow> set v = set visited \<union> set ts \<and>
     (\<exists>new. q = queue @ new \<and> distinct new \<and> set new = set ts - set visited)"
proof (induction ts arbitrary: visited queue)
  case (Cons t ts)
  show ?case
  proof (cases "t \<in> set visited")
    case True
    with Cons.prems have "fold visit ts (visited, queue) = (v, q)" by (simp add: visit_pair)
    from Cons.IH [OF this] True show ?thesis by auto
  next
    case False
    with Cons.prems have "fold visit ts (t # visited, queue @ [t]) = (v, q)" by (simp add: visit_pair)
    from Cons.IH [OF this] obtain new where n: "set v = insert t (set visited \<union> set ts)" "q = queue @ t # new"
      "distinct new" "set new = set ts - insert t (set visited)" by auto
    then show ?thesis using False by (intro conjI exI [of _ "t # new"]) auto
  qed
qed simp

lemma visit_measure:
  assumes "fold visit (neighbours edges n) (visited, queue) = (v, q)"
  shows "card (fst ` snd ` set edges - set v) + length q = card (fst ` snd ` set edges - set visited) + length queue"
proof -
  from visit_fold [OF assms] obtain new where new: "set v = set visited \<union> set (neighbours edges n)" "q = queue @ new"
    "distinct new" "set new = set (neighbours edges n) - set visited" by blast
  let ?T = "fst ` snd ` set edges"
  have "set (neighbours edges n) \<subseteq> ?T" by (force simp: neighbours_def)
  then have sub: "set new \<subseteq> ?T - set visited" "?T - set v = (?T - set visited) - set new" using new by auto
  moreover have "length new \<le> card (?T - set visited)" using card_mono [OF _ sub(1)] by (simp add: distinct_card new(3))
  ultimately show ?thesis by (simp add: card_Diff_subset distinct_card new(2,3))
qed

function reach :: "(string \<times> string \<times> bool) list \<Rightarrow> string list \<Rightarrow> string list \<Rightarrow> string list" where
  "reach edges visited [] = visited"
| "reach edges visited (n # queue) =
     (case fold visit (neighbours edges n) (visited, queue) of (visited', queue') \<Rightarrow> reach edges visited' queue')"
  by pat_completeness auto
termination
  by (relation "measure (\<lambda>(edges, visited, queue). card (fst ` snd ` set edges - set visited) + length queue)")
    (simp_all, drule sym, frule visit_measure, simp)

declare reach.simps(2) [simp del]

definition validate :: "ResolvedTopology \<Rightarrow> topology_error + unit" where
  "validate t =
     (case find (\<lambda>(s, d, c). s \<notin> set (rt_nodes t) \<or> d \<notin> set (rt_nodes t)) (rt_edges t) of
        Some (s, d, c) \<Rightarrow> Inl (Undeclared (s, d))
      | None \<Rightarrow>
          (if rt_entry t \<notin> set (rt_nodes t) then Inl (BadEntry (rt_entry t))
           else let visited = reach (rt_edges t) [rt_entry t] [rt_entry t];
                    unreached = filter (\<lambda>n. n \<notin> set visited) (rt_nodes t) in
             if unreached \<noteq> [] then Inl (Unreachable (sort unreached)) else Inr ()))"

definition arrows :: "(string \<times> string \<times> bool) list \<Rightarrow> (string \<times> string) set" where
  "arrows edges = {(s, d). \<exists>c. (s, d, c) \<in> set edges}"

lemma set_neighbours: "set (neighbours edges n) = {d. (n, d) \<in> arrows edges}"
  by (force simp: neighbours_def arrows_def)

text \<open>The nodes found are the nodes reachable from the queue, when what is visited but not queued is closed.\<close>

lemma reach_closed:
  assumes "set queue \<subseteq> set visited" "\<forall>n\<in>set visited - set queue. \<forall>d. (n, d) \<in> arrows edges \<longrightarrow> d \<in> set visited"
  shows "set visited \<subseteq> set (reach edges visited queue)"
    "\<forall>n\<in>set (reach edges visited queue). \<forall>d. (n, d) \<in> arrows edges \<longrightarrow> d \<in> set (reach edges visited queue)"
    "\<forall>m\<in>set (reach edges visited queue). \<exists>n\<in>set visited. (n, m) \<in> (arrows edges)\<^sup>*"
proof -
  have "set visited \<subseteq> set (reach edges visited queue)
    \<and> (\<forall>n\<in>set (reach edges visited queue). \<forall>d. (n, d) \<in> arrows edges \<longrightarrow> d \<in> set (reach edges visited queue))
    \<and> (\<forall>m\<in>set (reach edges visited queue). \<exists>n\<in>set visited. (n, m) \<in> (arrows edges)\<^sup>*)"
    using assms
  proof (induction edges visited queue rule: reach.induct)
    case (2 edges visited n queue)
    obtain v q where vq: "fold visit (neighbours edges n) (visited, queue) = (v, q)" by (cases "fold visit (neighbours edges n) (visited, queue)")
    from visit_fold [OF vq] obtain new where new: "set v = set visited \<union> set (neighbours edges n)" "q = queue @ new"
      "set new = set (neighbours edges n) - set visited" by blast
    have q: "set q \<subseteq> set v" using new "2.prems"(1) by auto
    have closed: "\<forall>m\<in>set v - set q. \<forall>d. (m, d) \<in> arrows edges \<longrightarrow> d \<in> set v"
    proof (intro ballI allI impI)
      fix m d assume m: "m \<in> set v - set q" "(m, d) \<in> arrows edges"
      then have "m \<in> set visited" "m \<notin> set queue" using new by auto
      then consider "m = n" | "m \<in> set visited - set (n # queue)" by auto
      then show "d \<in> set v"
      proof cases
        case 1
        then show ?thesis using m(2) unfolding new(1) set_neighbours by blast
      next
        case 2
        then show ?thesis using m(2) "2.prems"(2) unfolding new(1) by blast
      qed
    qed
    note IH = "2.IH" [OF vq [symmetric] q closed]
    have r: "reach edges visited (n # queue) = reach edges v q" using vq by (simp add: reach.simps(2))
    have "\<exists>k\<in>set visited. (k, m) \<in> (arrows edges)\<^sup>*" if m: "m \<in> set (reach edges v q)" for m
    proof -
      from IH m obtain k where k: "k \<in> set v" "(k, m) \<in> (arrows edges)\<^sup>*" by blast
      show ?thesis
      proof (cases "k \<in> set visited")
        case False
        with k(1) new(1) have "(n, k) \<in> arrows edges" by (simp add: set_neighbours)
        with k(2) "2.prems"(1) show ?thesis by (auto intro: converse_rtrancl_into_rtrancl)
      qed (use k in blast)
    qed
    moreover have "set visited \<subseteq> set (reach edges v q)" using IH new(1) by blast
    ultimately show ?case using IH unfolding r by blast
  qed auto
  then show "set visited \<subseteq> set (reach edges visited queue)"
    "\<forall>n\<in>set (reach edges visited queue). \<forall>d. (n, d) \<in> arrows edges \<longrightarrow> d \<in> set (reach edges visited queue)"
    "\<forall>m\<in>set (reach edges visited queue). \<exists>n\<in>set visited. (n, m) \<in> (arrows edges)\<^sup>*" by blast+
qed

lemma reach_iff: "m \<in> set (reach edges [n] [n]) \<longleftrightarrow> (n, m) \<in> (arrows edges)\<^sup>*"
proof
  have c: "set [n] \<subseteq> set [n]" "\<forall>k\<in>set [n] - set [n]. \<forall>d. (k, d) \<in> arrows edges \<longrightarrow> d \<in> set [n]" by auto
  note r = reach_closed [OF c]
  show "m \<in> set (reach edges [n] [n]) \<Longrightarrow> (n, m) \<in> (arrows edges)\<^sup>*" using r(3) by simp
  assume "(n, m) \<in> (arrows edges)\<^sup>*"
  then show "m \<in> set (reach edges [n] [n])"
    by (induction rule: rtrancl_induct) (use r(1,2) in \<open>auto simp: arrows_def\<close>)
qed

text \<open>Validation accepts exactly the graphs whose edges join declared nodes and whose nodes are all reachable from the entry.\<close>

theorem validate_iff:
  "validate t = Inr () \<longleftrightarrow>
     (\<forall>(s, d) \<in> arrows (rt_edges t). s \<in> set (rt_nodes t) \<and> d \<in> set (rt_nodes t))
     \<and> rt_entry t \<in> set (rt_nodes t)
     \<and> (\<forall>n\<in>set (rt_nodes t). (rt_entry t, n) \<in> (arrows (rt_edges t))\<^sup>*)"
proof -
  have 1: "find (\<lambda>(s, d, c). s \<notin> set (rt_nodes t) \<or> d \<notin> set (rt_nodes t)) (rt_edges t) = None
    \<longleftrightarrow> (\<forall>(s, d) \<in> arrows (rt_edges t). s \<in> set (rt_nodes t) \<and> d \<in> set (rt_nodes t))"
    by (auto simp: find_None_iff arrows_def)
  show ?thesis unfolding validate_def Let_def 1 [symmetric]
    by (auto simp: filter_empty_conv reach_iff split: option.splits)
qed

definition orphan_graph :: ResolvedTopology where
  "orphan_graph = \<lparr>rt_entry = ''a'', rt_nodes = [''a'', ''b'', ''c''], rt_edges = [(''a'', ''b'', False), (''b'', ''a'', True)]\<rparr>"

lemma orphan_found: "validate orphan_graph = Inl (Unreachable [''c''])"
  by code_simp

theorem validate_iff_witness:
  "\<not> ((\<forall>(s, d) \<in> arrows (rt_edges orphan_graph). s \<in> set (rt_nodes orphan_graph) \<and> d \<in> set (rt_nodes orphan_graph))
     \<and> rt_entry orphan_graph \<in> set (rt_nodes orphan_graph)
     \<and> (\<forall>n\<in>set (rt_nodes orphan_graph). (rt_entry orphan_graph, n) \<in> (arrows (rt_edges orphan_graph))\<^sup>*))"
  unfolding validate_iff [symmetric] by (simp add: orphan_found)

subsection \<open>Building the graph\<close>

datatype endpoint = End | Node string

record wired =
  wg_nodes :: "string list"
  wg_edges :: "(string \<times> endpoint) list"
  wg_branches :: "(string \<times> string \<times> (string \<times> endpoint) list) list"
  wg_entry :: string

datatype build_error = NoFactory string | NoRouter string | BadTopology topology_error

definition endpoint_of :: "string \<Rightarrow> endpoint" where
  "endpoint_of t = (if t = ''END'' then End else Node t)"

definition build_from_spec :: "(string \<Rightarrow> bool) \<Rightarrow> bool \<Rightarrow> GraphSpec \<Rightarrow> build_error + wired" where
  "build_from_spec importable flag spec =
     (let nodes = filter (\<lambda>n. included flag (ns_when n)) (gs_nodes spec) in
      case find (\<lambda>n. \<not> importable (ns_factory n)) nodes of
        Some n \<Rightarrow> Inl (NoFactory (ns_name n))
      | None \<Rightarrow>
          (case find (\<lambda>e. \<not> importable (ce_router e)) (gs_conditional spec) of
             Some e \<Rightarrow> Inl (NoRouter (ce_source e))
           | None \<Rightarrow>
               (case validate (resolve_topology flag spec) of
                  Inl e \<Rightarrow> Inl (BadTopology e)
                | Inr _ \<Rightarrow> Inr
                    \<lparr>wg_nodes = map ns_name nodes,
                     wg_edges = map (\<lambda>e. (se_source e, endpoint_of (se_target e)))
                       (filter (\<lambda>e. included flag (se_when e)) (gs_static spec)),
                     wg_branches = map (\<lambda>e. (ce_source e, ce_router e,
                       map (\<lambda>(k, t). (k, endpoint_of (target_of flag t))) (ce_mapping e))) (gs_conditional spec),
                     wg_entry = gs_entry spec\<rparr>)))"

end
