(* ===== verification/GraphRouters.thy ===== *)
theory GraphRouters
  imports GraphTopology PlanSteps
begin

text \<open>
  The routers of \<open>core_graph/node/routers.py\<close>, with \<open>is_recoverable\<close> of \<open>node/helpers/gating.py\<close> and
  \<open>normalize_triage_mode\<close> of \<open>node/triage.py\<close>, over the fragments that \<open>core_graph/subgraphs/root/graph_spec.py\<close> composes.
  The state is the dictionary the graph runtime hands to a node; \<open>str\<close> of a value that is no string is an argument.
  \<open>None\<close> is an exception: a plan that is no list of dictionaries, an index that is no integer, or a
  response without \<open>get\<close>.
\<close>

subsection \<open>Reading the state\<close>

definition one_of :: "string list \<Rightarrow> pyval \<Rightarrow> bool" where
  "one_of ss v = py_in v (map PStr ss)"

definition list_or_empty :: "string \<Rightarrow> pydict \<Rightarrow> pyval list option" where
  "list_or_empty k d = (let v = dget_none k d in if truthy v then (case v of PList xs \<Rightarrow> Some xs | _ \<Rightarrow> None) else Some [])"

definition step_index :: "pydict \<Rightarrow> int option" where
  "step_index st = int_of_py (dget_or ''current_step_index'' (PInt 0) st)"

definition current_step :: "pydict \<Rightarrow> pydict option" where
  "current_step st = do {
     steps \<leftarrow> list_or_empty ''plan'' st;
     i \<leftarrow> step_index st;
     if 0 \<le> i \<and> i < int (length steps) then (case steps ! nat i of PDict d \<Rightarrow> Some d | _ \<Rightarrow> None) else Some []
   }"

definition text_or_blank :: "(pyval \<Rightarrow> string) \<Rightarrow> pyval \<Rightarrow> string" where
  "text_or_blank to_str v = (if truthy v then (case v of PStr s \<Rightarrow> s | _ \<Rightarrow> to_str v) else [])"

definition is_recoverable :: "(pyval \<Rightarrow> string) \<Rightarrow> pyval \<Rightarrow> bool" where
  "is_recoverable to_str response =
     (case response of
        PDict r \<Rightarrow>
          (let message = lower (text_or_blank to_str (dget_none ''message'' r)) in
           py_in (dget_or ''http_status'' (PInt 0) r) [PInt 400, PInt 404, PInt 422]
           \<or> py_eq (dget_none ''status'' r) (PStr ''need_input'')
           \<or> one_of [''request_failed'', ''pipeline_error''] (dget_none ''error'' r)
           \<or> list_ex (\<lambda>w. contains w message) [''missing'', ''required'', ''typeerror'', ''undefined'', ''fetch failed''])
      | _ \<Rightarrow> False)"

definition normalize_triage_mode :: "pyval \<Rightarrow> string option" where
  "normalize_triage_mode mode =
     (case (if truthy mode then mode else PStr ''classic'') of
        PStr s \<Rightarrow>
          (let m = lower (strip s) in
           Some (if m = ''task'' then ''classic'' else if m \<in> {''chat'', ''classic'', ''specialist''} then m else ''classic''))
      | _ \<Rightarrow> None)"

subsection \<open>Routers\<close>

definition retry_router :: "(pyval \<Rightarrow> string) \<Rightarrow> pydict \<Rightarrow> string option" where
  "retry_router to_str st =
     (case dget_none ''response'' st of
        PDict r \<Rightarrow>
          (let status = dget_none ''status'' r in
           if status = PStr ''replan'' then Some ''replan''
           else if status = PStr ''auth_required'' then Some ''halt''
           else if status = PStr ''need_input'' then Some ''halt''
           else do {
             again \<leftarrow> (if is_recoverable to_str (PDict r) then py_less (dget_or ''retry_count'' (PInt 0) st) (PInt 1) else Some False);
             Some (if again then ''retry''
               else if status = PStr ''error'' \<and> truthy (dget_none ''goal'' st) then ''recover''
               else if status = PStr ''error'' then ''halt''
               else ''next_step'')
           })
      | _ \<Rightarrow> Some ''halt'')"

definition triage_router :: "pydict \<Rightarrow> string option" where
  "triage_router st =
     map_option (\<lambda>m. if m = ''chat'' then ''chat'' else if m = ''specialist'' then ''specialist'' else ''classic'')
       (normalize_triage_mode (dget_none ''triage_mode'' st))"

definition specialist_entry_router :: "pydict \<Rightarrow> string" where
  "specialist_entry_router st =
     (case dget_none ''response'' st of
        PDict r \<Rightarrow>
          (if one_of [''ok'', ''partial'', ''error''] (dget_none ''status'' r)
              \<and> (truthy (dget_none ''specialist'' r) \<or> dget_none ''layout'' r \<noteq> PNone \<or> truthy (dget_none ''goal_class'' r))
           then ''done'' else ''plan'')
      | _ \<Rightarrow> ''plan'')"

definition goal_check_router :: "pydict \<Rightarrow> string" where
  "goal_check_router st =
     (let decision = dget_or ''goal_loop_decision'' (PStr ''done'') st in
      if decision = PStr ''retriage'' then ''retriage'' else if decision = PStr ''continue'' then ''continue'' else ''done'')"

definition gate_router :: "pydict \<Rightarrow> string" where
  "gate_router st =
     (let decision = dget_or ''gate_decision'' (PStr ''clarify'') st in
      if truthy (dget_none ''response'' st) then ''done''
      else if truthy (dget_or ''force_execute'' (PBool False) st) then ''context_check''
      else if decision = PStr ''execute'' then ''context_check''
      else if decision = PStr ''confirm'' then ''confirm_node''
      else ''clarify_node'')"

definition confirm_router :: "pydict \<Rightarrow> string" where
  "confirm_router st = (if truthy (dget_none ''response'' st) then ''done'' else ''execute'')"

definition clarify_router :: "pydict \<Rightarrow> string" where
  "clarify_router st = (if truthy (dget_none ''response'' st) then ''done'' else ''replan'')"

definition more_steps_router :: "pydict \<Rightarrow> string option" where
  "more_steps_router st = do {
     steps \<leftarrow> list_or_empty ''plan'' st;
     r \<leftarrow> dict_or_empty ''response'' st;
     let status = dget_none ''status'' r;
     if dget_none ''steps_executed'' r \<noteq> PNone \<or> status = PStr ''partial'' then
       Some (if status = PStr ''ok'' then ''summary''
         else if status = PStr ''partial'' \<and> truthy (dget_none ''goal'' st) then ''recover''
         else ''done'')
     else do {
       i \<leftarrow> step_index st;
       Some (if i < int (length steps) \<and> truthy (dget_none ''selected'' st) then ''context_check'' else ''done'')
     }
   }"

definition context_resolution_router :: "pydict \<Rightarrow> string option" where
  "context_resolution_router st = do {
     step \<leftarrow> current_step st;
     Some (if truthy (dget_none ''for_each'' step) \<or> truthy (dget_none ''for_each_values'' step) then ''builder''
       else if truthy (dget_none ''unresolved_required'' st) then ''step_resolver''
       else ''builder'')
   }"

definition step_resolver_router :: "pydict \<Rightarrow> string" where
  "step_resolver_router st =
     (let response = dget_none ''response'' st in
      if truthy response then
        (case response of
           PDict r \<Rightarrow> if dget_none ''status'' r = PStr ''need_input'' \<and> truthy (dget_none ''goal'' st) then ''goap_goal'' else ''done''
         | _ \<Rightarrow> ''done'')
      else ''builder'')"

definition permission_gate_router :: "pydict \<Rightarrow> string" where
  "permission_gate_router st = (if truthy (dget_none ''response'' st) then ''done'' else ''builder'')"

definition builder_router :: "pydict \<Rightarrow> string option" where
  "builder_router st =
     (if truthy (dget_none ''response'' st) then Some ''executor''
      else map_option (\<lambda>step. if dget_none ''kind'' step = PStr ''wait'' then ''wait_node'' else ''executor'') (current_step st))"

subsection \<open>The root graph\<close>

definition node_spec :: "string \<Rightarrow> string \<Rightarrow> (bool \<Rightarrow> bool) option \<Rightarrow> NodeSpec" where
  "node_spec n f w = \<lparr>ns_name = n, ns_factory = f, ns_when = w\<rparr>"

definition static_edge :: "string \<Rightarrow> string \<Rightarrow> (bool \<Rightarrow> bool) option \<Rightarrow> StaticEdge" where
  "static_edge s t w = \<lparr>se_source = s, se_target = t, se_when = w\<rparr>"

definition branch :: "string \<Rightarrow> string \<Rightarrow> (string \<times> target) list \<Rightarrow> ConditionalEdge" where
  "branch s r m = \<lparr>ce_source = s, ce_router = r, ce_mapping = m\<rparr>"

definition triage_nodes :: "NodeSpec list" where
  "triage_nodes = [node_spec ''turn_init'' ''core_graph.node.make_turn_init_node'' None,
     node_spec ''triage'' ''core_graph.node.make_triage_node'' None,
     node_spec ''chat_node'' ''core_graph.node.make_chat_node'' None]"

definition triage_static :: "StaticEdge list" where
  "triage_static = [static_edge ''turn_init'' ''triage'' None, static_edge ''chat_node'' ''END'' None]"

definition triage_branches :: "ConditionalEdge list" where
  "triage_branches = [branch ''triage'' ''core_graph.node.routers.triage_router''
       [(''chat'', Named ''chat_node''), (''classic'', Computed planning_entry), (''specialist'', Named ''specialist_entry''), (''task'', Computed planning_entry)]]"

definition classic_nodes :: "NodeSpec list" where
  "classic_nodes =
    [node_spec ''decompose'' ''core_graph.node.make_decompose_node'' (Some decompose_first_enabled),
     node_spec ''embedder'' ''core_graph.node.make_embedder_node'' None,
     node_spec ''planner'' ''core_graph.node.make_planner_node'' None,
     node_spec ''context_check'' ''core_graph.node.make_context_check_node'' None,
     node_spec ''step_resolver'' ''core_graph.node.make_step_resolver_node'' None,
     node_spec ''confirm_node'' ''core_graph.node.make_confirm_node'' None,
     node_spec ''clarify_node'' ''core_graph.node.make_clarify_node'' None,
     node_spec ''permission_gate'' ''core_graph.node.permission_gate.make_permission_gate_node'' None,
     node_spec ''builder'' ''core_graph.node.make_builder_node'' None,
     node_spec ''wait_node'' ''core_graph.node.make_wait_node'' None,
     node_spec ''executor'' ''core_graph.node.make_executor_node'' None,
     node_spec ''validator'' ''core_graph.node.make_validator_node'' None,
     node_spec ''retry_node'' ''core_graph.node.make_retry_node'' None,
     node_spec ''step_dispatcher'' ''core_graph.node.make_step_dispatcher_node'' None,
     node_spec ''round_summary'' ''core_graph.node.make_round_summary_node'' None,
     node_spec ''summary_node'' ''core_graph.node.make_summary_node'' None,
     node_spec ''goap_goal'' ''core_graph.node.make_goap_goal_node'' None]"

definition classic_static :: "StaticEdge list" where
  "classic_static =
    [static_edge ''decompose'' ''embedder'' (Some decompose_first_enabled), static_edge ''embedder'' ''planner'' None, static_edge ''wait_node'' ''validator'' None, static_edge ''executor'' ''validator'' None, static_edge ''round_summary'' ''goap_goal'' None, static_edge ''summary_node'' ''END'' None]"

definition classic_branches :: "ConditionalEdge list" where
  "classic_branches =
    [branch ''planner'' ''core_graph.node.routers.gate_router''
       [(''context_check'', Named ''context_check''), (''confirm_node'', Named ''confirm_node''), (''clarify_node'', Named ''clarify_node''), (''done'', Named ''END'')],
     branch ''confirm_node'' ''core_graph.node.routers.confirm_router''
       [(''execute'', Named ''context_check''), (''done'', Named ''END'')],
     branch ''clarify_node'' ''core_graph.node.routers.clarify_router''
       [(''replan'', Computed planning_entry), (''done'', Named ''END'')],
     branch ''context_check'' ''core_graph.node.routers.context_resolution_router''
       [(''builder'', Named ''permission_gate''), (''step_resolver'', Named ''step_resolver'')],
     branch ''step_resolver'' ''core_graph.node.routers.step_resolver_router''
       [(''builder'', Named ''permission_gate''), (''done'', Named ''END''), (''goap_goal'', Named ''goap_goal'')],
     branch ''builder'' ''core_graph.node.routers.builder_router''
       [(''executor'', Named ''executor''), (''wait_node'', Named ''wait_node'')],
     branch ''validator'' ''core_graph.node.routers.retry_router''
       [(''next_step'', Named ''step_dispatcher''), (''retry'', Named ''retry_node''), (''replan'', Computed replan_entry), (''halt'', Named ''END''), (''recover'', Named ''goap_goal'')],
     branch ''retry_node'' ''core_graph.node.routers.context_resolution_router''
       [(''builder'', Named ''permission_gate''), (''step_resolver'', Named ''step_resolver'')],
     branch ''step_dispatcher'' ''core_graph.node.routers.more_steps_router''
       [(''context_check'', Named ''context_check''), (''summary'', Named ''round_summary''), (''done'', Named ''END''), (''recover'', Named ''goap_goal'')],
     branch ''permission_gate'' ''core_graph.node.routers.permission_gate_router''
       [(''builder'', Named ''builder''), (''done'', Named ''END'')],
     branch ''goap_goal'' ''core_graph.node.routers.goap_goal_router''
       [(''continue'', Computed planning_entry), (''done'', Named ''summary_node''), (''retriage'', Named ''triage'')]]"

definition specialist_nodes :: "NodeSpec list" where
  "specialist_nodes = [node_spec ''specialist_entry'' ''core_graph.node.specialist_entry.make_specialist_entry_node'' None]"

definition specialist_branches :: "ConditionalEdge list" where
  "specialist_branches = [branch ''specialist_entry'' ''core_graph.node.routers.specialist_entry_router''
       [(''plan'', Computed planning_entry), (''done'', Named ''summary_node'')]]"

definition root_spec :: GraphSpec where
  "root_spec =
     \<lparr>gs_entry = ''turn_init'', gs_nodes = triage_nodes @ classic_nodes @ specialist_nodes,
      gs_static = triage_static @ classic_static @ [], gs_conditional = triage_branches @ classic_branches @ specialist_branches\<rparr>"

text \<open>The routers by their dotted path.\<close>

definition router_table :: "(pyval \<Rightarrow> string) \<Rightarrow> (string \<times> (pydict \<Rightarrow> string option)) list" where
  "router_table to_str =
     [(''gate_router'', Some \<circ> gate_router), (''confirm_router'', Some \<circ> confirm_router), (''clarify_router'', Some \<circ> clarify_router),
      (''context_resolution_router'', context_resolution_router), (''step_resolver_router'', Some \<circ> step_resolver_router),
      (''builder_router'', builder_router), (''retry_router'', retry_router to_str), (''more_steps_router'', more_steps_router),
      (''permission_gate_router'', Some \<circ> permission_gate_router), (''goap_goal_router'', Some \<circ> goal_check_router),
      (''triage_router'', triage_router), (''specialist_entry_router'', Some \<circ> specialist_entry_router)]"

definition router_at :: "(pyval \<Rightarrow> string) \<Rightarrow> string \<Rightarrow> (pydict \<Rightarrow> string option) option" where
  "router_at to_str path = map_of (map (\<lambda>(n, r). (''core_graph.node.routers.'' @ n, r)) (router_table to_str)) path"

text \<open>The node that runs after a node, by its fixed edge or its router; \<open>None\<close> where a router raises or names no key.\<close>

definition next_node :: "(pyval \<Rightarrow> string) \<Rightarrow> bool \<Rightarrow> GraphSpec \<Rightarrow> pydict \<Rightarrow> string \<Rightarrow> endpoint option" where
  "next_node to_str flag spec st n =
     (case find (\<lambda>e. se_source e = n \<and> included flag (se_when e)) (gs_static spec) of
        Some e \<Rightarrow> Some (endpoint_of (se_target e))
      | None \<Rightarrow>
          (case find (\<lambda>e. ce_source e = n) (gs_conditional spec) of
             None \<Rightarrow> None
           | Some e \<Rightarrow> do {
               r \<leftarrow> router_at to_str (ce_router e);
               l \<leftarrow> r st;
               t \<leftarrow> map_of (ce_mapping e) l;
               Some (endpoint_of (target_of flag t))
             }))"

subsection \<open>The root graph is sound\<close>

lemma root_valid: "validate (resolve_topology flag root_spec) = Inr ()"
  by (cases flag) (simp; code_simp)+

lemmas root_defs = root_spec_def triage_static_def classic_static_def triage_branches_def classic_branches_def specialist_branches_def
  branch_def static_edge_def

lemma plain_router_labels:
  "gate_router st \<in> {''context_check'', ''confirm_node'', ''clarify_node'', ''done''}"
  "confirm_router st \<in> {''execute'', ''done''}"
  "clarify_router st \<in> {''replan'', ''done''}"
  "step_resolver_router st \<in> {''builder'', ''done'', ''goap_goal''}"
  "permission_gate_router st \<in> {''builder'', ''done''}"
  "goal_check_router st \<in> {''continue'', ''done'', ''retriage''}"
  "specialist_entry_router st \<in> {''plan'', ''done''}"
  by (simp_all add: gate_router_def confirm_router_def clarify_router_def step_resolver_router_def permission_gate_router_def
      goal_check_router_def specialist_entry_router_def Let_def split: pyval.split)

lemma failing_router_labels:
  "context_resolution_router st = Some l \<Longrightarrow> l \<in> {''builder'', ''step_resolver''}"
  "builder_router st = Some l \<Longrightarrow> l \<in> {''executor'', ''wait_node''}"
  "more_steps_router st = Some l \<Longrightarrow> l \<in> {''context_check'', ''summary'', ''done'', ''recover''}"
  "triage_router st = Some l \<Longrightarrow> l \<in> {''chat'', ''classic'', ''specialist''}"
  by (auto simp: context_resolution_router_def builder_router_def more_steps_router_def triage_router_def Let_def bind_eq_Some_conv
      split: if_splits)

lemma retry_labels: "retry_router to_str st = Some l \<Longrightarrow> l \<in> {''next_step'', ''retry'', ''replan'', ''halt'', ''recover''}"
  by (cases "dget_none ''response'' st") (auto simp: retry_router_def Let_def bind_eq_Some_conv split: if_splits)

text \<open>Every router of the root graph exists and names only keys of its mapping.\<close>

theorem root_routers_total:
  assumes "e \<in> set (gs_conditional root_spec)"
  shows "\<exists>r. router_at to_str (ce_router e) = Some r \<and> (\<forall>st l. r st = Some l \<longrightarrow> l \<in> fst ` set (ce_mapping e))"
proof -
  have "\<forall>e\<in>set (gs_conditional root_spec).
      \<exists>r. router_at to_str (ce_router e) = Some r \<and> (\<forall>st l. r st = Some l \<longrightarrow> l \<in> fst ` set (ce_mapping e))"
    unfolding root_defs
    using plain_router_labels by (auto simp: router_at_def router_table_def dest: failing_router_labels retry_labels)
  with assms show ?thesis by blast
qed

text \<open>The transitions a state allows are edges of the resolved graph.\<close>

lemma next_node_arrow:
  assumes "next_node to_str flag spec st n = Some (Node t)"
  shows "(n, t) \<in> arrows (rt_edges (resolve_topology flag spec))"
proof (cases "find (\<lambda>e. se_source e = n \<and> included flag (se_when e)) (gs_static spec)")
  case (Some e)
  with find_SomeD [OF Some] assms show ?thesis
    by (force simp: next_node_def endpoint_of_def arrows_def resolve_topology_def split: if_splits)
next
  case None
  with assms obtain e where e: "find (\<lambda>e. ce_source e = n) (gs_conditional spec) = Some e"
    by (auto simp: next_node_def split: option.splits)
  with None assms obtain r l g where g: "map_of (ce_mapping e) l = Some g" "endpoint_of (target_of flag g) = Node t"
    by (auto simp: next_node_def bind_eq_Some_conv)
  then have t: "t = target_of flag g" "t \<noteq> ''END''" by (auto simp: endpoint_of_def split: if_splits)
  have "(n, t, True) \<in> set (rt_edges (resolve_topology flag spec))"
    using find_SomeD [OF e] map_of_SomeD [OF g(1)] t by (force simp: resolve_topology_def)
  then show ?thesis by (auto simp: arrows_def)
qed

text \<open>A run of the root graph stays among its declared nodes.\<close>

theorem root_run_declared:
  assumes "next_node to_str flag root_spec st n = Some (Node t)"
  shows "t \<in> set (rt_nodes (resolve_topology flag root_spec))"
  using next_node_arrow [OF assms] root_valid [of flag] unfolding validate_iff by blast

subsection \<open>Loops\<close>

text \<open>The conditions under which a run may come back to a node it has passed.\<close>

definition response_status :: "pydict \<Rightarrow> pyval" where
  "response_status st = (case dget_none ''response'' st of PDict r \<Rightarrow> dget_none ''status'' r | _ \<Rightarrow> PNone)"

definition may_retry :: "(pyval \<Rightarrow> string) \<Rightarrow> pydict \<Rightarrow> bool" where
  "may_retry to_str st \<longleftrightarrow> is_recoverable to_str (dget_none ''response'' st)
     \<and> py_less (dget_or ''retry_count'' (PInt 0) st) (PInt 1) = Some True"

definition steps_left :: "pydict \<Rightarrow> bool" where
  "steps_left st \<longleftrightarrow> (\<exists>steps i. list_or_empty ''plan'' st = Some steps \<and> step_index st = Some i \<and> i < int (length steps))"

definition loop_guard :: "(pyval \<Rightarrow> string) \<Rightarrow> pydict \<Rightarrow> string \<Rightarrow> bool" where
  "loop_guard to_str st n \<longleftrightarrow>
     n = ''validator'' \<and> (may_retry to_str st \<or> response_status st = PStr ''replan'')
     \<or> n = ''step_dispatcher'' \<and> steps_left st
     \<or> n = ''goap_goal'' \<and> dget_none ''goal_loop_decision'' st \<in> {PStr ''continue'', PStr ''retriage''}
     \<or> n = ''clarify_node'' \<and> \<not> truthy (dget_none ''response'' st)"

definition loop_edges :: "bool \<Rightarrow> (string \<times> string) list" where
  "loop_edges flag =
     [(''validator'', ''retry_node''), (''validator'', replan_entry flag), (''step_dispatcher'', ''context_check''),
      (''goap_goal'', planning_entry flag), (''goap_goal'', ''triage''), (''clarify_node'', planning_entry flag)]"

text \<open>An order of the nodes that all other edges follow.\<close>

definition node_order :: "string list" where
  "node_order =
     [''turn_init'', ''triage'', ''chat_node'', ''specialist_entry'', ''decompose'', ''embedder'', ''planner'', ''confirm_node'',
      ''clarify_node'', ''context_check'', ''retry_node'', ''step_resolver'', ''permission_gate'', ''builder'', ''wait_node'', ''executor'',
      ''validator'', ''step_dispatcher'', ''round_summary'', ''goap_goal'', ''summary_node'']"

definition node_rank :: "string \<Rightarrow> nat" where
  "node_rank n = length (takeWhile (\<lambda>m. m \<noteq> n) node_order)"

lemma edges_ordered: "list_all (\<lambda>(s, d, c). (s, d) \<in> set (loop_edges flag) \<or> node_rank s < node_rank d) (rt_edges (resolve_topology flag root_spec))"
  by (cases flag) (simp; code_simp)+

lemma next_of:
  "next_node to_str flag root_spec st ''validator'' = Some (Node t) \<Longrightarrow> \<exists>l. retry_router to_str st = Some l \<and>
     (l, t) \<in> {(''next_step'', ''step_dispatcher''), (''retry'', ''retry_node''), (''replan'', replan_entry flag), (''recover'', ''goap_goal'')}"
  "next_node to_str flag root_spec st ''step_dispatcher'' = Some (Node t) \<Longrightarrow> \<exists>l. more_steps_router st = Some l \<and>
     (l, t) \<in> {(''context_check'', ''context_check''), (''summary'', ''round_summary''), (''recover'', ''goap_goal'')}"
  "next_node to_str flag root_spec st ''goap_goal'' = Some (Node t) \<Longrightarrow>
     (goal_check_router st, t) \<in> {(''continue'', planning_entry flag), (''done'', ''summary_node''), (''retriage'', ''triage'')}"
  "next_node to_str flag root_spec st ''clarify_node'' = Some (Node t) \<Longrightarrow> clarify_router st = ''replan''"
  by (auto simp: next_node_def root_defs router_at_def router_table_def bind_eq_Some_conv target_of_def endpoint_of_def split: if_splits)

lemma entries:
  "planning_entry flag \<noteq> ''summary_node''" "replan_entry flag \<noteq> ''step_dispatcher''" "replan_entry flag \<noteq> ''goap_goal''"
  by (simp_all add: planning_entry_def replan_entry_def)

lemma retry_guard:
  assumes "retry_router to_str st = Some l" "l \<in> {''retry'', ''replan''}"
  shows "loop_guard to_str st ''validator''"
  using assms
  by (cases "dget_none ''response'' st")
    (auto simp: retry_router_def loop_guard_def may_retry_def response_status_def Let_def bind_eq_Some_conv split: if_splits)

lemma steps_guard: "more_steps_router st = Some ''context_check'' \<Longrightarrow> loop_guard to_str st ''step_dispatcher''"
  by (auto simp: more_steps_router_def loop_guard_def steps_left_def bind_eq_Some_conv Let_def split: if_splits)

lemma goal_guard: "goal_check_router st \<in> {''continue'', ''retriage''} \<Longrightarrow> loop_guard to_str st ''goap_goal''"
  by (auto simp: goal_check_router_def loop_guard_def dget_or_def Let_def split: if_splits option.splits)

lemma validator_loop:
  assumes "next_node to_str flag root_spec st ''validator'' = Some (Node t)" "t = ''retry_node'' \<or> t = replan_entry flag"
  shows "loop_guard to_str st ''validator''"
proof -
  from next_of(1) [OF assms(1)] obtain l where l: "retry_router to_str st = Some l"
    "(l, t) \<in> {(''next_step'', ''step_dispatcher''), (''retry'', ''retry_node''), (''replan'', replan_entry flag), (''recover'', ''goap_goal'')}" by blast
  then consider "t = ''step_dispatcher''" | "l \<in> {''retry'', ''replan''}" | "t = ''goap_goal''" by blast
  then have "l \<in> {''retry'', ''replan''}"
  proof cases
    case 1
    with assms(2) entries(2) [of flag] show ?thesis by simp
  next
    case 3
    with assms(2) entries(3) [of flag] show ?thesis by simp
  qed
  with l(1) show ?thesis by (rule retry_guard)
qed

lemma goal_loop_edge:
  assumes "next_node to_str flag root_spec st ''goap_goal'' = Some (Node t)" "t = planning_entry flag \<or> t = ''triage''"
  shows "loop_guard to_str st ''goap_goal''"
proof (rule goal_guard)
  show "goal_check_router st \<in> {''continue'', ''retriage''}" proof (cases "t = ''summary_node''")
    case True
    with assms(2) entries(1) [of flag] show ?thesis by simp
  next
    case False
    with next_of(3) [OF assms(1)] show ?thesis by blast
  qed
qed

lemma dispatcher_loop:
  "next_node to_str flag root_spec st ''step_dispatcher'' = Some (Node ''context_check'') \<Longrightarrow> loop_guard to_str st ''step_dispatcher''"
  using next_of(2) [of to_str flag st "''context_check''"] by (auto intro: steps_guard)

lemma clarify_loop: "next_node to_str flag root_spec st ''clarify_node'' = Some (Node t) \<Longrightarrow> loop_guard to_str st ''clarify_node''"
  using next_of(4) [of to_str flag st t] by (auto simp: clarify_router_def loop_guard_def split: if_splits)

lemma loop_edge_guarded:
  assumes "next_node to_str flag root_spec st n = Some (Node t)" "(n, t) \<in> set (loop_edges flag)"
  shows "loop_guard to_str st n"
  using assms(2) unfolding loop_edges_def list.set insert_iff empty_iff prod.inject
proof (elim disjE conjE)
  show ?thesis if "n = ''validator''" "t = ''retry_node''"
    using validator_loop assms(1) unfolding that by blast
  show ?thesis if "n = ''validator''" "t = replan_entry flag"
    using validator_loop assms(1) unfolding that by blast
  show ?thesis if "n = ''step_dispatcher''" "t = ''context_check''"
    using dispatcher_loop assms(1) unfolding that by blast
  show ?thesis if "n = ''goap_goal''" "t = planning_entry flag"
    using goal_loop_edge assms(1) unfolding that by blast
  show ?thesis if "n = ''goap_goal''" "t = ''triage''"
    using goal_loop_edge assms(1) unfolding that by blast
  show ?thesis if "n = ''clarify_node''" "t = planning_entry flag"
    using clarify_loop assms(1) unfolding that by blast
qed simp

text \<open>
  C15: Every loop of the root graph passes a guard: transitions taken in states where no guard holds never lead back.  The guards are
  a first retry of a recoverable failure, the envelope that asks for a new plan, steps that are left, the
  decision of the goal node, and a clarified question.
\<close>

theorem graph_loops_guarded:
  "acyclic {(n, t). \<exists>st. next_node to_str flag root_spec st n = Some (Node t) \<and> \<not> loop_guard to_str st n}"
proof (rule acyclic_subset [OF wf_acyclic [OF wf_measure]])
  have "node_rank n < node_rank t" if "next_node to_str flag root_spec st n = Some (Node t)" "\<not> loop_guard to_str st n" for st n t
    using next_node_arrow [OF that(1)] loop_edge_guarded [OF that(1)] that(2) edges_ordered [of flag]
    by (auto simp: arrows_def list_all_iff)
  then show "{(n, t). \<exists>st. next_node to_str flag root_spec st n = Some (Node t) \<and> \<not> loop_guard to_str st n} \<subseteq> measure node_rank"
    by auto
qed

text \<open>Both wirings can be built: with every dotted path importable, validation lets them pass.\<close>

theorem root_builds: "\<exists>g. build_from_spec (\<lambda>path. True) flag root_spec = Inr g \<and> wg_entry g = ''turn_init''"
proof -
  have none: "find (\<lambda>x. False) xs = None" for xs :: "'a list" by (simp add: find_None_iff)
  have entry: "gs_entry root_spec = ''turn_init''" by (simp add: root_spec_def)
  show ?thesis by (simp add: build_from_spec_def root_valid entry Let_def none)
qed

subsection \<open>Samples\<close>

lemma run_sample:
  "next_node to_str True root_spec [(''goal_loop_decision'', PStr ''continue'')] ''goap_goal'' = Some (Node ''decompose'')"
  "next_node to_str False root_spec [(''goal_loop_decision'', PStr ''continue'')] ''goap_goal'' = Some (Node ''embedder'')"
  by code_simp+

theorem root_run_declared_witness: "''decompose'' \<in> set (rt_nodes (resolve_topology True root_spec))"
  by (rule root_run_declared [OF run_sample(1)])

theorem root_routers_total_witness:
  "\<exists>r. router_at str_of ''core_graph.node.routers.retry_router'' = Some r
     \<and> (\<forall>st l. r st = Some l \<longrightarrow> l \<in> {''next_step'', ''retry'', ''replan'', ''halt'', ''recover''})"
proof -
  have "classic_branches ! 6 \<in> set (gs_conditional root_spec)" by (simp add: root_defs)
  from root_routers_total [OF this, of str_of] show ?thesis by (simp add: classic_branches_def branch_def)
qed

end
