(* ===== verification/GoalLoop.thy ===== *)
theory GoalLoop
  imports SeedWorld GraphRouters PlanSchedule
begin

text \<open>
  The pure functions of the goal loop, \<open>core_graph/goap/goal_loop.py\<close>: research notes, the facts a goal has achieved, the operations
  executed, what a round folds into the working memory, the state a turn starts from, and the decision to go on.
  \<open>json.dumps\<close> and \<open>str\<close> of values are arguments, and so is the order in which the code walks its set of verbs of one length.
  Lists the code defaults with \<open>or []\<close> are given; \<open>None\<close> is an exception (a route that is no string).  The
  statuses of results are hashable.
\<close>

subsection \<open>Research notes\<close>

definition str_text :: "(pyval \<Rightarrow> string) \<Rightarrow> pyval \<Rightarrow> string" where
  "str_text to_str v = (case v of PStr s \<Rightarrow> s | _ \<Rightarrow> to_str v)"

definition last_n :: "nat \<Rightarrow> 'a list \<Rightarrow> 'a list" where
  "last_n n xs = drop (length xs - n) xs"

definition nonblank_strs :: "pyval list \<Rightarrow> pyval list" where
  "nonblank_strs xs = filter (\<lambda>v. is_str v \<and> truthy v) xs"

definition append_research_note ::
  "(pyval \<Rightarrow> string) \<Rightarrow> (pyval \<Rightarrow> string) \<Rightarrow> int \<Rightarrow> nat \<Rightarrow> pyval list \<Rightarrow> int \<Rightarrow> pyval \<Rightarrow> pyval list \<Rightarrow> pyval list \<Rightarrow> pyval list" where
  "append_research_note dumps to_str max_notes per_note notes iteration directive ops results =
     (let note = PDict [(''iteration'', PInt iteration), (''directive'', PStr (take 500 (text_or_blank to_str directive))),
            (''ops'', PList (nonblank_strs ops)), (''findings'', PStr (take per_note (dumps (PList results))))];
          out = filter is_dict notes @ [note] in
      if max_notes > 0 \<and> int (length out) > max_notes then last_n (nat max_notes) out else out)"

definition note_text :: "(pyval \<Rightarrow> string) \<Rightarrow> pydict \<Rightarrow> string" where
  "note_text to_str n =
     (let or_value = (\<lambda>k e. let v = dget_none k n in if truthy v then v else e) in
      ''[round '' @ str_text to_str (dget_or ''iteration'' (PStr ''?'') n) @ ''] directive='' @ str_text to_str (or_value ''directive'' (PStr []))
      @ newline # ''ops='' @ str_text to_str (or_value ''ops'' (PList [])) @ newline # ''findings='' @ str_text to_str (or_value ''findings'' (PStr [])))"

definition format_research_notes :: "(pyval \<Rightarrow> string) \<Rightarrow> int \<Rightarrow> pyval list \<Rightarrow> string" where
  "format_research_notes to_str budget notes =
     (let text = join_with [newline, newline] (map (note_text to_str \<circ> dict_of) (filter is_dict notes)) in
      if budget > 0 \<and> int (length text) > budget then last_n (nat budget) text else text)"

subsection \<open>Goal facts\<close>

definition fact_achieved :: "world \<Rightarrow> string list \<Rightarrow> string \<Rightarrow> bool" where
  "fact_achieved w executed f =
     (if starts_with ''did:'' f then
        drop 4 f \<in> set executed \<or> strip_op_prefix (drop 4 f) \<in> set (map strip_op_prefix executed)
      else starts_with ''have:'' f \<and> has_fact w f)"

definition evaluate_goal_facts :: "pyval list \<Rightarrow> world \<Rightarrow> string list \<Rightarrow> string list \<times> string list" where
  "evaluate_goal_facts goal_facts w executed =
     (let facts = map str_of (filter is_str goal_facts) in
      (filter (fact_achieved w executed) facts, filter (\<lambda>f. \<not> fact_achieved w executed f) facts))"

definition world_from_memory :: "pydict \<Rightarrow> world" where
  "world_from_memory wm = build_seed_world [] wm []"

definition directive_line :: "string \<Rightarrow> string" where
  "directive_line f =
     (if starts_with ''did:'' f then ''- perform '' @ drop 4 f
      else if starts_with ''have:'' f then ''- obtain '' @ drop 5 f else ''- '' @ f)"

definition build_goal_directive :: "string list \<Rightarrow> string \<Rightarrow> string" where
  "build_goal_directive facts next_hint =
     (if facts = [] then next_hint
      else ''Complete the remaining sub-goals:'' @ newline # join_with [newline] (map directive_line facts)
        @ (if next_hint \<noteq> [] then newline # newline # ''Next step hint: '' @ next_hint else []))"

subsection \<open>Executed operations\<close>

definition step_failed :: "pyval \<Rightarrow> bool" where
  "step_failed res =
     (case res of
        PDict d \<Rightarrow> one_of [''error'', ''partial'', ''need_input''] (dget_none ''status'' d) \<or> has_key ''error'' d
      | _ \<Rightarrow> False)"

definition add_op :: "pyval \<Rightarrow> string list \<Rightarrow> string list" where
  "add_op op out = (case op of PStr s \<Rightarrow> (if s \<noteq> [] \<and> s \<notin> set out then out @ [s] else out) | _ \<Rightarrow> out)"

fun add_plan_ops :: "pyval list \<Rightarrow> pyval list \<Rightarrow> string list \<Rightarrow> string list" where
  "add_plan_ops [] results out = out"
| "add_plan_ops (step # steps) results out =
     add_plan_ops steps (tl results)
       (if is_dict step \<and> results \<noteq> [] \<and> hd results \<noteq> PNone \<and> \<not> step_failed (hd results)
        then add_op (dget_none ''operation_id'' (dict_of step)) out else out)"

definition add_result_op :: "pyval \<Rightarrow> string list \<Rightarrow> string list" where
  "add_result_op res out =
     (if is_dict res \<and> \<not> step_failed res then add_op (dget_none ''operation_id'' (dict_of res)) out else out)"

definition accumulate_executed_ops :: "pyval list \<Rightarrow> pyval list \<Rightarrow> pyval list \<Rightarrow> string list" where
  "accumulate_executed_ops prev steps results = fold add_result_op results (add_plan_ops steps results (fold add_op prev []))"

subsection \<open>Fetched ids\<close>

primrec texts_of :: "pyval \<Rightarrow> string list" where
  "texts_of PNone = []"
| "texts_of (PBool b) = []"
| "texts_of (PInt i) = []"
| "texts_of (PFloat r) = []"
| "texts_of (PStr s) = [s]"
| "texts_of (PList xs) = concat (map texts_of xs)"
| "texts_of (PDict d) = concat (map snd (map (map_prod id texts_of) d))"

definition fetch_texts :: "pyval \<Rightarrow> string list" where
  "fetch_texts res =
     (case res of
        PDict d \<Rightarrow>
          (case dget_none ''results'' d of
             PList xs \<Rightarrow> texts_of (PList xs)
           | _ \<Rightarrow> (case dget_none ''data'' d of
               PDict e \<Rightarrow> (if is_list (dget_none ''results'' e) then [] else texts_of (PDict e))
             | _ \<Rightarrow> []))
      | _ \<Rightarrow> [])"

definition plain_id :: "string \<Rightarrow> string" where
  "plain_id s = lower (replace_all ''-'' [] s)"

definition collect_fetched_ids :: "(pyval \<Rightarrow> string) \<Rightarrow> pyval list \<Rightarrow> pyval list \<Rightarrow> string list" where
  "collect_fetched_ids to_str results candidate_ids =
     (let cands = map (str_text to_str) (filter truthy candidate_ids);
          blobs = map plain_id (concat (map fetch_texts results)) in
      dedup (filter (\<lambda>c. plain_id c \<noteq> [] \<and> list_ex (contains (plain_id c)) blobs) cands))"

subsection \<open>The state of a turn\<close>

definition get_or :: "string \<Rightarrow> pyval \<Rightarrow> pydict \<Rightarrow> pyval" where
  "get_or k e d = (let v = dget_none k d in if truthy v then v else e)"

definition reset_turn_fragment :: "int \<Rightarrow> pydict \<Rightarrow> pydict" where
  "reset_turn_fragment default_max st =
     [(''plan'', PList []), (''candidate_pool'', get_or ''candidate_pool'' (PList []) st), (''candidates'', PList []),
      (''current_step_index'', PInt 0), (''step_results'', PList []), (''response'', PNone), (''retry_count'', PInt 0), (''selected'', PNone),
      (''parallel_groups'', PList []), (''yaml_workflow'', PStr []), (''instruction_set'', PList []), (''workflow_plan_id'', PNone),
      (''payload'', PNone), (''resolved_args'', PNone), (''unresolved_required'', PList []), (''summary'', PNone), (''iterations'', PInt 0),
      (''max_iterations'', get_or ''max_iterations'' (PInt default_max) st), (''working_memory'', get_or_empty ''working_memory'' st),
      (''pre_round_memory'', PNone), (''goal'', dget_none ''goal'' st), (''original_query'', dget_none ''user_query'' st),
      (''research_notes'', PList []), (''artifacts'', PList []), (''replan_context'', PList []), (''last_failure'', PNone),
      (''seed_values'', dget_none ''seed_values'' st), (''token_usage'', get_or_empty ''token_usage'' st), (''goal_facts'', PList []),
      (''remaining_goal_facts'', PList []), (''achieved_facts'', PList []), (''executed_op_ids'', PList []), (''fanout_target'', PNone),
      (''goal_loop_decision'', PNone), (''retriage_count'', PInt 0), (''retriage_context'', PNone), (''sub_tasks'', PNone),
      (''decompose_intent'', PNone), (''decompose_seed_values'', PDict [])]"

subsection \<open>Working memory\<close>

text \<open>\<open>re.sub\<close> of \<open>^(GET|POST|PUT|PATCH|DELETE|CALL)\s+\<close>.\<close>

definition drop_verb :: "string \<Rightarrow> string" where
  "drop_verb route =
     (case find (\<lambda>v. starts_with v (lower route) \<and> drop (length v) route \<noteq> [] \<and> is_ws (hd (drop (length v) route)))
        [''get'', ''post'', ''put'', ''patch'', ''delete'', ''call''] of
        Some v \<Rightarrow> dropWhile is_ws (drop (length v) route)
      | None \<Rightarrow> route)"

definition last_segment :: "string \<Rightarrow> string" where
  "last_segment route =
     (if CHR ''/'' \<in> set route then
        (let segments = filter (\<lambda>s. s \<noteq> []) (split_on (CHR ''/'') route);
             static = filter (\<lambda>s. \<not> (starts_with ''{'' s \<or> starts_with '':'' s)) segments in
         if static \<noteq> [] then last static else last segments)
      else route)"

definition is_sep :: "char \<Rightarrow> bool" where
  "is_sep c = (c = CHR ''_'' \<or> c = CHR ''-'')"

fun route_noun :: "string \<Rightarrow> string list \<Rightarrow> string" where
  "route_noun base [] = []"
| "route_noun base (verb # verbs) =
     (let n = length verb; k = length base - n in
      if starts_with verb (lower base) \<and> length base = n then []
      else if starts_with verb (lower base) \<and> (is_sep (base ! n) \<or> is_upper (base ! n)) then lstrip_of ''_-'' (drop n base)
      else if ends_with verb (lower base) \<and> length base = n then []
      else if ends_with verb (lower base) \<and> (is_sep (base ! (k - 1)) \<or> is_upper (base ! k)) then rstrip_of ''_-'' (take k base)
      else route_noun base verbs)"

text \<open>A route of slashes only has no last segment, and the code raises \<open>IndexError\<close>.\<close>

definition derive_resource_from_route :: "string list \<Rightarrow> string \<Rightarrow> string option" where
  "derive_resource_from_route verbs route =
     (let r = strip (drop_verb route) in
      if route = [] \<or> r = [] then Some []
      else if list_all (\<lambda>c. c = CHR ''/'') r then None
      else
        (let base = proxy_stripped (last_segment r);
             noun = route_noun base verbs;
             n = map (\<lambda>c. if c = CHR ''-'' then CHR ''_'' else c) (lower (if noun = [] then base else noun)) in
         Some (if ends_with ''s'' n then butlast n else n)))"

definition is_scalar :: "pyval \<Rightarrow> bool" where
  "is_scalar v = (case v of PStr _ \<Rightarrow> True | PInt _ \<Rightarrow> True | PFloat _ \<Rightarrow> True | PBool _ \<Rightarrow> True | _ \<Rightarrow> False)"

definition sub_dicts :: "pydict \<Rightarrow> pydict list" where
  "sub_dicts result = result # map dict_of (filter is_dict [dget_none ''data'' result, dget_none ''result'' result])"

definition fold_entry :: "pydict \<Rightarrow> string \<times> pyval \<Rightarrow> pydict \<Rightarrow> pydict" where
  "fold_entry wm kv mem =
     (case kv of (k, v) \<Rightarrow>
        if has_key k wm \<or> is_scalar v \<and> ends_with ''_id'' k then dset k v mem else mem)"

definition list_envelopes :: "pydict \<Rightarrow> pyval list list" where
  "list_envelopes result =
     map list_of (filter is_list (map (\<lambda>k. dget_none k result) [''results'', ''items'', ''data'']
       @ (case dget_none ''data'' result of PDict d \<Rightarrow> map (\<lambda>k. dget_none k d) [''results'', ''items''] | _ \<Rightarrow> [])))"

definition id_name :: "string \<Rightarrow> bool" where
  "id_name k = (lower k \<in> set id_aliases \<or> ends_with ''_id'' (lower k))"

definition qualified_key :: "string \<Rightarrow> string \<Rightarrow> string \<Rightarrow> bool" where
  "qualified_key resource route k =
     (let prefix = lower (take (length k - 3) k) in
      ends_with ''_id'' k \<and> (contains prefix resource \<or> contains resource prefix \<or> contains prefix (lower route)
        \<or> prefix = ''page'' \<and> contains ''notion'' (lower route)))"

definition promote_entry :: "pydict \<Rightarrow> string \<Rightarrow> string \<Rightarrow> string \<times> pyval \<Rightarrow> pydict \<Rightarrow> pydict" where
  "promote_entry wm resource route kv mem =
     (case kv of (k, v) \<Rightarrow>
        if is_scalar v \<and> (id_name k \<or> lower k = ''url'') then
          (let m1 = dset k v mem in
           if lower k = ''url'' then m1
           else let m2 = (if resource \<noteq> [] then dset (resource @ ''_id'') v m1 else m1) in
             fold (\<lambda>q m. dset q v m) (filter (qualified_key resource route) (map fst wm)) m2)
        else mem)"

definition elem_ids :: "pyval \<Rightarrow> string list" where
  "elem_ids e = map (str_of \<circ> snd) (filter (\<lambda>(k, v). is_str v \<and> truthy v \<and> id_name k) (dict_of e))"

definition all_ids :: "pyval list \<Rightarrow> string list" where
  "all_ids xs = dedup (concat (map elem_ids xs))"

definition store_ids :: "string \<Rightarrow> string \<Rightarrow> string list \<Rightarrow> pydict \<Rightarrow> pydict" where
  "store_ids resource route ids mem =
     (let v = PList (map PStr ids);
          keys = ''ids'' # (if resource \<noteq> [] then [resource @ ''_ids''] else [])
            @ (if contains ''notion'' (lower route) then [''page_ids'', ''notion_ids''] else []) in
      if ids = [] then mem else fold (\<lambda>k m. dset k v m) keys mem)"

definition fold_envelope :: "string list \<Rightarrow> pydict \<Rightarrow> pydict \<Rightarrow> pyval list \<Rightarrow> pydict \<Rightarrow> pydict option" where
  "fold_envelope verbs wm result xs mem =
     (case xs of
        PDict first # _ \<Rightarrow>
          (case get_or ''route'' (get_or ''operation_id'' (PStr []) result) result of
             PStr route \<Rightarrow>
               map_option (\<lambda>resource. store_ids resource route (all_ids xs) (fold (promote_entry wm resource route) first mem))
                 (derive_resource_from_route verbs route)
           | _ \<Rightarrow> None)
      | _ \<Rightarrow> Some mem)"

definition fold_result :: "string list \<Rightarrow> pydict \<Rightarrow> pyval \<Rightarrow> pydict \<Rightarrow> pydict option" where
  "fold_result verbs wm result mem =
     (case result of
        PDict r \<Rightarrow> ofold (fold_envelope verbs wm r) (list_envelopes r) (fold (fold_entry wm) (concat (sub_dicts r)) mem)
      | _ \<Rightarrow> Some mem)"

definition fold_working_memory :: "string list \<Rightarrow> pydict \<Rightarrow> pyval list \<Rightarrow> pydict option" where
  "fold_working_memory verbs wm results = ofold (fold_result verbs wm) results wm"

definition route_verbs :: "string list" where
  "route_verbs = [''create'', ''update'', ''delete'', ''search'', ''fetch'', ''patch'', ''list'', ''send'', ''find'', ''post'', ''get'', ''add'', ''put'']"

subsection \<open>The decision\<close>

definition parse_goal_check :: "(pyval \<Rightarrow> string) \<Rightarrow> pyval \<Rightarrow> bool \<times> string \<times> string" where
  "parse_goal_check to_str parsed =
     (case parsed of
        PDict (x # xs) \<Rightarrow>
          (let d = x # xs in
           (truthy (dget_none ''done'' d), text_or_blank to_str (dget_none ''reason'' d), text_or_blank to_str (dget_none ''next_hint'' d)))
      | _ \<Rightarrow> (False, [], []))"

definition decide_goal_loop :: "pyval \<Rightarrow> int \<Rightarrow> int \<Rightarrow> bool \<Rightarrow> string" where
  "decide_goal_loop goal iterations max_iterations is_done =
     (if \<not> truthy goal \<or> is_done \<or> iterations \<ge> max_iterations then ''done'' else ''continue'')"

subsection \<open>What a round adds to the memory\<close>

text \<open>The values a result offers: its scalars and sub-dictionaries, the elements of its lists, and the ids of a list.\<close>

definition offers :: "pyval \<Rightarrow> pyval \<Rightarrow> bool" where
  "offers res v \<longleftrightarrow> (\<exists>r. res = PDict r \<and>
     ((\<exists>d\<in>set (sub_dicts r). v \<in> snd ` set d)
      \<or> (\<exists>xs\<in>set (list_envelopes r). (\<exists>e\<in>set xs. v \<in> snd ` set (dict_of e)) \<or> v = PList (map PStr (all_ids xs)))))"

definition grown :: "pydict \<Rightarrow> (pyval \<Rightarrow> bool) \<Rightarrow> pydict \<Rightarrow> bool" where
  "grown wm P mem \<longleftrightarrow> (\<forall>k. has_key k wm \<longrightarrow> has_key k mem) \<and> (\<forall>k v. dget k mem = Some v \<longrightarrow> dget k wm = Some v \<or> P v)"

lemma grown_dset: "grown wm P mem \<Longrightarrow> P v \<Longrightarrow> grown wm P (dset k v mem)"
  by (auto simp: grown_def has_key_def)

lemma grown_fold: "grown wm P mem \<Longrightarrow> (\<And>x m. x \<in> set xs \<Longrightarrow> grown wm P m \<Longrightarrow> grown wm P (f x m)) \<Longrightarrow> grown wm P (fold f xs mem)"
  by (induction xs arbitrary: mem) auto

lemma grown_dsets: "grown wm P mem \<Longrightarrow> P v \<Longrightarrow> grown wm P (fold (\<lambda>k m. dset k v m) ks mem)"
  by (rule grown_fold) (simp_all add: grown_dset)

lemma grown_entry: "grown wm P mem \<Longrightarrow> P (snd kv) \<Longrightarrow> grown wm P (fold_entry wm0 kv mem)"
  by (cases kv) (auto simp: fold_entry_def grown_dset)

lemma grown_promote:
  assumes "grown wm P mem" "P (snd kv)"
  shows "grown wm P (promote_entry wm0 resource route kv mem)"
proof -
  obtain k v where kv: "kv = (k, v)" by force
  let ?m = "dset k v mem"
  have 1: "grown wm P ?m" using assms kv by (simp add: grown_dset)
  then have 2: "grown wm P (if resource \<noteq> [] then dset (resource @ ''_id'') v ?m else ?m)" using assms(2) kv by (simp add: grown_dset)
  have 3: "grown wm P (fold (\<lambda>q m. dset q v m) ks (if resource \<noteq> [] then dset (resource @ ''_id'') v ?m else ?m))" for ks
    by (rule grown_dsets [OF 2]) (use assms(2) kv in simp)
  show ?thesis unfolding kv promote_entry_def case_prod_conv Let_def using assms(1) 1 3 by (simp only: split: if_split) blast
qed

lemma grown_envelope:
  assumes "fold_envelope verbs wm0 r xs mem = Some mem'" "grown wm P mem" "xs \<in> set (list_envelopes r)"
    and "\<And>v. offers (PDict r) v \<Longrightarrow> P v"
  shows "grown wm P mem'"
proof (cases "\<exists>first rest route. xs = PDict first # rest \<and> get_or ''route'' (get_or ''operation_id'' (PStr []) r) r = PStr route")
  case True
  then obtain first rest route where x: "xs = PDict first # rest" "get_or ''route'' (get_or ''operation_id'' (PStr []) r) r = PStr route" by blast
  with assms(1) obtain resource where m: "mem' = store_ids resource route (all_ids xs) (fold (promote_entry wm0 resource route) first mem)"
    by (auto simp: fold_envelope_def)
  have "P (snd kv)" if "kv \<in> set first" for kv
  proof (rule assms(4))
    have "\<exists>e\<in>set xs. snd kv \<in> snd ` set (dict_of e)" using that x(1) by (intro bexI [of _ "PDict first"]) auto
    then show "offers (PDict r) (snd kv)" using assms(3) unfolding offers_def by blast
  qed
  then have "grown wm P (fold (promote_entry wm0 resource route) first mem)" using assms(2) by (intro grown_fold grown_promote) auto
  moreover have "P (PList (map PStr (all_ids xs)))" by (rule assms(4)) (use assms(3) in \<open>auto simp: offers_def\<close>)
  ultimately show ?thesis unfolding m store_ids_def Let_def by (simp add: grown_dsets del: fold.simps)
next
  case False
  with assms(1) have "mem' = mem" by (auto simp: fold_envelope_def split: list.splits pyval.splits)
  with assms(2) show ?thesis by simp
qed

lemma grown_result:
  assumes "fold_result verbs wm0 res mem = Some mem'" "grown wm P mem" "\<And>v. offers res v \<Longrightarrow> P v"
  shows "grown wm P mem'"
proof (cases res)
  case (PDict r)
  let ?m = "fold (fold_entry wm0) (concat (sub_dicts r)) mem"
  have "P (snd kv)" if "kv \<in> set (concat (sub_dicts r))" for kv
    by (rule assms(3)) (use that PDict in \<open>auto simp: offers_def\<close>)
  then have m: "grown wm P ?m" using assms(2) by (intro grown_fold grown_entry) auto
  from assms(1) PDict have "ofold (fold_envelope verbs wm0 r) (list_envelopes r) ?m = Some mem'" by (simp add: fold_result_def)
  then show ?thesis
    by (rule ofold_induct [of _ _ _ _ "grown wm P"]) (use m grown_envelope assms(3) PDict in blast)+
qed (use assms in \<open>simp_all add: fold_result_def\<close>)

text \<open>
  C22: Folding a round into the working memory forgets no key and makes nothing up: a value of the new memory was there under the
  same key or is offered by a result of the round.
\<close>

theorem memory_grows_from_results:
  assumes "fold_working_memory verbs wm results = Some mem"
  shows "(\<forall>k. has_key k wm \<longrightarrow> has_key k mem)
     \<and> (\<forall>k v. dget k mem = Some v \<longrightarrow> dget k wm = Some v \<or> (\<exists>res\<in>set results. offers res v))"
proof -
  let ?P = "\<lambda>v. \<exists>res\<in>set results. offers res v"
  have "grown wm ?P mem"
    by (rule ofold_induct [OF assms [unfolded fold_working_memory_def], of "grown wm ?P"])
      (auto simp: grown_def [of wm ?P wm] intro: grown_result)
  then show ?thesis by (simp add: grown_def)
qed

text \<open>An unknown route names no resource, the empty name is part of every prefix, and so every id in memory is overwritten.\<close>

lemma unknown_route_overwrites_ids:
  "fold_working_memory route_verbs [(''user_id'', PStr ''u''), (''page_id'', PStr ''p'')]
     [PDict [(''results'', PList [PDict [(''id'', PStr ''x'')]])]]
   = Some [(''user_id'', PStr ''x''), (''page_id'', PStr ''x''), (''id'', PStr ''x''), (''ids'', PList [PStr ''x''])]"
  by code_simp

theorem memory_grows_from_results_witness:
  "has_key ''user_id'' [(''user_id'', PStr ''x''), (''page_id'', PStr ''x''), (''id'', PStr ''x''), (''ids'', PList [PStr ''x''])]
   \<and> offers (PDict [(''results'', PList [PDict [(''id'', PStr ''x'')]])]) (PStr ''x'')"
proof -
  have "has_key ''user_id'' [(''user_id'', PStr ''u''), (''page_id'', PStr ''p'')]"
    "dget ''id'' [(''user_id'', PStr ''x''), (''page_id'', PStr ''x''), (''id'', PStr ''x''), (''ids'', PList [PStr ''x''])] = Some (PStr ''x'')"
    "dget ''id'' [(''user_id'', PStr ''u''), (''page_id'', PStr ''p'')] = None"
    by code_simp+
  with memory_grows_from_results [OF unknown_route_overwrites_ids] show ?thesis by fastforce
qed

subsection \<open>What counts as done\<close>

definition ran_ok :: "pyval list \<Rightarrow> pyval list \<Rightarrow> string \<Rightarrow> bool" where
  "ran_ok steps results op \<longleftrightarrow> op \<noteq> [] \<and>
     ((\<exists>i<length steps. i < length results \<and> results ! i \<noteq> PNone \<and> \<not> step_failed (results ! i) \<and> is_dict (steps ! i)
         \<and> dget_none ''operation_id'' (dict_of (steps ! i)) = PStr op)
      \<or> (\<exists>res\<in>set results. is_dict res \<and> \<not> step_failed res \<and> dget_none ''operation_id'' (dict_of res) = PStr op))"

lemma set_add_op: "set (add_op v out) = set out \<union> {s. v = PStr s \<and> s \<noteq> []}"
  by (cases v) (auto simp: add_op_def)

lemma distinct_add_op: "distinct out \<Longrightarrow> distinct (add_op v out)"
  by (cases v) (auto simp: add_op_def)

lemma set_add_plan_ops:
  "set (add_plan_ops steps results out) = set out \<union> {s. s \<noteq> [] \<and> (\<exists>i<length steps. i < length results \<and> results ! i \<noteq> PNone
     \<and> \<not> step_failed (results ! i) \<and> is_dict (steps ! i) \<and> dget_none ''operation_id'' (dict_of (steps ! i)) = PStr s)}"
proof (induction steps results out rule: add_plan_ops.induct)
  case (2 step steps results out)
  have split: "(\<exists>i<length (step # steps). i < length results \<and> Q (results ! i) ((step # steps) ! i))
    \<longleftrightarrow> (results \<noteq> [] \<and> Q (hd results) step) \<or> (\<exists>i<length steps. i < length (tl results) \<and> Q (tl results ! i) (steps ! i))" for Q
    by (cases results) (auto simp: less_Suc_eq_0_disj)
  show ?case
    unfolding add_plan_ops.simps "2" split [of "\<lambda>r s. r \<noteq> PNone \<and> \<not> step_failed r \<and> is_dict s \<and> dget_none ''operation_id'' (dict_of s) = PStr _"]
    by (auto simp: set_add_op)
qed simp

lemma set_fold_add_op: "set (fold add_op vs out) = set out \<union> {s. PStr s \<in> set vs \<and> s \<noteq> []}"
  by (induction vs arbitrary: out) (auto simp: set_add_op)

lemma set_fold_result_ops:
  "set (fold add_result_op results out) = set out \<union> {s. s \<noteq> [] \<and> (\<exists>res\<in>set results. is_dict res \<and> \<not> step_failed res
     \<and> dget_none ''operation_id'' (dict_of res) = PStr s)}"
  by (induction results arbitrary: out) (auto simp: add_result_op_def set_add_op)

lemma distinct_add_plan_ops: "distinct out \<Longrightarrow> distinct (add_plan_ops steps results out)"
  by (induction steps results out rule: add_plan_ops.induct) (simp add: distinct_add_op)+

lemma distinct_folds: "distinct out \<Longrightarrow> distinct (fold add_op vs out)" "distinct out \<Longrightarrow> distinct (fold add_result_op rs out)"
proof -
  show "distinct out \<Longrightarrow> distinct (fold add_op vs out)" by (induction vs arbitrary: out) (simp_all add: distinct_add_op)
  show "distinct out \<Longrightarrow> distinct (fold add_result_op rs out)"
    by (induction rs arbitrary: out) (simp_all add: add_result_op_def distinct_add_op)
qed

lemma executed_ops_member:
  "op \<in> set (accumulate_executed_ops prev steps results) \<longleftrightarrow> op \<noteq> [] \<and> PStr op \<in> set prev \<or> ran_ok steps results op"
  unfolding accumulate_executed_ops_def ran_ok_def by (auto simp: set_fold_result_ops set_add_plan_ops set_fold_add_op)

lemma executed_ops_distinct: "distinct (accumulate_executed_ops prev steps results)"
  unfolding accumulate_executed_ops_def by (intro distinct_folds(2) distinct_add_plan_ops distinct_folds(1)) simp

text \<open>The operations executed are those of earlier rounds and those a successful result stands for, each once.\<close>

theorem executed_ops_succeeded:
  "distinct (accumulate_executed_ops prev steps results) \<and>
   (op \<in> set (accumulate_executed_ops prev steps results) \<longleftrightarrow> op \<noteq> [] \<and> PStr op \<in> set prev \<or> ran_ok steps results op)"
  by (simp add: executed_ops_distinct executed_ops_member)

lemma memory_facts:
  assumes "''have:'' @ k \<in> world_from_memory wm"
  shows "has_key k wm \<or> k = ''id'' \<and> (\<exists>k'. has_key k' wm \<and> lower k' \<in> set id_aliases)"
proof -
  have none: "sanitize_seed_values [] wm = []" by (simp add: sanitize_seed_values_def)
  have w: "world_from_memory wm = set (key_facts wm) \<union> (if \<exists>f\<in>set (key_facts wm). id_alias_fact f then {''have:id''} else {})"
    unfolding world_from_memory_def build_seed_world_def none set_seed_facts by (auto simp: key_facts_def)
  show ?thesis
  proof (cases "''have:'' @ k \<in> set (key_facts wm)")
    case True
    then show ?thesis by (simp only: key_facts_iff simp_thms)
  next
    case False
    with assms w have id: "''have:'' @ k = ''have:id''" "\<exists>f\<in>set (key_facts wm). id_alias_fact f" by (auto split: if_splits)
    then obtain k' where "''have:'' @ k' \<in> set (key_facts wm)" "id_alias_fact (''have:'' @ k')" by (auto simp: key_facts_def)
    then have "has_key k' wm" "lower k' \<in> set id_aliases" by (simp_all only: key_facts_iff) (simp add: id_alias_fact_def)
    then show ?thesis using id(1) by auto
  qed
qed

text \<open>
  C23: Goal facts split into achieved and remaining ones; a fact \<open>did:op\<close> counts as achieved only if an operation with that
  name, up to a proxy prefix, ran in an earlier round or succeeded in this one; \<open>have:x\<close> counts only if the memory holds \<open>x\<close>, with the
  one exception that \<open>have:id\<close> also counts when the memory holds an alias of \<open>id\<close> such as \<open>user_id\<close>.
\<close>

theorem achieved_facts_grounded:
  assumes "evaluate_goal_facts goal_facts (world_from_memory wm) (accumulate_executed_ops prev steps results) = (achieved, remaining)"
  shows "set achieved \<union> set remaining = {f. PStr f \<in> set goal_facts} \<and> set achieved \<inter> set remaining = {}
     \<and> (\<forall>f\<in>set achieved. (\<exists>op op'. f = ''did:'' @ op \<and> (op' = op \<or> strip_op_prefix op' = strip_op_prefix op)
          \<and> (PStr op' \<in> set prev \<or> ran_ok steps results op'))
        \<or> (\<exists>k. f = ''have:'' @ k \<and> (has_key k wm \<or> k = ''id'' \<and> (\<exists>k'. has_key k' wm \<and> lower k' \<in> set id_aliases))))"
proof -
  let ?ex = "accumulate_executed_ops prev steps results" and ?facts = "map str_of (filter is_str goal_facts)"
  have split: "achieved = filter (fact_achieved (world_from_memory wm) ?ex) ?facts"
    "remaining = filter (\<lambda>f. \<not> fact_achieved (world_from_memory wm) ?ex f) ?facts"
    using assms by (auto simp: evaluate_goal_facts_def Let_def)
  have "f \<in> set ?facts \<longleftrightarrow> PStr f \<in> set goal_facts" for f by (force elim: is_str.elims)
  then have facts: "set ?facts = {f. PStr f \<in> set goal_facts}" by blast
  have ex: "PStr op \<in> set prev \<or> ran_ok steps results op" if "op \<in> set ?ex" for op
    using executed_ops_member [of op prev steps results] that by blast
  have "(\<exists>op op'. f = ''did:'' @ op \<and> (op' = op \<or> strip_op_prefix op' = strip_op_prefix op) \<and> op' \<in> set ?ex)
      \<or> (\<exists>k. f = ''have:'' @ k \<and> ''have:'' @ k \<in> world_from_memory wm)"
    if f: "fact_achieved (world_from_memory wm) ?ex f" for f
  proof (cases "starts_with ''did:'' f")
    case True
    then obtain op where op: "f = ''did:'' @ op" by (auto simp: starts_with_iff)
    with f True have "op \<in> set ?ex \<or> strip_op_prefix op \<in> strip_op_prefix ` set ?ex" by (simp add: fact_achieved_def)
    then obtain op' where "op' \<in> set ?ex" "op' = op \<or> strip_op_prefix op' = strip_op_prefix op" by auto
    with op show ?thesis by blast
  next
    case False
    with f have h: "starts_with ''have:'' f" "f \<in> world_from_memory wm" by (simp_all add: fact_achieved_def has_fact_def del: starts_have)
    then obtain k where "f = ''have:'' @ k" by (simp only: starts_have) blast
    with h(2) show ?thesis by blast
  qed
  note grounded = this
  have "(\<exists>op op'. f = ''did:'' @ op \<and> (op' = op \<or> strip_op_prefix op' = strip_op_prefix op)
          \<and> (PStr op' \<in> set prev \<or> ran_ok steps results op'))
        \<or> (\<exists>k. f = ''have:'' @ k \<and> (has_key k wm \<or> k = ''id'' \<and> (\<exists>k'. has_key k' wm \<and> lower k' \<in> set id_aliases)))"
    if "f \<in> set achieved" for f
  proof -
    from that have "fact_achieved (world_from_memory wm) ?ex f" by (simp add: split(1))
    from grounded [OF this] show ?thesis
    proof (rule disjE)
      assume "\<exists>op op'. f = ''did:'' @ op \<and> (op' = op \<or> strip_op_prefix op' = strip_op_prefix op) \<and> op' \<in> set ?ex"
      then show ?thesis by (elim exE conjE) (rule disjI1, rule exI, rule exI, rule conjI, assumption, rule conjI, assumption, erule ex)
    next
      assume "\<exists>k. f = ''have:'' @ k \<and> ''have:'' @ k \<in> world_from_memory wm"
      then show ?thesis by (elim exE conjE) (rule disjI2, rule exI, rule conjI, assumption, erule memory_facts)
    qed
  qed
  then have "\<forall>f\<in>set achieved. (\<exists>op op'. f = ''did:'' @ op \<and> (op' = op \<or> strip_op_prefix op' = strip_op_prefix op)
          \<and> (PStr op' \<in> set prev \<or> ran_ok steps results op'))
        \<or> (\<exists>k. f = ''have:'' @ k \<and> (has_key k wm \<or> k = ''id'' \<and> (\<exists>k'. has_key k' wm \<and> lower k' \<in> set id_aliases)))"
    by (rule ballI)
  moreover have "set achieved \<union> set remaining = set ?facts \<and> set achieved \<inter> set remaining = {}"
    unfolding split set_filter by blast
  ultimately show ?thesis unfolding facts by blast
qed

definition goal_steps :: "pyval list" where
  "goal_steps = [PDict [(''operation_id'', PStr ''proxy__find'')], PDict [(''operation_id'', PStr ''publish'')]]"

definition goal_results :: "pyval list" where
  "goal_results = [PDict [(''status'', PStr ''ok'')], PDict [(''status'', PStr ''error'')]]"

lemma goal_facts_sample:
  "evaluate_goal_facts [PStr ''did:find'', PStr ''did:publish'', PStr ''have:x''] (world_from_memory [(''x'', PInt 1)])
     (accumulate_executed_ops [] goal_steps goal_results) = ([''did:find'', ''have:x''], [''did:publish''])"
  by code_simp

theorem achieved_facts_grounded_witness:
  "set [''did:find'', ''have:x''] \<union> set [''did:publish''] = {f. PStr f \<in> set [PStr ''did:find'', PStr ''did:publish'', PStr ''have:x'']}
     \<and> set [''did:find'', ''have:x''] \<inter> set [''did:publish''] = {}"
  using achieved_facts_grounded [OF goal_facts_sample] by (elim conjE) (rule conjI)

subsection \<open>Bounds\<close>

lemma length_last_n: "length (last_n n xs) = min n (length xs)"
  by (simp add: last_n_def)

text \<open>Notes stay within their number and the prompt within its budget.\<close>

lemma research_notes_bounded:
  "max_notes > 0 \<Longrightarrow> int (length (append_research_note dumps to_str max_notes per_note notes i directive ops results)) \<le> max_notes"
  "budget > 0 \<Longrightarrow> int (length (format_research_notes to_str budget notes)) \<le> budget"
  by (auto simp: append_research_note_def format_research_notes_def Let_def length_last_n)

text \<open>A fetched id is one of the candidates, each once.\<close>

lemma fetched_ids_known:
  "distinct (collect_fetched_ids to_str results ids)"
  "set (collect_fetched_ids to_str results ids) \<subseteq> str_text to_str ` {v \<in> set ids. truthy v}"
proof -
  have "distinct (dedup xs)" for xs :: "'a list" by (induction xs) auto
  then show "distinct (collect_fetched_ids to_str results ids)" by (simp add: collect_fetched_ids_def Let_def)
  show "set (collect_fetched_ids to_str results ids) \<subseteq> str_text to_str ` {v \<in> set ids. truthy v}"
    by (auto simp: collect_fetched_ids_def Let_def)
qed

text \<open>A new turn starts without plan, results, notes or goal facts, but the number of replans is not among the reset fields.\<close>

lemma turn_reset:
  "dget ''iterations'' (reset_turn_fragment n st) = Some (PInt 0)" "dget ''goal_loop_decision'' (reset_turn_fragment n st) = Some PNone"
  "dget ''replan_count'' (reset_turn_fragment n st) = None" "dget ''repeat_failure_count'' (reset_turn_fragment n st) = None"
  by (simp_all add: reset_turn_fragment_def dget_def)

end
