(* ===== verification/ReplanControl.thy ===== *)
theory ReplanControl
  imports GoalLoop Fanout
begin

text \<open>
  Retries and replans: the confidence gate and the empty-result test of \<open>core_graph/node/helpers/gating.py\<close>, the failure records and the
  reset of \<open>helpers/replan.py\<close>, and the node \<open>validator_node\<close> of \<open>node/validator.py\<close>.  A node gives the fields of the state it
  changes, \<open>update\<close> writes them.  Thresholds, the replan limit and \<open>str\<close> of values are arguments; the record
  of anti-patterns, which the code fires and forgets, is left out.  \<open>None\<close> is an exception.
\<close>

definition update :: "pydict \<Rightarrow> pydict \<Rightarrow> pydict" where
  "update st upd = fold (\<lambda>(k, v) s. dset k v s) upd st"

definition int_or_zero :: "string \<Rightarrow> pydict \<Rightarrow> int option" where
  "int_or_zero k st = int_of_py (dget_or k (PInt 0) st)"

subsection \<open>Gates\<close>

definition compute_gate :: "nat \<Rightarrow> rat \<Rightarrow> rat \<Rightarrow> rat \<Rightarrow> rat option \<Rightarrow> nat \<Rightarrow> rat \<times> string" where
  "compute_gate long_chain execute confirm pgvector_score llm_score step_count =
     (let llm = (case llm_score of None \<Rightarrow> pgvector_score | Some s \<Rightarrow> if s = 0 then pgvector_score else s);
          confidence = pgvector_score * (6 / 10) + llm * (4 / 10) in
      (confidence,
       if step_count > long_chain then ''confirm''
       else if confidence > execute then ''execute''
       else if confidence \<ge> confirm then ''confirm''
       else ''clarify''))"

definition normalize_param_name :: "string \<Rightarrow> string" where
  "normalize_param_name s = filter (\<lambda>c. is_lower c \<or> is_digit c) (lower s)"

definition detect_failed_params :: "string \<Rightarrow> string list \<Rightarrow> string list" where
  "detect_failed_params message known =
     (if message = [] then []
      else filter (\<lambda>p. normalize_param_name p \<noteq> [] \<and> contains (normalize_param_name p) (normalize_param_name message)) known)"

definition result_envelope_keys :: "string list" where
  "result_envelope_keys = [''data'', ''result'', ''response'', ''item'', ''items'', ''messages'', ''records'', ''results'', ''data_sources'']"

definition is_empty_result :: "pyval \<Rightarrow> bool" where
  "is_empty_result response =
     (case response of
        PList xs \<Rightarrow> xs = []
      | PDict d \<Rightarrow>
          (let status = dget_none ''status'' d in
           if status \<noteq> PNone \<and> status \<noteq> PStr ''ok'' then False
           else case find is_list (map (\<lambda>k. dget_none k d) result_envelope_keys) of
             Some v \<Rightarrow> list_of v = []
           | None \<Rightarrow> d = [] \<or> list_ex (\<lambda>(k, v). v = PList []) d)
      | _ \<Rightarrow> False)"

definition binds_step :: "int \<Rightarrow> pyval \<Rightarrow> bool" where
  "binds_step i v = (case v of PStr s \<Rightarrow> (case step_ref_match s of Some (n, _) \<Rightarrow> int n = i | None \<Rightarrow> False) | _ \<Rightarrow> False)"

fun any_binding :: "int \<Rightarrow> pyval list \<Rightarrow> bool option" where
  "any_binding i [] = Some False"
| "any_binding i (v # vs) =
     (case v of
        PDict step \<Rightarrow>
          (case dict_or_empty ''arg_bindings'' step of
             None \<Rightarrow> None
           | Some b \<Rightarrow> (if list_ex (\<lambda>(k, r). binds_step i r) b then Some True else any_binding i vs))
      | _ \<Rightarrow> None)"

text \<open>\<open>steps[j]\<close> for \<open>j\<close> from \<open>i + 1\<close>; a negative \<open>j\<close> counts from the end.\<close>

definition steps_after :: "int \<Rightarrow> pyval list \<Rightarrow> pyval list option" where
  "steps_after i steps =
     (let n = int (length steps) in
      if i + 1 \<ge> 0 then Some (drop (nat (i + 1)) steps)
      else if i + 1 \<ge> - n then Some (drop (nat (n + i + 1)) steps @ steps) else None)"

definition step_has_dependents :: "pydict \<Rightarrow> bool option" where
  "step_has_dependents st = do {
     i \<leftarrow> step_index st;
     steps \<leftarrow> list_or_empty ''plan'' st;
     later \<leftarrow> steps_after i steps;
     any_binding i later
   }"

definition should_replan_on_empty :: "int \<Rightarrow> pydict \<Rightarrow> pyval \<Rightarrow> bool option" where
  "should_replan_on_empty max_replans st response =
     (if \<not> is_empty_result response then Some False
      else do {
        deps \<leftarrow> step_has_dependents st;
        if \<not> deps then Some False else map_option (\<lambda>n. n < max_replans) (int_or_zero ''replan_count'' st)
      })"

subsection \<open>Failure records\<close>

definition plan_op_ids :: "pydict \<Rightarrow> pyval list option" where
  "plan_op_ids st =
     map_option (\<lambda>steps. filter truthy (map (\<lambda>s. dget_none ''operation_id'' (dict_of s)) (filter is_dict steps))) (list_or_empty ''plan'' st)"

definition first_text :: "(pyval \<Rightarrow> string) \<Rightarrow> pyval list \<Rightarrow> string \<Rightarrow> string" where
  "first_text to_str vs e = (case find truthy vs of Some v \<Rightarrow> str_text to_str v | None \<Rightarrow> e)"

definition build_failure_record :: "(pyval \<Rightarrow> string) \<Rightarrow> pydict \<Rightarrow> pyval \<Rightarrow> string \<Rightarrow> pydict option" where
  "build_failure_record to_str st response outcome = do {
     ops \<leftarrow> plan_op_ids st;
     ctx \<leftarrow> list_or_empty ''replan_context'' st;
     selected \<leftarrow> dict_or_empty ''selected'' st;
     args \<leftarrow> dict_or_empty ''resolved_args'' st;
     detail \<leftarrow> (if outcome = ''empty'' then Some ''search returned 0 results''
       else case response of
         PDict r \<Rightarrow> Some (first_text to_str [dget_none ''message'' r, dget_none ''error'' r] ''error'')
       | _ \<Rightarrow> None);
     Some [(''attempt'', PInt (int (length ctx) + 1)), (''operation_id'', dget_or ''operation_id'' (PStr []) selected),
       (''args'', PDict args), (''outcome'', PStr outcome), (''detail'', PStr detail), (''plan_ops'', PList ops)]
   }"

definition build_replan_reset :: "(pyval \<Rightarrow> string) \<Rightarrow> pydict \<Rightarrow> pyval \<Rightarrow> string \<Rightarrow> pydict option" where
  "build_replan_reset to_str st response outcome = do {
     record \<leftarrow> build_failure_record to_str st response outcome;
     ctx \<leftarrow> list_or_empty ''replan_context'' st;
     n \<leftarrow> int_or_zero ''replan_count'' st;
     ops \<leftarrow> plan_op_ids st;
     args \<leftarrow> dict_or_empty ''resolved_args'' st;
     seeds \<leftarrow> dict_or_empty ''seed_values'' st;
     mem \<leftarrow> dict_or_empty ''working_memory'' st;
     results \<leftarrow> list_or_empty ''step_results'' st;
     let stripped = strip_failed_seed_keys seeds mem args;
     Some [(''replan_count'', PInt (n + 1)), (''plan'', PList []), (''yaml_workflow'', PStr []), (''payload'', PNone),
       (''response'', PDict [(''status'', PStr ''replan'')]), (''current_step_index'', PInt 0), (''step_results'', PList []),
       (''last_results'', PList results), (''retry_count'', PInt 0), (''replan_context'', PList (ctx @ [PDict record])),
       (''last_failure'', PDict record), (''last_plan_op_ids'', PList ops), (''workflow_plan_id'', PNone), (''sub_tasks'', PNone),
       (''seed_values'', PDict (fst stripped)), (''working_memory'', PDict (snd stripped))]
   }"

subsection \<open>The validator\<close>

definition is_unintended :: "(pyval \<Rightarrow> string) \<Rightarrow> pydict \<Rightarrow> bool" where
  "is_unintended to_str st =
     (case dget_none ''response'' st of
        PDict r \<Rightarrow>
          (let agentic = truthy (dget_none ''goal'' st) \<or> truthy (dget_none ''force_execute'' st); status = dget_none ''status'' r in
           (is_recoverable to_str (PDict r) \<or> truthy (dget_none ''is_yaml_error'' r)) \<and> \<not> one_of [''need_input'', ''auth_required''] status
           \<or> agentic \<and> status = PStr ''need_input'')
      | _ \<Rightarrow> False)"

definition strings_of :: "pyval list \<Rightarrow> string list option" where
  "strings_of vs = (if list_all is_str vs then Some (map str_of vs) else None)"

definition halt_message :: "(pyval \<Rightarrow> string) \<Rightarrow> pydict \<Rightarrow> pydict \<Rightarrow> pyval list \<Rightarrow> string option" where
  "halt_message to_str st r unresolved =
     (if unresolved \<noteq> [] then
        map_option (\<lambda>ps. ''Execution halted: The following required parameters could not be resolved from context: '' @ join_with '', '' ps)
          (strings_of unresolved)
      else Some (''Execution failed ('' @ str_text to_str (dget_or ''status_code'' (PStr ''?'') r) @ ''): ''
        @ first_text to_str [dget_none ''message'' r, dget_none ''raw_body'' r] ''empty response''
        @ '' | args='' @ str_text to_str (dget_none ''resolved_args'' st)))"

definition terminal_failure :: "(pyval \<Rightarrow> string) \<Rightarrow> pydict \<Rightarrow> pydict \<Rightarrow> pyval list \<Rightarrow> pydict option" where
  "terminal_failure to_str st r unresolved = do {
     msg \<leftarrow> halt_message to_str st r unresolved;
     let err = PDict [(''status'', PStr ''error''), (''message'', PStr msg), (''unresolved_required'', PList unresolved)];
     if truthy (dget_none ''goal'' st) then do {
       results \<leftarrow> list_or_empty ''step_results'' st;
       record \<leftarrow> build_failure_record to_str st err ''error'';
       ctx \<leftarrow> list_or_empty ''replan_context'' st;
       Some [(''response'', err), (''step_results'', PList (results @ [err])), (''last_failure'', PDict record),
         (''replan_context'', PList (ctx @ [PDict record]))]
     }
     else Some [(''response'', err)]
   }"

definition route_label :: "(pyval \<Rightarrow> string) \<Rightarrow> pydict \<Rightarrow> string" where
  "route_label to_str selected =
     (let path = dget_none ''path'' selected;
          label = strip (str_text to_str (dget_or ''method'' (PStr []) selected) @ '' ''
            @ str_text to_str (if truthy path then path else dget_or ''path_template'' (PStr []) selected)) in
      if label = [] then ''unknown'' else label)"

definition ok_envelope :: "pyval \<Rightarrow> string \<Rightarrow> pydict" where
  "ok_envelope data label = [(''response'', PDict [(''status'', PStr ''ok''), (''data'', data), (''route'', PStr label)])]"

definition failed_response :: "(pyval \<Rightarrow> string) \<Rightarrow> pyval \<Rightarrow> bool" where
  "failed_response to_str response =
     (case response of PDict r \<Rightarrow> one_of [''error'', ''need_input''] (dget_none ''status'' r) \<or> is_recoverable to_str response | _ \<Rightarrow> False)"

definition validator_node :: "int \<Rightarrow> (pyval \<Rightarrow> string) \<Rightarrow> pydict \<Rightarrow> pydict option" where
  "validator_node max_replans to_str st = do {
     let response = dget_none ''response'' st;
     unresolved \<leftarrow> list_or_empty ''unresolved_required'' st;
     again \<leftarrow> (if is_unintended to_str st then map_option (\<lambda>n. n < max_replans) (int_or_zero ''replan_count'' st) else Some False);
     if again then build_replan_reset to_str st response ''error''
     else if failed_response to_str response then do {
       retries \<leftarrow> int_or_zero ''retry_count'' st;
       let r = dict_of response;
       if retries \<ge> 1 \<or> dget_none ''status'' r = PStr ''error'' \<and> \<not> is_recoverable to_str response
       then terminal_failure to_str st r unresolved else Some []
     }
     else do {
       selected \<leftarrow> dict_or_empty ''selected'' st;
       empty \<leftarrow> should_replan_on_empty max_replans st response;
       if empty then build_replan_reset to_str st response ''empty''
       else Some (case response of
          PList xs \<Rightarrow> ok_envelope response (route_label to_str selected)
        | PDict r \<Rightarrow> (if has_key ''status'' r then [] else ok_envelope response (route_label to_str selected))
        | _ \<Rightarrow> [])
     }
   }"

subsection \<open>Updates of the state\<close>

lemma map_of_update: "map_of (update st upd) = map_of st ++ map_of (rev upd)"
proof (induction upd arbitrary: st)
  case (Cons kv upd)
  have "map_of (update st (kv # upd)) = map_of (update (dset (fst kv) (snd kv) st) upd)"
    by (simp add: update_def split_beta)
  then show ?case
    using Cons.IH by (simp add: map_add_def fun_eq_iff split: option.splits)
qed (simp add: update_def)

lemma dget_update: "dget k (update st upd) = (case dget k (rev upd) of Some v \<Rightarrow> Some v | None \<Rightarrow> dget k st)"
  unfolding dget_def map_of_update map_add_def by simp

lemma dget_or_update: "dget_or k e (update st upd) = (case dget k (rev upd) of Some v \<Rightarrow> v | None \<Rightarrow> dget_or k e st)"
  unfolding dget_or_def dget_update by (cases "dget k (rev upd)") simp_all

lemmas option_bind = bind_eq_Some_conv

subsection \<open>Counted replans\<close>

definition counted :: "pydict \<Rightarrow> bool" where
  "counted upd = has_key ''replan_count'' upd"

lemma replan_reset_fields:
  assumes "build_replan_reset to_str st response outcome = Some u"
  obtains n ctx rcd where "int_or_zero ''replan_count'' st = Some n" "list_or_empty ''replan_context'' st = Some ctx"
    "build_failure_record to_str st response outcome = Some rcd"
    "dget ''replan_count'' (rev u) = Some (PInt (n + 1))" "dget ''replan_context'' (rev u) = Some (PList (ctx @ [PDict rcd]))"
    "dget ''response'' (rev u) = Some (PDict [(''status'', PStr ''replan'')])" "dget ''plan'' (rev u) = Some (PList [])"
    "dget ''current_step_index'' (rev u) = Some (PInt 0)" "dget ''last_failure'' (rev u) = Some (PDict rcd)"
    "has_key ''replan_count'' u"
proof -
  from assms obtain rcd ctx n ops args seeds mem results where
    f: "int_or_zero ''replan_count'' st = Some n" "list_or_empty ''replan_context'' st = Some ctx"
      "build_failure_record to_str st response outcome = Some rcd"
    and u: "u = [(''replan_count'', PInt (n + 1)), (''plan'', PList []), (''yaml_workflow'', PStr []), (''payload'', PNone),
       (''response'', PDict [(''status'', PStr ''replan'')]), (''current_step_index'', PInt 0), (''step_results'', PList []),
       (''last_results'', PList results), (''retry_count'', PInt 0), (''replan_context'', PList (ctx @ [PDict rcd])),
       (''last_failure'', PDict rcd), (''last_plan_op_ids'', PList ops), (''workflow_plan_id'', PNone), (''sub_tasks'', PNone),
       (''seed_values'', PDict (fst (strip_failed_seed_keys seeds mem args))),
       (''working_memory'', PDict (snd (strip_failed_seed_keys seeds mem args)))]"
    unfolding build_replan_reset_def option_bind Let_def option.inject by blast
  show ?thesis
    by (rule that [OF f]) (simp_all add: u dget_def has_key_def)
qed

lemma terminal_failure_uncounted:
  assumes "terminal_failure to_str st r unresolved = Some u"
  shows "\<not> counted u" and "dget ''response'' (rev u) \<noteq> None"
    and "\<exists>msg. dget ''response'' (rev u) = Some (PDict [(''status'', PStr ''error''), (''message'', PStr msg), (''unresolved_required'', PList unresolved)])"
  using assms unfolding terminal_failure_def option_bind Let_def
  by (auto simp: counted_def has_key_def dget_def option_bind split: if_splits)

lemma status_of_retry:
  assumes "retry_router to_str st = Some ''replan''"
  shows "response_status st = PStr ''replan''"
  using assms unfolding retry_router_def response_status_def Let_def
  by (auto simp: option_bind split: pyval.splits if_splits)

lemma retry_of_status:
  assumes "response_status st = PStr ''replan''"
  shows "retry_router to_str st = Some ''replan''"
  using assms unfolding retry_router_def response_status_def Let_def
  by (auto split: pyval.splits)

lemma empty_within_limit:
  assumes "should_replan_on_empty m st response = Some True"
  shows "\<exists>n. int_or_zero ''replan_count'' st = Some n \<and> n < m"
  using assms unfolding should_replan_on_empty_def by (auto simp: option_bind split: if_splits)

lemma validator_cases:
  assumes "validator_node m to_str st = Some u"
  shows "(\<exists>outcome n. build_replan_reset to_str st (dget_none ''response'' st) outcome = Some u
            \<and> int_or_zero ''replan_count'' st = Some n \<and> n < m)
    \<or> (\<exists>r un. terminal_failure to_str st r un = Some u) \<or> u = [] \<or> (\<exists>data label. u = ok_envelope data label)"
proof -
  from assms obtain un again where
    again: "(if is_unintended to_str st then map_option (\<lambda>n. n < m) (int_or_zero ''replan_count'' st) else Some False) = Some again"
    and u: "(if again then build_replan_reset to_str st (dget_none ''response'' st) ''error''
     else if failed_response to_str (dget_none ''response'' st) then do {
       retries \<leftarrow> int_or_zero ''retry_count'' st;
       let r = dict_of (dget_none ''response'' st);
       if retries \<ge> 1 \<or> dget_none ''status'' r = PStr ''error'' \<and> \<not> is_recoverable to_str (dget_none ''response'' st)
       then terminal_failure to_str st r un else Some []
     }
     else do {
       selected \<leftarrow> dict_or_empty ''selected'' st;
       empty \<leftarrow> should_replan_on_empty m st (dget_none ''response'' st);
       if empty then build_replan_reset to_str st (dget_none ''response'' st) ''empty''
       else Some (case dget_none ''response'' st of
          PList xs \<Rightarrow> ok_envelope (dget_none ''response'' st) (route_label to_str selected)
        | PDict r \<Rightarrow> (if has_key ''status'' r then [] else ok_envelope (dget_none ''response'' st) (route_label to_str selected))
        | _ \<Rightarrow> [])
     }) = Some u"
    unfolding validator_node_def Let_def option_bind by blast
  show ?thesis
  proof (cases again)
    case True
    with again obtain n where "int_or_zero ''replan_count'' st = Some n" "n < m"
      by (auto split: if_splits)
    with u True show ?thesis
      by (simp only: if_True) blast
  next
    case False
    show ?thesis
    proof (cases "failed_response to_str (dget_none ''response'' st)")
      case True
      with u \<open>\<not> again\<close> show ?thesis
        unfolding Let_def by (auto simp: option_bind split: if_splits)
    next
      case nf: False
      with u \<open>\<not> again\<close> obtain selected empty where e: "should_replan_on_empty m st (dget_none ''response'' st) = Some empty"
        and u: "(if empty then build_replan_reset to_str st (dget_none ''response'' st) ''empty''
       else Some (case dget_none ''response'' st of
          PList xs \<Rightarrow> ok_envelope (dget_none ''response'' st) (route_label to_str selected)
        | PDict r \<Rightarrow> (if has_key ''status'' r then [] else ok_envelope (dget_none ''response'' st) (route_label to_str selected))
        | _ \<Rightarrow> [])) = Some u"
        by (auto simp only: if_False option_bind)
      show ?thesis
      proof (cases empty)
        case True
        with u empty_within_limit [of m st] e show ?thesis
          by (simp only: if_True) blast
      next
        case False
        with u show ?thesis
          by (cases "dget_none ''response'' st") (auto split: if_splits)
      qed
    qed
  qed
qed

lemma ok_envelope_fields:
  "\<not> counted (ok_envelope data label)"
  "dget ''replan_count'' (rev (ok_envelope data label)) = None"
  by (simp_all add: ok_envelope_def counted_def has_key_def dget_def)

lemma ok_envelope_status: "response_status (update st (ok_envelope data label)) = PStr ''ok''"
proof -
  have "dget ''response'' (rev (ok_envelope data label)) = Some (PDict [(''status'', PStr ''ok''), (''data'', data), (''route'', PStr label)])"
    by (simp add: ok_envelope_def dget_def)
  then show ?thesis
    by (simp add: response_status_def dget_or_update) (simp add: dget_or_def dget_def)
qed

lemma not_counted_nil: "\<not> counted []"
  by (simp add: counted_def has_key_def dget_def)

lemma int_or_zero_update:
  "dget k (rev u) = None \<Longrightarrow> int_or_zero k (update st u) = int_or_zero k st"
  "dget k (rev u) = Some v \<Longrightarrow> int_or_zero k (update st u) = int_of_py v"
  by (simp_all add: int_or_zero_def dget_or_update)

lemma counted_rev: "counted u \<longleftrightarrow> dget ''replan_count'' (rev u) \<noteq> None"
  by (simp add: counted_def has_key_def dget_def map_of_eq_None_iff)

text \<open>What a replan leaves: the count one higher, no plan, and one more failure record, numbered.\<close>

definition replanned :: "pydict \<Rightarrow> pydict \<Rightarrow> bool" where
  "replanned st st' \<longleftrightarrow>
     (\<exists>n ctx rcd. int_or_zero ''replan_count'' st = Some n \<and> int_or_zero ''replan_count'' st' = Some (n + 1)
       \<and> dget_none ''plan'' st' = PList [] \<and> dget_none ''current_step_index'' st' = PInt 0
       \<and> list_or_empty ''replan_context'' st = Some ctx \<and> dget_none ''replan_context'' st' = PList (ctx @ [PDict rcd])
       \<and> dget_none ''last_failure'' st' = PDict rcd \<and> dget_none ''attempt'' rcd = PInt (int (length ctx) + 1))"

lemma failure_record_attempt:
  assumes "build_failure_record to_str st response outcome = Some rcd" "list_or_empty ''replan_context'' st = Some ctx"
  shows "dget_none ''attempt'' rcd = PInt (int (length ctx) + 1)"
  using assms unfolding build_failure_record_def option_bind by (auto simp: dget_or_def dget_def)

lemma reset_replans:
  assumes "build_replan_reset to_str st response outcome = Some u"
  shows "counted u \<and> response_status (update st u) = PStr ''replan'' \<and> replanned st (update st u)"
  using assms
proof (rule replan_reset_fields)
  fix n ctx rcd
  assume f: "int_or_zero ''replan_count'' st = Some n" "list_or_empty ''replan_context'' st = Some ctx"
    "build_failure_record to_str st response outcome = Some rcd"
    "dget ''replan_count'' (rev u) = Some (PInt (n + 1))" "dget ''replan_context'' (rev u) = Some (PList (ctx @ [PDict rcd]))"
    "dget ''response'' (rev u) = Some (PDict [(''status'', PStr ''replan'')])" "dget ''plan'' (rev u) = Some (PList [])"
    "dget ''current_step_index'' (rev u) = Some (PInt 0)" "dget ''last_failure'' (rev u) = Some (PDict rcd)"
    "has_key ''replan_count'' u"
  have "response_status (update st u) = PStr ''replan''"
    by (simp add: response_status_def dget_or_update f(6)) (simp add: dget_or_def dget_def)
  moreover have "replanned st (update st u)"
    unfolding replanned_def
    by (rule exI [of _ n], rule exI [of _ ctx], rule exI [of _ rcd])
      (simp add: f int_or_zero_update(2) [OF f(4)] dget_or_update failure_record_attempt [OF f(3) f(2)])
  ultimately show ?thesis
    using f(10) by (simp add: counted_def)
qed

lemma terminal_status:
  assumes "terminal_failure to_str st r un = Some u"
  shows "response_status (update st u) = PStr ''error''"
proof -
  from terminal_failure_uncounted(3) [OF assms] obtain msg where
    "dget ''response'' (rev u) = Some (PDict [(''status'', PStr ''error''), (''message'', PStr msg), (''unresolved_required'', PList un)])" ..
  then show ?thesis
    by (simp add: response_status_def dget_or_update) (simp add: dget_or_def dget_def)
qed

text \<open>
  C20: The validator sends a run back to planning exactly when it counts a replan: the count grows by one, the plan is empty and the record of
  the failure is the last of the replan context.  Otherwise the router takes another edge and the count stays.  (A response that already
  carries the status \<open>replan\<close> is outside the claim.)
\<close>

theorem replan_edge_counted:
  assumes "validator_node m to_str st = Some u" "response_status st \<noteq> PStr ''replan''"
  shows "if counted u then retry_router to_str (update st u) = Some ''replan'' \<and> replanned st (update st u)
    else retry_router to_str (update st u) \<noteq> Some ''replan''
      \<and> int_or_zero ''replan_count'' (update st u) = int_or_zero ''replan_count'' st"
proof -
  have uncounted: ?thesis if "\<not> counted u" "response_status (update st u) \<noteq> PStr ''replan''"
    using that status_of_retry [of to_str "update st u"] int_or_zero_update(1) [of "''replan_count''" u st]
    by (auto simp: counted_rev)
  from validator_cases [OF assms(1)] show ?thesis
  proof (elim disjE exE conjE)
    fix outcome n
    assume "build_replan_reset to_str st (dget_none ''response'' st) outcome = Some u"
    from reset_replans [OF this] show ?thesis
      by (simp add: retry_of_status)
  next
    fix r un assume t: "terminal_failure to_str st r un = Some u"
    show ?thesis
      by (rule uncounted) (simp_all add: terminal_failure_uncounted(1) [OF t] terminal_status [OF t])
  next
    assume "u = []"
    then show ?thesis
      by (intro uncounted) (simp_all add: counted_def has_key_def dget_def update_def assms(2))
  next
    fix data label assume "u = ok_envelope data label"
    then show ?thesis
      by (intro uncounted) (simp_all add: ok_envelope_fields ok_envelope_status)
  qed
qed

text \<open>The run of a session as the validator sees it: between two visits the other nodes may change everything but the replan count.\<close>

inductive validator_run :: "int \<Rightarrow> (pyval \<Rightarrow> string) \<Rightarrow> pydict \<Rightarrow> nat \<Rightarrow> pydict \<Rightarrow> bool" for m to_str st where
  start: "validator_run m to_str st 0 st"
| visit: "validator_run m to_str st n s \<Longrightarrow> dget ''replan_count'' s' = dget ''replan_count'' s \<Longrightarrow> validator_node m to_str s' = Some u
    \<Longrightarrow> validator_run m to_str st (n + of_bool (counted u)) (update s' u)"

lemma counted_below_limit:
  assumes "validator_node m to_str st = Some u" "counted u"
  shows "\<exists>n. int_or_zero ''replan_count'' st = Some n \<and> n < m \<and> int_or_zero ''replan_count'' (update st u) = Some (n + 1)"
  using validator_cases [OF assms(1)]
proof (elim disjE exE conjE)
  fix outcome n
  assume r: "build_replan_reset to_str st (dget_none ''response'' st) outcome = Some u" "int_or_zero ''replan_count'' st = Some n" "n < m"
  from reset_replans [OF r(1)] r(2,3) show ?thesis
    by (auto simp: replanned_def)
qed (use assms(2) in \<open>auto simp: terminal_failure_uncounted(1) ok_envelope_fields(1) not_counted_nil\<close>)

text \<open>
  C21: However the run goes on, the validator sends it back to planning at most as often as the limit leaves.
\<close>

theorem replans_bounded:
  assumes "validator_run m to_str st n s" "int_or_zero ''replan_count'' st = Some c"
  shows "int_or_zero ''replan_count'' s = Some (c + int n) \<and> int n \<le> max 0 (m - c)"
  using assms(1)
proof induction
  case start
  then show ?case
    using assms(2) by simp
next
  case (visit n s s' u)
  have s': "int_or_zero ''replan_count'' s' = Some (c + int n)"
    using visit.IH visit.hyps(2) by (simp add: int_or_zero_def dget_or_def)
  show ?case
  proof (cases "counted u")
    case True
    with counted_below_limit [OF visit.hyps(3)] s' visit.IH show ?thesis
      by auto
  next
    case False
    with s' visit.IH show ?thesis
      by (simp add: int_or_zero_update(1) counted_rev)
  qed
qed

subsection \<open>A failed call\<close>

definition failing_state :: "pydict \<Rightarrow> pyval list \<Rightarrow> pydict" where
  "failing_state response unresolved =
     [(''goal'', PStr ''tidy up''), (''response'', PDict response), (''unresolved_required'', PList unresolved), (''retry_count'', PInt 0),
      (''replan_count'', PInt 0), (''plan'', PList [PDict [(''operation_id'', PStr ''get_page'')]]),
      (''selected'', PDict [(''operation_id'', PStr ''get_page'')]), (''resolved_args'', PDict [(''page_id'', PStr ''p1'')])]"

definition not_found :: pydict where
  "not_found = failing_state [(''status'', PStr ''error''), (''http_status'', PInt 404)] []"

definition after_not_found :: pydict where
  "after_not_found = the (validator_node 2 (\<lambda>_. []) not_found)"

lemma not_found_run:
  "validator_node 2 (\<lambda>_. []) not_found = Some after_not_found" "counted after_not_found"
  "response_status not_found \<noteq> PStr ''replan''" "int_or_zero ''replan_count'' not_found = Some 0"
  by code_simp+

theorem replan_edge_counted_witness:
  "retry_router (\<lambda>_. []) (update not_found after_not_found) = Some ''replan'' \<and> replanned not_found (update not_found after_not_found)"
  using replan_edge_counted [OF not_found_run(1) not_found_run(3)] not_found_run(2) by simp

theorem replans_bounded_witness:
  "int_or_zero ''replan_count'' (update not_found after_not_found) = Some 1 \<and> (1::int) \<le> max 0 2"
  using replans_bounded [OF validator_run.visit [OF validator_run.start refl not_found_run(1)] not_found_run(4)] not_found_run(2) by simp

text \<open>
  A failure that is final gets a text with the word \<open>required\<close> when parameters are open; \<open>is_recoverable\<close> reads that text, so the router retries
  the call the validator has given up.
\<close>

lemma final_failure_retried:
  "(let st = failing_state [(''status'', PStr ''error''), (''message'', PStr ''boom'')] [PStr ''title''] in
    is_recoverable (\<lambda>_. []) (dget_none ''response'' st) = False
    \<and> map_option (\<lambda>u. (response_status (update st u), retry_router (\<lambda>_. []) (update st u))) (validator_node 2 (\<lambda>_. []) st)
       = Some (PStr ''error'', Some ''retry''))"
  by code_simp

end
