(* ===== verification/GoalNode.thy ===== *)
theory GoalNode
  imports ReplanControl
begin

text \<open>
  The node that ends a round of the goal loop: \<open>goap_goal_node\<close> of \<open>core_graph/node/goap_goal.py\<close> with \<open>should_retriage\<close> and \<open>build_retriage_reset\<close>
  of \<open>core_graph/runtime/retriage.py\<close>.  A \<open>goal_round\<close> holds what the node computes first; each way out of the node is a function of it.
  The LLM that judges the goal is the argument \<open>ge_verify\<close>, \<open>None\<close> when the call raises; configuration and \<open>str\<close> are arguments
  too.  \<open>None\<close> is an exception of the node; counters in the state are taken to be integers.
\<close>

subsection \<open>Python's \<open>int\<close>\<close>

definition digits_value :: "string \<Rightarrow> int option" where
  "digits_value s =
     (let groups = split_on (CHR ''_'') s in
      if list_all (\<lambda>g. g \<noteq> [] \<and> list_all is_digit g) groups then Some (int (read_nat (concat groups))) else None)"

definition text_to_int :: "string \<Rightarrow> int option" where
  "text_to_int s =
     (case strip s of
        [] \<Rightarrow> None
      | c # t \<Rightarrow> (if c = CHR ''-'' then map_option uminus (digits_value t) else if c = CHR ''+'' then digits_value t else digits_value (c # t)))"

definition py_int :: "pyval \<Rightarrow> int option" where
  "py_int v =
     (case v of
        PStr s \<Rightarrow> text_to_int s
      | PFloat x \<Rightarrow> Some (if x < 0 then - \<lfloor>- x\<rfloor> else \<lfloor>x\<rfloor>)
      | _ \<Rightarrow> int_of_py v)"

subsection \<open>Environment and round\<close>

record goal_verdict =
  vd_parsed :: pyval
  vd_usage :: pyval
  vd_audit :: pyval

record goal_round =
  gr_iterations :: int
  gr_max :: int
  gr_memory :: pydict
  gr_ops :: "string list"
  gr_summary :: pyval
  gr_facts :: "pyval list"
  gr_achieved :: "string list"
  gr_remaining :: "string list"
  gr_failure :: pyval
  gr_stalled :: int
  gr_repeats :: int

record goal_env =
  ge_verbs :: "string list"
  ge_default_max :: int
  ge_max_replans :: int
  ge_retriage_max :: int
  ge_to_str :: "pyval \<Rightarrow> string"
  ge_verify :: "pydict \<Rightarrow> goal_round \<Rightarrow> goal_verdict option"

subsection \<open>The guards\<close>

definition gained_nothing :: "pydict \<Rightarrow> pydict \<Rightarrow> pydict \<Rightarrow> bool" where
  "gained_nothing st old_mem mem =
     (let baseline = (case dget_none ''pre_round_memory'' st of PDict b \<Rightarrow> b | _ \<Rightarrow> old_mem) in
      list_all (\<lambda>(k, v). py_eq (dget_none k baseline) v) mem)"

definition current_failure :: "pydict \<Rightarrow> pyval" where
  "current_failure st =
     (case dget_none ''response'' st of
        PDict r \<Rightarrow> (if one_of [''error'', ''need_input''] (dget_none ''status'' r) then get_or ''message'' (dget_none ''status'' r) r else PNone)
      | _ \<Rightarrow> PNone)"

definition last_failure_text :: "pydict \<Rightarrow> pyval" where
  "last_failure_text st =
     (case dget_none ''last_failure'' st of
        PDict f \<Rightarrow> get_or ''detail'' (dget_none ''message'' f) f
      | PStr s \<Rightarrow> PStr s
      | _ \<Rightarrow> PNone)"

definition repeated_failure :: "pydict \<Rightarrow> bool" where
  "repeated_failure st =
     (truthy (current_failure st) \<and> truthy (last_failure_text st) \<and> py_eq (current_failure st) (last_failure_text st))"

definition counter :: "bool \<Rightarrow> string \<Rightarrow> pydict \<Rightarrow> int option" where
  "counter again k st = (if again then map_option (\<lambda>n. n + 1) (int_or_zero k st) else Some 0)"

definition goal_round_of :: "goal_env \<Rightarrow> pydict \<Rightarrow> goal_round option" where
  "goal_round_of env st = do {
     n \<leftarrow> int_or_zero ''iterations'' st;
     old_mem \<leftarrow> dict_or_empty ''working_memory'' st;
     results \<leftarrow> list_or_empty ''step_results'' st;
     mem \<leftarrow> fold_working_memory (ge_verbs env) old_mem results;
     prev \<leftarrow> list_or_empty ''executed_op_ids'' st;
     steps \<leftarrow> list_or_empty ''plan'' st;
     let ops = accumulate_executed_ops prev steps results;
     facts \<leftarrow> list_or_empty ''goal_facts'' st;
     limit \<leftarrow> int_of_py (get_or ''max_iterations'' (PInt (ge_default_max env)) st);
     let (achieved, remaining) = evaluate_goal_facts facts (world_from_memory mem) ops;
     let idle = gained_nothing st old_mem mem;
     repeats \<leftarrow> counter (repeated_failure st \<and> idle) ''repeat_failure_count'' st;
     stalled \<leftarrow> counter (idle \<and> length ops \<le> length prev \<and> dget_none ''goal_loop_decision'' st = PStr ''continue'') ''no_progress_rounds'' st;
     Some \<lparr>gr_iterations = n + 1, gr_max = limit, gr_memory = mem, gr_ops = ops, gr_summary = get_or ''summary'' (dget_none ''last_summary'' st) st,
       gr_facts = facts, gr_achieved = achieved, gr_remaining = remaining, gr_failure = current_failure st,
       gr_stalled = stalled, gr_repeats = repeats\<rparr>
   }"

subsection \<open>Leaving the loop\<close>

definition strs :: "string list \<Rightarrow> pyval" where
  "strs ss = PList (map PStr ss)"

definition tracking :: "goal_round \<Rightarrow> pydict" where
  "tracking r =
     [(''iterations'', PInt (gr_iterations r)), (''working_memory'', PDict (gr_memory r)), (''last_summary'', gr_summary r),
      (''goal_facts'', PList (gr_facts r)), (''achieved_facts'', strs (gr_achieved r)), (''executed_op_ids'', strs (gr_ops r)),
      (''no_progress_rounds'', PInt (gr_stalled r))]"

definition terminal_response :: "pydict \<Rightarrow> goal_round \<Rightarrow> pydict" where
  "terminal_response st r =
     (let out = (case dget_none ''response'' st of
            PDict d \<Rightarrow> d
          | _ \<Rightarrow> (if truthy (gr_summary r)
              then [(''status'', PStr ''ok''), (''message'', gr_summary r), (''summary'', gr_summary r), (''working_memory'', PDict (gr_memory r))]
              else [(''status'', PStr ''incomplete''),
                (''message'', PStr (''Goal not completed within '' @ show_int (gr_iterations r) @ '' iteration(s).'')),
                (''working_memory'', PDict (gr_memory r))]));
          carry = dict_of (dget_none ''carry'' out) in
      case find is_dict [dget_none ''layout'' carry, dget_none ''layout'' out, dget_none ''layout'' (gr_memory r)] of
        Some layout \<Rightarrow> dset ''carry'' (PDict (dset ''layout'' layout carry)) (dset ''layout'' layout out)
      | None \<Rightarrow> out)"

definition finish :: "pydict \<Rightarrow> goal_round \<Rightarrow> pydict \<Rightarrow> pydict" where
  "finish st r extra =
     update (tracking r)
       ([(''remaining_goal_facts'', strs (gr_remaining r)), (''response'', PDict (terminal_response st r)), (''goal_loop_decision'', PStr ''done''),
         (''repeat_failure_count'', PInt (gr_repeats r))] @ extra)"

subsection \<open>Fetching what is missing\<close>

text \<open>The ids still to be fetched, with the memory that records them; a field of memory the node writes is read in the shape it writes.\<close>

definition refetch_from :: "goal_env \<Rightarrow> pydict \<Rightarrow> goal_round \<Rightarrow> nat \<Rightarrow> string list \<Rightarrow> (goal_round \<times> string list) option" where
  "refetch_from env st r target cands =
     (let mem = gr_memory r; need = min target (length cands) in do {
        prev \<leftarrow> list_or_empty ''fetched_ids'' mem;
        results \<leftarrow> list_or_empty ''step_results'' st;
        let fetched = dedup (map (str_text (ge_to_str env)) prev @ collect_fetched_ids (ge_to_str env) results (map PStr cands));
        let mem1 = dset ''fetched_ids'' (strs fetched) mem;
        tries \<leftarrow> py_int (get_or ''fetch_replans'' (PInt 0) mem);
        let rest = take (need - length fetched) (filter (\<lambda>c. c \<notin> set fetched) cands);
        if length fetched < need \<and> gr_iterations r < gr_max r \<and> tries < ge_max_replans env \<and> rest \<noteq> []
        then Some (r\<lparr>gr_memory := dset ''fetch_replans'' (PInt (tries + 1)) (dset ''pending_fetch_ids'' (strs rest) mem1)\<rparr>, rest)
        else Some (r\<lparr>gr_memory := dpop ''pending_fetch_ids'' mem1\<rparr>, [])
      })"

definition fetch_candidates :: "pydict \<Rightarrow> pyval" where
  "fetch_candidates mem = get_or ''page_ids'' (get_or ''notion_ids'' (get_or ''ids'' (PList []) mem) mem) mem"

definition refetch :: "goal_env \<Rightarrow> pydict \<Rightarrow> goal_round \<Rightarrow> (goal_round \<times> string list) option" where
  "refetch env st r =
     (case (dget_none ''fanout_target'' st, fetch_candidates (gr_memory r)) of
        (PInt n, PList xs) \<Rightarrow>
          (if n > 1 \<and> xs \<noteq> [] then refetch_from env st r (nat n) (map (str_text (ge_to_str env)) (filter truthy xs)) else Some (r, []))
      | _ \<Rightarrow> Some (r, []))"

definition refetch_directive :: "(pyval \<Rightarrow> string) \<Rightarrow> string list \<Rightarrow> string" where
  "refetch_directive to_str ids =
     ''Fetch the following '' @ show_nat (length ids) @ '' remaining page(s) by id (do not search again): '' @ to_str (strs ids)"

definition sanitize_continue_seeds :: "pydict \<Rightarrow> pydict option" where
  "sanitize_continue_seeds st = do {
     seeds \<leftarrow> dict_or_empty ''seed_values'' st;
     mem \<leftarrow> dict_or_empty ''working_memory'' st;
     failed \<leftarrow> (case dget_none ''last_failure'' st of PDict f \<Rightarrow> dict_or_empty ''args'' f | _ \<Rightarrow> Some []);
     Some (sanitize_seed_values (fst (strip_failed_seed_keys seeds mem failed)) mem)
   }"

definition round_ops :: "pydict \<Rightarrow> pyval list option" where
  "round_ops st = do {
     steps \<leftarrow> list_or_empty ''plan'' st;
     if list_all is_dict steps then Some (filter truthy (map (\<lambda>s. dget_none ''operation_id'' (dict_of s)) steps)) else None
   }"

definition next_plan :: "pydict \<Rightarrow> goal_round \<Rightarrow> pyval \<Rightarrow> pyval list \<Rightarrow> pydict \<Rightarrow> pydict" where
  "next_plan st r directive ops seeds =
     [(''remaining_goal_facts'', strs (gr_remaining r)), (''user_query'', directive), (''plan'', PList []), (''current_step_index'', PInt 0),
      (''step_results'', PList []), (''last_results'', get_or ''step_results'' (PList []) st), (''yaml_workflow'', PStr []),
      (''instruction_set'', PList []), (''selected'', PNone), (''response'', PNone), (''goal_loop_decision'', PStr ''continue''),
      (''force_execute'', PBool (truthy (dget_none ''force_execute'' st))), (''sub_tasks'', PNone), (''seed_values'', PDict seeds),
      (''execution_id'', PNone), (''repeat_failure_count'', PInt (gr_repeats r)), (''last_plan_op_ids'', PList ops)]"

subsection \<open>Retriage\<close>

definition portfolio_words :: "string list" where
  "portfolio_words = [''portfolio'', ''layout'', ''bake'', ''design_layout'', ''compose_scoped'', ''genui'']"

definition str_or_none :: "pyval \<Rightarrow> string option" where
  "str_or_none v = (case v of PStr s \<Rightarrow> Some s | _ \<Rightarrow> None)"

definition should_retriage :: "int \<Rightarrow> pydict \<Rightarrow> bool option" where
  "should_retriage retriage_max st =
     (if st = [] then Some False
      else do {
        count \<leftarrow> py_int (get_or ''retriage_count'' (PInt 0) st);
        if count \<ge> retriage_max then Some False
        else if truthy (dget_none ''force_retriage'' st) then Some True
        else do {
          replans \<leftarrow> py_int (get_or ''replan_count'' (PInt 0) st);
          m \<leftarrow> str_or_none (get_or ''triage_mode'' (PStr ''classic'') st);
          let mode = (if lower m = ''task'' then ''classic'' else lower m);
          q \<leftarrow> str_or_none (get_or ''original_query'' (get_or ''user_query'' (PStr []) st) st);
          let reasons = [''specialist_compose_failed'', ''specialist_pipeline_failed''];
          Some (mode = ''classic'' \<and> list_ex (\<lambda>w. contains w (lower q)) portfolio_words \<and> replans \<ge> 2
            \<or> mode = ''specialist'' \<and> replans \<ge> 3
            \<or> one_of reasons (dget_none ''reason'' (dict_of (dget_none ''retriage_context'' st)))
            \<or> one_of reasons (dget_none ''error'' (dict_of (dget_none ''last_failure'' st))))
        }
      })"

definition build_retriage_reset :: "pydict \<Rightarrow> pydict option" where
  "build_retriage_reset st =
     (if st = [] then Some []
      else do {
        count \<leftarrow> py_int (get_or ''retriage_count'' (PInt 0) st);
        facts \<leftarrow> list_or_empty ''remaining_goal_facts'' st;
        Some [(''retriage_count'', PInt (count + 1)),
          (''retriage_context'', PDict [(''reason'', PStr ''goal_loop_retriage''), (''from_stack'', get_or ''triage_mode'' (PStr ''classic'') st),
             (''remaining_goal_facts'', PList (take 20 facts)), (''replan_count'', dget_none ''replan_count'' st)]),
          (''force_retriage'', PBool False), (''force_execute'', PBool False), (''plan'', PList []), (''current_step_index'', PInt 0),
          (''step_results'', PList []), (''selected'', PNone), (''payload'', PNone), (''response'', PNone), (''goal_loop_decision'', PNone),
          (''retry_count'', PInt 0)]
      })"

subsection \<open>The node\<close>

definition audit_list :: "goal_verdict \<Rightarrow> pyval" where
  "audit_list v = PList (if truthy (vd_audit v) then [vd_audit v] else [])"

definition retriage_plan :: "pydict \<Rightarrow> goal_round \<Rightarrow> pyval \<Rightarrow> pyval list \<Rightarrow> pyval \<Rightarrow> goal_verdict \<Rightarrow> pydict \<Rightarrow> pydict" where
  "retriage_plan st r directive ops failure v reset =
     reset @ [(''remaining_goal_facts'', strs (gr_remaining r)), (''user_query'', get_or ''original_query'' directive st),
       (''last_results'', get_or ''step_results'' (PList []) st), (''goal_loop_decision'', PStr ''retriage''), (''token_usage'', vd_usage v),
       (''model_audit'', audit_list v), (''last_plan_op_ids'', PList ops), (''last_failure'', failure)]"

text \<open>What the node returns after the verdict; \<open>None\<close> when the goal is done or the code in the \<open>try\<close> raises.\<close>

definition next_round :: "goal_env \<Rightarrow> pydict \<Rightarrow> goal_round \<Rightarrow> goal_verdict \<Rightarrow> pydict option" where
  "next_round env st r v =
     (let (is_done, reason, hint) = parse_goal_check (ge_to_str env) (vd_parsed v); goal = dget_none ''goal'' st in
      if decide_goal_loop goal (gr_iterations r) (gr_max r) is_done \<noteq> ''continue'' then None
      else do {
        ops \<leftarrow> round_ops st;
        let text = build_goal_directive (gr_remaining r) hint;
        let directive = (if text \<noteq> [] then PStr text else goal);
        let failure = (if truthy (gr_failure r) then gr_failure r else dget_none ''last_failure'' st);
        let probe = update st (tracking r @ [(''replan_count'', get_or ''replan_count'' (PInt 0) st)]);
        again \<leftarrow> should_retriage (ge_retriage_max env) probe;
        if again then do {
          reset \<leftarrow> build_retriage_reset probe;
          Some (update (tracking r) (retriage_plan st r directive ops failure v reset))
        }
        else do {
          seeds \<leftarrow> sanitize_continue_seeds st;
          Some (update (tracking r)
            (next_plan st r directive ops seeds
             @ [(''last_failure'', failure), (''token_usage'', vd_usage v), (''model_audit'', audit_list v)]))
        }
      })"

definition decide_round :: "goal_env \<Rightarrow> pydict \<Rightarrow> goal_round \<Rightarrow> string list \<Rightarrow> pydict option" where
  "decide_round env st r ids =
     (if ids \<noteq> [] then do {
        ops \<leftarrow> round_ops st;
        seeds \<leftarrow> sanitize_continue_seeds st;
        Some (update (tracking r) (next_plan st r (PStr (refetch_directive (ge_to_str env) ids)) ops seeds))
      }
      else if \<not> truthy (dget_none ''goal'' st) \<or> gr_iterations r \<ge> gr_max r then Some (finish st r [])
      else (case ge_verify env st r of
           None \<Rightarrow> Some (finish st r [(''token_usage'', dget_none ''token_usage'' st), (''model_audit'', PList [])])
         | Some v \<Rightarrow> (case next_round env st r v of
             Some u \<Rightarrow> Some u
           | None \<Rightarrow> Some (finish st r [(''token_usage'', vd_usage v), (''model_audit'', audit_list v)]))))"

definition goap_goal_node :: "goal_env \<Rightarrow> pydict \<Rightarrow> pydict option" where
  "goap_goal_node env st = do {
     r0 \<leftarrow> goal_round_of env st;
     if gr_stalled r0 \<ge> 2 \<or> gr_repeats r0 \<ge> 2 then Some (finish st r0 [])
     else do {
       (r, ids) \<leftarrow> refetch env st r0;
       decide_round env st r ids
     }
   }"

subsection \<open>The ways out of the node\<close>

definition round_limit :: "goal_env \<Rightarrow> pydict \<Rightarrow> int option" where
  "round_limit env st = int_of_py (get_or ''max_iterations'' (PInt (ge_default_max env)) st)"

lemma round_counts:
  assumes "goal_round_of env st = Some r"
  shows "int_or_zero ''iterations'' st = Some (gr_iterations r - 1)" "round_limit env st = Some (gr_max r)"
  using assms unfolding goal_round_of_def option_bind Let_def round_limit_def by (auto simp: split_beta option_bind)

lemma refetch_from_cases:
  assumes "refetch_from env st r0 target cands = Some (r, ids)"
  obtains prev results fetched tries where
    "list_or_empty ''fetched_ids'' (gr_memory r0) = Some prev" "list_or_empty ''step_results'' st = Some results"
    "fetched = dedup (map (str_text (ge_to_str env)) prev @ collect_fetched_ids (ge_to_str env) results (map PStr cands))"
    "py_int (get_or ''fetch_replans'' (PInt 0) (gr_memory r0)) = Some tries"
    "ids = [] \<and> r = r0\<lparr>gr_memory := dpop ''pending_fetch_ids'' (dset ''fetched_ids'' (strs fetched) (gr_memory r0))\<rparr>
     \<or> ids \<noteq> [] \<and> ids = take (min target (length cands) - length fetched) (filter (\<lambda>c. c \<notin> set fetched) cands)
       \<and> gr_iterations r0 < gr_max r0 \<and> tries < ge_max_replans env
       \<and> r = r0\<lparr>gr_memory := dset ''fetch_replans'' (PInt (tries + 1)) (dset ''pending_fetch_ids'' (strs ids)
           (dset ''fetched_ids'' (strs fetched) (gr_memory r0)))\<rparr>"
proof -
  let ?f = "\<lambda>prev results. dedup (map (str_text (ge_to_str env)) prev @ collect_fetched_ids (ge_to_str env) results (map PStr cands))"
  let ?rest = "\<lambda>fetched. take (min target (length cands) - length fetched) (filter (\<lambda>c. c \<notin> set fetched) cands)"
  let ?mem = "\<lambda>fetched. dset ''fetched_ids'' (strs fetched) (gr_memory r0)"
  from assms obtain prev results tries where f: "list_or_empty ''fetched_ids'' (gr_memory r0) = Some prev"
      "list_or_empty ''step_results'' st = Some results" "py_int (get_or ''fetch_replans'' (PInt 0) (gr_memory r0)) = Some tries"
    and p: "(if length (?f prev results) < min target (length cands) \<and> gr_iterations r0 < gr_max r0 \<and> tries < ge_max_replans env \<and> ?rest (?f prev results) \<noteq> []
        then Some (r0\<lparr>gr_memory := dset ''fetch_replans'' (PInt (tries + 1)) (dset ''pending_fetch_ids'' (strs (?rest (?f prev results))) (?mem (?f prev results)))\<rparr>,
          ?rest (?f prev results))
        else Some (r0\<lparr>gr_memory := dpop ''pending_fetch_ids'' (?mem (?f prev results))\<rparr>, [])) = Some (r, ids)"
    unfolding refetch_from_def Let_def option_bind by blast
  show thesis
  proof (rule that [OF f(1,2) refl f(3)])
    from p show "ids = [] \<and> r = r0\<lparr>gr_memory := dpop ''pending_fetch_ids'' (?mem (?f prev results))\<rparr>
     \<or> ids \<noteq> [] \<and> ids = ?rest (?f prev results) \<and> gr_iterations r0 < gr_max r0 \<and> tries < ge_max_replans env
       \<and> r = r0\<lparr>gr_memory := dset ''fetch_replans'' (PInt (tries + 1)) (dset ''pending_fetch_ids'' (strs ids) (?mem (?f prev results)))\<rparr>"
      by (simp only: option.inject prod.inject split: if_splits) blast+
  qed
qed

lemma refetch_cases:
  assumes "refetch env st r0 = Some (r, ids)"
  obtains (skip) "r = r0" "ids = []"
  | (from_ids) n xs where "dget_none ''fanout_target'' st = PInt n" "fetch_candidates (gr_memory r0) = PList xs" "n > 1"
      "refetch_from env st r0 (nat n) (map (str_text (ge_to_str env)) (filter truthy xs)) = Some (r, ids)"
proof (cases "\<exists>n xs. dget_none ''fanout_target'' st = PInt n \<and> fetch_candidates (gr_memory r0) = PList xs \<and> n > 1 \<and> xs \<noteq> []")
  case True
  with assms from_ids show thesis
    unfolding refetch_def by auto
next
  case False
  with assms have "r = r0 \<and> ids = []"
    unfolding refetch_def by (simp split: pyval.splits if_splits)
  with skip show thesis by blast
qed

lemma refetch_shape:
  assumes "refetch env st r0 = Some (r, ids)"
  shows "(\<exists>m. r = r0\<lparr>gr_memory := m\<rparr>)" and "ids \<noteq> [] \<Longrightarrow> gr_iterations r0 < gr_max r0"
proof -
  have "(\<exists>m. r = r0\<lparr>gr_memory := m\<rparr>) \<and> (ids \<noteq> [] \<longrightarrow> gr_iterations r0 < gr_max r0)"
    using assms
  proof (cases rule: refetch_cases)
    case skip
    then show ?thesis by (auto intro: exI [of _ "gr_memory r0"])
  next
    case (from_ids n xs)
    from from_ids(4) show ?thesis
      by (rule refetch_from_cases) blast
  qed
  then show "\<exists>m. r = r0\<lparr>gr_memory := m\<rparr>" "ids \<noteq> [] \<Longrightarrow> gr_iterations r0 < gr_max r0"
    by simp_all
qed

definition plain_extra :: "pydict \<Rightarrow> bool" where
  "plain_extra extra \<longleftrightarrow> fst ` set extra \<subseteq> {''token_usage'', ''model_audit''}"

lemma node_cases:
  assumes "goap_goal_node env st = Some u"
  obtains
    (ended) r0 r extra where "goal_round_of env st = Some r0" "u = finish st r extra" "plain_extra extra" "\<exists>m. r = r0\<lparr>gr_memory := m\<rparr>"
  | (fetch) r0 r ids ops seeds where "goal_round_of env st = Some r0" "refetch env st r0 = Some (r, ids)" "ids \<noteq> []"
      "gr_stalled r0 < 2" "gr_repeats r0 < 2"
      "u = update (tracking r) (next_plan st r (PStr (refetch_directive (ge_to_str env) ids)) ops seeds)"
  | (again) r0 r v where "goal_round_of env st = Some r0" "refetch env st r0 = Some (r, [])" "gr_stalled r0 < 2" "gr_repeats r0 < 2"
      "truthy (dget_none ''goal'' st)" "gr_iterations r < gr_max r" "ge_verify env st r = Some v" "next_round env st r v = Some u"
proof -
  from assms obtain r0 where r0: "goal_round_of env st = Some r0"
    and u: "(if gr_stalled r0 \<ge> 2 \<or> gr_repeats r0 \<ge> 2 then Some (finish st r0 [])
     else do { (r, ids) \<leftarrow> refetch env st r0; decide_round env st r ids }) = Some u"
    unfolding goap_goal_node_def option_bind by blast
  have plain: "plain_extra []" "plain_extra [(''token_usage'', a), (''model_audit'', b)]" for a b
    by (simp_all add: plain_extra_def)
  show thesis
  proof (cases "gr_stalled r0 \<ge> 2 \<or> gr_repeats r0 \<ge> 2")
    case True
    with u have "u = finish st r0 []" by simp
    then show thesis
      by (rule ended [OF r0]) (auto simp: plain intro: exI [of _ "gr_memory r0"])
  next
    case False
    then have n: "(gr_stalled r0 \<ge> 2 \<or> gr_repeats r0 \<ge> 2) = False" by simp
    from u [unfolded n if_False option_bind split_paired_Ex prod.case] obtain r ids where
      ref: "refetch env st r0 = Some (r, ids)" and u: "decide_round env st r ids = Some u" by blast
    note u = u [unfolded decide_round_def]
    note shape = refetch_shape(1) [OF ref]
    from False have calm: "gr_stalled r0 < 2" "gr_repeats r0 < 2" by auto
    show thesis
    proof (cases "ids = []")
      case False
      with u obtain ops seeds where "u = update (tracking r) (next_plan st r (PStr (refetch_directive (ge_to_str env) ids)) ops seeds)"
        by (auto simp: option_bind)
      with fetch [OF r0 ref False calm] show thesis by blast
    next
      case True
      show thesis
      proof (cases "\<not> truthy (dget_none ''goal'' st) \<or> gr_iterations r \<ge> gr_max r")
        case True
        with u \<open>ids = []\<close> have "u = finish st r []" by simp
        then show thesis
          by (rule ended [OF r0]) (use shape in \<open>simp_all add: plain\<close>)
      next
        case go: False
        show thesis
        proof (cases "ge_verify env st r")
          case None
          with u \<open>ids = []\<close> go have "u = finish st r [(''token_usage'', dget_none ''token_usage'' st), (''model_audit'', PList [])]" by simp
          then show thesis
            by (rule ended [OF r0]) (use shape in \<open>simp_all add: plain\<close>)
        next
          case (Some v)
          show thesis
          proof (cases "next_round env st r v")
            case None
            with u \<open>ids = []\<close> go Some have "u = finish st r [(''token_usage'', vd_usage v), (''model_audit'', audit_list v)]" by simp
            then show thesis
              by (rule ended [OF r0]) (use shape in \<open>simp_all add: plain\<close>)
          next
            case (Some w)
            with u \<open>ids = []\<close> go \<open>ge_verify env st r = Some v\<close> have "next_round env st r v = Some u" by simp
            with again [OF r0 _ calm] ref \<open>ids = []\<close> go \<open>ge_verify env st r = Some v\<close> show thesis by auto
          qed
        qed
      qed
    qed
  qed
qed

lemma dget_append: "dget k (a @ b) = (case dget k a of Some v \<Rightarrow> Some v | None \<Rightarrow> dget k b)"
  unfolding dget_def by (simp add: map_add_def)

lemma dget_Cons: "dget k ((k', v) # d) = (if k' = k then Some v else dget k d)"
  by (simp add: dget_def)

lemma dget_no_entry: "dget k [] = None"
  by (simp add: dget_def)

lemma tracking_fields:
  "dget_none ''iterations'' (tracking r) = PInt (gr_iterations r)" "dget_none ''no_progress_rounds'' (tracking r) = PInt (gr_stalled r)"
  by (simp_all add: tracking_def dget_or_def dget_Cons)

lemmas dget_simps = dget_append dget_Cons dget_no_entry dget_or_update rev.simps rev_append tracking_fields

lemma extra_other:
  assumes "plain_extra extra" "k \<notin> {''token_usage'', ''model_audit''}"
  shows "dget k (rev extra) = None"
  using assms by (auto simp: plain_extra_def dget_def map_of_eq_None_iff)

text \<open>What every way out leaves, and what a round that goes on leaves for the next: no response, no plan, no results.\<close>

definition round_left :: "string \<Rightarrow> goal_round \<Rightarrow> pydict \<Rightarrow> bool" where
  "round_left d r u \<longleftrightarrow> dget_none ''goal_loop_decision'' u = PStr d \<and> dget_none ''iterations'' u = PInt (gr_iterations r)
     \<and> dget_none ''no_progress_rounds'' u = PInt (gr_stalled r)"

definition cleared :: "pydict \<Rightarrow> bool" where
  "cleared u \<longleftrightarrow> dget_none ''response'' u = PNone \<and> dget_none ''plan'' u = PList [] \<and> dget_none ''step_results'' u = PList []
     \<and> dget_none ''current_step_index'' u = PInt 0 \<and> dget_none ''selected'' u = PNone"

lemma finish_left:
  assumes "plain_extra extra"
  shows "round_left ''done'' r (finish st r extra)" "dget_none ''response'' (finish st r extra) = PDict (terminal_response st r)"
  unfolding finish_def round_left_def by (simp_all add: dget_simps extra_other [OF assms])

lemma next_plan_left:
  assumes "set (map fst extra) \<subseteq> {''last_failure'', ''token_usage'', ''model_audit''}"
  shows "round_left ''continue'' r (update (tracking r) (next_plan st r0 directive ops seeds @ extra))"
    "cleared (update (tracking r) (next_plan st r0 directive ops seeds @ extra))"
proof -
  have e: "dget k (rev extra) = None" if "k \<notin> {''last_failure'', ''token_usage'', ''model_audit''}" for k
    using assms that by (auto simp: dget_def map_of_eq_None_iff)
  show "round_left ''continue'' r (update (tracking r) (next_plan st r0 directive ops seeds @ extra))"
    "cleared (update (tracking r) (next_plan st r0 directive ops seeds @ extra))"
    unfolding next_plan_def round_left_def cleared_def by (simp_all add: dget_simps e)
qed

lemma retriage_left:
  assumes "build_retriage_reset probe = Some reset" "probe \<noteq> []"
  shows "round_left ''retriage'' r (update (tracking r) (retriage_plan st r directive ops failure v reset))"
    "cleared (update (tracking r) (retriage_plan st r directive ops failure v reset))"
proof -
  from assms obtain count facts where reset: "reset = [(''retriage_count'', PInt (count + 1)),
          (''retriage_context'', PDict [(''reason'', PStr ''goal_loop_retriage''), (''from_stack'', get_or ''triage_mode'' (PStr ''classic'') probe),
             (''remaining_goal_facts'', PList (take 20 facts)), (''replan_count'', dget_none ''replan_count'' probe)]),
          (''force_retriage'', PBool False), (''force_execute'', PBool False), (''plan'', PList []), (''current_step_index'', PInt 0),
          (''step_results'', PList []), (''selected'', PNone), (''payload'', PNone), (''response'', PNone), (''goal_loop_decision'', PNone),
          (''retry_count'', PInt 0)]"
    unfolding build_retriage_reset_def by (auto simp: option_bind)
  show "round_left ''retriage'' r (update (tracking r) (retriage_plan st r directive ops failure v reset))"
    "cleared (update (tracking r) (retriage_plan st r directive ops failure v reset))"
    unfolding reset cleared_def round_left_def retriage_plan_def by (simp_all add: dget_simps)
qed

lemma probe_nonempty: "update st (tracking r @ xs) \<noteq> []"
proof
  assume "update st (tracking r @ xs) = []"
  then have "dget ''iterations'' (update st (tracking r @ xs)) = None" by (simp add: dget_def)
  then show False
    by (simp add: dget_update dget_append tracking_def dget_Cons split: option.splits)
qed

text \<open>The verifier lets a round go on only while there is a goal it has not found done and the limit is not reached.\<close>

definition unfinished :: "goal_env \<Rightarrow> pydict \<Rightarrow> goal_round \<Rightarrow> goal_verdict \<Rightarrow> bool" where
  "unfinished env st r v \<longleftrightarrow> truthy (dget_none ''goal'' st) \<and> gr_iterations r < gr_max r \<and> \<not> fst (parse_goal_check (ge_to_str env) (vd_parsed v))"

lemma next_round_left:
  assumes "next_round env st r v = Some u"
  shows "unfinished env st r v \<and> cleared u \<and> (round_left ''continue'' r u \<or> round_left ''retriage'' r u)"
proof -
  obtain is_done reason hint where p: "parse_goal_check (ge_to_str env) (vd_parsed v) = (is_done, reason, hint)"
    by (cases "parse_goal_check (ge_to_str env) (vd_parsed v)") blast
  let ?goal = "dget_none ''goal'' st"
  let ?text = "build_goal_directive (gr_remaining r) hint"
  let ?directive = "if ?text \<noteq> [] then PStr ?text else ?goal"
  let ?failure = "if truthy (gr_failure r) then gr_failure r else dget_none ''last_failure'' st"
  let ?probe = "update st (tracking r @ [(''replan_count'', get_or ''replan_count'' (PInt 0) st)])"
  note n = assms [unfolded next_round_def Let_def p prod.case]
  from n have d: "decide_goal_loop ?goal (gr_iterations r) (gr_max r) is_done = ''continue''"
    by (auto split: if_splits)
  then have unf: "unfinished env st r v"
    unfolding unfinished_def p fst_conv decide_goal_loop_def by (simp split: if_splits)
  have dn: "(decide_goal_loop ?goal (gr_iterations r) (gr_max r) is_done \<noteq> ''continue'') = False" using d by simp
  from n [unfolded dn if_False] obtain ops again where b:
    "(if again then do {
          reset \<leftarrow> build_retriage_reset ?probe;
          Some (update (tracking r) (retriage_plan st r ?directive ops ?failure v reset))
        }
        else do {
          seeds \<leftarrow> sanitize_continue_seeds st;
          Some (update (tracking r)
            (next_plan st r ?directive ops seeds
             @ [(''last_failure'', ?failure), (''token_usage'', vd_usage v), (''model_audit'', audit_list v)]))
        }) = Some u"
    unfolding option_bind by blast
  show ?thesis
  proof (cases again)
    case True
    then have t: "again = True" by simp
    from b [unfolded t if_True option_bind option.inject] obtain reset where
      r: "build_retriage_reset ?probe = Some reset" "update (tracking r) (retriage_plan st r ?directive ops ?failure v reset) = u" by blast
    show ?thesis
      using unf retriage_left [OF r(1) probe_nonempty] unfolding r(2) [symmetric] by blast
  next
    case False
    then have f: "again = False" by simp
    from b [unfolded f if_False option_bind option.inject] obtain seeds where
      u: "update (tracking r) (next_plan st r ?directive ops seeds
             @ [(''last_failure'', ?failure), (''token_usage'', vd_usage v), (''model_audit'', audit_list v)]) = u" by blast
    have "set (map fst [(''last_failure'', ?failure), (''token_usage'', vd_usage v), (''model_audit'', audit_list v)])
        \<subseteq> {''last_failure'', ''token_usage'', ''model_audit''}" by simp
    from next_plan_left [OF this] unf show ?thesis
      unfolding u [symmetric] by blast
  qed
qed

subsection \<open>Decisions\<close>

definition goes_on :: "pydict \<Rightarrow> bool" where
  "goes_on u \<longleftrightarrow> dget_none ''goal_loop_decision'' u \<noteq> PStr ''done''"

lemma round_step:
  assumes "goap_goal_node env st = Some u"
  shows "\<exists>n limit. int_or_zero ''iterations'' st = Some n \<and> round_limit env st = Some limit \<and> dget_none ''iterations'' u = PInt (n + 1)
    \<and> dget_none ''goal_loop_decision'' u \<in> {PStr ''done'', PStr ''continue'', PStr ''retriage''} \<and> (goes_on u \<longrightarrow> n + 1 < limit)"
proof -
  have "\<exists>r. goal_round_of env st = Some r \<and> dget_none ''iterations'' u = PInt (gr_iterations r)
    \<and> dget_none ''goal_loop_decision'' u \<in> {PStr ''done'', PStr ''continue'', PStr ''retriage''} \<and> (goes_on u \<longrightarrow> gr_iterations r < gr_max r)"
    using assms
  proof (cases rule: node_cases)
    case (ended r0 r extra)
    with finish_left(1) [OF ended(3), where r = r and st = st] show ?thesis
      by (auto simp: round_left_def goes_on_def)
  next
    case (fetch r0 r ids ops seeds)
    have "round_left ''continue'' r u"
      using next_plan_left [where extra = "[]" and r = r and st = st and r0 = r] unfolding fetch(6) by simp
    with refetch_shape [OF fetch(2)] fetch(1,3) show ?thesis
      by (auto simp: round_left_def)
  next
    case (again r0 r v)
    with next_round_left [OF again(8)] refetch_shape(1) [OF again(2)] show ?thesis
      by (auto simp: round_left_def)
  qed
  then obtain r where r: "goal_round_of env st = Some r" "dget_none ''iterations'' u = PInt (gr_iterations r)"
    "dget_none ''goal_loop_decision'' u \<in> {PStr ''done'', PStr ''continue'', PStr ''retriage''}" "goes_on u \<longrightarrow> gr_iterations r < gr_max r" by blast
  show ?thesis
    using round_counts [OF r(1)] r by (intro exI [of _ "gr_iterations r - 1"] exI [of _ "gr_max r"]) auto
qed

lemma distinct_update: "distinct (map fst st) \<Longrightarrow> distinct (map fst (update st upd))"
  by (induction upd arbitrary: st) (simp_all add: update_def split_beta distinct_dset)

lemma dget_rev: "distinct (map fst u) \<Longrightarrow> dget k (rev u) = dget k u"
  unfolding dget_def by (rule fun_cong [OF map_of_eqI]) (auto simp: distinct_map map_of_eq_Some_iff)

lemma distinct_tracked: "distinct (map fst (update (tracking r) upd))"
  by (rule distinct_update) (simp add: tracking_def)

lemma node_distinct:
  assumes "goap_goal_node env st = Some u"
  shows "distinct (map fst u)"
  using assms
proof (cases rule: node_cases)
  case (again r0 r v)
  from again(8) show ?thesis
    unfolding next_round_def Let_def
    by (auto simp: option_bind distinct_tracked split: prod.splits if_splits)
qed (simp_all add: finish_def distinct_tracked)

lemma goal_edge_of:
  "next_node to_str flag root_spec st ''goap_goal'' =
     Some (Node (if goal_check_router st = ''retriage'' then ''triage'' else if goal_check_router st = ''continue'' then planning_entry flag else ''summary_node''))"
  by (auto simp: next_node_def root_defs router_at_def router_table_def target_of_def endpoint_of_def goal_check_router_def planning_entry_def Let_def)

lemma decision_kept:
  assumes "goap_goal_node env st = Some u"
  shows "dget ''goal_loop_decision'' (update st u) = dget ''goal_loop_decision'' u"
    and "int_or_zero ''iterations'' (update st u) = int_of_py (dget_none ''iterations'' u)"
proof -
  note d = dget_rev [OF node_distinct [OF assms]]
  obtain n where "dget_none ''iterations'' u = PInt n" "dget_none ''goal_loop_decision'' u \<noteq> PNone"
    using round_step [OF assms] by (auto simp: goes_on_def split: if_splits)
  then have "dget ''goal_loop_decision'' u \<noteq> None" "dget ''iterations'' u \<noteq> None"
    unfolding dget_or_def by (auto split: option.splits)
  then show "dget ''goal_loop_decision'' (update st u) = dget ''goal_loop_decision'' u"
    "int_or_zero ''iterations'' (update st u) = int_of_py (dget_none ''iterations'' u)"
    by (auto simp: dget_update d int_or_zero_def dget_or_def)
qed

text \<open>The decision is the edge the graph takes next.\<close>

theorem decision_is_edge:
  assumes "goap_goal_node env st = Some u"
  shows "next_node to_str flag root_spec (update st u) ''goap_goal'' =
    Some (Node (if \<not> goes_on u then ''summary_node''
      else if dget_none ''goal_loop_decision'' u = PStr ''retriage'' then ''triage'' else planning_entry flag))"
proof -
  have "dget_none ''goal_loop_decision'' u \<in> {PStr ''done'', PStr ''continue'', PStr ''retriage''}"
    using round_step [OF assms] by (auto simp: goes_on_def split: if_splits)
  then have "dget_or ''goal_loop_decision'' (PStr ''done'') (update st u) = dget_none ''goal_loop_decision'' u"
    unfolding dget_or_def decision_kept(1) [OF assms] by (auto split: option.splits)
  with \<open>dget_none ''goal_loop_decision'' u \<in> _\<close> show ?thesis
    unfolding goal_edge_of goal_check_router_def Let_def goes_on_def by auto
qed

subsection \<open>The loop ends\<close>

text \<open>A run of rounds that go on; between two rounds the other nodes may change everything but the round counter and its limit.\<close>

inductive goal_run :: "goal_env \<Rightarrow> pydict \<Rightarrow> nat \<Rightarrow> pydict \<Rightarrow> bool" for env st where
  start: "goal_run env st 0 st"
| round: "goal_run env st k s \<Longrightarrow> dget ''iterations'' s' = dget ''iterations'' s \<Longrightarrow> round_limit env s' = round_limit env st
    \<Longrightarrow> goap_goal_node env s' = Some u \<Longrightarrow> goes_on u \<Longrightarrow> goal_run env st (Suc k) (update s' u)"

text \<open>
  C17: Whatever the plans, the results and the verifier do, fewer rounds go on than the limit leaves: the loop ends.
\<close>

theorem goal_loop_bounded:
  assumes "goal_run env st k s" "int_or_zero ''iterations'' st = Some n" "round_limit env st = Some limit"
  shows "int_or_zero ''iterations'' s = Some (n + int k) \<and> int k \<le> max 0 (limit - n - 1)"
  using assms(1)
proof induction
  case start
  then show ?case
    using assms(2) by simp
next
  case (round k s s' u)
  have s': "int_or_zero ''iterations'' s' = Some (n + int k)"
    using round.IH round.hyps(2) by (simp add: int_or_zero_def dget_or_def)
  from round_step [OF round.hyps(4)] round.hyps(3,5) assms(3) s'
  have "n + int k + 1 < limit" "dget_none ''iterations'' u = PInt (n + int k + 1)"
    by auto
  with decision_kept(2) [OF round.hyps(4)] show ?case
    by simp
qed

subsection \<open>Stalled rounds\<close>

text \<open>A round that follows a replan and adds neither to the memory nor to the executed operations.\<close>

definition stalled_round :: "goal_env \<Rightarrow> pydict \<Rightarrow> bool" where
  "stalled_round env st \<longleftrightarrow> dget_none ''goal_loop_decision'' st = PStr ''continue''
     \<and> (\<exists>old results mem prev steps. dict_or_empty ''working_memory'' st = Some old \<and> list_or_empty ''step_results'' st = Some results
       \<and> fold_working_memory (ge_verbs env) old results = Some mem \<and> gained_nothing st old mem
       \<and> list_or_empty ''executed_op_ids'' st = Some prev \<and> list_or_empty ''plan'' st = Some steps
       \<and> length (accumulate_executed_ops prev steps results) \<le> length prev)"

lemma stalled_count:
  assumes "goal_round_of env st = Some r"
  shows "if stalled_round env st then map_option (\<lambda>p. p + 1) (int_or_zero ''no_progress_rounds'' st) = Some (gr_stalled r) else gr_stalled r = 0"
proof -
  from assms obtain old results mem prev steps where
    f: "dict_or_empty ''working_memory'' st = Some old" "list_or_empty ''step_results'' st = Some results"
      "fold_working_memory (ge_verbs env) old results = Some mem" "list_or_empty ''executed_op_ids'' st = Some prev"
      "list_or_empty ''plan'' st = Some steps"
    and c: "counter (gained_nothing st old mem \<and> length (accumulate_executed_ops prev steps results) \<le> length prev
        \<and> dget_none ''goal_loop_decision'' st = PStr ''continue'') ''no_progress_rounds'' st = Some (gr_stalled r)"
    unfolding goal_round_of_def option_bind Let_def by (auto simp: split_beta option_bind)
  have "stalled_round env st \<longleftrightarrow> gained_nothing st old mem \<and> length (accumulate_executed_ops prev steps results) \<le> length prev
        \<and> dget_none ''goal_loop_decision'' st = PStr ''continue''"
    unfolding stalled_round_def using f by auto
  with c show ?thesis
    unfolding counter_def by (auto split: if_splits)
qed

text \<open>
  C18: The second stalled round in a row ends the loop: stalled rounds are counted, a round that gains something resets the count, and a
  stalled round that finds the count at one or more is done.
\<close>

theorem stalls_end_the_loop:
  assumes "goap_goal_node env st = Some u"
  shows "if stalled_round env st
    then \<exists>p. int_or_zero ''no_progress_rounds'' st = Some p \<and> dget_none ''no_progress_rounds'' u = PInt (p + 1) \<and> (p \<ge> 1 \<longrightarrow> \<not> goes_on u)
    else dget_none ''no_progress_rounds'' u = PInt 0"
proof -
  have "\<exists>r. goal_round_of env st = Some r \<and> dget_none ''no_progress_rounds'' u = PInt (gr_stalled r) \<and> (gr_stalled r \<ge> 2 \<longrightarrow> \<not> goes_on u)"
    using assms
  proof (cases rule: node_cases)
    case (ended r0 r extra)
    with finish_left [OF ended(3), where r = r and st = st] show ?thesis
      by (auto simp: round_left_def goes_on_def)
  next
    case (fetch r0 r ids ops seeds)
    have "round_left ''continue'' r u"
      using next_plan_left [where extra = "[]" and r = r and st = st and r0 = r] unfolding fetch(6) by simp
    moreover have "gr_stalled r = gr_stalled r0"
      using refetch_shape(1) [OF fetch(2)] by auto
    ultimately show ?thesis
      using fetch(1,4) by (auto simp: round_left_def)
  next
    case (again r0 r v)
    have "gr_stalled r = gr_stalled r0"
      using refetch_shape(1) [OF again(2)] by auto
    with next_round_left [OF again(8)] again(1,3) show ?thesis
      by (auto simp: round_left_def)
  qed
  then obtain r where "goal_round_of env st = Some r" "dget_none ''no_progress_rounds'' u = PInt (gr_stalled r)" "gr_stalled r \<ge> 2 \<longrightarrow> \<not> goes_on u"
    by blast
  with stalled_count [of env st r] show ?thesis
    by (auto split: if_splits)
qed

subsection \<open>Fetching again\<close>



subsection \<open>Every round decides\<close>








subsection \<open>Failures compared with themselves\<close>

lemma halt_message_nonempty: "halt_message to_str st r un = Some msg \<Longrightarrow> msg \<noteq> []"
  unfolding halt_message_def by (auto split: if_splits)

text \<open>
  The validator stores the failure it reports as the last failure, so the guard against repeated failures sees every final failure of a
  call as a repetition, the first one too.
\<close>

lemma first_failure_repeats:
  assumes "terminal_failure to_str st r un = Some u" "truthy (dget_none ''goal'' st)"
  shows "repeated_failure (update st u)"
proof -
  from assms obtain msg results rcd ctx where
    msg: "halt_message to_str st r un = Some msg"
    and rcd: "build_failure_record to_str st (PDict [(''status'', PStr ''error''), (''message'', PStr msg), (''unresolved_required'', PList un)]) ''error'' = Some rcd"
    and u: "u = [(''response'', PDict [(''status'', PStr ''error''), (''message'', PStr msg), (''unresolved_required'', PList un)]),
       (''step_results'', PList (results @ [PDict [(''status'', PStr ''error''), (''message'', PStr msg), (''unresolved_required'', PList un)]])),
       (''last_failure'', PDict rcd), (''replan_context'', PList (ctx @ [PDict rcd]))]"
    unfolding terminal_failure_def by (auto simp: option_bind Let_def)
  have ne: "msg \<noteq> []" by (rule halt_message_nonempty [OF msg])
  have "dget_none ''detail'' rcd = PStr msg"
    using rcd ne unfolding build_failure_record_def
    by (auto simp: option_bind first_text_def dget_or_def dget_def truthy_def str_text_def)
  then have "last_failure_text (update st u) = PStr msg"
    using ne by (simp add: last_failure_text_def u dget_simps get_or_def truthy_def)
  moreover have "current_failure (update st u) = PStr msg"
    using ne by (simp add: current_failure_def u dget_simps)
      (simp add: dget_or_def dget_def one_of_def py_in_def get_or_def truthy_def)
  ultimately show ?thesis
    using ne by (simp add: repeated_failure_def truthy_def)
qed

subsection \<open>Samples\<close>

definition restless :: "goal_env" where
  "restless = \<lparr>ge_verbs = route_verbs, ge_default_max = 3, ge_max_replans = 2, ge_retriage_max = 2, ge_to_str = (\<lambda>_. []),
     ge_verify = (\<lambda>_ _. Some \<lparr>vd_parsed = PDict [(''done'', PBool False)], vd_usage = PNone, vd_audit = PNone\<rparr>)\<rparr>"

definition idle_state :: "int \<Rightarrow> pydict" where
  "idle_state stalls =
     [(''goal'', PStr ''report''), (''goal_loop_decision'', PStr ''continue''), (''no_progress_rounds'', PInt stalls), (''iterations'', PInt 0),
      (''executed_op_ids'', PList [PStr ''list_pages'']), (''plan'', PList [PDict [(''operation_id'', PStr ''list_pages'')]]),
      (''step_results'', PList [PDict [(''status'', PStr ''ok'')]])]"

definition after_idle :: "int \<Rightarrow> pydict" where
  "after_idle stalls = the (goap_goal_node restless (idle_state stalls))"

lemma idle_rounds:
  "goap_goal_node restless (idle_state 0) = Some (after_idle 0)" "goes_on (after_idle 0)"
  "goap_goal_node restless (idle_state 1) = Some (after_idle 1)" "\<not> goes_on (after_idle 1)"
  by code_simp+

lemma idle_parts:
  "dget_none ''goal_loop_decision'' (idle_state 1) = PStr ''continue''"
  "dict_or_empty ''working_memory'' (idle_state 1) = Some []"
  "list_or_empty ''step_results'' (idle_state 1) = Some [PDict [(''status'', PStr ''ok'')]]"
  "fold_working_memory (ge_verbs restless) [] [PDict [(''status'', PStr ''ok'')]] = Some []"
  "gained_nothing (idle_state 1) [] []"
  "list_or_empty ''executed_op_ids'' (idle_state 1) = Some [PStr ''list_pages'']"
  "list_or_empty ''plan'' (idle_state 1) = Some [PDict [(''operation_id'', PStr ''list_pages'')]]"
  "length (accumulate_executed_ops [PStr ''list_pages''] [PDict [(''operation_id'', PStr ''list_pages'')]] [PDict [(''status'', PStr ''ok'')]])
    \<le> length [PStr ''list_pages'']"
  by code_simp+

lemma idle_stalls: "stalled_round restless (idle_state 1)"
  unfolding stalled_round_def using idle_parts by blast


theorem decision_is_edge_witness:
  "next_node (\<lambda>_. []) True root_spec (update (idle_state 1) (after_idle 1)) ''goap_goal'' = Some (Node ''summary_node'')"
  using decision_is_edge [OF idle_rounds(3)] idle_rounds(4) by simp

lemma idle_counts:
  "int_or_zero ''iterations'' (idle_state 0) = Some 0" "round_limit restless (idle_state 0) = Some 3"
  by code_simp+

theorem goal_loop_bounded_witness:
  "int_or_zero ''iterations'' (update (idle_state 0) (after_idle 0)) = Some 1 \<and> (1::int) \<le> max 0 (3 - 0 - 1)"
  using goal_loop_bounded [OF goal_run.round [OF goal_run.start refl refl idle_rounds(1,2)] idle_counts] by simp

lemma one_stall: "int_or_zero ''no_progress_rounds'' (idle_state 1) = Some 1"
  by code_simp

theorem stalls_end_the_loop_witness:
  "dget_none ''no_progress_rounds'' (after_idle 1) = PInt 2 \<and> \<not> goes_on (after_idle 1)"
  using stalls_end_the_loop [OF idle_rounds(3)] idle_stalls one_stall by simp

definition three_pages :: "goal_round" where
  "three_pages = \<lparr>gr_iterations = 1, gr_max = 3, gr_memory = [(''page_ids'', PList [PStr ''p1'', PStr ''p2'', PStr ''p3''])], gr_ops = [],
     gr_summary = PNone, gr_facts = [], gr_achieved = [], gr_remaining = [], gr_failure = PNone, gr_stalled = 0, gr_repeats = 0\<rparr>"

definition one_fetched :: "pydict" where
  "one_fetched = [(''fanout_target'', PInt 3), (''step_results'', PList [PDict [(''data'', PDict [(''id'', PStr ''p1'')])]])]"

definition after_fetch :: goal_round where
  "after_fetch = three_pages\<lparr>gr_memory := [(''page_ids'', PList [PStr ''p1'', PStr ''p2'', PStr ''p3'']), (''fetched_ids'', PList [PStr ''p1'']),
     (''pending_fetch_ids'', PList [PStr ''p2'', PStr ''p3'']), (''fetch_replans'', PInt 1)]\<rparr>"

lemma fetch_sample: "refetch restless one_fetched three_pages = Some (after_fetch, [''p2'', ''p3''])" "[''p2'', ''p3''] \<noteq> []"
  by code_simp+

text \<open>
  The memory before a round is kept in the state after the round: a failing round that never reached \<open>round_summary\<close> is still compared
  with it, so growth of an earlier round hides that nothing was gained.
\<close>

lemma stale_baseline_hides_stall:
  "\<not> gained_nothing [(''pre_round_memory'', PDict []), (''working_memory'', PDict [(''page_id'', PStr ''p'')])]
     [(''page_id'', PStr ''p'')] [(''page_id'', PStr ''p'')]"
  by code_simp

text \<open>A retriage reports the goals that remained before the round, the new list is not part of the state it reads.\<close>

lemma retriage_reports_old_goals:
  "map_option (dget ''remaining_goal_facts'' \<circ> dict_of \<circ> dget_none ''retriage_context'')
     (build_retriage_reset (update [(''remaining_goal_facts'', PList [PStr ''have:a''])] (tracking (three_pages\<lparr>gr_remaining := []\<rparr>))))
   = Some (Some (PList [PStr ''have:a'']))"
  by code_simp

end
