(* ===== verification/ArgResolve.thy ===== *)
theory ArgResolve
  imports GoalNode
begin

text \<open>
  How a step gets its arguments at run time: \<open>core_graph/node/helpers/args.py\<close>.  Dotted paths are followed through results,
  wrong paths fall back to wrappers and to a search for the key, missing parameters are taken from context, results and memory.  The
  order in which Python lists the set \<open>_ID_ALIASES\<close> and the parameters of a fast-path function are arguments.  \<open>None\<close>
  is an exception.
\<close>

subsection \<open>Paths\<close>

text \<open>A match of \<open>\[(\d+)\]\<close> at the start: the digits and the rest.\<close>

definition index_at :: "string \<Rightarrow> (string \<times> string) option" where
  "index_at s =
     (case s of
        [] \<Rightarrow> None
      | c # t \<Rightarrow>
          (let ds = takeWhile is_digit t; rest = dropWhile is_digit t in
           if c = CHR ''['' \<and> ds \<noteq> [] \<and> starts_with '']'' rest then Some (ds, tl rest) else None))"

lemma index_at_shorter: "index_at s = Some (ds, rest) \<Longrightarrow> length rest < length s"
  unfolding index_at_def Let_def
  by (auto split: list.splits if_splits simp: less_Suc_eq_le intro: le_trans [OF diff_le_self length_dropWhile_le])

text \<open>The text without its indices, and the indices.\<close>

function segment_parts :: "string \<Rightarrow> string \<times> string list" where
  "segment_parts [] = ([], [])"
| "segment_parts (c # cs) =
     (case index_at (c # cs) of
        Some (ds, rest) \<Rightarrow> (let (b, is) = segment_parts rest in (b, ds # is))
      | None \<Rightarrow> (let (b, is) = segment_parts cs in (c # b, is)))"
  by pat_completeness auto
termination
  by (relation "measure length") (auto dest: index_at_shorter)

declare segment_parts.simps(2) [simp del]

definition at_index :: "string \<Rightarrow> pyval \<Rightarrow> pyval" where
  "at_index ds v =
     (case v of
        PList xs \<Rightarrow> (if read_nat ds < length xs then xs ! read_nat ds else PNone)
      | PDict d \<Rightarrow> dget_none ds d
      | _ \<Rightarrow> PNone)"

definition walk_segment :: "string \<Rightarrow> pyval \<Rightarrow> pyval" where
  "walk_segment seg v =
     (let (base, is) = segment_parts seg in
      fold at_index is (if base = [] then v else case v of PDict d \<Rightarrow> dget_none base d | _ \<Rightarrow> PNone))"

definition walk_path :: "pyval \<Rightarrow> string \<Rightarrow> pyval" where
  "walk_path v path = fold walk_segment (filter (\<lambda>s. s \<noteq> []) (split_on (CHR ''.'') path)) v"

subsection \<open>Searching\<close>

definition first_value :: "pyval list \<Rightarrow> pyval" where
  "first_value vs = (case find (\<lambda>v. v \<noteq> PNone) vs of Some v \<Rightarrow> v | None \<Rightarrow> PNone)"

text \<open>Depths above fifty are not searched.\<close>

definition max_deep_find_depth :: nat where
  "max_deep_find_depth = 50"

primrec deep_find :: "nat \<Rightarrow> string \<Rightarrow> pyval \<Rightarrow> pyval" where
  "deep_find 0 key obj = PNone"
| "deep_find (Suc levels) key obj =
     (case obj of
        PDict d \<Rightarrow>
          (let here = (if lower key \<in> set id_aliases then first_value (map snd (filter (\<lambda>(k, v). lower k \<in> set id_aliases) d))
               else dget_none key d) in
           first_value (here # map (\<lambda>kv. deep_find levels key (snd kv)) d))
      | PList xs \<Rightarrow> first_value (map (deep_find levels key) xs)
      | _ \<Rightarrow> PNone)"

definition deep_find_key :: "pyval \<Rightarrow> string \<Rightarrow> pyval" where
  "deep_find_key obj key = deep_find (max_deep_find_depth + 1) key obj"

definition last_name :: "string \<Rightarrow> string" where
  "last_name path = fst (segment_parts (last (split_on (CHR ''.'') path)))"

primrec resolve_in :: "pyval \<Rightarrow> string \<Rightarrow> pyval" where
  "resolve_in PNone path = PNone"
| "resolve_in (PBool b) path = walk_path (PBool b) path"
| "resolve_in (PInt i) path = walk_path (PInt i) path"
| "resolve_in (PFloat r) path = walk_path (PFloat r) path"
| "resolve_in (PStr s) path = walk_path (PStr s) path"
| "resolve_in (PList xs) path = first_value [walk_path (PList xs) path, deep_find_key (PList xs) (last_name path)]"
| "resolve_in (PDict d) path =
     (let inner = map (map_prod id resolve_in) d in
      first_value (walk_path (PDict d) path
        # map (\<lambda>env. case map_of inner env of Some f \<Rightarrow> f path | None \<Rightarrow> PNone) result_envelope_keys
        @ [deep_find_key (PDict d) (last_name path)]))"

definition resolve_step_value :: "pyval \<Rightarrow> string \<Rightarrow> pyval" where
  "resolve_step_value obj path = (if path = [] then obj else resolve_in obj path)"

definition resolve_binding :: "pyval list \<Rightarrow> pyval \<Rightarrow> pyval option" where
  "resolve_binding results ref =
     (case ref of
        PStr s \<Rightarrow>
          (case step_ref_match s of
             None \<Rightarrow> Some ref
           | Some (i, path) \<Rightarrow>
               (if i \<ge> length results then None
                else let v = resolve_step_value (results ! i) (case path of Some p \<Rightarrow> p | None \<Rightarrow> []) in
                  if v = PNone then None else Some v))
      | _ \<Rightarrow> Some ref)"

definition resolve_arg_bindings :: "pydict \<Rightarrow> pyval list \<Rightarrow> pydict" where
  "resolve_arg_bindings bindings results =
     fold (\<lambda>(k, ref) d. case resolve_binding results ref of Some v \<Rightarrow> dset k v d | None \<Rightarrow> d) bindings []"

subsection \<open>Names and values\<close>

definition coerce :: "pyval \<Rightarrow> pyval" where
  "coerce v = (case py_int v of Some i \<Rightarrow> PInt i | None \<Rightarrow> v)"

definition capitalize :: "string \<Rightarrow> string" where
  "capitalize s = (case s of [] \<Rightarrow> [] | c # t \<Rightarrow> upper_char c # lower t)"

definition to_camel :: "string \<Rightarrow> string" where
  "to_camel s = (case split_on (CHR ''_'') s of [] \<Rightarrow> [] | p # ps \<Rightarrow> p @ concat (map capitalize ps))"

definition to_snake :: "string \<Rightarrow> string" where
  "to_snake s =
     (case s of [] \<Rightarrow> [] | c # t \<Rightarrow> lower (c # concat (map (\<lambda>x. if is_upper x then [CHR ''_'', x] else [x]) t)))"

definition camel_of :: "string \<Rightarrow> string" where
  "camel_of p = (if CHR ''_'' \<in> set p then to_camel p else p)"

definition unfilled :: "pydict \<Rightarrow> string \<Rightarrow> bool" where
  "unfilled args p \<longleftrightarrow> dget_none p args = PNone \<or> dget_none p args = PStr []"

subsection \<open>Parameters of a route\<close>

text \<open>The names in \<open>{braces}\<close> and behind colons of a path.\<close>

function brace_names :: "string \<Rightarrow> string list" where
  "brace_names [] = []"
| "brace_names (c # cs) =
     (let name = takeWhile (\<lambda>x. x \<noteq> CHR ''}'') cs in
      if c = CHR ''{'' \<and> name \<noteq> [] \<and> CHR ''}'' \<in> set cs then name # brace_names (drop (length name + 1) cs) else brace_names cs)"
  by pat_completeness auto
termination
  by (relation "measure length") auto

definition param_char :: "char \<Rightarrow> bool" where
  "param_char c = (is_alnum c \<or> c = CHR ''_'')"

function colon_names :: "string \<Rightarrow> string list" where
  "colon_names [] = []"
| "colon_names (c # cs) =
     (let name = takeWhile param_char cs in
      if c = CHR '':'' \<and> name \<noteq> [] then name # colon_names (drop (length name) cs) else colon_names cs)"
  by pat_completeness auto
termination
  by (relation "measure length") auto

declare brace_names.simps(2) [simp del]
declare colon_names.simps(2) [simp del]

definition add_name :: "string \<Rightarrow> string list \<Rightarrow> string list" where
  "add_name p ps = (if p \<in> set ps then ps else ps @ [p])"

text \<open>All parameters and the required ones that the schema names.\<close>

definition schema_params :: "pydict \<Rightarrow> (string list \<times> string list) option" where
  "schema_params route =
     (case (if route = [] then PDict [] else dget_or ''parameters'' (PDict []) route) of
        PDict ps \<Rightarrow>
          (if has_key ''properties'' ps then
             (case (dget_or ''properties'' (PDict []) ps, dget_or ''required'' (PList []) ps) of
                (PDict props, PList req) \<Rightarrow> map_option (\<lambda>r. (map fst props, r)) (strings_of req)
              | _ \<Rightarrow> None)
           else Some (map fst ps, map fst ps))
      | _ \<Rightarrow> Some ([], []))"

definition path_names :: "pydict \<Rightarrow> string list option" where
  "path_names route =
     (if route = [] then Some []
      else case get_or ''path'' (dget_or ''path_template'' (PStr []) route) route of
        PStr path \<Rightarrow> Some (brace_names path @ colon_names path)
      | _ \<Rightarrow> None)"

text \<open>\<open>sig\<close> lists the parameters of a fast-path function and whether they have a default.\<close>

definition expected_params :: "(string \<times> bool) list \<Rightarrow> pydict \<Rightarrow> (string list \<times> string list) option" where
  "expected_params sig route = do {
     (all, req) \<leftarrow> schema_params route;
     names \<leftarrow> path_names route;
     Some (fold add_name (map fst sig) (fold add_name names all),
       fold add_name (map fst (filter (\<lambda>(p, has_default). \<not> has_default) sig)) (fold add_name names req))
   }"

subsection \<open>Filling in\<close>

definition known_value :: "pydict \<Rightarrow> string \<Rightarrow> pyval" where
  "known_value known p =
     first_value (map (\<lambda>k. dget_none k known)
       [p, to_snake p, camel_of p, upper (to_snake p), upper (camel_of p),
        ''WHISKERS_'' @ upper (to_snake p), ''WHISKERS_'' @ upper (camel_of p)])"

definition fill_known :: "pydict \<Rightarrow> string \<Rightarrow> pydict \<Rightarrow> pydict" where
  "fill_known known p args =
     (let v = known_value known p in if unfilled args p \<and> v \<noteq> PNone then dset p (coerce v) args else args)"

definition search_keys :: "string list \<Rightarrow> string \<Rightarrow> string list" where
  "search_keys aliases p = p # (if lower p \<in> set id_aliases then aliases else [])"

definition scan_results :: "string list \<Rightarrow> pyval list \<Rightarrow> string \<Rightarrow> pyval" where
  "scan_results aliases results p =
     first_value (concat (map (\<lambda>res. map (resolve_step_value res) (search_keys aliases p)) (rev results)))"

definition fill_scanned :: "string list \<Rightarrow> pyval list \<Rightarrow> string \<Rightarrow> pydict \<times> string list \<Rightarrow> pydict \<times> string list" where
  "fill_scanned aliases results p s =
     (let v = scan_results aliases results p in
      if \<not> unfilled (fst s) p then s
      else if v \<noteq> PNone then (dset p (coerce v) (fst s), snd s)
      else (fst s, snd s @ [p]))"

definition memory_value :: "pydict \<Rightarrow> string \<Rightarrow> pyval" where
  "memory_value mem p =
     (if has_key p mem then dget_none p mem
      else if lower p \<in> set id_aliases then
        first_value [first_value (map snd (filter (\<lambda>(k, v). lower k \<in> set id_aliases) mem)), deep_find_key (PDict mem) p]
      else first_value
        [if has_key (to_snake p) mem then dget_none (to_snake p) mem else dget_none (camel_of p) mem,
         case find (\<lambda>(k, v). lower k = lower p) mem of Some (k, v) \<Rightarrow> v | None \<Rightarrow> PNone,
         deep_find_key (PDict mem) p])"

definition fill_from_memory :: "pydict \<Rightarrow> string \<Rightarrow> pydict \<times> string list \<Rightarrow> pydict \<times> string list" where
  "fill_from_memory mem p s =
     (let v = memory_value mem p in if v \<noteq> PNone then (dset p (coerce v) (fst s), snd s) else (fst s, snd s @ [p]))"

definition fill_missing_from_memory :: "string list \<Rightarrow> pydict \<Rightarrow> pydict \<Rightarrow> pydict \<times> string list" where
  "fill_missing_from_memory names args mem = fold (fill_from_memory mem) names (args, [])"

definition step_args :: "pydict \<Rightarrow> pyval list \<Rightarrow> pydict option" where
  "step_args step results = do {
     args \<leftarrow> dict_or_empty ''args'' step;
     bindings \<leftarrow> dict_or_empty ''arg_bindings'' step;
     Some (update args (filter (\<lambda>(k, v). v \<noteq> PNone) (resolve_arg_bindings bindings results)))
   }"

definition resolve_args_from_context ::
  "string list \<Rightarrow> (string \<times> bool) list \<Rightarrow> pydict \<Rightarrow> pyval list \<Rightarrow> pydict \<Rightarrow> pydict \<Rightarrow> pydict \<Rightarrow> (pydict \<times> string list) option" where
  "resolve_args_from_context aliases sig step results known route mem = do {
     args \<leftarrow> step_args step results;
     (all, req) \<leftarrow> expected_params sig route;
     let (args1, open) = fold (fill_scanned aliases results) req (fold (fill_known known) all args, []);
     Some (if mem \<noteq> [] \<and> open \<noteq> [] then fill_missing_from_memory open args1 mem else (args1, open))
   }"

subsection \<open>Context parameters and keys\<close>

definition drop_prefix :: "string list \<Rightarrow> string \<Rightarrow> string" where
  "drop_prefix ps s = (case find (\<lambda>p. starts_with p s) ps of Some p \<Rightarrow> drop (length p) s | None \<Rightarrow> s)"

definition build_context_params :: "pydict \<Rightarrow> pydict \<Rightarrow> pydict" where
  "build_context_params overrides parameters =
     update (fold (\<lambda>(k, v) d.
         let bare = lower (drop_prefix [''WHISKERS_'', ''PLUGIN_'', ''DEFAULT_''] k) in dset (to_camel bare) v (dset bare v d))
       parameters []) overrides"

definition normalize_arg_keys :: "pydict \<Rightarrow> string list \<Rightarrow> pydict" where
  "normalize_arg_keys args sig_params =
     fold (\<lambda>(k, v) d. dset (if k \<notin> set sig_params \<and> to_snake k \<in> set sig_params then to_snake k else k) v d) args []"

subsection \<open>All ids of a result\<close>

definition id_text :: "pyval \<Rightarrow> string" where
  "id_text v =
     (case v of PStr s \<Rightarrow> s | PInt i \<Rightarrow> (if i \<noteq> 0 then show_int i else []) | PBool b \<Rightarrow> (if b then ''True'' else []) | _ \<Rightarrow> [])"

definition item_ids :: "pyval \<Rightarrow> string list" where
  "item_ids item = map (id_text \<circ> snd) (filter (\<lambda>(k, v). id_name k) (dict_of item))"

definition envelope_lists :: "pyval \<Rightarrow> pyval list list" where
  "envelope_lists obj =
     (case obj of
        PDict d \<Rightarrow> map list_of (filter is_list
          (map (\<lambda>k. dget_none k d) [''results'', ''items'']
           @ (case dget_none ''data'' d of
                PList xs \<Rightarrow> [PList xs]
              | PDict e \<Rightarrow> map (\<lambda>k. dget_none k e) [''results'', ''items'']
              | _ \<Rightarrow> [])
           @ map (\<lambda>k. dget_none k d) result_envelope_keys))
      | PList xs \<Rightarrow> [xs]
      | _ \<Rightarrow> [])"

definition harvest_all_ids_from_envelope :: "pyval \<Rightarrow> string list" where
  "harvest_all_ids_from_envelope obj =
     dedup (filter (\<lambda>s. s \<noteq> []) (concat (map item_ids (concat (envelope_lists obj)))))"

subsection \<open>Values come from results\<close>

inductive part_of :: "pyval \<Rightarrow> pyval \<Rightarrow> bool" where
  whole: "part_of v v"
| element: "part_of w v \<Longrightarrow> v \<in> set xs \<Longrightarrow> part_of w (PList xs)"
| entry: "part_of w v \<Longrightarrow> (k, v) \<in> set d \<Longrightarrow> part_of w (PDict d)"

lemma part_trans: "part_of b c \<Longrightarrow> part_of a b \<Longrightarrow> part_of a c"
  by (induction rule: part_of.induct) (auto intro: part_of.intros)

definition drawn :: "pyval \<Rightarrow> pyval \<Rightarrow> bool" where
  "drawn w v \<longleftrightarrow> w = PNone \<or> part_of w v"

inductive_cases part_of_none: "part_of w PNone"

lemma part_none: "part_of w PNone \<Longrightarrow> w = PNone"
  by (erule part_of_none) simp

lemma drawn_none: "drawn PNone v"
  by (simp add: drawn_def)

lemma drawn_refl: "drawn v v"
  by (simp add: drawn_def part_of.whole)

lemma drawn_trans: "drawn a b \<Longrightarrow> drawn b c \<Longrightarrow> drawn a c"
  unfolding drawn_def using part_none part_trans by blast

lemma drawn_entry: "dget k d = Some v \<Longrightarrow> drawn v (PDict d)"
  unfolding drawn_def dget_def by (auto dest: map_of_SomeD intro: part_of.intros)

lemma drawn_get: "drawn (dget_none k d) (PDict d)"
  by (cases "dget k d") (simp_all add: dget_or_def drawn_none drawn_entry)

lemma drawn_element: "v \<in> set xs \<Longrightarrow> drawn v (PList xs)"
  by (auto simp: drawn_def intro: part_of.intros)

lemma drawn_value: "(k, v) \<in> set d \<Longrightarrow> drawn v (PDict d)"
  by (auto simp: drawn_def intro: part_of.intros)

lemma first_value_cases: "first_value vs = PNone \<or> first_value vs \<in> set vs"
  by (auto simp: first_value_def find_Some_iff in_set_conv_nth split: option.splits)

lemma drawn_first: "(\<And>w. w \<in> set vs \<Longrightarrow> drawn w v) \<Longrightarrow> drawn (first_value vs) v"
  using first_value_cases [of vs] drawn_none by metis

lemma drawn_index: "drawn (at_index ds v) v"
  by (cases v) (simp_all add: at_index_def drawn_none drawn_get drawn_element)

lemma drawn_fold: "(\<And>x w. drawn (f x w) w) \<Longrightarrow> drawn (fold f xs v) v"
  by (induction xs arbitrary: v) (auto intro: drawn_refl drawn_trans)

lemma drawn_segment: "drawn (walk_segment seg v) v"
proof -
  obtain base idx where b: "segment_parts seg = (base, idx)" by force
  let ?w = "if base = [] then v else case v of PDict d \<Rightarrow> dget_none base d | _ \<Rightarrow> PNone"
  have "drawn ?w v"
    by (cases v) (simp_all add: drawn_refl drawn_none drawn_get)
  moreover have "drawn (fold at_index idx ?w) ?w"
    by (rule drawn_fold) (rule drawn_index)
  ultimately show ?thesis
    unfolding walk_segment_def b Let_def prod.case by (rule drawn_trans [rotated])
qed

lemma drawn_walk: "drawn (walk_path v path) v"
  unfolding walk_path_def by (rule drawn_fold) (rule drawn_segment)

lemma drawn_alias: "drawn (first_value (map snd (filter (\<lambda>(k, v). lower k \<in> set id_aliases) d))) (PDict d)"
  by (rule drawn_first) (auto intro: drawn_value)

lemma drawn_deep: "drawn (deep_find levels key obj) obj"
proof (induction levels arbitrary: obj)
  case (Suc levels)
  show ?case
  proof (cases obj)
    case (PList xs)
    have "drawn (first_value (map (deep_find levels key) xs)) (PList xs)"
      by (rule drawn_first) (auto intro: drawn_trans [OF Suc.IH drawn_element])
    then show ?thesis by (simp add: PList)
  next
    case (PDict d)
    let ?here = "if lower key \<in> set id_aliases then first_value (map snd (filter (\<lambda>(k, v). lower k \<in> set id_aliases) d)) else dget_none key d"
    have here: "drawn ?here (PDict d)"
      by (simp add: drawn_get drawn_alias)
    have "drawn (first_value (?here # map (\<lambda>kv. deep_find levels key (snd kv)) d)) (PDict d)"
    proof (rule drawn_first)
      fix w assume "w \<in> set (?here # map (\<lambda>kv. deep_find levels key (snd kv)) d)"
      then consider "w = ?here" | k v where "(k, v) \<in> set d" "w = deep_find levels key v" by auto
      then show "drawn w (PDict d)"
        using here Suc.IH drawn_value drawn_trans by cases blast+
    qed
    then show ?thesis by (simp add: PDict Let_def)
  qed (simp_all add: drawn_none)
qed (simp add: drawn_none)

lemma drawn_deep_key: "drawn (deep_find_key obj key) obj"
  unfolding deep_find_key_def by (rule drawn_deep)

lemma drawn_resolve_in: "drawn (resolve_in v path) v"
proof (induction v)
  case (PList xs)
  show ?case
    unfolding resolve_in.simps by (rule drawn_first) (auto intro: drawn_walk drawn_deep_key)
next
  case (PDict d)
  let ?inner = "map (map_prod id resolve_in) d"
  have env: "drawn (case map_of ?inner env of Some f \<Rightarrow> f path | None \<Rightarrow> PNone) (PDict d)" for env
  proof (cases "map_of ?inner env")
    case (Some f)
    then obtain v where "(env, v) \<in> set d" "f = resolve_in v" using map_of_SomeD [OF Some] by auto
    moreover from this have "drawn (resolve_in v path) v" using PDict.IH [of "(env, v)" v] by simp
    ultimately show ?thesis using Some drawn_value drawn_trans by fastforce
  qed (simp add: drawn_none)
  show ?case
    unfolding resolve_in.simps Let_def
    by (rule drawn_first) (use env drawn_walk drawn_deep_key in auto)
qed (simp_all add: drawn_none drawn_walk)

lemma drawn_resolve: "drawn (resolve_step_value v path) v"
  by (simp add: resolve_step_value_def drawn_refl drawn_resolve_in)

lemma drawn_part: "drawn v w \<Longrightarrow> v \<noteq> PNone \<Longrightarrow> part_of v w"
  by (simp add: drawn_def)

lemma drawn_scan:
  assumes "scan_results aliases results p \<noteq> PNone"
  shows "\<exists>res\<in>set results. part_of (scan_results aliases results p) res"
proof -
  from assms first_value_cases have "scan_results aliases results p
      \<in> set (concat (map (\<lambda>res. map (resolve_step_value res) (search_keys aliases p)) (rev results)))"
    unfolding scan_results_def by blast
  then obtain res sk where r: "res \<in> set results" "scan_results aliases results p = resolve_step_value res sk" by auto
  then have "part_of (scan_results aliases results p) res"
    using drawn_part [OF drawn_resolve, of res sk] assms by simp
  with r(1) show ?thesis ..
qed

lemma drawn_found: "drawn (case find q d of Some (k, v) \<Rightarrow> v | None \<Rightarrow> PNone) (PDict d)"
proof (cases "find q d")
  case (Some kv)
  then have "(fst kv, snd kv) \<in> set d" using find_SomeD [OF Some] by simp
  from drawn_value [OF this] Some show ?thesis by (simp add: split_beta)
qed (simp add: drawn_none)

lemma drawn_memory: "drawn (memory_value mem p) (PDict mem)"
proof -
  have "drawn (first_value [first_value (map snd (filter (\<lambda>(k, v). lower k \<in> set id_aliases) mem)), deep_find_key (PDict mem) p]) (PDict mem)"
    by (rule drawn_first) (auto intro: drawn_alias drawn_deep_key)
  moreover have "drawn (if has_key (to_snake p) mem then dget_none (to_snake p) mem else dget_none (camel_of p) mem) (PDict mem)"
    by (simp add: drawn_get)
  then have "drawn (first_value
        [if has_key (to_snake p) mem then dget_none (to_snake p) mem else dget_none (camel_of p) mem,
         case find (\<lambda>(k, v). lower k = lower p) mem of Some (k, v) \<Rightarrow> v | None \<Rightarrow> PNone,
         deep_find_key (PDict mem) p]) (PDict mem)"
    by (intro drawn_first) (simp only: list.set insert_iff empty_iff, elim disjE FalseE, simp_all only: drawn_found drawn_deep_key)
  ultimately show ?thesis
    unfolding memory_value_def using drawn_get [of p mem] by presburger
qed

lemma binding_drawn:
  assumes "resolve_binding results ref = Some v"
  shows "v = ref \<or> (\<exists>s i path. ref = PStr s \<and> step_ref_match s = Some (i, path) \<and> i < length results \<and> part_of v (results ! i))"
  using assms drawn_part [OF drawn_resolve]
  by (auto simp: resolve_binding_def Let_def split: pyval.splits option.splits if_splits)

text \<open>The value of a resolved binding: the literal, or a part of the result the reference names.\<close>

definition bound_value :: "pydict \<Rightarrow> pyval list \<Rightarrow> string \<Rightarrow> pyval \<Rightarrow> bool" where
  "bound_value b results k v \<longleftrightarrow> (\<exists>ref. (k, ref) \<in> set b
     \<and> (v = ref \<or> (\<exists>s i path. ref = PStr s \<and> step_ref_match s = Some (i, path) \<and> i < length results \<and> part_of v (results ! i))))"

lemma bindings_fold:
  "dget k (fold (\<lambda>(k, ref) d. case resolve_binding results ref of Some v \<Rightarrow> dset k v d | None \<Rightarrow> d) b d0) = Some v
    \<Longrightarrow> dget k d0 = Some v \<or> bound_value b results k v"
proof (induction b arbitrary: d0)
  case (Cons kr b)
  obtain k' ref where kr: "kr = (k', ref)" by force
  let ?d = "case resolve_binding results ref of Some v \<Rightarrow> dset k' v d0 | None \<Rightarrow> d0"
  from Cons.IH [of ?d] Cons.prems have "dget k ?d = Some v \<or> bound_value b results k v"
    by (simp add: kr)
  moreover have "dget k ?d = Some v \<Longrightarrow> dget k d0 = Some v \<or> bound_value (kr # b) results k v"
    using binding_drawn [of results ref] by (auto simp: kr bound_value_def dget_def split: option.splits if_splits)
  moreover have "bound_value b results k v \<Longrightarrow> bound_value (kr # b) results k v"
    by (auto simp: bound_value_def)
  ultimately show ?case by blast
qed (simp add: dget_def)

lemma bindings_bound: "dget k (resolve_arg_bindings b results) = Some v \<Longrightarrow> bound_value b results k v"
  unfolding resolve_arg_bindings_def by (drule bindings_fold) (auto simp: dget_def)

lemma bindings_distinct: "distinct (map fst (resolve_arg_bindings b results))"
proof -
  have "distinct (map fst d) \<Longrightarrow> distinct (map fst (fold (\<lambda>(k, ref) d. case resolve_binding results ref of Some v \<Rightarrow> dset k v d | None \<Rightarrow> d) b d))" for d
    by (induction b arbitrary: d) (auto simp: distinct_dset split: option.split)
  then show ?thesis
    unfolding resolve_arg_bindings_def by simp
qed

subsection \<open>Every argument has a source\<close>

definition sources :: "pydict \<Rightarrow> pyval list \<Rightarrow> pydict \<Rightarrow> pyval \<Rightarrow> bool" where
  "sources known results mem w \<longleftrightarrow> (\<exists>k. dget k known = Some w) \<or> (\<exists>res\<in>set results. part_of w res) \<or> part_of w (PDict mem)"

definition all_args :: "(string \<Rightarrow> pyval \<Rightarrow> bool) \<Rightarrow> pydict \<Rightarrow> bool" where
  "all_args P args \<longleftrightarrow> (\<forall>k v. dget k args = Some v \<longrightarrow> P k v)"

lemma all_args_dset: "all_args P args \<Longrightarrow> P k v \<Longrightarrow> all_args P (dset k v args)"
  by (auto simp: all_args_def dget_def)

lemma all_args_fold:
  "all_args P (g s) \<Longrightarrow> (\<And>x s. all_args P (g s) \<Longrightarrow> all_args P (g (f x s))) \<Longrightarrow> all_args P (g (fold f xs s))"
  by (induction xs arbitrary: s) auto

lemma known_source: "known_value known p \<noteq> PNone \<Longrightarrow> \<exists>k. dget k known = Some (known_value known p)"
proof -
  assume n: "known_value known p \<noteq> PNone"
  then obtain k where "known_value known p = dget_none k known"
    using first_value_cases unfolding known_value_def by fastforce
  with n show ?thesis by (auto simp: dget_or_def split: option.splits)
qed

lemma all_args_known:
  assumes "all_args P args" "\<And>p w. sources known results mem w \<Longrightarrow> P p (coerce w)"
  shows "all_args P (fill_known known p args)"
  unfolding fill_known_def Let_def using assms(1) all_args_dset [OF assms(1) assms(2)] known_source [of known p]
  by (auto simp: sources_def)

lemma all_args_scanned:
  assumes "all_args P (fst s)" "\<And>p w. sources known results mem w \<Longrightarrow> P p (coerce w)"
  shows "all_args P (fst (fill_scanned aliases results p s))"
  unfolding fill_scanned_def Let_def using assms(1) all_args_dset [OF assms(1) assms(2)] drawn_scan [of aliases results p]
  by (auto simp: sources_def)

lemma all_args_memory:
  assumes "all_args P (fst s)" "\<And>p w. sources known results mem w \<Longrightarrow> P p (coerce w)"
  shows "all_args P (fst (fill_from_memory mem p s))"
  unfolding fill_from_memory_def Let_def using assms(1) all_args_dset [OF assms(1) assms(2)] drawn_part [OF drawn_memory, of mem p]
  by (auto simp: sources_def)

lemma resolve_args_parts:
  assumes "resolve_args_from_context aliases sig step results known route mem = Some (args, left)"
  obtains args0 all req args1 open1 where "step_args step results = Some args0" "expected_params sig route = Some (all, req)"
    "fold (fill_scanned aliases results) req (fold (fill_known known) all args0, []) = (args1, open1)"
    "(args, left) = (if mem \<noteq> [] \<and> open1 \<noteq> [] then fill_missing_from_memory open1 args1 mem else (args1, open1))"
proof -
  from assms obtain args0 all req where p: "step_args step results = Some args0" "expected_params sig route = Some (all, req)"
    and r: "(let (args1, open1) = fold (fill_scanned aliases results) req (fold (fill_known known) all args0, []) in
       Some (if mem \<noteq> [] \<and> open1 \<noteq> [] then fill_missing_from_memory open1 args1 mem else (args1, open1))) = Some (args, left)"
    unfolding resolve_args_from_context_def option_bind split_paired_Ex prod.case by blast
  obtain args1 open1 where f: "fold (fill_scanned aliases results) req (fold (fill_known known) all args0, []) = (args1, open1)" by force
  from that [OF p f] r show thesis
    unfolding f Let_def prod.case by simp
qed

text \<open>
  C30: An argument of a call is never made up: it is written in the step, bound to a part of the result the step refers to (or a literal
  binding), or it is the coerced form of a known parameter or of a part of a result or of the memory.
\<close>

theorem arguments_have_sources:
  assumes "resolve_args_from_context aliases sig step results known route mem = Some (args, left)" "dget p args = Some v"
  shows "(\<exists>a. dict_or_empty ''args'' step = Some a \<and> dget p a = Some v)
    \<or> (\<exists>b. dict_or_empty ''arg_bindings'' step = Some b \<and> bound_value b results p v)
    \<or> (\<exists>w. v = coerce w \<and> sources known results mem w)"
proof -
  from assms(1) obtain args0 all req args1 open1 where parts: "step_args step results = Some args0"
    "fold (fill_scanned aliases results) req (fold (fill_known known) all args0, []) = (args1, open1)"
    "(args, left) = (if mem \<noteq> [] \<and> open1 \<noteq> [] then fill_missing_from_memory open1 args1 mem else (args1, open1))"
    by (rule resolve_args_parts)
  from parts(1) obtain a b where a: "dict_or_empty ''args'' step = Some a" "dict_or_empty ''arg_bindings'' step = Some b"
    and a0: "args0 = update a (filter (\<lambda>(k, v). v \<noteq> PNone) (resolve_arg_bindings b results))"
    unfolding step_args_def option_bind option.inject by blast
  let ?P = "\<lambda>p v. dget p a = Some v \<or> bound_value b results p v \<or> (\<exists>w. v = coerce w \<and> sources known results mem w)"
  have "all_args ?P args0"
  proof -
    have "bound_value b results k v" if "dget k (rev (filter (\<lambda>(k, v). v \<noteq> PNone) (resolve_arg_bindings b results))) = Some v" for k v
    proof -
      from that have "(k, v) \<in> set (resolve_arg_bindings b results)"
        unfolding dget_def by (auto dest: map_of_SomeD)
      moreover have "distinct (map fst (resolve_arg_bindings b results))"
        by (rule bindings_distinct)
      ultimately show ?thesis
        using bindings_bound [of k b results v] by (simp add: dget_def)
    qed
    then show ?thesis
      unfolding all_args_def a0 dget_update by (auto split: option.splits)
  qed
  then have "all_args ?P (fold (fill_known known) all args0)"
    by (rule all_args_fold [where g = "\<lambda>x. x"]) (rule all_args_known [of ?P _ known results mem], auto)
  then have "all_args ?P (fst (fold (fill_scanned aliases results) req (fold (fill_known known) all args0, [])))"
    by (intro all_args_fold [where g = fst]) (simp, rule all_args_scanned [of ?P _ known results mem], auto)
  then have a1: "all_args ?P args1" by (simp add: parts(2))
  have "all_args ?P args"
  proof (cases "mem \<noteq> [] \<and> open1 \<noteq> []")
    case True
    have "all_args ?P (fst (fold (fill_from_memory mem) open1 (args1, [])))"
      by (intro all_args_fold [where g = fst]) (simp add: a1, rule all_args_memory [of ?P _ known results mem], auto)
    with parts(3) True show ?thesis by (simp add: fill_missing_from_memory_def) (metis fst_conv)
  next
    case False
    with parts(3) a1 show ?thesis by auto
  qed
  with assms(2) a show ?thesis
    unfolding all_args_def by blast
qed

subsection \<open>Required parameters\<close>

lemma coerce_none: "coerce v = PNone \<longleftrightarrow> v = PNone"
  by (cases v) (auto simp: coerce_def py_int_def split: option.split)

lemma get_dset: "dget_none k (dset k' v d) = (if k = k' then v else dget_none k d)"
  by (auto simp: dget_or_def dget_def)

text \<open>Filling keeps what is there and leaves every name filled or reported.\<close>

definition settled :: "string list \<Rightarrow> pydict \<times> string list \<Rightarrow> bool" where
  "settled done s \<longleftrightarrow> set (snd s) \<subseteq> set done \<and> (\<forall>p\<in>set done. p \<in> set (snd s) \<or> dget_none p (fst s) \<noteq> PNone)
     \<and> (\<forall>p\<in>set (snd s). unfilled (fst s) p)"

lemma settled_scanned:
  assumes "settled done s" "\<And>p. p \<in> set (snd s) \<Longrightarrow> scan_results aliases results p = PNone"
  shows "settled (done @ [p]) (fill_scanned aliases results p s)
    \<and> (\<forall>q\<in>set (snd (fill_scanned aliases results p s)). scan_results aliases results q = PNone)"
  using assms unfolding settled_def fill_scanned_def Let_def
  by (auto simp: get_dset coerce_none unfilled_def)

lemma settled_scan:
  assumes "settled done s" "\<forall>p\<in>set (snd s). scan_results aliases results p = PNone"
  shows "settled (done @ ps) (fold (fill_scanned aliases results) ps s)"
  using assms
proof (induction ps arbitrary: "done" s)
  case (Cons p ps)
  from settled_scanned [of "done" s aliases results p] Cons.prems
  have "settled (done @ [p]) (fill_scanned aliases results p s)"
    "\<forall>q\<in>set (snd (fill_scanned aliases results p s)). scan_results aliases results q = PNone"
    by auto
  from Cons.IH [OF this] show ?case by simp
qed simp

lemma settled_memory:
  assumes "set (snd s) \<subseteq> set done" "\<forall>p\<in>set done. p \<in> set (snd s) \<or> dget_none p (fst s) \<noteq> PNone"
    "\<forall>p\<in>set (snd s). unfilled (fst s) p \<and> memory_value mem p = PNone" "\<forall>p\<in>set ps. memory_value mem p = PNone \<longrightarrow> unfilled (fst s) p"
  shows "settled (done @ ps) (fold (fill_from_memory mem) ps s)"
  using assms
proof (induction ps arbitrary: "done" s)
  case Nil
  then show ?case by (auto simp: settled_def)
next
  case (Cons p ps)
  let ?s = "fill_from_memory mem p s"
  have "settled ((done @ [p]) @ ps) (fold (fill_from_memory mem) ps ?s)"
    by (rule Cons.IH) (use Cons.prems in \<open>auto simp: fill_from_memory_def Let_def get_dset coerce_none unfilled_def\<close>)
  then show ?case by simp
qed

text \<open>
  C11: Every required parameter either has an argument or is reported as missing; only required parameters are reported, and a reported one
  has no argument but the empty text.
\<close>

theorem required_filled_or_reported:
  assumes "resolve_args_from_context aliases sig step results known route mem = Some (args, left)"
    "expected_params sig route = Some (all, req)"
  shows "set left \<subseteq> set req \<and> (\<forall>p\<in>set req. p \<in> set left \<or> dget_none p args \<noteq> PNone) \<and> (\<forall>p\<in>set left. unfilled args p)"
proof -
  from assms(1) obtain args0 all' req' args1 open1 where "expected_params sig route = Some (all', req')"
    and f: "fold (fill_scanned aliases results) req' (fold (fill_known known) all' args0, []) = (args1, open1)"
    and r: "(args, left) = (if mem \<noteq> [] \<and> open1 \<noteq> [] then fill_missing_from_memory open1 args1 mem else (args1, open1))"
    by (rule resolve_args_parts)
  with assms(2) have req: "req' = req" by simp
  have "settled ([] @ req') (fold (fill_scanned aliases results) req' (fold (fill_known known) all' args0, []))"
    by (rule settled_scan) (simp_all add: settled_def)
  then have s1: "settled req (args1, open1)" unfolding f unfolding req by simp
  have "settled req (args, left)"
  proof (cases "mem \<noteq> [] \<and> open1 \<noteq> []")
    case True
    let ?done = "filter (\<lambda>p. p \<notin> set open1) req"
    have "settled (?done @ open1) (fold (fill_from_memory mem) open1 (args1, []))"
      by (rule settled_memory) (use s1 in \<open>auto simp: settled_def\<close>)
    moreover have "(args, left) = fold (fill_from_memory mem) open1 (args1, [])"
      using r True by (simp add: fill_missing_from_memory_def)
    ultimately show ?thesis
      using s1 by (auto simp: settled_def)
  next
    case False
    with r s1 show ?thesis by auto
  qed
  then show ?thesis
    unfolding settled_def by simp
qed

subsection \<open>References of a plan\<close>

definition plain_name :: "string \<Rightarrow> bool" where
  "plain_name f \<longleftrightarrow> f \<noteq> [] \<and> list_all param_char f"

lemma word_chars:
  "\<not> param_char (CHR ''.'')" "\<not> param_char (CHR ''['')" "\<not> is_ws (CHR ''$'')" "param_char c \<Longrightarrow> \<not> is_ws c" "\<not> param_char (char_of (10::nat))"
proof -
  show "\<not> param_char (CHR ''.'')" "\<not> param_char (CHR ''['')" "\<not> is_ws (CHR ''$'')" "\<not> param_char (char_of (10::nat))" by code_simp+
  have "param_char c \<Longrightarrow> 48 \<le> ch c"
    by (auto simp: param_char_def is_alnum_def is_digit_def is_upper_def is_lower_def Let_def ch_def)
  then show "param_char c \<Longrightarrow> \<not> is_ws c"
    by (auto simp: is_ws_def Let_def)
qed

lemma split_plain: "list_all param_char f \<Longrightarrow> split_on (CHR ''.'') f = [f]"
proof (induction f)
  case (Cons c f)
  then have "c \<noteq> CHR ''.''" using word_chars(1) by auto
  with Cons show ?case by simp
qed simp

lemma parts_plain: "list_all param_char f \<Longrightarrow> segment_parts f = (f, [])"
proof (induction f)
  case (Cons c f)
  then have "c \<noteq> CHR ''[''" using word_chars(2) by auto
  then have "index_at (c # f) = None" by (simp add: index_at_def Let_def)
  with Cons show ?case by (simp add: segment_parts.simps(2))
qed simp

lemma walk_plain: "plain_name f \<Longrightarrow> walk_path (PDict d) f = dget_none f d"
  by (simp add: plain_name_def walk_path_def split_plain walk_segment_def parts_plain)

lemma strip_plain: "plain_name f \<Longrightarrow> strip (step_ref j f) = step_ref j f"
proof -
  assume p: "plain_name f"
  then obtain g c where f: "f = g @ [c]" "param_char c"
    by (cases f rule: rev_cases) (auto simp: plain_name_def)
  have "\<not> is_ws (CHR ''$'')" "\<not> is_ws c" using word_chars(3,4) f(2) by auto
  then show ?thesis
    by (simp add: strip_def step_ref_def f(1))
qed

lemma match_step_ref: "plain_name f \<Longrightarrow> step_ref_match (step_ref j f) = Some (j, Some f)"
proof -
  assume p: "plain_name f"
  have "step_ref j f = ref_open @ show_nat j @ '']'' @ ''.'' @ f"
    by (simp add: step_ref_def ref_open_def)
  moreover have "match_ref (ref_open @ show_nat j @ '']'' @ ''.'' @ f) = Some (show_nat j, ''.'' @ f)"
    by (rule match_ref_written) (auto simp: list_all_iff digit_show)
  moreover have "char_of (10::nat) \<notin> set f"
    using p word_chars(5) by (auto simp: plain_name_def list_all_iff)
  ultimately show ?thesis
    using p unfolding step_ref_match_def strip_plain [OF p] by (simp add: plain_name_def)
qed

lemma map_of_values: "map_of (map (map_prod id g) d) k = map_option g (map_of d k)"
  by (induction d) auto

lemma first_value_hd: "v \<noteq> PNone \<Longrightarrow> first_value (v # vs) = v" "first_value (PNone # vs) = first_value vs"
  by (simp_all add: first_value_def)

text \<open>The field of a result, or of the data the validator has wrapped.\<close>

definition shows_field :: "string \<Rightarrow> pydict \<Rightarrow> pyval \<Rightarrow> bool" where
  "shows_field f d v \<longleftrightarrow> dget f d = Some v \<or> dget f d = None \<and> (\<exists>e. dget ''data'' d = Some (PDict e) \<and> dget f e = Some v)"

lemma resolve_shown:
  assumes "plain_name f" "v \<noteq> PNone" "shows_field f d v"
  shows "resolve_in (PDict d) f = v"
proof -
  have direct: "resolve_in (PDict e) f = v" if "dget f e = Some v" for e
    unfolding resolve_in.simps Let_def walk_plain [OF assms(1)] using assms(2) that by (simp add: dget_or_def first_value_hd)
  from assms(3) consider "dget f d = Some v" | e where "dget f d = None" "dget ''data'' d = Some (PDict e)" "dget f e = Some v"
    unfolding shows_field_def by blast
  then show ?thesis
  proof cases
    case 1
    then show ?thesis by (rule direct)
  next
    case 2
    have "result_envelope_keys = ''data'' # tl result_envelope_keys"
      by (simp add: result_envelope_keys_def)
    then obtain envs where envs: "result_envelope_keys = ''data'' # envs" ..
    note at_data = direct [OF 2(3)] 2(2) [unfolded dget_def]
    have "dget_none f d = PNone" using 2(1) by (simp add: dget_or_def)
    then show ?thesis
      unfolding resolve_in.simps Let_def walk_plain [OF assms(1)] envs map_of_values
      using assms(2) by (simp add: first_value_hd at_data del: resolve_in.simps)
  qed
qed

lemma reference_value:
  assumes "plain_name f" "j < length results" "results ! j = PDict d" "shows_field f d v" "v \<noteq> PNone"
  shows "resolve_binding results (PStr (step_ref j f)) = Some v"
proof -
  have "f \<noteq> []" using assms(1) by (simp add: plain_name_def)
  with resolve_shown [OF assms(1,5,4)] assms(2,3,5) show ?thesis
    by (simp add: resolve_binding_def match_step_ref [OF assms(1)] resolve_step_value_def del: resolve_in.simps)
qed

lemma bindings_get:
  "distinct (map fst b) \<Longrightarrow>
   dget k (fold (\<lambda>(k, ref) d. case resolve_binding results ref of Some v \<Rightarrow> dset k v d | None \<Rightarrow> d) b d0) =
     (case dget k b of Some ref \<Rightarrow> (case resolve_binding results ref of Some v \<Rightarrow> Some v | None \<Rightarrow> dget k d0) | None \<Rightarrow> dget k d0)"
proof (induction b arbitrary: d0)
  case (Cons kr b)
  obtain k' ref where kr: "kr = (k', ref)" by force
  with Cons.prems have "map_of b k' = None" "distinct (map fst b)" by (auto simp: map_of_eq_None_iff)
  with Cons.IH show ?case
    by (auto simp: kr dget_def split: option.splits)
qed (simp add: dget_def)

lemma kept_known: "dget p args = Some v \<Longrightarrow> v \<notin> {PNone, PStr []} \<Longrightarrow> dget p (fold (fill_known known) ps args) = Some v"
proof (induction ps arbitrary: args)
  case (Cons q ps)
  then have "dget p (fill_known known q args) = Some v"
    by (auto simp: fill_known_def Let_def unfilled_def dget_or_def dget_def)
  with Cons show ?case by simp
qed simp

lemma kept_scanned:
  "dget p (fst s) = Some v \<Longrightarrow> v \<notin> {PNone, PStr []} \<Longrightarrow> p \<notin> set (snd s)
    \<Longrightarrow> dget p (fst (fold (fill_scanned aliases results) ps s)) = Some v \<and> p \<notin> set (snd (fold (fill_scanned aliases results) ps s))"
proof (induction ps arbitrary: s)
  case (Cons q ps)
  then have "dget p (fst (fill_scanned aliases results q s)) = Some v" "p \<notin> set (snd (fill_scanned aliases results q s))"
    by (auto simp: fill_scanned_def Let_def unfilled_def dget_or_def dget_def)
  with Cons show ?case by simp
qed simp

lemma kept_memory:
  "p \<notin> set ps \<Longrightarrow> p \<notin> set (snd s)
    \<Longrightarrow> dget p (fst (fold (fill_from_memory mem) ps s)) = dget p (fst s) \<and> p \<notin> set (snd (fold (fill_from_memory mem) ps s))"
proof (induction ps arbitrary: s)
  case (Cons q ps)
  then have "dget p (fst (fill_from_memory mem q s)) = dget p (fst s)" "p \<notin> set (snd (fill_from_memory mem q s))"
    by (auto simp: fill_from_memory_def Let_def dget_def)
  with Cons show ?case by simp
qed simp

text \<open>
  C8: A reference of the plan reaches the call.  When a parameter is bound to a plainly named field (letters, digits and underscores) of
  an earlier step, the result of that step shows the field, at the top or, where the top has no value for it, in the data the
  validator wrapped, and the value there is neither \<open>None\<close> nor the empty text, the call gets exactly that value and does not report
  the parameter.  (An empty text counts as no argument in the code, which then looks elsewhere and may report the parameter.)
\<close>

theorem references_reach_the_call:
  assumes "resolve_args_from_context aliases sig step results known route mem = Some (args, left)"
    "dict_or_empty ''arg_bindings'' step = Some b" "distinct (map fst b)" "dget p b = Some (PStr (step_ref j field))"
    "plain_name field" "j < length results" "results ! j = PDict d" "shows_field field d v" "v \<notin> {PNone, PStr []}"
  shows "dget p args = Some v \<and> p \<notin> set left"
proof -
  from assms(1) obtain args0 all req args1 open1 where a0: "step_args step results = Some args0"
    and f: "fold (fill_scanned aliases results) req (fold (fill_known known) all args0, []) = (args1, open1)"
    and r: "(args, left) = (if mem \<noteq> [] \<and> open1 \<noteq> [] then fill_missing_from_memory open1 args1 mem else (args1, open1))"
    by (rule resolve_args_parts)
  from a0 assms(2) obtain a where args0: "args0 = update a (filter (\<lambda>(k, v). v \<noteq> PNone) (resolve_arg_bindings b results))"
    unfolding step_args_def by (auto simp: option_bind)
  have "resolve_binding results (PStr (step_ref j field)) = Some v"
    using reference_value [OF assms(5-8)] assms(9) by simp
  then have "dget p (resolve_arg_bindings b results) = Some v"
    unfolding resolve_arg_bindings_def bindings_get [OF assms(3)] assms(4) by simp
  then have here: "(p, v) \<in> set (filter (\<lambda>(k, v). v \<noteq> PNone) (resolve_arg_bindings b results))"
    using assms(9) unfolding dget_def by (auto dest: map_of_SomeD)
  have dist: "distinct (map fst (filter (\<lambda>(k, v). v \<noteq> PNone) (resolve_arg_bindings b results)))"
    by (rule distinct_map_filter [OF bindings_distinct])
  have "dget p (rev (filter (\<lambda>(k, v). v \<noteq> PNone) (resolve_arg_bindings b results))) = Some v"
    unfolding dget_rev [OF dist] unfolding dget_def by (rule map_of_is_SomeI [OF dist here])
  then have "dget p args0 = Some v"
    unfolding args0 dget_update by simp
  then have "dget p (fold (fill_known known) all args0) = Some v"
    using assms(9) by (rule kept_known)
  with kept_scanned [of p "(fold (fill_known known) all args0, [])" v aliases results req] assms(9) f
  have k: "dget p args1 = Some v" "p \<notin> set open1"
    by simp_all
  show ?thesis
  proof (cases "mem \<noteq> [] \<and> open1 \<noteq> []")
    case True
    with r kept_memory [of p open1 "(args1, [])" mem] k show ?thesis
      by (simp add: fill_missing_from_memory_def) (metis fst_conv snd_conv)
  next
    case False
    with r k show ?thesis by auto
  qed
qed

subsection \<open>Samples\<close>

definition get_page_route :: pydict where
  "get_page_route = [(''path'', PStr ''/spaces/{spaceId}/pages/:page_id''),
     (''parameters'', PDict [(''properties'', PDict [(''page_id'', PNone), (''limit'', PNone)]), (''required'', PList [PStr ''page_id''])])]"

definition get_page_step :: pydict where
  "get_page_step = [(''args'', PDict []), (''arg_bindings'', PDict [(''page_id'', PStr (step_ref 0 ''id''))])]"

definition page_results :: "pyval list" where
  "page_results = [PDict [(''status'', PStr ''ok''), (''data'', PDict [(''id'', PStr ''p-1'')]), (''route'', PStr ''GET /pages'')]]"

definition get_page_args :: pydict where
  "get_page_args = [(''page_id'', PStr ''p-1''), (''limit'', PInt 20)]"

lemma get_page_resolved:
  "resolve_args_from_context [''id'', ''_id'', ''userid'', ''user_id''] [] get_page_step page_results [(''LIMIT'', PStr ''20'')] get_page_route []
   = Some (get_page_args, [''spaceId''])"
  "expected_params [] get_page_route = Some ([''page_id'', ''limit'', ''spaceId''], [''page_id'', ''spaceId''])"
  by code_simp+

theorem arguments_have_sources_witness:
  "\<exists>w. PInt 20 = coerce w \<and> sources [(''LIMIT'', PStr ''20'')] page_results [] w"
proof -
  have limit: "dget ''limit'' get_page_args = Some (PInt 20)" "dict_or_empty ''args'' get_page_step = Some []" "dget ''limit'' [] = None"
    "dict_or_empty ''arg_bindings'' get_page_step = Some [(''page_id'', PStr (step_ref 0 ''id''))]"
    by code_simp+
  from arguments_have_sources [OF get_page_resolved(1) limit(1)] limit show ?thesis
    by (auto simp: bound_value_def)
qed

theorem required_filled_or_reported_witness:
  "set [''spaceId''] \<subseteq> set [''page_id'', ''spaceId''] \<and> dget_none ''page_id'' get_page_args \<noteq> PNone \<and> unfilled get_page_args ''spaceId''"
  using required_filled_or_reported [OF get_page_resolved] by auto

lemma page_binding:
  "dict_or_empty ''arg_bindings'' get_page_step = Some [(''page_id'', PStr (step_ref 0 ''id''))]" "distinct (map fst [(''page_id'', PStr (step_ref 0 ''id''))])"
  "dget ''page_id'' [(''page_id'', PStr (step_ref 0 ''id''))] = Some (PStr (step_ref 0 ''id''))" "plain_name ''id''" "0 < length page_results"
  "page_results ! 0 = PDict [(''status'', PStr ''ok''), (''data'', PDict [(''id'', PStr ''p-1'')]), (''route'', PStr ''GET /pages'')]"
  "PStr ''p-1'' \<notin> {PNone, PStr []}"
  by code_simp+

lemma page_shown:
  "shows_field ''id'' [(''status'', PStr ''ok''), (''data'', PDict [(''id'', PStr ''p-1'')]), (''route'', PStr ''GET /pages'')] (PStr ''p-1'')"
  by (simp add: shows_field_def dget_def)

theorem references_reach_the_call_witness:
  "dget ''page_id'' get_page_args = Some (PStr ''p-1'') \<and> ''page_id'' \<notin> set [''spaceId'']"
  by (rule references_reach_the_call [OF get_page_resolved(1) page_binding(1-6) page_shown page_binding(7)])

text \<open>
  Coercion tries \<open>int\<close> on every value: a fraction is cut to a whole number, a flag becomes a number and an id written in digits loses its
  leading zeros.
\<close>

lemma coercion_changes_values:
  "coerce (PFloat (7 / 10)) = PInt 0" "coerce (PBool True) = PInt 1" "coerce (PStr ''0042'') = PInt 42"
  by code_simp+

end
