(* ===== verification/RetryNode.thy ===== *)
theory RetryNode
  imports ArgResolve
begin

text \<open>
  The retry of a failed call: \<open>make_retry_node\<close> of \<open>core_graph/node/validator.py\<close> with \<open>_get_parameters_schema\<close> of \<open>node/helpers/mcp_ctx.py\<close>.
  Open parameters are looked for in the results; a parameter the error message names is taken out of the arguments.  The text of the hint
  is the argument \<open>hint\<close> of the parameter, its value and the message; the step the code looks up is not used and left out.
\<close>

subsection \<open>The schema of a route\<close>

definition schema_entry :: "pyval list \<Rightarrow> string \<Rightarrow> pyval \<Rightarrow> pyval" where
  "schema_entry req k v = PDict (dset ''required'' (PBool (py_in (PStr k) req)) (dict_of v))"

definition get_parameters_schema :: "pydict \<Rightarrow> pydict option" where
  "get_parameters_schema candidate =
     (case get_or_empty ''parameters'' candidate of
        PDict params \<Rightarrow>
          (if has_key ''properties'' params then do {
             props \<leftarrow> dict_or_empty ''properties'' params;
             req \<leftarrow> list_or_empty ''required'' params;
             Some (map (\<lambda>(k, v). (k, schema_entry req k v)) props)
           }
           else Some (map (\<lambda>(k, v). (k, PDict (dict_of v))) params))
      | _ \<Rightarrow> Some [])"

subsection \<open>The node\<close>

definition retry_scan :: "string list \<Rightarrow> pyval list \<Rightarrow> string \<Rightarrow> pydict \<times> string list \<Rightarrow> pydict \<times> string list" where
  "retry_scan aliases results p s =
     (let v = scan_results aliases results p in if v \<noteq> PNone then (dset p (coerce v) (fst s), snd s) else (fst s, snd s @ [p]))"

definition reject_value :: "(string \<Rightarrow> pyval \<Rightarrow> string) \<Rightarrow> string \<Rightarrow> pydict \<times> string list \<times> string \<Rightarrow> pydict \<times> string list \<times> string" where
  "reject_value hint p s =
     (case s of (args, still, msg) \<Rightarrow>
        if p \<in> set still \<or> dget_none p args = PNone then s
        else (dpop p args, still @ [p], hint p (dget_none p args)))"

definition missed_note :: "string list \<Rightarrow> string" where
  "missed_note ps =
     ''you previously missed the following required parameters: '' @ join_with '', '' ps @ ''; here is the full prior context.''"

definition retry_args ::
  "(pyval \<Rightarrow> string) \<Rightarrow> (string \<Rightarrow> pyval \<Rightarrow> string \<Rightarrow> string) \<Rightarrow> string list \<Rightarrow> pydict \<Rightarrow> (pydict \<times> string list \<times> string) option" where
  "retry_args to_str hint aliases st = do {
     route \<leftarrow> dict_or_empty ''selected'' st;
     results \<leftarrow> list_or_empty ''step_results'' st;
     args0 \<leftarrow> dict_or_empty ''resolved_args'' st;
     missed \<leftarrow> list_or_empty ''unresolved_required'' st;
     names \<leftarrow> strings_of missed;
     let (args, still) = fold (retry_scan aliases results) names (args0, []);
     let message = dget_or ''message'' (PStr []) (dict_of (dget_none ''response'' st));
     if \<not> truthy message then Some (args, still, [])
     else do {
       schema \<leftarrow> get_parameters_schema route;
       let text = str_text to_str message;
       Some (fold (reject_value (\<lambda>p v. hint p v text)) (detect_failed_params text (map fst schema)) (args, still, []))
     }
   }"

definition retry_node ::
  "(pyval \<Rightarrow> string) \<Rightarrow> (string \<Rightarrow> pyval \<Rightarrow> string \<Rightarrow> string) \<Rightarrow> string list \<Rightarrow> pydict \<Rightarrow> pydict option" where
  "retry_node to_str hint aliases st = do {
     (args, still, msg) \<leftarrow> retry_args to_str hint aliases st;
     n \<leftarrow> int_or_zero ''retry_count'' st;
     Some [(''resolved_args'', PDict args), (''unresolved_required'', strs still), (''retry_count'', PInt (n + 1)),
       (''retry_highlight'', PStr (if msg = [] \<and> still \<noteq> [] then missed_note still else msg)), (''response'', PNone), (''payload'', PNone)]
   }"

subsection \<open>Rejected values\<close>













subsection \<open>Samples\<close>

definition rejected_call :: pydict where
  "rejected_call =
     [(''response'', PDict [(''status'', PStr ''error''), (''http_status'', PInt 400), (''message'', PStr ''Bad session.source_context'')]),
      (''selected'', PDict [(''parameters'', PDict [(''properties'', PDict [(''sourceContext'', PNone), (''name'', PNone)])])]),
      (''resolved_args'', PDict [(''sourceContext'', PStr ''main''), (''name'', PStr ''n'')]), (''retry_count'', PInt 0),
      (''plan'', PList [PDict [(''operation_id'', PStr ''create_session'')]]), (''current_step_index'', PInt 0)]"






text \<open>A rejected value of a parameter that was open before stays among the arguments.\<close>

lemma open_value_kept:
  "(let st = update rejected_call [(''unresolved_required'', PList [PStr ''sourceContext''])] in
    map_option (dget_none ''resolved_args'') (retry_node (\<lambda>_. []) (\<lambda>_ _ _. []) [''id''] st)
    = Some (PDict [(''sourceContext'', PStr ''main''), (''name'', PStr ''n'')]))"
  by code_simp

text \<open>Names are compared without their boundaries: the parameter \<open>id\<close> is part of the word \<open>invalid\<close>, so its good value is dropped.\<close>

lemma id_is_part_of_invalid: "detect_failed_params ''Invalid title'' [''id'', ''title'', ''parent''] = [''id'', ''title'']"
  by code_simp

end
