(* ===== verification/PermissionGate.thy ===== *)
theory PermissionGate
  imports ScopeRules RetryNode
begin

text \<open>
  The gate before every call: \<open>core_graph/node/permission_gate.py\<close> with \<open>resolve_route_candidate\<close> and \<open>operation_class\<close> of
  \<open>node/helpers/routing.py\<close> and the default policy of \<open>db_layer/permission_store.py\<close>.  The policy rows, the route registry, the transport and
  the environment flag are a \<open>gate_env\<close>; a look-up that raises gives \<open>None\<close>, as the code treats it.  The decision about scopes is
  \<open>evaluate\<close> of \<open>ScopeRules\<close>.
\<close>

subsection \<open>Routes\<close>

record RouteDescriptor =
  rd_operation_id :: string
  rd_plugin_id :: string
  rd_description :: string
  rd_parameters :: pyval
  rd_method :: string
  rd_path_template :: string
  rd_is_fast_path :: bool
  rd_tags :: "string list"

definition descriptor_to_candidate :: "RouteDescriptor \<Rightarrow> pydict" where
  "descriptor_to_candidate d =
     [(''operation_id'', PStr (rd_operation_id d)), (''plugin_id'', PStr (rd_plugin_id d)), (''description'', PStr (rd_description d)),
      (''parameters'', rd_parameters d), (''method'', PStr (rd_method d)), (''path_template'', PStr (rd_path_template d)),
      (''path'', PStr (rd_path_template d)), (''is_fast_path'', PBool (rd_is_fast_path d)), (''score'', PFloat 0)]"

type_synonym registry = "string \<Rightarrow> string \<Rightarrow> RouteDescriptor option"

definition resolve_route_candidate :: "registry \<Rightarrow> string \<Rightarrow> string \<Rightarrow> pydict list \<Rightarrow> pydict option" where
  "resolve_route_candidate reg op plugin_id candidates =
     (case find (\<lambda>c. dget_none ''operation_id'' c = PStr op) candidates of
        Some c \<Rightarrow>
          (if dget_none ''parameters'' c \<noteq> PNone then Some c
           else case reg op plugin_id of
             Some d \<Rightarrow> (if plugin_id \<noteq> [] \<and> rd_plugin_id d \<noteq> plugin_id then None else Some (descriptor_to_candidate d))
           | None \<Rightarrow> None)
      | None \<Rightarrow>
          (case reg op plugin_id of
             Some d \<Rightarrow> (if plugin_id \<noteq> [] \<and> rd_plugin_id d \<noteq> plugin_id then None else Some (descriptor_to_candidate d))
           | None \<Rightarrow> None))"

definition write_methods :: "string list" where
  "write_methods = [''POST'', ''PUT'', ''PATCH'', ''DELETE'']"

definition writes :: "(pyval \<Rightarrow> string) \<Rightarrow> pydict \<Rightarrow> bool" where
  "writes to_str route = (upper (text_or_blank to_str (dget_or ''method'' (PStr []) route)) \<in> set write_methods)"

definition operation_class :: "(pyval \<Rightarrow> string) \<Rightarrow> pydict \<Rightarrow> string" where
  "operation_class to_str route = (if writes to_str route then ''write'' else ''read'')"

subsection \<open>Callers\<close>

definition default_policy :: pydict where
  "default_policy = [(''allow_read'', PBool True), (''allow_write'', PBool True), (''require_confirmation'', PBool True)]"

record gate_env =
  pg_skip :: bool
  pg_stdio :: bool
  pg_registry :: registry
  pg_policy :: "string \<Rightarrow> string \<Rightarrow> pydict option"
  pg_scopes :: scope_env
  pg_to_str :: "pyval \<Rightarrow> string"

definition principal_kind :: "string \<Rightarrow> PrincipalKind option" where
  "principal_kind s =
     map_of [(''local_cli'', LOCAL_CLI), (''session_user'', SESSION_USER), (''api_key'', API_KEY), (''oauth_client'', OAUTH_CLIENT),
       (''anonymous'', ANONYMOUS)] s"

definition caller_kind :: "bool \<Rightarrow> pydict \<Rightarrow> PrincipalKind" where
  "caller_kind io st =
     (let unscoped = dget_none ''caller_scopes'' st = PNone; local = (if unscoped \<and> io then LOCAL_CLI else ANONYMOUS) in
      case dget_none ''caller_kind'' st of
        PStr s \<Rightarrow> (case principal_kind s of Some k \<Rightarrow> k | None \<Rightarrow> local)
      | _ \<Rightarrow> (if unscoped then local else API_KEY))"

definition caller_grant :: "bool \<Rightarrow> pydict \<Rightarrow> ScopeGrant option" where
  "caller_grant io st = do {
     scopes \<leftarrow> (case dget_none ''caller_scopes'' st of PNone \<Rightarrow> Some None | PList xs \<Rightarrow> map_option Some (strings_of xs) | _ \<Rightarrow> None);
     role \<leftarrow> (case dget_none ''caller_role'' st of PNone \<Rightarrow> Some None | PStr s \<Rightarrow> Some (Some s) | _ \<Rightarrow> None);
     Some \<lparr>scopes = scopes, sg_role = role, sg_kind = caller_kind io st\<rparr>
   }"

subsection \<open>The node\<close>

definition refusal :: "string \<Rightarrow> string \<Rightarrow> string \<Rightarrow> pydict" where
  "refusal status message op = [(''status'', PStr status), (''message'', PStr message), (''operation_id'', PStr op)]"

definition step_ids :: "pydict \<Rightarrow> (string \<times> string) option" where
  "step_ids step = do {
     pid \<leftarrow> str_or_none (get_or ''plugin_id'' (PStr []) step);
     op \<leftarrow> str_or_none (get_or ''operation_id'' (get_or ''tool'' (PStr []) step) step);
     Some (pid, op)
   }"

definition dicts_of :: "pyval list \<Rightarrow> pydict list option" where
  "dicts_of vs = (if list_all is_dict vs then Some (map dict_of vs) else None)"

definition step_route :: "gate_env \<Rightarrow> pydict \<Rightarrow> string \<Rightarrow> string \<Rightarrow> pydict option" where
  "step_route env st pid op = do {
     cs \<leftarrow> list_or_empty ''candidates'' st;
     candidates \<leftarrow> dicts_of cs;
     (case resolve_route_candidate (pg_registry env) op pid candidates of
        Some (x # xs) \<Rightarrow> Some (x # xs)
      | _ \<Rightarrow> dict_or_empty ''selected'' st)
   }"

definition scope_decision :: "gate_env \<Rightarrow> string \<Rightarrow> string \<Rightarrow> ScopeGrant \<Rightarrow> AccessDecision" where
  "scope_decision env pid op grant =
     evaluate default_rules (pg_scopes env) grant None
       (build_request pid (case pg_registry env op pid of Some d \<Rightarrow> rd_tags d | None \<Rightarrow> []) op ''graph_step'')"

definition policy_of :: "gate_env \<Rightarrow> string \<Rightarrow> string \<Rightarrow> pydict" where
  "policy_of env pid op = (case pg_policy env pid op of Some p \<Rightarrow> p | None \<Rightarrow> default_policy)"

definition policy_refusal :: "gate_env \<Rightarrow> pydict \<Rightarrow> string \<Rightarrow> string \<Rightarrow> pydict \<Rightarrow> pydict option" where
  "policy_refusal env st pid op route =
     (let p = policy_of env pid op; w = writes (pg_to_str env) route; allows = (\<lambda>k. truthy (dget_or k (PBool True) p)) in
      if \<not> w \<and> \<not> allows ''allow_read'' then Some (refusal ''error'' (''Read access denied for '' @ op @ '' (policy).'') op)
      else if w \<and> \<not> allows ''allow_write'' then Some (refusal ''error'' (''Write access denied for '' @ op @ '' (policy).'') op)
      else if w \<and> allows ''require_confirmation'' \<and> \<not> truthy (dget_none ''force_execute'' st)
      then Some (refusal ''confirmation_needed'' (''About to run write operation '' @ [CHR 0x27] @ op @ [CHR 0x27] @ ''. Proceed?'') op
        @ [(''resolved_args'', get_or_empty ''resolved_args'' st)])
      else None)"

definition scope_refusal :: "gate_env \<Rightarrow> string \<Rightarrow> AccessDecision \<Rightarrow> pydict" where
  "scope_refusal env op d =
     refusal ''error''
       (if reason d = ''deny_anonymous'' then ''authentication required''
        else ''Scope denied for '' @ op @ '' (requires one of '' @ pg_to_str env (strs (sorted_list_of_set (required d))) @ '').'') op"

definition scope_gate :: "gate_env \<Rightarrow> pydict \<Rightarrow> string \<Rightarrow> string \<Rightarrow> pydict option" where
  "scope_gate env st pid op =
     (if pg_stdio env \<and> dget_none ''caller_scopes'' st = PNone then Some []
      else map_option (\<lambda>grant. let d = scope_decision env pid op grant in
          if allowed d then [] else [(''response'', PDict (scope_refusal env op d))])
        (caller_grant (pg_stdio env) st))"

definition permission_gate_node :: "gate_env \<Rightarrow> pydict \<Rightarrow> pydict option" where
  "permission_gate_node env st =
     (if pg_skip env \<and> pg_stdio env then Some []
      else do {
        step \<leftarrow> current_step st;
        (pid, op) \<leftarrow> step_ids step;
        route \<leftarrow> step_route env st pid op;
        (case policy_refusal env st pid op route of
           Some r \<Rightarrow> Some [(''response'', PDict r)]
         | None \<Rightarrow> scope_gate env st pid op)
      })"

subsection \<open>Permitted steps\<close>

definition policy_permits :: "gate_env \<Rightarrow> pydict \<Rightarrow> string \<Rightarrow> string \<Rightarrow> pydict \<Rightarrow> bool" where
  "policy_permits env st pid op route \<longleftrightarrow>
     truthy (dget_or (if writes (pg_to_str env) route then ''allow_write'' else ''allow_read'') (PBool True) (policy_of env pid op))
     \<and> (writes (pg_to_str env) route \<longrightarrow>
         truthy (dget_none ''force_execute'' st) \<or> \<not> truthy (dget_or ''require_confirmation'' (PBool True) (policy_of env pid op)))"

text \<open>The current step may run: its policy allows it, a write is confirmed or forced, and the caller's scopes cover it.\<close>

definition step_permitted :: "gate_env \<Rightarrow> pydict \<Rightarrow> bool" where
  "step_permitted env st \<longleftrightarrow>
     (\<exists>step pid op route. current_step st = Some step \<and> step_ids step = Some (pid, op) \<and> step_route env st pid op = Some route
       \<and> policy_permits env st pid op route
       \<and> (pg_stdio env \<and> dget_none ''caller_scopes'' st = PNone
         \<or> (\<exists>grant. caller_grant (pg_stdio env) st = Some grant \<and> allowed (scope_decision env pid op grant))))"

lemma policy_refusal_none: "policy_refusal env st pid op route = None \<longleftrightarrow> policy_permits env st pid op route"
  by (auto simp: policy_refusal_def policy_permits_def Let_def)

lemma scope_gate_cases:
  "scope_gate env st pid op = Some u \<Longrightarrow> u = [] \<or> (\<exists>r. u = [(''response'', PDict r)] \<and> r \<noteq> [])"
  "scope_gate env st pid op = Some [] \<longleftrightarrow> pg_stdio env \<and> dget_none ''caller_scopes'' st = PNone
     \<or> (\<exists>grant. caller_grant (pg_stdio env) st = Some grant \<and> allowed (scope_decision env pid op grant))"
  unfolding scope_gate_def Let_def by (auto simp: scope_refusal_def refusal_def split: if_splits)

lemma gate_parts:
  assumes "\<not> (pg_skip env \<and> pg_stdio env)"
  shows "permission_gate_node env st = Some u \<longleftrightarrow>
    (\<exists>step pid op route. current_step st = Some step \<and> step_ids step = Some (pid, op) \<and> step_route env st pid op = Some route
      \<and> (case policy_refusal env st pid op route of Some r \<Rightarrow> Some [(''response'', PDict r)] | None \<Rightarrow> scope_gate env st pid op) = Some u)"
  unfolding permission_gate_node_def if_not_P [OF assms] option_bind split_paired_Ex prod.case by blast

lemma gate_passes_iff:
  "permission_gate_node env st = Some [] \<longleftrightarrow> pg_skip env \<and> pg_stdio env \<or> step_permitted env st"
proof (cases "pg_skip env \<and> pg_stdio env")
  case False
  have core: "(case policy_refusal env st pid op route of Some r \<Rightarrow> Some [(''response'', PDict r)] | None \<Rightarrow> scope_gate env st pid op) = Some []
      \<longleftrightarrow> policy_refusal env st pid op route = None \<and> scope_gate env st pid op = Some []" for pid op route
    by (cases "policy_refusal env st pid op route") simp_all
  then show ?thesis
    unfolding gate_parts [OF False] step_permitted_def core policy_refusal_none scope_gate_cases(2)
    using False by blast
qed (simp add: permission_gate_node_def)

lemma policy_refusal_nonempty: "policy_refusal env st pid op route = Some r \<Longrightarrow> r \<noteq> []"
  by (auto simp: policy_refusal_def refusal_def Let_def split: if_splits)

lemma gate_refuses:
  assumes "permission_gate_node env st = Some u" "u \<noteq> []"
  shows "\<exists>r. u = [(''response'', PDict r)] \<and> r \<noteq> []"
proof -
  have "\<not> (pg_skip env \<and> pg_stdio env)"
    using assms by (auto simp: permission_gate_node_def)
  from assms(1) [unfolded gate_parts [OF this]] obtain pid op route where
    "(case policy_refusal env st pid op route of Some r \<Rightarrow> Some [(''response'', PDict r)] | None \<Rightarrow> scope_gate env st pid op) = Some u" by blast
  then show ?thesis
    using scope_gate_cases(1) [of env st pid op u] policy_refusal_nonempty [of env st pid op route] assms(2)
    by (auto split: option.splits)
qed

text \<open>
  C36: A run of the graph gets from the gate to the builder only with a permitted step: its policy allows the kind of operation, a write is
  forced or needs no confirmation, and the caller's scopes pass the decision of the scope manager (or the process is local and
  unscoped, or the operator has switched the gate off).
\<close>

theorem builder_reached_only_if_permitted:
  assumes "permission_gate_node env st = Some u" "next_node to_str flag root_spec (update st u) ''permission_gate'' = Some (Node ''builder'')"
  shows "pg_skip env \<and> pg_stdio env \<or> step_permitted env st"
proof (cases "u = []")
  case True
  with assms(1) gate_passes_iff [of env st] show ?thesis by simp
next
  case False
  from gate_refuses [OF assms(1) this] obtain r where "u = [(''response'', PDict r)]" "r \<noteq> []" by blast
  then have "permission_gate_router (update st u) = ''done''"
    by (simp add: permission_gate_router_def dget_simps truthy_def)
  with assms(2) have False
    by (simp add: next_node_def root_defs router_at_def router_table_def endpoint_of_def target_of_def)
  then show ?thesis ..
qed

text \<open>Without the local escape, whoever reaches the builder passed the decision on scopes.\<close>

lemma permitted_scopes:
  assumes "step_permitted env st" "\<not> pg_stdio env"
  shows "\<exists>pid op grant. caller_grant False st = Some grant \<and> allowed (scope_decision env pid op grant)"
  using assms unfolding step_permitted_def by (cases env) auto

subsection \<open>Samples\<close>

definition two_steps :: pydict where
  "two_steps =
     [(''plan'', PList [PDict [(''operation_id'', PStr ''list_pages''), (''plugin_id'', PStr ''notion'')],
        PDict [(''operation_id'', PStr ''delete_page''), (''plugin_id'', PStr ''notion'')]]),
      (''current_step_index'', PInt 0), (''parallel_groups'', PList [PList [PInt 0, PInt 1]]),
      (''candidates'', PList [PDict [(''operation_id'', PStr ''list_pages''), (''method'', PStr ''GET''), (''parameters'', PDict [])],
        PDict [(''operation_id'', PStr ''delete_page''), (''method'', PStr ''DELETE''), (''parameters'', PDict [])]])]"

definition local_gate :: gate_env where
  "local_gate = \<lparr>pg_skip = False, pg_stdio = True, pg_registry = (\<lambda>_ _. None), pg_policy = (\<lambda>_ _. None), pg_scopes = plain_env,
     pg_to_str = (\<lambda>_. [])\<rparr>"

lemma local_read:
  "permission_gate_node local_gate two_steps = Some []"
  "next_node (\<lambda>_. []) True root_spec (update two_steps []) ''permission_gate'' = Some (Node ''builder'')"
  by code_simp+

theorem builder_reached_only_if_permitted_witness: "step_permitted local_gate two_steps"
  using builder_reached_only_if_permitted [OF local_read] by (simp add: local_gate_def)

text \<open>A write stops for confirmation, a tool call without an HTTP method counts as a read.\<close>

lemma gate_samples:
  "permission_gate_node local_gate (update two_steps [(''current_step_index'', PInt 1)])
   = Some [(''response'', PDict (refusal ''confirmation_needed'' (''About to run write operation '' @ [CHR 0x27] @ ''delete_page'' @ [CHR 0x27] @ ''. Proceed?'')
       ''delete_page'' @ [(''resolved_args'', PDict [])]))]"
  "operation_class (\<lambda>_. []) [(''operation_id'', PStr ''delete_page''), (''method'', PStr ''CALL'')] = ''read''"
  by code_simp+

end
