(* ===== verification/StepDispatcher.thy ===== *)
theory StepDispatcher
  imports PermissionGate
begin

text \<open>
  The node \<open>step_dispatcher_node\<close> of \<open>core_graph/node/executor.py\<close>: it stores the result of the current step, runs the peers of a parallel
  group and goes to the next step or finalizes.  Running a step is the argument \<open>run\<close> of the step and the results before it, \<open>Inl\<close> with the
  text of an exception that it raised; storing the run in the database is the argument \<open>keep\<close>.  \<open>None\<close> is an exception of the
  node; the groups of a plan are lists of places.  The last part follows the graph through the nodes between two dispatches.
\<close>

subsection \<open>Failures\<close>

definition is_soft_failure :: "pyval \<Rightarrow> bool" where
  "is_soft_failure res =
     (case res of
        PDict d \<Rightarrow>
          truthy (dget_none ''error'' d) \<and> \<not> has_key ''status'' d
          \<or> one_of [''error'', ''partial'', ''need_input'', ''auth_required''] (dget_none ''status'' d)
          \<or> one_of [''error'', ''partial'', ''need_input''] (dget_none ''status'' (dict_of (dget_none ''response'' d)))
      | _ \<Rightarrow> False)"

definition soft_failure_message :: "(pyval \<Rightarrow> string) \<Rightarrow> pyval \<Rightarrow> string" where
  "soft_failure_message to_str res =
     take 2000 (case res of
        PDict d \<Rightarrow>
          (if truthy (dget_none ''error'' d) then str_text to_str (dget_none ''error'' d)
           else if truthy (dget_none ''message'' d) then str_text to_str (dget_none ''message'' d)
           else case dget_none ''response'' d of
             PDict i \<Rightarrow> first_text to_str [dget_none ''message'' i, dget_none ''error'' i, dget_none ''status'' i] ''error''
           | _ \<Rightarrow> first_text to_str [dget_none ''status'' d] ''error'')
      | _ \<Rightarrow> str_text to_str res)"

subsection \<open>Parallel steps\<close>

text \<open>\<open>out[i] = v\<close> after filling up with empty dictionaries.\<close>

definition put_result :: "nat \<Rightarrow> pyval \<Rightarrow> pyval list \<Rightarrow> pyval list" where
  "put_result i v out = (out @ replicate (i + 1 - length out) (PDict []))[i := v]"

record tally =
  tl_results :: "pyval list"
  tl_errors :: "(nat \<times> string) list"
  tl_first :: "nat option"

definition stored :: "pyval \<Rightarrow> pyval" where
  "stored res = (case res of PDict d \<Rightarrow> PDict (if has_key ''status'' d then d else dset ''status'' (PStr ''error'') d) | _ \<Rightarrow> res)"

definition add_failure :: "nat \<Rightarrow> string \<Rightarrow> pyval \<Rightarrow> tally \<Rightarrow> tally" where
  "add_failure i err v t =
     t\<lparr>tl_results := put_result i v (tl_results t), tl_errors := tl_errors t @ [(i, err)],
       tl_first := (case tl_first t of None \<Rightarrow> Some i | Some j \<Rightarrow> Some j)\<rparr>"

definition add_outcome :: "(pyval \<Rightarrow> string) \<Rightarrow> nat \<times> (string + pyval) \<Rightarrow> tally \<Rightarrow> tally" where
  "add_outcome to_str ir t =
     (case ir of
        (i, Inl e) \<Rightarrow> (let err = take 2000 e in add_failure i err (PDict [(''error'', PStr err), (''status'', PStr ''error'')]) t)
      | (i, Inr res) \<Rightarrow>
          (if is_soft_failure res then add_failure i (soft_failure_message to_str res) (stored res) t
           else t\<lparr>tl_results := put_result i res (tl_results t)\<rparr>))"

type_synonym runner = "pyval \<Rightarrow> pyval list \<Rightarrow> string + pyval"

definition run_parallel :: "(pyval \<Rightarrow> string) \<Rightarrow> runner \<Rightarrow> pyval list \<Rightarrow> nat list \<Rightarrow> tally \<Rightarrow> tally option" where
  "run_parallel to_str run steps indices t =
     (if list_all (\<lambda>i. i < length steps) indices
      then Some (fold (add_outcome to_str) (map (\<lambda>i. (i, run (steps ! i) (tl_results t))) indices) t)
      else None)"

subsection \<open>The node\<close>

definition place_of :: "pyval \<Rightarrow> nat option" where
  "place_of v = (case v of PInt i \<Rightarrow> (if i \<ge> 0 then Some (nat i) else None) | _ \<Rightarrow> None)"

definition groups_of :: "pydict \<Rightarrow> nat list list option" where
  "groups_of st = do {
     gs \<leftarrow> list_or_empty ''parallel_groups'' st;
     omap (\<lambda>g. omap place_of (list_of g)) (filter is_list gs)
   }"

definition group_at :: "nat \<Rightarrow> nat list list \<Rightarrow> nat list option" where
  "group_at i groups = find (\<lambda>g. length g > 1 \<and> hd g = i) groups"

definition partial_update :: "nat list \<Rightarrow> tally \<Rightarrow> pydict" where
  "partial_update g t =
     [(''step_results'', PList (tl_results t)), (''current_step_index'', PInt (int (Max (set g)))),
      (''response'', PDict [(''status'', PStr ''partial''), (''completed_steps'', PList (tl_results t)),
         (''failed_at'', case tl_first t of Some i \<Rightarrow> PInt (int i) | None \<Rightarrow> PNone),
         (''failed_steps'', PList (map (\<lambda>(i, e). PDict [(''index'', PInt (int i)), (''error'', PStr e)]) (tl_errors t))),
         (''error'', PStr (snd (hd (tl_errors t))))])]"

definition finished_first :: "(pyval \<Rightarrow> string) \<Rightarrow> nat \<Rightarrow> pyval list \<Rightarrow> tally" where
  "finished_first to_str cur results =
     (let res = (if cur < length results then results ! cur else PDict []); t = \<lparr>tl_results = results, tl_errors = [], tl_first = None\<rparr> in
      if is_soft_failure res then t\<lparr>tl_errors := [(cur, soft_failure_message to_str res)], tl_first := Some cur\<rparr> else t)"

text \<open>What runs besides the current step: the group and the tally after it, or nothing.\<close>

definition run_peers :: "(pyval \<Rightarrow> string) \<Rightarrow> runner \<Rightarrow> pyval list \<Rightarrow> nat list list \<Rightarrow> nat \<Rightarrow> pyval list \<Rightarrow> (nat list option \<times> tally) option" where
  "run_peers to_str run steps groups cur results =
     (case group_at cur groups of
        Some g \<Rightarrow> map_option (\<lambda>t. (Some g, t)) (run_parallel to_str run steps (filter (\<lambda>i. i \<noteq> cur) g) (finished_first to_str cur results))
      | None \<Rightarrow>
          (let t = \<lparr>tl_results = results, tl_errors = [], tl_first = None\<rparr> in
           case group_at (cur + 1) groups of
             Some g \<Rightarrow> map_option (\<lambda>t. (Some g, t)) (run_parallel to_str run steps g t)
           | None \<Rightarrow> Some (None, t)))"

definition finalize_update :: "(pydict \<Rightarrow> pyval list \<Rightarrow> pyval) \<Rightarrow> pydict \<Rightarrow> pyval list \<Rightarrow> pydict" where
  "finalize_update keep st results =
     (let exec = dget_none ''execution_id'' st in
      [(''step_results'', PList results), (''execution_id'', if truthy exec then exec else keep st results),
       (''response'', PDict [(''status'', PStr ''ok''), (''steps_executed'', PInt (int (length results))),
          (''data'', if length results > 1 then PList results else hd results)])])"

definition advance :: "gate_env \<Rightarrow> pydict \<Rightarrow> pyval list \<Rightarrow> nat \<Rightarrow> pyval list \<Rightarrow> pydict option" where
  "advance env st steps next results = do {
     step \<leftarrow> (case steps ! next of PDict d \<Rightarrow> Some d | _ \<Rightarrow> None);
     op \<leftarrow> (case dget ''operation_id'' step of Some (PStr op) \<Rightarrow> Some op | _ \<Rightarrow> None);
     pid \<leftarrow> (case dget_none ''plugin_id'' step of PStr p \<Rightarrow> Some p | PNone \<Rightarrow> Some [] | _ \<Rightarrow> None);
     cs \<leftarrow> list_or_empty ''candidates'' st;
     candidates \<leftarrow> dicts_of cs;
     Some (case resolve_route_candidate (pg_registry env) op pid candidates of
        None \<Rightarrow> [(''step_results'', PList results),
          (''response'', PDict [(''status'', PStr ''error''),
             (''message'', PStr (''Plan step '' @ show_nat next @ '' references operation '' @ [CHR 0x27] @ op @ [CHR 0x27]
                @ '' which is not in the candidate pool. Try rephrasing your request.''))])]
      | Some route \<Rightarrow> [(''step_results'', PList results), (''current_step_index'', PInt (int next)), (''selected'', PDict route),
          (''payload'', PNone), (''response'', PNone), (''retry_count'', PInt 0)])
   }"

definition step_dispatcher_node :: "gate_env \<Rightarrow> runner \<Rightarrow> (pydict \<Rightarrow> pyval list \<Rightarrow> pyval) \<Rightarrow> pydict \<Rightarrow> pydict option" where
  "step_dispatcher_node env run keep st = do {
     done \<leftarrow> list_or_empty ''step_results'' st;
     let results = done @ [get_or_empty ''response'' st];
     idx \<leftarrow> dget ''current_step_index'' st;
     cur \<leftarrow> place_of idx;
     steps \<leftarrow> list_or_empty ''plan'' st;
     groups \<leftarrow> groups_of st;
     (g, t) \<leftarrow> run_peers (pg_to_str env) run steps groups cur results;
     (let next = (case g of None \<Rightarrow> cur + 1 | Some g \<Rightarrow> Max (set g) + 1) in
      if tl_errors t \<noteq> [] \<and> g \<noteq> None then Some (partial_update (the g) t)
      else if next \<ge> length steps then Some (finalize_update keep st (tl_results t))
      else advance env st steps next (tl_results t))
   }"

subsection \<open>Progress\<close>

lemma run_parallel_bounds:
  assumes "run_parallel to_str run steps indices t = Some t'"
  shows "\<forall>i\<in>set indices. i < length steps"
  using assms by (auto simp: run_parallel_def list_all_iff split: if_splits)

lemma group_at_nonempty: "group_at i groups = Some g \<Longrightarrow> 1 < length g \<and> i \<in> set g"
  unfolding group_at_def by (drule find_SomeD) (auto intro!: hd_in_set)

lemma group_last: "group_at i groups = Some g \<Longrightarrow> i \<le> Max (set g)"
  using group_at_nonempty by (fastforce intro: Max_ge)

lemma run_peers_cases:
  assumes "run_peers to_str run steps groups cur results = Some (g, t)"
  shows "case g of
      Some g \<Rightarrow> group_at cur groups = Some g
          \<and> run_parallel to_str run steps (filter (\<lambda>i. i \<noteq> cur) g) (finished_first to_str cur results) = Some t
        \<or> group_at cur groups = None \<and> group_at (cur + 1) groups = Some g
          \<and> run_parallel to_str run steps g \<lparr>tl_results = results, tl_errors = [], tl_first = None\<rparr> = Some t
    | None \<Rightarrow> t = \<lparr>tl_results = results, tl_errors = [], tl_first = None\<rparr>"
  using assms unfolding run_peers_def Let_def by (auto split: option.splits)

text \<open>The index of the current step and the number of steps.\<close>

definition dispatch_state :: "pydict \<Rightarrow> nat \<Rightarrow> nat \<Rightarrow> bool" where
  "dispatch_state st cur n \<longleftrightarrow> (\<exists>v steps. dget ''current_step_index'' st = Some v \<and> place_of v = Some cur
     \<and> list_or_empty ''plan'' st = Some steps \<and> length steps = n)"

definition continues :: "pydict \<Rightarrow> bool" where
  "continues u \<longleftrightarrow> has_key ''selected'' u"

lemma advance_fields:
  assumes "advance env st steps next results = Some u" "continues u"
  shows "dget ''current_step_index'' (update st u) = Some (PInt (int next))" "dget ''plan'' (update st u) = dget ''plan'' st"
    "dget_none ''response'' (update st u) = PNone"
proof -
  from assms obtain route where
    "u = [(''step_results'', PList results), (''current_step_index'', PInt (int next)), (''selected'', PDict route),
          (''payload'', PNone), (''response'', PNone), (''retry_count'', PInt 0)]"
    unfolding advance_def by (auto simp: option_bind continues_def has_key_def dget_Cons dget_no_entry split: option.splits)
  then show "dget ''current_step_index'' (update st u) = Some (PInt (int next))" "dget ''plan'' (update st u) = dget ''plan'' st"
    "dget_none ''response'' (update st u) = PNone"
    by (simp_all add: dget_update dget_or_update dget_Cons dget_no_entry dget_append)
qed

lemma dispatcher_parts:
  assumes "step_dispatcher_node env run keep st = Some u"
  obtains before v cur steps groups g t where
    "list_or_empty ''step_results'' st = Some before" "dget ''current_step_index'' st = Some v" "place_of v = Some cur"
    "list_or_empty ''plan'' st = Some steps" "groups_of st = Some groups"
    "run_peers (pg_to_str env) run steps groups cur (before @ [get_or_empty ''response'' st]) = Some (g, t)"
    "(let next = (case g of None \<Rightarrow> cur + 1 | Some g \<Rightarrow> Max (set g) + 1) in
      if tl_errors t \<noteq> [] \<and> g \<noteq> None then Some (partial_update (the g) t)
      else if next \<ge> length steps then Some (finalize_update keep st (tl_results t))
      else advance env st steps next (tl_results t)) = Some u"
  using assms that unfolding step_dispatcher_node_def option_bind split_paired_Ex prod.case Let_def by blast

text \<open>One dispatch goes on to a later step of the same plan, without a response, or it leaves a response.\<close>

lemma advance_ends:
  assumes "advance env st steps next results = Some u" "\<not> continues u"
  shows "truthy (dget_none ''response'' (update st u))"
  using assms unfolding advance_def
  by (auto simp: option_bind continues_def has_key_def dget_simps truthy_def split: option.splits)

lemma end_responses:
  "truthy (dget_none ''response'' (update st (partial_update g t)))" "truthy (dget_none ''response'' (update st (finalize_update keep st results)))"
  by (simp_all add: partial_update_def finalize_update_def Let_def dget_simps truthy_def)

lemma dispatch_step:
  assumes "step_dispatcher_node env run keep st = Some u" "dispatch_state st cur n"
  shows "truthy (dget_none ''response'' (update st u)) \<or> (\<exists>next. cur < next \<and> next < n \<and> dispatch_state (update st u) next n)"
  using assms(1)
proof (rule dispatcher_parts)
  fix before v cur' steps groups g t
  assume p: "list_or_empty ''step_results'' st = Some before" "dget ''current_step_index'' st = Some v" "place_of v = Some cur'"
    "list_or_empty ''plan'' st = Some steps" "groups_of st = Some groups"
    "run_peers (pg_to_str env) run steps groups cur' (before @ [get_or_empty ''response'' st]) = Some (g, t)"
    and u: "(let next = (case g of None \<Rightarrow> cur' + 1 | Some g \<Rightarrow> Max (set g) + 1) in
      if tl_errors t \<noteq> [] \<and> g \<noteq> None then Some (partial_update (the g) t)
      else if next \<ge> length steps then Some (finalize_update keep st (tl_results t))
      else advance env st steps next (tl_results t)) = Some u"
  from assms(2) p(2-4) have cur: "cur' = cur" "length steps = n"
    by (auto simp: dispatch_state_def)
  let ?next = "case g of None \<Rightarrow> cur + 1 | Some g \<Rightarrow> Max (set g) + 1"
  show ?thesis
  proof (cases "?next < n \<and> advance env st steps ?next (tl_results t) = Some u \<and> continues u")
    case False
    with u cur show ?thesis
      by (auto simp: Let_def end_responses intro: advance_ends split: if_splits)
  next
    case True
    have "cur < ?next"
      using run_peers_cases [OF p(6)] group_last [of cur groups] group_last [of "cur + 1" groups] cur(1)
      by (cases g) (auto simp: less_Suc_eq_le)
    moreover have "dispatch_state (update st u) ?next n"
      using advance_fields [of env st steps ?next "tl_results t" u] True p(4) cur(2)
      unfolding dispatch_state_def by (auto simp: place_of_def list_or_empty_def dget_or_def)
    ultimately show ?thesis using True by blast
  qed
qed

subsection \<open>The step loop\<close>

text \<open>
  The nodes between two dispatches.  Gate, validator, retry node and dispatcher are the modelled ones; \<open>context_check\<close> and
  \<open>step_resolver\<close> leave plan and index alone and take no response away, \<open>builder\<close>, \<open>executor\<close> and \<open>wait_node\<close> leave plan and
  index alone and may write anything else.
\<close>

definition step_nodes :: "string list" where
  "step_nodes = [''context_check'', ''step_resolver'', ''permission_gate'', ''builder'', ''executor'', ''wait_node'', ''validator'',
     ''retry_node'', ''step_dispatcher'']"

definition keeps_place :: "pydict \<Rightarrow> pydict \<Rightarrow> bool" where
  "keeps_place st st' \<longleftrightarrow> dget ''plan'' st' = dget ''plan'' st \<and> dget ''current_step_index'' st' = dget ''current_step_index'' st"

definition updates :: "pydict \<Rightarrow> pydict option \<Rightarrow> pydict \<Rightarrow> bool" where
  "updates st r st' = (case r of Some u \<Rightarrow> st' = update st u | None \<Rightarrow> False)"

record loop_env =
  le_gate :: gate_env
  le_run :: runner
  le_keep :: "pydict \<Rightarrow> pyval list \<Rightarrow> pyval"
  le_hint :: "string \<Rightarrow> pyval \<Rightarrow> string \<Rightarrow> string"
  le_aliases :: "string list"
  le_max_replans :: int
  le_flag :: bool

abbreviation le_str :: "loop_env \<Rightarrow> pyval \<Rightarrow> string" where
  "le_str env \<equiv> pg_to_str (le_gate env)"

definition node_effect :: "loop_env \<Rightarrow> string \<Rightarrow> pydict \<Rightarrow> pydict \<Rightarrow> bool" where
  "node_effect env n st st' =
     (if n = ''step_dispatcher'' then updates st (step_dispatcher_node (le_gate env) (le_run env) (le_keep env) st) st'
      else if n = ''validator'' then updates st (validator_node (le_max_replans env) (le_str env) st) st'
      else if n = ''retry_node'' then updates st (retry_node (le_str env) (le_hint env) (le_aliases env) st) st'
      else if n = ''permission_gate'' then updates st (permission_gate_node (le_gate env) st) st'
      else if n = ''context_check'' \<or> n = ''step_resolver''
      then keeps_place st st' \<and> (truthy (dget_none ''response'' st) \<longrightarrow> truthy (dget_none ''response'' st'))
      else keeps_place st st')"

lemma updates_Some: "updates st r st' \<longleftrightarrow> (\<exists>u. r = Some u \<and> st' = update st u)"
  by (cases r) (simp_all add: updates_def)

lemma node_effects:
  "node_effect env ''step_dispatcher'' st st' \<longleftrightarrow> updates st (step_dispatcher_node (le_gate env) (le_run env) (le_keep env) st) st'"
  "node_effect env ''validator'' st st' \<longleftrightarrow> updates st (validator_node (le_max_replans env) (le_str env) st) st'"
  "node_effect env ''retry_node'' st st' \<longleftrightarrow> updates st (retry_node (le_str env) (le_hint env) (le_aliases env) st) st'"
  "node_effect env ''permission_gate'' st st' \<longleftrightarrow> updates st (permission_gate_node (le_gate env) st) st'"
  "n \<in> {''context_check'', ''step_resolver''} \<Longrightarrow> node_effect env n st st' \<longleftrightarrow>
     keeps_place st st' \<and> (truthy (dget_none ''response'' st) \<longrightarrow> truthy (dget_none ''response'' st'))"
  "n \<notin> {''step_dispatcher'', ''validator'', ''retry_node'', ''permission_gate'', ''context_check'', ''step_resolver''} \<Longrightarrow>
     node_effect env n st st' \<longleftrightarrow> keeps_place st st'"
  unfolding node_effect_def by simp_all (elim disjE; simp)

text \<open>A walk through these nodes: how many dispatches it has made, the node that ran last and the state it left.\<close>

inductive step_walk :: "loop_env \<Rightarrow> pydict \<Rightarrow> nat \<Rightarrow> string \<Rightarrow> pydict \<Rightarrow> bool" for env st0 where
  enter: "step_walk env st0 0 ''context_check'' st0"
| move: "step_walk env st0 k n st \<Longrightarrow> next_node (le_str env) (le_flag env) root_spec st n = Some (Node t) \<Longrightarrow> t \<in> set step_nodes
    \<Longrightarrow> node_effect env t st st' \<Longrightarrow> step_walk env st0 (k + (if t = ''step_dispatcher'' then 1 else 0)) t st'"

lemma keeps_place_state: "keeps_place st st' \<Longrightarrow> dispatch_state st' c n = dispatch_state st c n"
  by (simp add: keeps_place_def dispatch_state_def list_or_empty_def dget_or_def)

lemma keeps_place_update:
  "dget ''plan'' (rev u) = None \<Longrightarrow> dget ''current_step_index'' (rev u) = None \<Longrightarrow> keeps_place st (update st u)"
  by (simp add: keeps_place_def dget_update)

lemma gate_keeps_place:
  assumes "permission_gate_node g st = Some u"
  shows "keeps_place st (update st u) \<and> (truthy (dget_none ''response'' st) \<longrightarrow> truthy (dget_none ''response'' (update st u)))"
proof (cases "u = []")
  case False
  from gate_refuses [OF assms False] obtain r where "u = [(''response'', PDict r)]" "r \<noteq> []" by blast
  then show ?thesis by (simp add: keeps_place_update dget_simps truthy_def)
qed (simp add: update_def keeps_place_def)

lemma retry_keeps_place: "retry_node to_str hint aliases st = Some u \<Longrightarrow> keeps_place st (update st u)"
  unfolding retry_node_def by (auto simp: option_bind split_beta intro!: keeps_place_update) (simp_all add: dget_simps)

lemma validator_keeps_place:
  assumes "validator_node m to_str st = Some u"
  shows "keeps_place st (update st u) \<or> response_status (update st u) = PStr ''replan''"
  using validator_cases [OF assms]
proof (elim disjE exE conjE)
  fix outcome n assume "build_replan_reset to_str st (dget_none ''response'' st) outcome = Some u"
  from reset_replans [OF this] show ?thesis by blast
next
  fix r un assume "terminal_failure to_str st r un = Some u"
  then show ?thesis
    unfolding terminal_failure_def by (auto simp: option_bind Let_def dget_simps intro!: keeps_place_update split: if_splits)
next
  assume "u = []"
  then show ?thesis by (simp add: update_def keeps_place_def)
next
  fix data label assume "u = ok_envelope data label"
  then show ?thesis by (auto simp: ok_envelope_def dget_simps intro!: keeps_place_update)
qed

text \<open>Where a response stops the loop.\<close>

lemma next_of_step:
  "next_node to_str flag root_spec st ''context_check'' = Some (Node t) \<Longrightarrow> t = ''permission_gate'' \<or> t = ''step_resolver''"
  "next_node to_str flag root_spec st ''step_resolver'' = Some (Node t) \<Longrightarrow> step_resolver_router st = ''builder'' \<or> t = ''goap_goal''"
  "next_node to_str flag root_spec st ''permission_gate'' = Some (Node t) \<Longrightarrow> permission_gate_router st = ''builder''"
  by (auto simp: next_node_def root_defs router_at_def router_table_def bind_eq_Some_conv target_of_def endpoint_of_def split: if_splits)

lemma response_stops:
  "truthy (dget_none ''response'' st) \<Longrightarrow> step_resolver_router st \<noteq> ''builder''"
  "truthy (dget_none ''response'' st) \<Longrightarrow> permission_gate_router st \<noteq> ''builder''"
  by (simp_all add: step_resolver_router_def permission_gate_router_def Let_def split: pyval.split)

definition held :: "string \<Rightarrow> pydict \<Rightarrow> bool" where
  "held n st \<longleftrightarrow> truthy (dget_none ''response'' st)
     \<and> (n = ''context_check'' \<or> n = ''step_resolver'' \<or> n = ''permission_gate'' \<or> n = ''step_dispatcher''
       \<or> n = ''validator'' \<and> response_status st = PStr ''replan'')"

lemma held_moves:
  assumes "held n st" "next_node (le_str env) flag root_spec st n = Some (Node t)" "t \<in> set step_nodes" "node_effect env t st st'"
  shows "held t st' \<and> t \<noteq> ''step_dispatcher''"
proof -
  have r: "truthy (dget_none ''response'' st)" using assms(1) by (simp add: held_def)
  consider "n = ''context_check''" | "n = ''step_resolver''" | "n = ''permission_gate''" | "n = ''step_dispatcher''"
    | "n = ''validator''" "response_status st = PStr ''replan''"
    using assms(1) unfolding held_def by satx
  then have t: "t = ''context_check'' \<or> t = ''permission_gate'' \<or> t = ''step_resolver''"
  proof cases
    case 1
    with next_of_step(1) [of "le_str env" flag st t] assms(2) show ?thesis by blast
  next
    case 2
    with next_of_step(2) [of "le_str env" flag st t] assms(2) response_stops(1) [OF r] have "t = ''goap_goal''" by blast
    with assms(3) show ?thesis by (simp add: step_nodes_def)
  next
    case 3
    with next_of_step(3) [of "le_str env" flag st t] assms(2) response_stops(2) [OF r] show ?thesis by blast
  next
    case 4
    with next_of(2) [of "le_str env" flag st t] assms(2,3) show ?thesis by (auto simp: step_nodes_def)
  next
    case 5
    with next_of(1) [of "le_str env" flag st t] assms(2,3) retry_of_status [OF 5(2), of "le_str env"] show ?thesis
      by (auto simp: step_nodes_def replan_entry_def split: if_splits)
  qed
  have "truthy (dget_none ''response'' st')"
  proof (cases "t = ''permission_gate''")
    case True
    with assms(4) obtain u where u: "permission_gate_node (le_gate env) st = Some u" "st' = update st u"
      unfolding True node_effects updates_Some by blast
    from gate_keeps_place [OF u(1)] r u(2) show ?thesis by simp
  next
    case False
    with t have "t \<in> {''context_check'', ''step_resolver''}" unfolding insert_iff empty_iff by satx
    from assms(4) [unfolded node_effects(5) [OF this]] r show ?thesis by simp
  qed
  with t show ?thesis unfolding held_def by (elim disjE) simp_all
qed

lemma free_moves:
  assumes "node_effect env t st st'" "dispatch_state st c n" "t \<noteq> ''step_dispatcher''"
  shows "dispatch_state st' c n \<or> held t st'"
proof (cases "t = ''validator''")
  case True
  with assms(1) obtain u where u: "validator_node (le_max_replans env) (le_str env) st = Some u" "st' = update st u"
    unfolding True node_effects updates_Some by blast
  from validator_keeps_place [OF u(1)] show ?thesis
  proof
    assume "response_status (update st u) = PStr ''replan''"
    moreover from this have "truthy (dget_none ''response'' (update st u))"
      by (cases "dget_none ''response'' (update st u)") (auto simp: response_status_def truthy_def dget_or_def dget_def)
    ultimately show ?thesis using True u(2) by (simp add: held_def)
  qed (use u(2) keeps_place_state assms(2) in auto)
next
  case False
  consider "t = ''retry_node''" | "t = ''permission_gate''" | "t \<in> {''context_check'', ''step_resolver''}"
    | "t \<notin> {''step_dispatcher'', ''validator'', ''retry_node'', ''permission_gate'', ''context_check'', ''step_resolver''}"
    using False assms(3) unfolding insert_iff empty_iff by satx
  then have "keeps_place st st'"
  proof cases
    case 1
    from assms(1) [unfolded 1 node_effects updates_Some] retry_keeps_place show ?thesis by blast
  next
    case 2
    from assms(1) [unfolded 2 node_effects updates_Some] gate_keeps_place show ?thesis by blast
  next
    case 3
    from assms(1) [unfolded node_effects(5) [OF 3]] show ?thesis by blast
  next
    case 4
    from assms(1) [unfolded node_effects(6) [OF 4]] show ?thesis .
  qed
  with keeps_place_state assms(2) show ?thesis by blast
qed

text \<open>What \<open>held\<close> promises: from there the graph stays in the loop for no further dispatch.\<close>

lemma dispatcher_source: "list_all (\<lambda>(s, d, c). d = ''step_dispatcher'' \<longrightarrow> s = ''validator'') (rt_edges (resolve_topology flag root_spec))"
  by (cases flag) (simp; code_simp)+

lemma held_never_dispatches: "held n st \<Longrightarrow> next_node (le_str env) flag root_spec st n \<noteq> Some (Node ''step_dispatcher'')"
proof
  assume h: "held n st" "next_node (le_str env) flag root_spec st n = Some (Node ''step_dispatcher'')"
  have n: "n = ''validator''"
    using next_node_arrow [OF h(2)] dispatcher_source [of flag] by (auto simp: arrows_def list_all_iff)
  with h(1) have "response_status st = PStr ''replan''" by (simp add: held_def)
  from next_of(1) [of "le_str env" flag st "''step_dispatcher''"] h(2) n retry_of_status [OF this, of "le_str env"]
  show False by (auto simp: replan_entry_def split: if_splits)
qed

lemma walk_bounded:
  assumes "step_walk env st0 k m st" "dispatch_state st0 cur n" "cur < n"
  shows "cur + k \<le> n \<and> ((\<exists>c. dispatch_state st c n \<and> cur + k \<le> c \<and> c < n) \<or> held m st)"
  using assms(1)
proof (induction rule: step_walk.induct)
  case enter
  from assms(2,3) show ?case by auto
next
  case (move k m st t st')
  show ?case
  proof (cases "held m st")
    case True
    from held_moves [OF this move.hyps(2-4)] move.IH show ?thesis by simp
  next
    case False
    with move.IH obtain c where c: "dispatch_state st c n" "cur + k \<le> c" "c < n" by blast
    show ?thesis
    proof (cases "t = ''step_dispatcher''")
      case True
      with move.hyps(4) obtain u where u: "step_dispatcher_node (le_gate env) (le_run env) (le_keep env) st = Some u" "st' = update st u"
        unfolding True node_effects updates_Some by blast
      from dispatch_step [OF u(1) c(1)] c True u(2) show ?thesis by (auto simp: held_def)
    next
      case False
      with free_moves [OF move.hyps(4) c(1)] c move.IH show ?thesis by auto
    qed
  qed
qed

text \<open>
  C19: The steps of a plan are dispatched a bounded number of times.  Enter the loop at \<open>context_check\<close> with step \<open>cur\<close> of a plan of
  \<open>n\<close> steps and follow the graph from node to node by its routers, through whatever retries, as long as it stays among the nodes of the
  loop.  Dispatcher, validator, retry node and permission gate act as modelled; of \<open>context_check\<close>, \<open>step_resolver\<close>, \<open>builder\<close>,
  \<open>executor\<close> and \<open>wait_node\<close> it is assumed only that they leave plan and index alone and that the first two take no response away.  Then
  the dispatcher has run at most \<open>n - cur\<close> times.  The state stands at a step of the same plan at least as far on as there were
  dispatches, or a response holds the walk, from where no edge leads to the dispatcher: the plan is finalized, a parallel group failed,
  the next operation is unknown (then \<open>context_check\<close> still follows), a replan is due, or gate or resolver pass that response on.
\<close>

theorem dispatch_advances:
  assumes "step_walk env st0 k m st" "dispatch_state st0 cur n" "cur < n"
  shows "cur + k \<le> n
    \<and> ((\<exists>c. dispatch_state st c n \<and> cur + k \<le> c \<and> c < n)
      \<or> held m st \<and> next_node (le_str env) (le_flag env) root_spec st m \<noteq> Some (Node ''step_dispatcher''))"
  using walk_bounded [OF assms] held_never_dispatches by blast

subsection \<open>Parallel results\<close>

lemma put_result_at: "put_result i v out ! i = v" "i < length (put_result i v out)" "length out \<le> length (put_result i v out)"
  by (simp_all add: put_result_def)

lemma put_result_other: "j < length out \<Longrightarrow> j \<noteq> i \<Longrightarrow> put_result i v out ! j = out ! j"
  by (simp add: put_result_def nth_append)

definition failed :: "string + pyval \<Rightarrow> bool" where
  "failed o' = (case o' of Inl e \<Rightarrow> True | Inr res \<Rightarrow> is_soft_failure res)"

definition kept_result :: "string + pyval \<Rightarrow> pyval" where
  "kept_result o' =
     (case o' of
        Inl e \<Rightarrow> PDict [(''error'', PStr (take 2000 e)), (''status'', PStr ''error'')]
      | Inr res \<Rightarrow> (if is_soft_failure res then stored res else res))"

lemma outcome_added:
  "tl_results (add_outcome to_str (i, o') t) = put_result i (kept_result o') (tl_results t)"
  "map fst (tl_errors (add_outcome to_str (i, o') t)) = map fst (tl_errors t) @ (if failed o' then [i] else [])"
  by (cases o'; simp add: add_outcome_def add_failure_def kept_result_def failed_def Let_def)+

lemma outcomes_added:
  assumes "distinct (map fst os)"
  shows "(\<forall>(i, o')\<in>set os. i < length (tl_results (fold (add_outcome to_str) os t)) \<and> tl_results (fold (add_outcome to_str) os t) ! i = kept_result o')
    \<and> length (tl_results t) \<le> length (tl_results (fold (add_outcome to_str) os t))
    \<and> (\<forall>j<length (tl_results t). j \<notin> fst ` set os \<longrightarrow> tl_results (fold (add_outcome to_str) os t) ! j = tl_results t ! j)
    \<and> map fst (tl_errors (fold (add_outcome to_str) os t)) = map fst (tl_errors t) @ map fst (filter (failed \<circ> snd) os)"
  using assms
proof (induction os arbitrary: t)
  case (Cons io os)
  obtain i o' where io: "io = (i, o')" by force
  let ?t = "add_outcome to_str (i, o') t"
  from Cons.prems have i: "i \<notin> fst ` set os" "distinct (map fst os)" by (auto simp: io)
  note IH = Cons.IH [OF i(2), of ?t]
  have at: "i < length (tl_results ?t)" "tl_results ?t ! i = kept_result o'" "length (tl_results t) \<le> length (tl_results ?t)"
    by (simp_all add: outcome_added(1) put_result_at)
  have other: "j < length (tl_results t) \<Longrightarrow> j \<noteq> i \<Longrightarrow> tl_results ?t ! j = tl_results t ! j" for j
    by (simp add: outcome_added(1) put_result_other)
  from IH i(1) at have "i < length (tl_results (fold (add_outcome to_str) os ?t)) \<and> tl_results (fold (add_outcome to_str) os ?t) ! i = kept_result o'"
    by auto
  moreover have "tl_results (fold (add_outcome to_str) os ?t) ! j = tl_results t ! j"
    if "j < length (tl_results t)" "j \<notin> fst ` set (io # os)" for j
    using IH that at(3) other [of j] by (auto simp: io)
  ultimately show ?case
    using IH at(3) by (auto simp: io outcome_added(2))
qed simp

text \<open>
  The peers of a parallel group leave each result at its own place, other results stay, and the failures recorded are exactly those of the
  steps that raised or answered with an error.
\<close>

theorem parallel_results_placed:
  assumes "run_parallel to_str run steps indices t = Some t'" "distinct indices"
  shows "(\<forall>i\<in>set indices. i < length (tl_results t') \<and> tl_results t' ! i = kept_result (run (steps ! i) (tl_results t)))
    \<and> (\<forall>j<length (tl_results t). j \<notin> set indices \<longrightarrow> tl_results t' ! j = tl_results t ! j)
    \<and> map fst (tl_errors t') = map fst (tl_errors t) @ filter (\<lambda>i. failed (run (steps ! i) (tl_results t))) indices"
proof -
  let ?os = "map (\<lambda>i. (i, run (steps ! i) (tl_results t))) indices"
  have t': "t' = fold (add_outcome to_str) ?os t"
    using assms(1) by (simp add: run_parallel_def split: if_splits)
  have "distinct (map fst ?os)" using assms(2) by (simp add: o_def)
  from outcomes_added [OF this, of to_str t] show ?thesis
    unfolding t' by (auto simp: filter_map o_def image_image)
qed

subsection \<open>Samples\<close>

definition loud :: runner where
  "loud step results = Inr (PDict [(''status'', PStr ''ok''), (''ran'', dget_none ''operation_id'' (dict_of step))])"

text \<open>
  The gate stands before the builder only.  A write that is not the first of its parallel group is run by the dispatcher: here the
  deletion, for which the gate would ask, has run when the read before it is done.
\<close>

lemma parallel_write_ungated:
  "permission_gate_node local_gate (update two_steps [(''current_step_index'', PInt 1)]) \<noteq> Some []"
  "map_option (\<lambda>u. dget_none ''step_results'' u)
     (step_dispatcher_node local_gate loud (\<lambda>_ _. PNone) (update two_steps [(''response'', PDict [(''status'', PStr ''ok'')])]))
   = Some (PList [PDict [(''status'', PStr ''ok'')], PDict [(''status'', PStr ''ok''), (''ran'', PStr ''delete_page'')]])"
  by code_simp+

definition one_by_one :: pydict where
  "one_by_one = update two_steps [(''parallel_groups'', PList [])]"

lemma first_state: "dispatch_state one_by_one 0 2"
proof -
  have "dget ''current_step_index'' one_by_one = Some (PInt 0)" "place_of (PInt 0) = Some 0"
    "map_option length (list_or_empty ''plan'' one_by_one) = Some 2"
    by code_simp+
  then show ?thesis unfolding dispatch_state_def by auto
qed

definition plain_loop :: loop_env where
  "plain_loop = \<lparr>le_gate = local_gate, le_run = loud, le_keep = (\<lambda>_ _. PNone), le_hint = (\<lambda>_ _ _. []), le_aliases = [], le_max_replans = 2,
     le_flag = True\<rparr>"

definition ran_once :: pydict where
  "ran_once = update one_by_one [(''response'', PDict [(''status'', PStr ''ok'')])]"

definition second_step :: pydict where
  "second_step = update ran_once (the (step_dispatcher_node local_gate loud (\<lambda>_ _. PNone) ran_once))"

lemma plain_edges:
  "next_node (\<lambda>_. []) True root_spec one_by_one ''context_check'' = Some (Node ''permission_gate'')"
  "next_node (\<lambda>_. []) True root_spec one_by_one ''permission_gate'' = Some (Node ''builder'')"
  "next_node (\<lambda>_. []) True root_spec one_by_one ''builder'' = Some (Node ''executor'')"
  "next_node (\<lambda>_. []) True root_spec ran_once ''executor'' = Some (Node ''validator'')"
  "next_node (\<lambda>_. []) True root_spec ran_once ''validator'' = Some (Node ''step_dispatcher'')"
  "next_node (\<lambda>_. []) True root_spec second_step ''step_dispatcher'' = Some (Node ''context_check'')"
  by code_simp+

lemma plain_effects:
  "node_effect plain_loop ''permission_gate'' one_by_one one_by_one" "node_effect plain_loop ''builder'' one_by_one one_by_one"
  "node_effect plain_loop ''executor'' one_by_one ran_once" "node_effect plain_loop ''validator'' ran_once ran_once"
  "node_effect plain_loop ''step_dispatcher'' ran_once second_step" "node_effect plain_loop ''context_check'' second_step second_step"
  by code_simp+

lemma plain_walk: "step_walk plain_loop one_by_one 1 ''context_check'' second_step"
proof -
  have sel: "le_str plain_loop = (\<lambda>_. [])" "le_flag plain_loop = True" by (simp_all add: plain_loop_def local_gate_def)
  note go = step_walk.move [where env = plain_loop and ?st0.0 = one_by_one, unfolded sel step_nodes_def, simplified]
  have "step_walk plain_loop one_by_one 0 ''permission_gate'' one_by_one"
    using go [OF step_walk.enter plain_edges(1) _ plain_effects(1)] by simp
  from go [OF this plain_edges(2) _ plain_effects(2)] have "step_walk plain_loop one_by_one 0 ''builder'' one_by_one" by simp
  from go [OF this plain_edges(3) _ plain_effects(3)] have "step_walk plain_loop one_by_one 0 ''executor'' ran_once" by simp
  from go [OF this plain_edges(4) _ plain_effects(4)] have "step_walk plain_loop one_by_one 0 ''validator'' ran_once" by simp
  from go [OF this plain_edges(5) _ plain_effects(5)] have "step_walk plain_loop one_by_one 1 ''step_dispatcher'' second_step" by simp
  from go [OF this plain_edges(6) _ plain_effects(6)] show ?thesis by simp
qed

theorem dispatch_advances_witness: "0 + 1 \<le> (2::nat) \<and> (\<exists>c. dispatch_state second_step c 2 \<and> 0 + 1 \<le> c \<and> c < 2)"
proof -
  have "\<not> held ''context_check'' second_step" by code_simp
  with dispatch_advances [OF plain_walk first_state] show ?thesis by simp
qed

text \<open>
  When the next operation is unknown, the dispatcher leaves an error but neither clears \<open>selected\<close> nor moves the index, so the router sends
  the graph to \<open>context_check\<close> once more, for the step that is done; the gate then ends the run.
\<close>

lemma unknown_operation_checked_again:
  "(let st = update ran_once [(''candidates'', PList []), (''selected'', PDict [(''operation_id'', PStr ''list_pages'')])] in
    map_option (\<lambda>u. (dget_none ''status'' (dict_of (dget_none ''response'' (update st u))), dget_none ''current_step_index'' (update st u),
        next_node (\<lambda>_. []) True root_spec (update st u) ''step_dispatcher''))
      (step_dispatcher_node local_gate loud (\<lambda>_ _. PNone) st)
    = Some (PStr ''error'', PInt 0, Some (Node ''context_check'')))"
  by code_simp

end
