(* ===== verification/PluginResolver.thy ===== *)
theory PluginResolver
  imports PrioQueue PyValue
begin

text \<open>
  Resolution of the plugin set, \<open>core/plugin_loader/resolver.py\<close>: names, tiers, the dedupe of
  \<open>build_specs\<close>, the filters and the topological order by Kahn's algorithm on a min-heap.  A spec
  keeps the fields the resolver reads; reading a manifest file is the parameter \<open>load\<close>, which
  yields the manifest's name, tier value and requirements, or the reason of the skip; \<open>mf_late\<close>
  is the reason when an exception (in the skill, hash or schema code) comes after the name is claimed.  Sets the
  code iterates in arbitrary order are lists without a prescribed order: the heap makes the
  result independent of it, as \<open>toposort_takes_least\<close> shows.
\<close>

subsection \<open>Specs and names\<close>

record PluginSpec =
  package :: string
  spec_name :: string
  tier :: int
  requires :: "string list"

definition normalize_plugin_name :: "string \<Rightarrow> string" where
  "normalize_plugin_name n = (if n = [] then n else after_last ''.'' (hd (split_on CHR ''@'' n)))"

definition short_name :: "PluginSpec \<Rightarrow> string" where
  "short_name s = normalize_plugin_name (spec_name s)"

definition parse_tier :: "pyval \<Rightarrow> int" where
  "parse_tier v =
     (case v of
        PInt i \<Rightarrow> i
      | PBool b \<Rightarrow> of_bool b
      | PStr s \<Rightarrow>
          (let t = strip (lower s) in
           if t = ''free'' \<or> t = ''lite'' then 1 else if t = ''pro'' then 100
           else if t = ''admin'' then 500 else if t = ''test'' then 9999 else 1)
      | _ \<Rightarrow> 1)"

type_synonym skip = "string \<times> string"

record manifest_fields =
  mf_name :: "string option"
  mf_tier :: pyval
  mf_requires :: "string list"
  mf_late :: "string option"

definition quoted :: "string \<Rightarrow> string" where
  "quoted s = [CHR 0x27] @ s @ [CHR 0x27]"

text \<open>The end of one turn of \<open>build_specs\<close>: the spec of a claimed name, or the late failure.\<close>

definition add_spec ::
    "string \<Rightarrow> string \<Rightarrow> manifest_fields \<Rightarrow> PluginSpec list \<times> skip list \<Rightarrow> PluginSpec list \<times> skip list" where
  "add_spec p name m r =
     (case mf_late m of
        Some reason \<Rightarrow> (fst r, (p, reason) # snd r)
      | None \<Rightarrow> (\<lparr>package = p, spec_name = name, tier = parse_tier (mf_tier m), requires = mf_requires m\<rparr> # fst r,
                 snd r))"

fun build_specs_from ::
    "(string \<Rightarrow> string + manifest_fields) \<Rightarrow> string list \<Rightarrow> string set \<Rightarrow> string set
     \<Rightarrow> PluginSpec list \<times> skip list" where
  "build_specs_from load [] pkgs names = ([], [])"
| "build_specs_from load (p # ps) pkgs names =
     (if p \<in> pkgs
      then map_prod id (Cons (p, ''duplicate package entry in plugin_config.json''))
             (build_specs_from load ps pkgs names)
      else case load p of
        Inl reason \<Rightarrow> map_prod id (Cons (p, reason)) (build_specs_from load ps (insert p pkgs) names)
      | Inr m \<Rightarrow>
          (let name = (case mf_name m of None \<Rightarrow> normalize_plugin_name p | Some n \<Rightarrow> n);
               short = normalize_plugin_name name in
           if short \<in> names
           then map_prod id (Cons (p, ''duplicate manifest name '' @ quoted name @ '' (already claimed)''))
                  (build_specs_from load ps (insert p pkgs) names)
           else add_spec p name m (build_specs_from load ps (insert p pkgs) (insert short names))))"

definition build_specs :: "(string \<Rightarrow> string + manifest_fields) \<Rightarrow> string list \<Rightarrow> PluginSpec list \<times> skip list" where
  "build_specs load packages = build_specs_from load packages {} {}"

subsection \<open>Filters\<close>

definition split_specs :: "(PluginSpec \<Rightarrow> bool) \<Rightarrow> (PluginSpec \<Rightarrow> string) \<Rightarrow> PluginSpec list
    \<Rightarrow> PluginSpec list \<times> skip list" where
  "split_specs keep reason specs =
     (filter keep specs, map (\<lambda>s. (package s, reason s)) (filter (\<lambda>s. \<not> keep s) specs))"

definition filter_excluded :: "PluginSpec list \<Rightarrow> string list \<Rightarrow> PluginSpec list \<times> skip list" where
  "filter_excluded specs ex =
     split_specs (\<lambda>s. short_name s \<notin> normalize_plugin_name ` set ex) (\<lambda>s. ''Disabled (is_active=false)'') specs"

definition filter_by_tier :: "PluginSpec list \<Rightarrow> int \<Rightarrow> PluginSpec list \<times> skip list" where
  "filter_by_tier specs system_tier =
     split_specs (\<lambda>s. \<not> tier s > system_tier)
       (\<lambda>s. ''Requires tier '' @ show_int (tier s) @ '', system is '' @ show_int system_tier) specs"

definition find_spec :: "PluginSpec list \<Rightarrow> string \<Rightarrow> PluginSpec option" where
  "find_spec specs short = map_of (rev (map (\<lambda>s. (short_name s, s)) specs)) short"

lemma find_spec_Some: "find_spec specs n = Some s \<Longrightarrow> s \<in> set specs \<and> short_name s = n"
  by (auto simp: find_spec_def dest!: map_of_SomeD)

lemma find_spec_None: "find_spec specs n = None \<longleftrightarrow> n \<notin> short_name ` set specs"
  by (auto simp: find_spec_def map_of_eq_None_iff image_image)

lemma unseen_decreases:
  assumes "find_spec specs n = Some s" "n \<notin> seen"
  shows "card (short_name ` set specs - insert n seen) < card (short_name ` set specs - seen)"
proof -
  have "n \<in> short_name ` set specs" using find_spec_Some [OF assms(1)] by force
  with assms(2) show ?thesis by (intro psubset_card_mono) auto
qed

function reach_loop :: "PluginSpec list \<Rightarrow> string list \<Rightarrow> string set \<Rightarrow> string set" where
  "reach_loop specs [] seen = seen"
| "reach_loop specs (c # queue) seen =
     (let short = normalize_plugin_name c in
      case find_spec specs short of
        None \<Rightarrow> reach_loop specs queue seen
      | Some s \<Rightarrow>
          (if short \<in> seen then reach_loop specs queue seen
           else (let seen' = insert short seen in
                 reach_loop specs
                   (queue @ filter (\<lambda>d. d \<notin> seen') (map normalize_plugin_name (requires s))) seen')))"
  by pat_completeness auto

termination
  by (relation "measures [\<lambda>(specs, queue, seen). card (short_name ` set specs - seen), \<lambda>(specs, queue, seen). length queue]")
    (simp_all add: unseen_decreases)

definition reachable_from_roots :: "PluginSpec list \<Rightarrow> string list \<Rightarrow> PluginSpec list \<times> skip list" where
  "reachable_from_roots specs roots =
     (let r = reach_loop specs roots {} in
      split_specs (\<lambda>s. short_name s \<in> r) (\<lambda>s. ''Not reachable from loading roots'') specs)"

definition missing_deps :: "PluginSpec list \<Rightarrow> PluginSpec \<Rightarrow> string list" where
  "missing_deps specs s = filter (\<lambda>d. normalize_plugin_name d \<notin> short_name ` set specs) (requires s)"

function filter_missing_dependencies :: "PluginSpec list \<Rightarrow> PluginSpec list \<times> skip list" where
  "filter_missing_dependencies specs =
     (let (kept, skipped) = split_specs (\<lambda>s. missing_deps specs s = [])
            (\<lambda>s. ''Missing dependencies: '' @ join_with '', '' (missing_deps specs s)) specs in
      if skipped = [] then (specs, [])
      else map_prod id (append skipped) (filter_missing_dependencies kept))"
  by pat_completeness auto

termination
proof (relation "measure length")
  fix specs x xa y
  assume x: "x = split_specs (\<lambda>s. missing_deps specs s = [])
            (\<lambda>s. ''Missing dependencies: '' @ join_with '', '' (missing_deps specs s)) specs"
    "(xa, y) = x" "y \<noteq> []"
  then have some: "length (filter (\<lambda>s. missing_deps specs s \<noteq> []) specs) > 0"
    and xa: "xa = filter (\<lambda>s. missing_deps specs s = []) specs"
    by (simp_all add: split_specs_def)
  show "(xa, specs) \<in> measure length" unfolding xa in_measure
    using some sum_length_filter_compl [of "\<lambda>s. missing_deps specs s = []" specs] by linarith
qed simp

declare filter_missing_dependencies.simps [simp del]

subsection \<open>The dependency graph and its order\<close>

type_synonym dag = "(string \<times> string list) list"

definition dependents :: "PluginSpec list \<Rightarrow> string \<Rightarrow> string list" where
  "dependents specs u =
     remdups (map short_name (filter (\<lambda>s. u \<in> normalize_plugin_name ` set (requires s)) specs))"

definition build_dag :: "PluginSpec list \<Rightarrow> dag" where
  "build_dag specs = map (\<lambda>u. (u, dependents specs u)) (remdups (map short_name specs))"

text \<open>Names are their own keys.\<close>

definition name_key :: "string \<Rightarrow> string" where
  "name_key n = n"

record topo_state =
  heap :: "string list"
  in_degree :: "(string \<times> int) list"
  order :: "string list"

definition init_degree :: "dag \<Rightarrow> (string \<times> int) list" where
  "init_degree g = map (\<lambda>(n, _). (n, int (length (filter (\<lambda>(u, ds). n \<in> set ds) g)))) g"

definition init_topo :: "dag \<Rightarrow> topo_state" where
  "init_topo g =
     (let deg = init_degree g in
      \<lparr>heap = fold (pq_push name_key) (map fst (filter (\<lambda>(n, d). d = 0) deg)) [], in_degree = deg, order = []\<rparr>)"

definition relax :: "string \<Rightarrow> topo_state \<Rightarrow> topo_state" where
  "relax v st =
     (case map_of (in_degree st) v of
        None \<Rightarrow> st
      | Some d \<Rightarrow> st\<lparr>in_degree := dset v (d - 1) (in_degree st),
                     heap := (if d - 1 = 0 then pq_push name_key v (heap st) else heap st)\<rparr>)"

definition edges_of :: "dag \<Rightarrow> string \<Rightarrow> string list" where
  "edges_of g u = (case map_of g u of None \<Rightarrow> [] | Some ds \<Rightarrow> ds)"

definition topo_step :: "dag \<Rightarrow> topo_state \<Rightarrow> topo_state + (string list + string list)" where
  "topo_step g st =
     (case pq_pop (heap st) of
        Some (u, h) \<Rightarrow> Inl (fold relax (edges_of g u) (st\<lparr>heap := h, order := order st @ [u]\<rparr>))
      | None \<Rightarrow>
          (if length (order st) < length g
           then Inr (Inl (sort (map fst (filter (\<lambda>(n, d). d > 0) (in_degree st)))))
           else Inr (Inr (order st))))"

text \<open>\<open>Inl\<close> are the nodes the \<open>ValueError\<close> names.\<close>

definition toposort :: "dag \<Rightarrow> string list + string list" where
  "toposort g =
     (case run_loop (topo_step g) (length g + 2) (init_topo g) of Some r \<Rightarrow> r | None \<Rightarrow> Inl [])"

definition resolve ::
    "(string \<Rightarrow> string + manifest_fields) \<Rightarrow> string list \<Rightarrow> int \<Rightarrow> string list option \<Rightarrow> string list
     \<Rightarrow> string list + (PluginSpec list \<times> skip list)" where
  "resolve load packages system_tier roots excluded =
     (let (s1, k1) = build_specs load packages;
          (s2, k2) = filter_excluded s1 excluded;
          (s3, k3) = filter_by_tier s2 system_tier;
          (s4, k4) = (case roots of None \<Rightarrow> (s3, []) | Some rs \<Rightarrow> reachable_from_roots s3 rs);
          (s5, k5) = filter_missing_dependencies s4 in
      rbind (toposort (build_dag s5)) (\<lambda>shorts.
        Inr (map (\<lambda>n. the (find_spec s5 n)) shorts, k1 @ k2 @ k3 @ k4 @ k5)))"

subsection \<open>Kahn's algorithm\<close>

text \<open>
  A graph is well formed when its names are distinct and every name's dependents are distinct names
  of the graph.  \<open>preds\<close> are the names that must come before one.
\<close>

definition nodes :: "dag \<Rightarrow> string set" where
  "nodes g = fst ` set g"

definition preds :: "dag \<Rightarrow> string \<Rightarrow> string set" where
  "preds g v = {u. \<exists>ds. (u, ds) \<in> set g \<and> v \<in> set ds}"

definition wf_dag :: "dag \<Rightarrow> bool" where
  "wf_dag g \<longleftrightarrow> distinct (map fst g) \<and> (\<forall>(u, ds)\<in>set g. distinct ds \<and> set ds \<subseteq> nodes g)"

definition ready :: "dag \<Rightarrow> string list \<Rightarrow> string set" where
  "ready g before = {v \<in> nodes g. v \<notin> set before \<and> preds g v \<subseteq> set before}"

definition topo_inv :: "dag \<Rightarrow> topo_state \<Rightarrow> bool" where
  "topo_inv g st \<longleftrightarrow> distinct (order st) \<and> set (order st) \<subseteq> nodes g
     \<and> pq_ok name_key (heap st) \<and> distinct (heap st) \<and> set (heap st) = ready g (order st)
     \<and> distinct (map fst (in_degree st))
     \<and> map_of (in_degree st) = (\<lambda>v. if v \<in> nodes g then Some (int (card (preds g v - set (order st)))) else None)
     \<and> (\<forall>v\<in>set (order st). preds g v \<subseteq> set (order st))
     \<and> (\<forall>i<length (order st). ready g (take i (order st)) \<noteq> {}
          \<and> order st ! i = Min (ready g (take i (order st))))"

lemma preds_nodes: "preds g v \<subseteq> nodes g"
  by (force simp: preds_def nodes_def)

lemma finite_nodes [simp]: "finite (nodes g)"
  by (simp add: nodes_def)

lemma finite_preds [simp]: "finite (preds g v)"
  using finite_subset [OF preds_nodes] by simp

lemma edges_preds: "wf_dag g \<Longrightarrow> v \<in> set (edges_of g u) \<longleftrightarrow> u \<in> preds g v"
  by (auto simp: edges_of_def preds_def wf_dag_def split: option.split dest: map_of_SomeD)

lemma edges_distinct: "wf_dag g \<Longrightarrow> distinct (edges_of g u)"
  by (auto simp: edges_of_def wf_dag_def split: option.split dest: map_of_SomeD)

text \<open>Relaxing the dependents of \<open>u\<close> one after the other.\<close>

lemma relax_fold:
  assumes "distinct vs" "pq_ok name_key (heap st)" "distinct (heap st)"
    and "\<forall>v\<in>set vs. v \<notin> set (heap st)" "\<forall>v\<in>set vs. map_of (in_degree st) v \<noteq> None"
  shows "pq_ok name_key (heap (fold relax vs st)) \<and> distinct (heap (fold relax vs st))
    \<and> set (heap (fold relax vs st)) = set (heap st) \<union> {v \<in> set vs. map_of (in_degree st) v = Some 1}
    \<and> map_of (in_degree (fold relax vs st))
        = (\<lambda>v. if v \<in> set vs then map_option (\<lambda>d. d - 1) (map_of (in_degree st) v) else map_of (in_degree st) v)
    \<and> order (fold relax vs st) = order st"
  using assms
proof (induction vs arbitrary: st)
  case Nil
  then show ?case by simp
next
  case (Cons v vs)
  from Cons.prems(5) obtain d where d: "map_of (in_degree st) v = Some d" by auto
  let ?st = "relax v st"
  have st: "?st = st\<lparr>in_degree := dset v (d - 1) (in_degree st),
      heap := (if d - 1 = 0 then pq_push name_key v (heap st) else heap st)\<rparr>"
    using d by (simp add: relax_def)
  have vh: "v \<notin> set (heap st)" using Cons.prems(4) by simp
  have ok: "pq_ok name_key (heap ?st)" unfolding st using key_queue.ok_push [OF Cons.prems(2), of v] Cons.prems(2) by simp
  have dist: "distinct (heap ?st)"
    unfolding st using Cons.prems(3) vh by simp
  have h: "set (heap ?st) = set (heap st) \<union> (if d = 1 then {v} else {})" unfolding st by simp
  have nv: "v \<notin> set vs" "distinct vs" using Cons.prems(1) by simp_all
  have "\<forall>x\<in>set vs. x \<notin> set (heap ?st)" unfolding h using Cons.prems(4) nv(1) by (cases "d = 1") auto
  moreover have m: "map_of (in_degree ?st) = (map_of (in_degree st))(v \<mapsto> d - 1)" unfolding st by simp
  ultimately have IH: "pq_ok name_key (heap (fold relax vs ?st)) \<and> distinct (heap (fold relax vs ?st))
    \<and> set (heap (fold relax vs ?st)) = set (heap ?st) \<union> {x \<in> set vs. map_of (in_degree ?st) x = Some 1}
    \<and> map_of (in_degree (fold relax vs ?st))
        = (\<lambda>x. if x \<in> set vs then map_option (\<lambda>d. d - 1) (map_of (in_degree ?st) x) else map_of (in_degree ?st) x)
    \<and> order (fold relax vs ?st) = order ?st"
    using Cons.IH [OF nv(2) ok dist] Cons.prems(5) by simp
  have "{x \<in> set vs. map_of (in_degree ?st) x = Some 1} = {x \<in> set vs. map_of (in_degree st) x = Some 1}"
    using nv(1) by (auto simp: m)
  moreover have "{x \<in> set (v # vs). map_of (in_degree st) x = Some 1}
      = (if d = 1 then {v} else {}) \<union> {x \<in> set vs. map_of (in_degree st) x = Some 1}" using d by auto
  moreover have "set (heap (fold relax vs ?st))
      = set (heap ?st) \<union> {x \<in> set vs. map_of (in_degree ?st) x = Some 1}" using IH by blast
  ultimately have heap: "set (heap (fold relax vs ?st))
      = set (heap st) \<union> {x \<in> set (v # vs). map_of (in_degree st) x = Some 1}"
    unfolding h by (simp only: Un_assoc)
  have ord: "order (fold relax vs ?st) = order st" using IH unfolding st by simp
  have deg: "map_of (in_degree (fold relax vs ?st))
        = (\<lambda>x. if x \<in> set (v # vs) then map_option (\<lambda>d. d - 1) (map_of (in_degree st) x) else map_of (in_degree st) x)"
  proof (rule ext)
    fix x
    have "map_of (in_degree (fold relax vs ?st)) x
        = (if x \<in> set vs then map_option (\<lambda>d. d - 1) (map_of (in_degree ?st) x) else map_of (in_degree ?st) x)"
      using IH by simp
    then show "map_of (in_degree (fold relax vs ?st)) x
        = (if x \<in> set (v # vs) then map_option (\<lambda>d. d - 1) (map_of (in_degree st) x) else map_of (in_degree st) x)"
      using nv(1) d by (cases "x = v") (simp_all add: m)
  qed
  have "fold relax (v # vs) st = fold relax vs ?st" by simp
  with IH heap ord deg show ?case by (simp only: simp_thms)
qed

lemma relax_keys: "distinct (map fst (in_degree st)) \<Longrightarrow> distinct (map fst (in_degree (fold relax vs st)))"
proof (induction vs arbitrary: st)
  case (Cons v vs)
  have "distinct (map fst (in_degree (relax v st)))"
    using Cons.prems by (simp add: relax_def distinct_dset split: option.split)
  with Cons.IH show ?case by simp
qed simp

lemma preds_target: "wf_dag g \<Longrightarrow> u \<in> preds g v \<Longrightarrow> v \<in> nodes g"
  by (auto simp: wf_dag_def preds_def)

lemma ready_after:
  assumes "wf_dag g" "u \<in> ready g o1" "\<forall>v\<in>set o1. preds g v \<subseteq> set o1"
  shows "ready g (o1 @ [u]) = (ready g o1 - {u}) \<union> {v. u \<in> preds g v \<and> card (preds g v - set o1) = 1}"
proof -
  have u: "u \<notin> set o1" "preds g u \<subseteq> set o1" using assms(2) by (simp_all add: ready_def)
  have one: "card (preds g v - set o1) = 1 \<longleftrightarrow> preds g v \<subseteq> insert u (set o1)" if "u \<in> preds g v" for v
  proof
    assume "card (preds g v - set o1) = 1"
    then obtain x where x: "preds g v - set o1 = {x}" by (rule card_1_singletonE)
    have "u \<in> preds g v - set o1" using that u(1) by simp
    then have "u = x" unfolding x by simp
    with x have "preds g v - set o1 \<subseteq> {u}" by simp
    then show "preds g v \<subseteq> insert u (set o1)" by (simp add: Diff_subset_conv)
  next
    assume "preds g v \<subseteq> insert u (set o1)"
    with that u(1) have "preds g v - set o1 = {u}" by blast
    then show "card (preds g v - set o1) = 1" by simp
  qed
  show ?thesis
  proof (rule set_eqI)
    fix v
    show "v \<in> ready g (o1 @ [u]) \<longleftrightarrow> v \<in> (ready g o1 - {u}) \<union> {v. u \<in> preds g v \<and> card (preds g v - set o1) = 1}"
    proof (cases "u \<in> preds g v")
      case True
      then have "v \<notin> insert u (set o1)" "v \<in> nodes g" using u assms(3) preds_target [OF assms(1)] by auto
      with True one [OF True] u(1) show ?thesis by (auto simp: ready_def)
    next
      case False
      then have "preds g v \<subseteq> insert u (set o1) \<longleftrightarrow> preds g v \<subseteq> set o1" by auto
      with False show ?thesis by (auto simp: ready_def)
    qed
  qed
qed

lemma topo_step_inv:
  assumes "wf_dag g" "topo_inv g st" "topo_step g st = Inl st'"
  shows "topo_inv g st' \<and> length (order st') = Suc (length (order st)) \<and> length (order st) < card (nodes g)"
proof -
  let ?o = "order st"
  note inv = assms(2) [unfolded topo_inv_def]
  from assms(3) obtain u h where p: "pq_pop (heap st) = Some (u, h)"
    and st': "st' = fold relax (edges_of g u) (st\<lparr>heap := h, order := ?o @ [u]\<rparr>)"
    by (auto simp: topo_step_def split: option.splits if_splits)
  have hp: "heap st = u # h" using p by (simp add: pq_pop_Some)
  have u: "u \<in> ready g ?o" "u \<notin> set h" "distinct h" using inv hp by auto
  have pqh: "pq_ok name_key h" using key_queue.ok_pop [OF _ p] inv by blast
  have least: "u = Min (ready g ?o)"
  proof (rule Min_eqI [symmetric])
    show "finite (ready g ?o)" by (simp add: ready_def)
    show "u \<le> y" if "y \<in> ready g ?o" for y
    proof -
      have "y \<in># mset (heap st)" using that inv by simp
      with key_queue.pop_minimal [OF _ p, of name_key y] inv show ?thesis by (simp add: name_key_def)
    qed
  qed (rule u(1))
  have un: "u \<in> nodes g" "u \<notin> set ?o" "preds g u \<subseteq> set ?o" using u(1) by (simp_all add: ready_def)
  let ?s1 = "st\<lparr>heap := h, order := ?o @ [u]\<rparr>" and ?vs = "edges_of g u"
  have vs: "v \<in> set ?vs \<longleftrightarrow> u \<in> preds g v" for v by (rule edges_preds [OF assms(1)])
  have "v \<notin> set h" if "v \<in> set ?vs" for v
  proof
    assume "v \<in> set h"
    then have "v \<in> ready g ?o" using inv hp by auto
    with that vs un(2) show False by (auto simp: ready_def)
  qed
  moreover have "map_of (in_degree ?s1) v \<noteq> None" if "v \<in> set ?vs" for v
    using inv that vs preds_target [OF assms(1), of u v] by simp
  ultimately have r: "pq_ok name_key (heap st') \<and> distinct (heap st')
    \<and> set (heap st') = set h \<union> {v \<in> set ?vs. map_of (in_degree st) v = Some 1}
    \<and> map_of (in_degree st')
        = (\<lambda>v. if v \<in> set ?vs then map_option (\<lambda>d. d - 1) (map_of (in_degree st) v) else map_of (in_degree st) v)
    \<and> order st' = ?o @ [u]"
    using relax_fold [OF edges_distinct [OF assms(1)], of ?s1 u] pqh u(3) unfolding st' by (simp cong: if_cong)
  have o': "order st' = ?o @ [u]" using r by blast
  have degs: "map_of (in_degree st) v = Some (int (card (preds g v - set ?o)))" if "v \<in> nodes g" for v
    using inv that by simp
  have "{v \<in> set ?vs. map_of (in_degree st) v = Some 1} = {v. u \<in> preds g v \<and> card (preds g v - set ?o) = 1}"
    using vs degs preds_target [OF assms(1)] by fastforce
  moreover have "set h = ready g ?o - {u}" using inv hp u(2) by auto
  ultimately have heap: "set (heap st') = ready g (order st')"
    using r ready_after [OF assms(1) u(1)] inv by simp
  have deg: "map_of (in_degree st') = (\<lambda>v. if v \<in> nodes g then Some (int (card (preds g v - set (order st')))) else None)"
  proof (rule ext)
    fix v
    show "map_of (in_degree st') v = (if v \<in> nodes g then Some (int (card (preds g v - set (order st')))) else None)"
    proof (cases "u \<in> preds g v")
      case True
      have "preds g v - set (order st') = (preds g v - set ?o) - {u}" unfolding o' by auto
      moreover have "u \<in> preds g v - set ?o" using True un(2) by simp
      then have "Suc (card ((preds g v - set ?o) - {u})) = card (preds g v - set ?o)"
        by (intro card_Suc_Diff1 finite_Diff finite_preds)
      ultimately have "int (card (preds g v - set (order st'))) = int (card (preds g v - set ?o)) - 1" by simp
      with True r vs [of v] degs preds_target [OF assms(1) True] show ?thesis by simp
    next
      case False
      then have "preds g v - set (order st') = preds g v - set ?o" unfolding o' by auto
      with False r vs [of v] inv show ?thesis by simp
    qed
  qed
  have mins: "\<forall>i<length (order st'). ready g (take i (order st')) \<noteq> {}
          \<and> order st' ! i = Min (ready g (take i (order st')))"
  proof (intro allI impI)
    fix i assume i: "i < length (order st')"
    show "ready g (take i (order st')) \<noteq> {} \<and> order st' ! i = Min (ready g (take i (order st')))"
    proof (cases "i < length ?o")
      case True
      with inv show ?thesis by (simp add: o' nth_append)
    next
      case False
      with i have "i = length ?o" using o' by simp
      with least u(1) show ?thesis by (auto simp: o')
    qed
  qed
  have old: "\<forall>v\<in>set ?o. preds g v \<subseteq> set ?o" using inv by blast
  have closed: "\<forall>v\<in>set (order st'). preds g v \<subseteq> set (order st')" unfolding o' using old un(3) by auto
  have "set (?o @ [u]) \<subseteq> nodes g" "distinct (?o @ [u])" using inv un by auto
  then have "length (?o @ [u]) \<le> card (nodes g)"
    using card_mono [OF finite_nodes] by (metis distinct_card)
  moreover have "distinct (map fst (in_degree st'))" unfolding st' by (rule relax_keys) (use inv in simp)
  ultimately show ?thesis using r heap deg mins closed \<open>set (?o @ [u]) \<subseteq> nodes g\<close> \<open>distinct (?o @ [u])\<close>
    by (simp add: topo_inv_def)
qed

interpretation topo_loop: bounded_loop "topo_step g" "\<lambda>st. wf_dag g \<and> topo_inv g st"
    "\<lambda>st. card (nodes g) - length (order st)" for g
proof
  fix st st'
  assume "wf_dag g \<and> topo_inv g st" "topo_step g st = Inl st'"
  then have "topo_inv g st' \<and> length (order st') = Suc (length (order st)) \<and> length (order st) < card (nodes g)"
    and "wf_dag g" using topo_step_inv by blast+
  then show "wf_dag g \<and> topo_inv g st'" "card (nodes g) - length (order st') < card (nodes g) - length (order st)"
    by auto
qed

lemma init_degree_eq:
  assumes "wf_dag g"
  shows "map_of (init_degree g) = (\<lambda>v. if v \<in> nodes g then Some (int (card (preds g v))) else None)"
proof
  fix v
  let ?into = "filter (\<lambda>(u, ds). v \<in> set ds) g"
  have d: "distinct (map fst g)" using assms by (simp add: wf_dag_def)
  have "preds g v = fst ` set ?into" by (force simp: preds_def)
  then have "card (preds g v) = card (set (map fst ?into))" by simp
  also have "\<dots> = length ?into" using distinct_card [of "map fst ?into"] distinct_map_filter [OF d] by simp
  finally have c: "length ?into = card (preds g v)" by simp
  have "map_of (map (\<lambda>(n, _). (n, f n)) xs) v = (if v \<in> fst ` set xs then Some (f v) else None)"
    for f :: "string \<Rightarrow> int" and xs :: dag by (induction xs) auto
  from this [of "\<lambda>n. int (length (filter (\<lambda>(u, ds). n \<in> set ds) g))" g]
  show "map_of (init_degree g) v = (if v \<in> nodes g then Some (int (card (preds g v))) else None)"
    unfolding init_degree_def nodes_def c by simp
qed

lemma init_topo_inv:
  assumes "wf_dag g"
  shows "topo_inv g (init_topo g)"
proof -
  define zero where "zero = map fst (filter (\<lambda>(n, d). d = 0) (init_degree g))"
  have keys: "map fst (init_degree g) = map fst g" by (simp add: init_degree_def case_prod_unfold comp_def)
  have dk: "distinct (map fst (init_degree g))" using assms unfolding keys by (simp add: wf_dag_def)
  then have dz: "distinct zero" unfolding zero_def by (rule distinct_map_filter)
  have heap: "heap (init_topo g) = fold (pq_push name_key) zero []"
    by (simp add: init_topo_def Let_def zero_def)
  have m: "mset (heap (init_topo g)) = mset zero" unfolding heap key_queue.elems_fold by simp
  have "v \<in> set zero \<longleftrightarrow> map_of (init_degree g) v = Some 0" for v
    unfolding zero_def map_of_eq_Some_iff [OF dk] by force
  also have "\<dots> v \<longleftrightarrow> v \<in> ready g []" for v
    by (auto simp: init_degree_eq [OF assms] ready_def)
  finally have "set zero = ready g []" by blast
  moreover have "pq_ok name_key (heap (init_topo g))"
    unfolding heap by (rule key_queue.ok_fold) (rule key_queue.ok_empty)
  moreover have "order (init_topo g) = []" "in_degree (init_topo g) = init_degree g"
    by (simp_all add: init_topo_def Let_def)
  moreover have "distinct (heap (init_topo g))" "set (heap (init_topo g)) = set zero"
    using mset_eq_imp_distinct_iff [OF m] dz mset_eq_setD [OF m] by simp_all
  ultimately show ?thesis using dk by (simp add: topo_inv_def init_degree_eq [OF assms] cong: if_cong)
qed

lemma toposort_exit:
  assumes "wf_dag g"
  obtains st where "topo_inv g st" "heap st = []" "topo_step g st = Inr (toposort g)"
proof -
  have i: "wf_dag g \<and> topo_inv g (init_topo g)" using assms init_topo_inv by blast
  have "card (nodes g) \<le> length g" using card_length [of "map fst g"] by (simp add: nodes_def)
  then have "card (nodes g) - length (order (init_topo g)) < length g + 2" by linarith
  from topo_loop.returns [OF i this] obtain r where
    r: "run_loop (topo_step g) (length g + 2) (init_topo g) = Some r" by blast
  then have t: "toposort g = r" by (simp add: toposort_def)
  from topo_loop.exits [OF i r] obtain st where "topo_inv g st" "topo_step g st = Inr r" by blast
  moreover from this have "heap st = []" by (cases "heap st") (simp_all add: topo_step_def)
  ultimately show thesis using that t by blast
qed

lemma inv_preds:
  assumes "topo_inv g st" "i < length (order st)"
  shows "preds g (order st ! i) \<subseteq> set (take i (order st))"
proof -
  have "ready g (take i (order st)) \<noteq> {}" "order st ! i = Min (ready g (take i (order st)))"
    using assms unfolding topo_inv_def by blast+
  moreover have "finite (ready g (take i (order st)))" by (simp add: ready_def)
  ultimately have "order st ! i \<in> ready g (take i (order st))" using Min_in by metis
  then show ?thesis by (simp add: ready_def)
qed

lemma topo_done:
  assumes "wf_dag g" "topo_inv g st" "heap st = []"
  shows "length (order st) < length g \<longleftrightarrow> set (order st) \<noteq> nodes g"
    and "v \<in> nodes g - set (order st) \<Longrightarrow> \<exists>u\<in>nodes g - set (order st). u \<in> preds g v"
    and "set (map fst (filter (\<lambda>(n, d). d > 0) (in_degree st))) \<subseteq> nodes g"
proof -
  have o': "distinct (order st)" "set (order st) \<subseteq> nodes g" "ready g (order st) = {}"
    using assms(2,3) by (auto simp: topo_inv_def)
  have len: "length g = card (nodes g)"
    using assms(1) distinct_card [of "map fst g"] by (simp add: wf_dag_def nodes_def)
  have "length (order st) = card (set (order st))" using o'(1) distinct_card by force
  then show "length (order st) < length g \<longleftrightarrow> set (order st) \<noteq> nodes g"
    using o'(2) len psubset_card_mono [OF finite_nodes, of "set (order st)" g] by (cases "set (order st) = nodes g") auto
  show "\<exists>u\<in>nodes g - set (order st). u \<in> preds g v" if "v \<in> nodes g - set (order st)"
    using that o'(3) preds_nodes [of g v] unfolding ready_def by blast
  have deg: "dom (map_of (in_degree st)) = nodes g" using assms(2) by (auto simp: topo_inv_def dom_def)
  then have "fst ` set (in_degree st) = nodes g" by (simp add: dom_map_of_conv_image_fst)
  then show "set (map fst (filter (\<lambda>(n, d). d > 0) (in_degree st))) \<subseteq> nodes g" by auto
qed

lemma toposort_Inr:
  assumes "wf_dag g" "toposort g = Inr o1"
  shows "distinct o1 \<and> set o1 = nodes g
     \<and> (\<forall>i<length o1. o1 ! i = Min (ready g (take i o1)) \<and> preds g (o1 ! i) \<subseteq> set (take i o1))"
proof -
  from toposort_exit [OF assms(1)] obtain st where st: "topo_inv g st" "heap st = []"
    "topo_step g st = Inr (toposort g)" .
  with assms(2) have "\<not> length (order st) < length g" "order st = o1"
    by (auto simp: topo_step_def split: if_splits)
  with topo_done(1) [OF assms(1) st(1,2)] have "set o1 = nodes g" by simp
  with st(1) inv_preds [OF st(1)] \<open>order st = o1\<close> show ?thesis by (auto simp: topo_inv_def)
qed

lemma toposort_Inl:
  assumes "wf_dag g" "toposort g = Inl ls"
  shows "ls \<noteq> [] \<and> set ls \<subseteq> nodes g \<and> (\<forall>v\<in>set ls. \<exists>u\<in>set ls. u \<in> preds g v)"
proof -
  from toposort_exit [OF assms(1)] obtain st where st: "topo_inv g st" "heap st = []"
    "topo_step g st = Inr (toposort g)" .
  define left where "left = filter (\<lambda>(n, d). d > 0) (in_degree st)"
  from st(2,3) assms(2) have l: "length (order st) < length g" "ls = sort (map fst left)"
    by (auto simp: topo_step_def left_def split: if_splits)
  have deg: "map_of (in_degree st) = (\<lambda>v. if v \<in> nodes g then Some (int (card (preds g v - set (order st)))) else None)"
    and closed: "\<forall>v\<in>set (order st). preds g v \<subseteq> set (order st)" and sub: "set (order st) \<subseteq> nodes g"
    using st(1) by (simp_all add: topo_inv_def)
  have "set (order st) \<noteq> nodes g" using topo_done(1) [OF assms(1) st(1,2)] l(1) by blast
  with sub obtain v0 where v0: "v0 \<in> nodes g - set (order st)" by blast
  have mem: "v \<in> set ls" if "v \<in> nodes g - set (order st)" for v
  proof -
    from topo_done(2) [OF assms(1) st(1,2) that] obtain u where "u \<in> preds g v - set (order st)" by blast
    then have "card (preds g v - set (order st)) > 0" by (auto simp: card_gt_0_iff)
    moreover have "map_of (in_degree st) v = Some (int (card (preds g v - set (order st))))"
      using deg that by simp
    ultimately have "(v, int (card (preds g v - set (order st)))) \<in> set left"
      unfolding left_def by (auto dest: map_of_SomeD)
    then show ?thesis unfolding l(2) by force
  qed
  have subl: "set ls \<subseteq> nodes g" using topo_done(3) [OF assms(1) st(1,2)] unfolding l(2) left_def by simp
  have "\<exists>u\<in>set ls. u \<in> preds g v" if "v \<in> set ls" for v
  proof (cases "v \<in> set (order st)")
    case False
    with that subl have "v \<in> nodes g - set (order st)" by blast
    from topo_done(2) [OF assms(1) st(1,2) this] mem show ?thesis by blast
  next
    case True
    then have "preds g v - set (order st) = {}" using closed by blast
    then have z: "map_of (in_degree st) v = Some 0" using deg True sub by auto
    from that obtain d where d: "(v, d) \<in> set (in_degree st)" "d > 0" unfolding l(2) left_def by auto
    have "distinct (map fst (in_degree st))" using st(1) by (simp add: topo_inv_def)
    with z d show ?thesis by (simp add: map_of_eq_Some_iff)
  qed
  with mem [OF v0] subl show ?thesis by (metis empty_iff empty_set)
qed

subsection \<open>The graph of a set of specs\<close>

lemma nodes_build_dag: "nodes (build_dag specs) = short_name ` set specs"
  by (force simp: nodes_def build_dag_def)

lemma wf_build_dag: "wf_dag (build_dag specs)"
proof -
  have "map fst (build_dag specs) = remdups (map short_name specs)"
    by (simp add: build_dag_def comp_def)
  moreover have "distinct ds \<and> set ds \<subseteq> short_name ` set specs" if "(u, ds) \<in> set (build_dag specs)" for u ds
    using that by (auto simp: build_dag_def dependents_def)
  ultimately show ?thesis unfolding wf_dag_def nodes_build_dag by auto
qed

lemma preds_build_dag:
  "s \<in> set specs \<Longrightarrow> d \<in> set (requires s) \<Longrightarrow> normalize_plugin_name d \<in> short_name ` set specs \<Longrightarrow>
     normalize_plugin_name d \<in> preds (build_dag specs) (short_name s)"
proof -
  assume a: "s \<in> set specs" "d \<in> set (requires s)" "normalize_plugin_name d \<in> short_name ` set specs"
  let ?u = "normalize_plugin_name d"
  have "(?u, dependents specs ?u) \<in> set (build_dag specs)" using a(3) by (simp add: build_dag_def)
  moreover have "short_name s \<in> set (dependents specs ?u)" using a(1,2) by (simp add: dependents_def)
  ultimately show ?thesis unfolding preds_def by blast
qed

lemma add_spec_account:
  "mset (map package (fst (add_spec p name m r))) + mset (map fst (snd (add_spec p name m r)))
     = add_mset p (mset (map package (fst r)) + mset (map fst (snd r)))"
  by (simp add: add_spec_def split: option.split)

lemma add_spec_names:
  "map short_name (fst (add_spec p name m r)) = map short_name (fst r)
   \<or> map short_name (fst (add_spec p name m r)) = normalize_plugin_name name # map short_name (fst r)"
  by (simp add: add_spec_def short_name_def split: option.split)

lemma build_specs_names:
  "distinct (map short_name (fst (build_specs_from load ps pkgs names)))
   \<and> short_name ` set (fst (build_specs_from load ps pkgs names)) \<inter> names = {}"
proof (induction load ps pkgs names rule: build_specs_from.induct)
  case (2 load p ps pkgs names)
  show ?case
  proof (cases "p \<in> pkgs")
    case True
    with "2.IH"(1) show ?thesis by simp
  next
    case new: False
    show ?thesis
    proof (cases "load p")
      case (Inl r)
      with "2.IH"(2) [OF new] new show ?thesis by simp
    next
      case (Inr m)
      define name where "name = (case mf_name m of None \<Rightarrow> normalize_plugin_name p | Some n \<Rightarrow> n)"
      note IH = "2.IH"(3) [OF new Inr name_def refl] "2.IH"(4) [OF new Inr name_def refl]
      show ?thesis
      proof (cases "normalize_plugin_name name \<in> names")
        case True
        with IH(1) new Inr show ?thesis by (simp add: Let_def name_def)
      next
        case False
        let ?r = "build_specs_from load ps (insert p pkgs) (insert (normalize_plugin_name name) names)"
        have e: "build_specs_from load (p # ps) pkgs names = add_spec p name m ?r"
          using new Inr False by (simp add: Let_def name_def)
        have r: "distinct (map short_name (fst ?r))"
          "short_name ` set (fst ?r) \<inter> insert (normalize_plugin_name name) names = {}"
          using IH(2) [OF False] by simp_all
        have s: "short_name ` set (fst (add_spec p name m ?r)) = set (map short_name (fst (add_spec p name m ?r)))"
          by simp
        from add_spec_names [of p name m ?r] show ?thesis
        proof
          assume n: "map short_name (fst (add_spec p name m ?r)) = map short_name (fst ?r)"
          show ?thesis unfolding e s unfolding n using r by auto
        next
          assume n: "map short_name (fst (add_spec p name m ?r)) = normalize_plugin_name name # map short_name (fst ?r)"
          show ?thesis unfolding e s unfolding n using r False by auto
        qed
      qed
    qed
  qed
qed simp

text \<open>Every package entry is accounted for: as a spec or as a skip.\<close>

lemma build_specs_packages:
  "mset (map package (fst (build_specs_from load ps pkgs names)))
     + mset (map fst (snd (build_specs_from load ps pkgs names))) = mset ps"
  by (induction load ps pkgs names rule: build_specs_from.induct) (auto simp: Let_def add_spec_account [simplified] split: sum.split)

lemma mset_filter_parts:
  "mset (map f (filter p xs)) + mset (map f (filter (\<lambda>x. \<not> p x) xs)) = mset (map f xs)"
  by (induction xs) simp_all

lemma split_specs_facts:
  assumes "split_specs keep reason specs = (kept, skipped)"
  shows "kept = filter keep specs" "mset (map package kept) + mset (map fst skipped) = mset (map package specs)"
proof -
  have sk: "map fst skipped = map package (filter (\<lambda>s. \<not> keep s) specs)"
    using assms by (auto simp: split_specs_def comp_def)
  show k: "kept = filter keep specs" using assms by (simp add: split_specs_def)
  show "mset (map package kept) + mset (map fst skipped) = mset (map package specs)"
    unfolding k sk by (rule mset_filter_parts)
qed

lemma filter_missing_facts:
  "set (fst (filter_missing_dependencies specs)) \<subseteq> set specs
   \<and> (\<forall>s\<in>set (fst (filter_missing_dependencies specs)). missing_deps (fst (filter_missing_dependencies specs)) s = [])
   \<and> mset (map package (fst (filter_missing_dependencies specs)))
       + mset (map fst (snd (filter_missing_dependencies specs))) = mset (map package specs)"
proof (induction specs rule: filter_missing_dependencies.induct)
  case (1 specs)
  obtain kept skipped where s: "split_specs (\<lambda>s. missing_deps specs s = [])
      (\<lambda>s. ''Missing dependencies: '' @ join_with '', '' (missing_deps specs s)) specs = (kept, skipped)"
    by (metis surj_pair)
  note f = split_specs_facts [OF s]
  show ?case
  proof (cases "skipped = []")
    case True
    then have "filter_missing_dependencies specs = (specs, [])"
      by (subst filter_missing_dependencies.simps) (simp only: s Let_def prod.case simp_thms if_True)
    moreover have "filter (\<lambda>s. missing_deps specs s \<noteq> []) specs = []" using s True by (auto simp: split_specs_def)
    then have "\<forall>s\<in>set specs. missing_deps specs s = []" by (simp add: filter_empty_conv)
    ultimately show ?thesis by simp
  next
    case False
    then have e: "filter_missing_dependencies specs = map_prod id (append skipped) (filter_missing_dependencies kept)"
      by (subst filter_missing_dependencies.simps) (simp only: s Let_def prod.case if_False)
    have k: "set kept \<subseteq> set specs" using f(1) by simp
    note IH = "1.IH" [OF s [symmetric] refl False]
    obtain r sk where fm: "filter_missing_dependencies kept = (r, sk)" by (metis surj_pair)
    have r: "set r \<subseteq> set kept" "\<forall>s\<in>set r. missing_deps r s = []"
      "mset (map package r) + mset (map fst sk) = mset (map package kept)" using IH unfolding fm by simp_all
    have "set r \<subseteq> set specs" using r(1) k by (rule order_trans)
    moreover have "mset (map package r) + mset (map fst (skipped @ sk)) = mset (map package specs)"
      using r(3) f(2) by (simp del: mset_map add: ac_simps) (metis add.assoc add.commute)
    ultimately show ?thesis using r(2) unfolding e fm by simp
  qed
qed

lemma find_spec_distinct:
  assumes "distinct (map short_name specs)" "s \<in> set specs"
  shows "find_spec specs (short_name s) = Some s"
proof -
  have "map fst (rev (map (\<lambda>s. (short_name s, s)) specs)) = rev (map short_name specs)"
    by (simp add: rev_map comp_def)
  then have "distinct (map fst (rev (map (\<lambda>s. (short_name s, s)) specs)))" using assms(1) by simp
  with assms(2) show ?thesis by (simp add: find_spec_def)
qed

lemma reordered_specs:
  assumes "distinct (map short_name specs)" "distinct shorts" "set shorts = short_name ` set specs"
  shows "mset (map (\<lambda>n. the (find_spec specs n)) shorts) = mset specs"
    and "map short_name (map (\<lambda>n. the (find_spec specs n)) shorts) = shorts"
proof -
  let ?o = "map (\<lambda>n. the (find_spec specs n)) shorts"
  have found: "short_name (the (find_spec specs n)) = n \<and> the (find_spec specs n) \<in> set specs" if "n \<in> set shorts" for n
    using that assms(1,3) find_spec_distinct by auto
  then show names: "map short_name ?o = shorts" by (simp add: map_idI)
  then have "distinct ?o" using assms(2) distinct_map by metis
  moreover have "set ?o = set specs"
  proof
    show "set ?o \<subseteq> set specs" using found by auto
    show "set specs \<subseteq> set ?o"
    proof
      fix s assume s: "s \<in> set specs"
      then have "s = the (find_spec specs (short_name s))" "short_name s \<in> set shorts"
        using find_spec_distinct [OF assms(1)] assms(3) by simp_all
      then show "s \<in> set ?o" by auto
    qed
  qed
  moreover have "distinct specs" using assms(1) by (simp add: distinct_map)
  ultimately show "mset ?o = mset specs" using set_eq_iff_mset_eq_distinct by blast
qed

lemma filter_excluded_facts:
  assumes "filter_excluded specs ex = (kept, skipped)"
  shows "set kept = {s \<in> set specs. short_name s \<notin> normalize_plugin_name ` set ex}"
    and "mset (map package kept) + mset (map fst skipped) = mset (map package specs)"
  using split_specs_facts [OF assms [unfolded filter_excluded_def]] by auto

lemma filter_by_tier_facts:
  assumes "filter_by_tier specs t = (kept, skipped)"
  shows "set kept = {s \<in> set specs. tier s \<le> t}"
    and "mset (map package kept) + mset (map fst skipped) = mset (map package specs)"
  using split_specs_facts [OF assms [unfolded filter_by_tier_def]] by auto

lemma roots_facts:
  assumes "(case roots of None \<Rightarrow> (specs, []) | Some rs \<Rightarrow> reachable_from_roots specs rs) = (kept, skipped)"
  shows "set kept \<subseteq> set specs"
    and "mset (map package kept) + mset (map fst skipped) = mset (map package specs)"
proof -
  have "set kept \<subseteq> set specs \<and> mset (map package kept) + mset (map fst skipped) = mset (map package specs)"
  proof (cases roots)
    case None
    with assms show ?thesis by simp
  next
    case (Some rs)
    with assms have "split_specs (\<lambda>s. short_name s \<in> reach_loop specs rs {})
        (\<lambda>s. ''Not reachable from loading roots'') specs = (kept, skipped)"
      by (simp add: reachable_from_roots_def Let_def)
    from split_specs_facts [OF this] show ?thesis by simp
  qed
  then show "set kept \<subseteq> set specs"
    "mset (map package kept) + mset (map fst skipped) = mset (map package specs)" by blast+
qed

lemma filter_distinct_names:
  assumes "distinct (map short_name specs)" "split_specs keep reason specs = (kept, skipped)"
  shows "distinct (map short_name kept)"
  using assms distinct_map_filter unfolding split_specs_facts(1) [OF assms(2)] by blast

lemma filter_missing_distinct:
  "distinct (map short_name specs) \<Longrightarrow> distinct (map short_name (fst (filter_missing_dependencies specs)))"
proof (induction specs rule: filter_missing_dependencies.induct)
  case (1 specs)
  obtain kept skipped where s: "split_specs (\<lambda>s. missing_deps specs s = [])
      (\<lambda>s. ''Missing dependencies: '' @ join_with '', '' (missing_deps specs s)) specs = (kept, skipped)"
    by (metis surj_pair)
  have d: "distinct (map short_name kept)" by (rule filter_distinct_names [OF "1.prems" s])
  show ?case
  proof (cases "skipped = []")
    case True
    then have "filter_missing_dependencies specs = (specs, [])"
      by (subst filter_missing_dependencies.simps) (simp only: s Let_def prod.case simp_thms if_True)
    with "1.prems" show ?thesis by simp
  next
    case False
    then have e: "filter_missing_dependencies specs = map_prod id (append skipped) (filter_missing_dependencies kept)"
      by (subst filter_missing_dependencies.simps) (simp only: s Let_def prod.case if_False)
    show ?thesis unfolding e using "1.IH" [OF s [symmetric] refl False d] by simp
  qed
qed

text \<open>Each stage splits the packages of the one before.\<close>

lemma stages_account:
  fixes p :: "string multiset"
  assumes "s1 + k1 = p" "s2 + k2 = s1" "s3 + k3 = s2" "s4 + k4 = s3" "s5 + k5 = s4"
  shows "s5 + (k1 + (k2 + (k3 + (k4 + k5)))) = p"
  unfolding assms(1) [symmetric] assms(2) [symmetric] assms(3) [symmetric] assms(4) [symmetric]
    assms(5) [symmetric] by (simp add: ac_simps)

lemma resolve_stages:
  assumes "resolve load packages system_tier roots excluded = Inr (ord, skips)"
  obtains s5 k where "distinct (map short_name s5)" "\<forall>s\<in>set s5. missing_deps s5 s = []"
    "\<forall>s\<in>set s5. tier s \<le> system_tier \<and> short_name s \<notin> normalize_plugin_name ` set excluded"
    "mset (map package s5) + mset (map fst skips) = mset packages"
    "toposort (build_dag s5) = Inr k" "ord = map (\<lambda>n. the (find_spec s5 n)) k"
proof -
  obtain s1 k1 where 1: "build_specs load packages = (s1, k1)" by (metis surj_pair)
  obtain s2 k2 where 2: "filter_excluded s1 excluded = (s2, k2)" by (metis surj_pair)
  obtain s3 k3 where 3: "filter_by_tier s2 system_tier = (s3, k3)" by (metis surj_pair)
  obtain s4 k4 where 4: "(case roots of None \<Rightarrow> (s3, []) | Some rs \<Rightarrow> reachable_from_roots s3 rs) = (s4, k4)"
    by (metis surj_pair)
  obtain s5 k5 where 5: "filter_missing_dependencies s4 = (s5, k5)" by (metis surj_pair)
  have r: "rbind (toposort (build_dag s5)) (\<lambda>shorts.
        Inr (map (\<lambda>n. the (find_spec s5 n)) shorts, k1 @ k2 @ k3 @ k4 @ k5)) = Inr (ord, skips)"
    using assms unfolding resolve_def 1 2 3 4 5 by (simp only: Let_def prod.case 2 3 4 5)
  then obtain k where k: "toposort (build_dag s5) = Inr k" "ord = map (\<lambda>n. the (find_spec s5 n)) k"
    "skips = k1 @ k2 @ k3 @ k4 @ k5" by (auto simp: result_simps)
  have p: "mset (map package s1) + mset (map fst k1) = mset packages"
    using build_specs_packages [of load packages "{}" "{}"] 1 by (simp add: build_specs_def)
  have d1: "distinct (map short_name s1)"
    using build_specs_names [of load packages "{}" "{}"] 1 by (simp add: build_specs_def)
  note f2 = filter_excluded_facts [OF 2] and f3 = filter_by_tier_facts [OF 3] and f4 = roots_facts [OF 4]
  have d2: "distinct (map short_name s2)" by (rule filter_distinct_names [OF d1 2 [unfolded filter_excluded_def]])
  have d3: "distinct (map short_name s3)" by (rule filter_distinct_names [OF d2 3 [unfolded filter_by_tier_def]])
  have d4: "distinct (map short_name s4)"
  proof (cases roots)
    case None
    with 4 d3 show ?thesis by simp
  next
    case (Some rs)
    with 4 have "split_specs (\<lambda>s. short_name s \<in> reach_loop s3 rs {})
        (\<lambda>s. ''Not reachable from loading roots'') s3 = (s4, k4)" by (simp add: reachable_from_roots_def Let_def)
    then show ?thesis by (rule filter_distinct_names [OF d3])
  qed
  have f5: "set s5 \<subseteq> set s4" "\<forall>s\<in>set s5. missing_deps s5 s = []"
    "mset (map package s5) + mset (map fst k5) = mset (map package s4)"
    using filter_missing_facts [of s4] unfolding 5 by simp_all
  have d5: "distinct (map short_name s5)" using filter_missing_distinct [OF d4] unfolding 5 by simp
  have "mset (map fst skips)
      = mset (map fst k1) + (mset (map fst k2) + (mset (map fst k3) + (mset (map fst k4) + mset (map fst k5))))"
    unfolding k(3) by simp
  then have acc: "mset (map package s5) + mset (map fst skips) = mset packages"
    by (rule ssubst) (rule stages_account [OF p f2(2) f3(2) f4(2) f5(3)])
  have "\<forall>s\<in>set s5. tier s \<le> system_tier \<and> short_name s \<notin> normalize_plugin_name ` set excluded"
    using f5(1) f4(1) f3(1) f2(1) by blast
  then show thesis using that [OF d5 f5(2) _ acc k(1,2)] by blast
qed

subsection \<open>Properties\<close>

lemma least_order_unique:
  assumes "\<forall>i<length a. a ! i = Min (ready g (take i a))" "\<forall>i<length b. b ! i = Min (ready h (take i b))"
    and "nodes g = nodes h" "preds g = preds h" "length a = length b"
  shows "a = b"
proof (rule nth_equalityI)
  have r: "ready g = ready h" using assms(3,4) by (simp add: ready_def fun_eq_iff)
  have "take i a = take i b" if "i \<le> length a" for i
    using that
  proof (induction i)
    case (Suc i)
    then have "a ! i = b ! i" using assms(1,2,5) r by simp
    with Suc show ?case using assms(5) by (simp add: take_Suc_conv_app_nth)
  qed simp
  then show "a ! i = b ! i" if "i < length a" for i using that assms(5) by (metis le_refl take_all)
qed (rule assms(5))

text \<open>
  The topological order of the plugins lists every name once, each after all it depends on, and
  at every position it takes the least name whose dependencies have all been listed; so two graphs
  with the same names and edges, whatever the iteration order of their sets, yield the same order.
\<close>

theorem toposort_takes_least:
  assumes "wf_dag g" "toposort g = Inr o1"
  shows "distinct o1 \<and> set o1 = nodes g
    \<and> (\<forall>i<length o1. o1 ! i = Min (ready g (take i o1)) \<and> preds g (o1 ! i) \<subseteq> set (take i o1))
    \<and> (\<forall>h o2. wf_dag h \<longrightarrow> nodes h = nodes g \<longrightarrow> preds h = preds g \<longrightarrow> toposort h = Inr o2 \<longrightarrow> o2 = o1)"
proof -
  note f = toposort_Inr [OF assms]
  have "o2 = o1" if h: "wf_dag h" "nodes h = nodes g" "preds h = preds g" "toposort h = Inr o2" for h o2
  proof -
    note f2 = toposort_Inr [OF h(1,4)]
    have "length o2 = length o1" using f f2 h(2) distinct_card by metis
    then show "o2 = o1" using f f2 h(2,3) by (intro least_order_unique [of o2 h o1 g]) simp_all
  qed
  with f show ?thesis by blast
qed

definition plugin_dag :: dag where
  "plugin_dag = [(''search'', [''world'']), (''memory'', [''world'', ''search'']), (''world'', []), (''extra'', [])]"

lemma plugin_dag_wf: "wf_dag plugin_dag" "toposort plugin_dag = Inr [''extra'', ''memory'', ''search'', ''world'']"
  by (code_simp)+

theorem toposort_takes_least_witness:
  "set [''extra'', ''memory'', ''search'', ''world''] = nodes plugin_dag
   \<and> [''extra'', ''memory'', ''search'', ''world''] ! 2 = Min (ready plugin_dag [''extra'', ''memory''])"
proof -
  note f = toposort_takes_least [OF plugin_dag_wf]
  then have "\<forall>i<4. [''extra'', ''memory'', ''search'', ''world''] ! i
      = Min (ready plugin_dag (take i [''extra'', ''memory'', ''search'', ''world'']))" by simp
  from spec [OF this, of 2] have "[''extra'', ''memory'', ''search'', ''world''] ! 2 = Min (ready plugin_dag [''extra'', ''memory''])"
    by simp
  with f show ?thesis by blast
qed

text \<open>
  C28: The topological sort succeeds exactly when no nonempty set of plugins is closed under a
  dependency inside it; when it fails, the plugins that the error names form such a set, so each of
  them waits for another of them and none could ever be loaded.
\<close>

theorem toposort_detects_cycles:
  assumes "wf_dag g"
  shows "((\<exists>o1. toposort g = Inr o1) \<longleftrightarrow>
           \<not> (\<exists>C. C \<noteq> {} \<and> C \<subseteq> nodes g \<and> (\<forall>v\<in>C. \<exists>u\<in>C. u \<in> preds g v)))
    \<and> (\<forall>ls. toposort g = Inl ls \<longrightarrow> ls \<noteq> [] \<and> set ls \<subseteq> nodes g \<and> (\<forall>v\<in>set ls. \<exists>u\<in>set ls. u \<in> preds g v))"
proof -
  have l: "ls \<noteq> [] \<and> set ls \<subseteq> nodes g \<and> (\<forall>v\<in>set ls. \<exists>u\<in>set ls. u \<in> preds g v)"
    if "toposort g = Inl ls" for ls using toposort_Inl [OF assms that] .
  have no_cycle: "False" if o1: "toposort g = Inr o1" and C: "C \<noteq> {}" "C \<subseteq> nodes g" "\<forall>v\<in>C. \<exists>u\<in>C. u \<in> preds g v" for o1 C
  proof -
    note f = toposort_Inr [OF assms o1]
    obtain i where i: "i < length o1 \<and> o1 ! i \<in> C" "\<forall>j<i. \<not> (j < length o1 \<and> o1 ! j \<in> C)"
    proof -
      have "\<exists>i. i < length o1 \<and> o1 ! i \<in> C" using C(1,2) f by (metis all_not_in_conv in_set_conv_nth subsetD)
      then show thesis using exists_least_iff [of "\<lambda>i. i < length o1 \<and> o1 ! i \<in> C"] that by blast
    qed
    from C(3) i(1) obtain u where "u \<in> C" "u \<in> preds g (o1 ! i)" by blast
    with f i(1) have "u \<in> set (take i o1)" by blast
    then obtain j where "j < i" "j < length o1" "o1 ! j = u" by (auto simp: in_set_conv_nth)
    with i(2) \<open>u \<in> C\<close> show False by blast
  qed
  have cycle: "\<exists>C. C \<noteq> {} \<and> C \<subseteq> nodes g \<and> (\<forall>v\<in>C. \<exists>u\<in>C. u \<in> preds g v)" if "toposort g = Inl ls" for ls
    using l [OF that] by (intro exI [of _ "set ls"]) simp
  have "(\<exists>o1. toposort g = Inr o1) \<longleftrightarrow>
           \<not> (\<exists>C. C \<noteq> {} \<and> C \<subseteq> nodes g \<and> (\<forall>v\<in>C. \<exists>u\<in>C. u \<in> preds g v))"
  proof (cases "toposort g")
    case (Inl ls)
    then show ?thesis using cycle [OF Inl] by simp
  next
    case (Inr o1)
    then show ?thesis using no_cycle [OF Inr] by blast
  qed
  with l show ?thesis by blast
qed

definition cyclic_dag :: dag where
  "cyclic_dag = [(''a'', [''b'']), (''b'', [''a'', ''c'']), (''c'', []), (''d'', [])]"

lemma cyclic_dag_facts: "wf_dag cyclic_dag" "toposort cyclic_dag = Inl [''a'', ''b'', ''c'']"
  by code_simp+

theorem toposort_detects_cycles_witness:
  "\<not> (\<exists>o1. toposort cyclic_dag = Inr o1)
   \<and> (\<exists>C. C \<noteq> {} \<and> C \<subseteq> nodes cyclic_dag \<and> (\<forall>v\<in>C. \<exists>u\<in>C. u \<in> preds cyclic_dag v))"
  using toposort_detects_cycles [OF cyclic_dag_facts(1)] unfolding cyclic_dag_facts(2) by blast

text \<open>
  C27: A resolved plugin list loads no two plugins of one name, loads each plugin after all the
  plugins it requires, loads none above the system tier or on the excluded list, and accounts for
  every configured package exactly once, either loaded or skipped.
\<close>

theorem resolve_sound:
  assumes "resolve load packages system_tier roots excluded = Inr (ord, skips)"
  shows "distinct (map short_name ord)
    \<and> (\<forall>i<length ord. \<forall>d\<in>set (requires (ord ! i)). \<exists>j<i. short_name (ord ! j) = normalize_plugin_name d)
    \<and> (\<forall>s\<in>set ord. tier s \<le> system_tier \<and> short_name s \<notin> normalize_plugin_name ` set excluded)
    \<and> mset (map package ord) + mset (map fst skips) = mset packages"
proof -
  obtain s5 k where s5: "distinct (map short_name s5)" "\<forall>s\<in>set s5. missing_deps s5 s = []"
    "\<forall>s\<in>set s5. tier s \<le> system_tier \<and> short_name s \<notin> normalize_plugin_name ` set excluded"
    "mset (map package s5) + mset (map fst skips) = mset packages"
    "toposort (build_dag s5) = Inr k" "ord = map (\<lambda>n. the (find_spec s5 n)) k"
    by (rule resolve_stages [OF assms])
  note t = toposort_Inr [OF wf_build_dag s5(5)]
  then have k: "distinct k" "set k = short_name ` set s5" by (simp_all add: nodes_build_dag)
  have m: "mset ord = mset s5" and names: "map short_name ord = k"
    unfolding s5(6) by (rule reordered_specs [OF s5(1) k])+
  have st: "set ord = set s5" using m by (metis set_mset_mset)
  have "\<exists>j<i. short_name (ord ! j) = normalize_plugin_name d"
    if i: "i < length ord" and d: "d \<in> set (requires (ord ! i))" for i d
  proof -
    have len: "length k = length ord" using names by (metis length_map)
    have mem: "ord ! i \<in> set s5" using i st nth_mem by blast
    with s5(2) d have "normalize_plugin_name d \<in> short_name ` set s5" by (auto simp: missing_deps_def filter_empty_conv)
    then have "normalize_plugin_name d \<in> preds (build_dag s5) (short_name (ord ! i))"
      by (rule preds_build_dag [OF mem d])
    moreover have "short_name (ord ! i) = k ! i" using i names by (metis nth_map)
    ultimately have "normalize_plugin_name d \<in> set (take i k)" using t i len by (metis subsetD)
    then obtain j where "j < i" "j < length k" "k ! j = normalize_plugin_name d" by (auto simp: in_set_conv_nth)
    then show ?thesis using names len by (metis nth_map)
  qed
  moreover have "distinct (map short_name ord)" unfolding names by (rule k(1))
  moreover have "mset (map package ord) + mset (map fst skips) = mset packages" using s5(4) m by simp
  ultimately show ?thesis using s5(3) st by blast
qed

definition sample_load :: "string \<Rightarrow> string + manifest_fields" where
  "sample_load p =
     (if p = ''plugins.world'' then Inr \<lparr>mf_name = Some ''world'', mf_tier = PStr ''free'', mf_requires = [], mf_late = None\<rparr>
      else if p = ''plugins.search''
      then Inr \<lparr>mf_name = Some ''search'', mf_tier = PStr ''lite'', mf_requires = [''plugins.world@1''], mf_late = None\<rparr>
      else if p = ''plugins.lab'' then Inr \<lparr>mf_name = Some ''lab'', mf_tier = PStr ''admin'', mf_requires = [], mf_late = None\<rparr>
      else Inl ''manifest not found'')"

lemma sample_resolve:
  "resolve sample_load [''plugins.search'', ''plugins.world'', ''plugins.lab'', ''plugins.gone''] 100 None []
   = Inr ([\<lparr>package = ''plugins.world'', spec_name = ''world'', tier = 1, requires = []\<rparr>,
           \<lparr>package = ''plugins.search'', spec_name = ''search'', tier = 1, requires = [''plugins.world@1'']\<rparr>],
          [(''plugins.gone'', ''manifest not found''), (''plugins.lab'', ''Requires tier 500, system is 100'')])"
  by code_simp

theorem resolve_sound_witness:
  "\<exists>j<1. short_name ([\<lparr>package = ''plugins.world'', spec_name = ''world'', tier = 1, requires = []\<rparr>,
           \<lparr>package = ''plugins.search'', spec_name = ''search'', tier = 1, requires = [''plugins.world@1'']\<rparr>] ! j)
     = normalize_plugin_name ''plugins.world@1''"
proof -
  let ?o = "[\<lparr>package = ''plugins.world'', spec_name = ''world'', tier = 1, requires = []\<rparr>,
           \<lparr>package = ''plugins.search'', spec_name = ''search'', tier = 1, requires = [''plugins.world@1'']\<rparr>]"
  have "\<forall>i<length ?o. \<forall>d\<in>set (requires (?o ! i)). \<exists>j<i. short_name (?o ! j) = normalize_plugin_name d"
    using resolve_sound [OF sample_resolve] by blast
  from spec [OF this, of 1] show ?thesis by simp
qed

end
