(* ===== verification/FlowSpec.thy ===== *)
theory FlowSpec
  imports PyValue
begin

text \<open>
  Declarative specialist flows, \<open>core_graph/subgraphs/specialist/flow_spec.py\<close>: the data of a flow
  and its strict parser.  A \<open>FlowSpecError\<close> is a constructor of \<open>flow_error\<close> that carries the place the
  message names; the one exception the parser can raise besides it, the \<open>TypeError\<close> of
  looking up an unhashable effort in a set, is \<open>UnhashableEffort\<close>.
\<close>

subsection \<open>Data\<close>

record RepeatUntil =
  ru_field :: string
  ru_equals :: pyval
  ru_max_rounds :: int
  ru_on_retry_stage :: string

record StageSpec =
  st_id :: string
  st_kind :: string
  st_skill :: pyval
  st_system_prompt :: pyval
  st_tool_globs :: "string list"
  st_op :: "string option"
  st_output_schema :: "pydict option"
  st_required_outputs :: "string list"
  st_reads :: "string list"
  st_writes :: "string list"
  st_max_steps :: int
  st_max_seconds :: rat
  st_on_fail :: string
  st_repeat_until :: "RepeatUntil option"
  st_model :: "string option"
  st_effort :: "string option"

record ClaimRule =
  cl_goal_classes :: "string list"
  cl_any_keywords :: "string list"
  cl_deny_keywords :: "string list"

record FlowSpec =
  fl_flow_id :: string
  fl_name :: string
  fl_claims :: ClaimRule
  fl_stages :: "StageSpec list"
  fl_requires :: "string list"
  fl_provides :: "string list"
  fl_inputs_schema :: "pydict option"
  fl_owner :: string
  fl_effort :: "string option"

definition claim_matches :: "ClaimRule \<Rightarrow> string option \<Rightarrow> string option \<Rightarrow> bool" where
  "claim_matches c goal goal_class =
     (let q = lower (case goal of None \<Rightarrow> [] | Some g \<Rightarrow> g) in
      if list_ex (\<lambda>k. contains k q) (cl_deny_keywords c) then False
      else if cl_goal_classes c \<noteq> [] \<and> (\<exists>g\<in>set (cl_goal_classes c). goal_class = Some g) then True
      else if cl_any_keywords c \<noteq> [] \<and> list_ex (\<lambda>k. contains k q) (cl_any_keywords c) then True
      else False)"

subsection \<open>Field parsers\<close>

datatype flow_error =
    NotObject string
  | UnknownKeys string "string list"
  | NotNonEmptyStr string string
  | NotStrList string string
  | EqualsRequired string
  | BadField string string
  | UnknownRetryStage string string
  | ModelAndEffort string
  | ModelOnDeterministic string
  | DuplicateStageIds string
  | UnhashableEffort string

definition require_str :: "pydict \<Rightarrow> string \<Rightarrow> string \<Rightarrow> flow_error + string" where
  "require_str d key place =
     (case dget_none key d of
        PStr s \<Rightarrow> (if strip s = [] then Inl (NotNonEmptyStr place key) else Inr (strip s))
      | _ \<Rightarrow> Inl (NotNonEmptyStr place key))"

definition flow_str_tuple :: "pydict \<Rightarrow> string \<Rightarrow> string \<Rightarrow> flow_error + string list" where
  "flow_str_tuple d key place =
     (case dget_or key (PList []) d of
        PNone \<Rightarrow> Inr []
      | PList xs \<Rightarrow> (if list_all is_str xs then Inr (map str_of xs) else Inl (NotStrList place key))
      | _ \<Rightarrow> Inl (NotStrList place key))"

definition opt_dict :: "pydict \<Rightarrow> string \<Rightarrow> string \<Rightarrow> flow_error + pydict option" where
  "opt_dict d key place =
     (case dget_none key d of PNone \<Rightarrow> Inr None | PDict o' \<Rightarrow> Inr (Some o') | _ \<Rightarrow> Inl (BadField place key))"

definition positive_int :: "pydict \<Rightarrow> string \<Rightarrow> int \<Rightarrow> string \<Rightarrow> flow_error + int" where
  "positive_int d key dflt place =
     (case int_of_py (dget_or key (PInt dflt) d) of
        None \<Rightarrow> Inl (BadField place key)
      | Some n \<Rightarrow> (if n < 1 then Inl (BadField place key) else Inr n))"

definition valid_efforts :: "string list" where
  "valid_efforts = [''low'', ''medium'', ''high'', ''max'']"

definition parse_effort :: "pydict \<Rightarrow> string \<Rightarrow> flow_error + string option" where
  "parse_effort d place =
     (let v = dget_none ''effort'' d in
      if v = PNone then Inr None
      else if \<not> hashable v then Inl (UnhashableEffort place)
      else if py_in v (map PStr valid_efforts) then Inr (Some (str_of v))
      else Inl (BadField place ''effort''))"

definition parse_repeat_until :: "pyval \<Rightarrow> string list \<Rightarrow> string \<Rightarrow> flow_error + RepeatUntil option" where
  "parse_repeat_until v stage_ids place =
     (let place' = place @ ''.repeat_until'';
          keys = [''field'', ''equals'', ''max_rounds'', ''on_retry_stage''] in
      case v of
        PNone \<Rightarrow> Inr None
      | PDict d \<Rightarrow>
          rbind (ensure (unknown_keys keys d = []) (UnknownKeys place' (unknown_keys keys d))) (\<lambda>_.
          rbind (require_str d ''field'' place') (\<lambda>fld.
          rbind (ensure (has_key ''equals'' d) (EqualsRequired place')) (\<lambda>_.
          rbind (positive_int d ''max_rounds'' 1 place') (\<lambda>rounds.
          rbind (require_str d ''on_retry_stage'' place') (\<lambda>target.
          rbind (ensure (target \<in> set stage_ids) (UnknownRetryStage place' target)) (\<lambda>_.
          Inr (Some \<lparr>ru_field = fld, ru_equals = dget_none ''equals'' d, ru_max_rounds = rounds,
                     ru_on_retry_stage = target\<rparr>)))))))
      | _ \<Rightarrow> Inl (NotObject place'))"

text \<open>
  \<open>str\<close> of a value that is not a string never spells an accepted mode, so such a value is
  refused; a falsy one is the default.
\<close>

definition valid_on_fail :: "string \<Rightarrow> bool" where
  "valid_on_fail s =
     (s = ''fail_closed'' \<or> s = ''continue'' \<or>
      (starts_with ''retry:'' s \<and> drop 6 s \<noteq> [] \<and> list_all is_digit (drop 6 s) \<and> read_nat (drop 6 s) \<ge> 1))"

definition parse_on_fail :: "pyval \<Rightarrow> string \<Rightarrow> flow_error + string" where
  "parse_on_fail v place =
     (if \<not> truthy v then Inr ''fail_closed''
      else case v of
        PStr s \<Rightarrow> (if valid_on_fail (strip s) then Inr (strip s) else Inl (BadField place ''on_fail''))
      | _ \<Rightarrow> Inl (BadField place ''on_fail''))"

subsection \<open>Stages\<close>

definition stage_keys :: "string list" where
  "stage_keys =
     [''id'', ''kind'', ''skill'', ''system_prompt'', ''tool_globs'', ''op'', ''output_schema'',
      ''required_outputs'', ''reads'', ''writes'', ''max_steps'', ''max_seconds'', ''on_fail'',
      ''repeat_until'', ''model'', ''effort'']"

definition parse_op :: "pydict \<Rightarrow> string \<Rightarrow> string \<Rightarrow> flow_error + string option" where
  "parse_op d kind place =
     (case dget_none ''op'' d of
        PNone \<Rightarrow> (if kind = ''deterministic'' then Inl (BadField place ''op'') else Inr None)
      | PStr s \<Rightarrow> (if kind = ''deterministic'' \<and> s = [] then Inl (BadField place ''op'') else Inr (Some s))
      | _ \<Rightarrow> Inl (BadField place ''op''))"

definition parse_max_seconds :: "pydict \<Rightarrow> string \<Rightarrow> flow_error + rat" where
  "parse_max_seconds d place =
     (case num_of (dget_or ''max_seconds'' (PFloat 90) d) of
        None \<Rightarrow> Inl (BadField place ''max_seconds'')
      | Some x \<Rightarrow> (if x \<le> 0 then Inl (BadField place ''max_seconds'') else Inr x))"

definition parse_model :: "pydict \<Rightarrow> string \<Rightarrow> flow_error + string option" where
  "parse_model d place =
     (case dget_none ''model'' d of
        PNone \<Rightarrow> Inr None
      | PStr s \<Rightarrow> (if strip s = [] then Inl (BadField place ''model'') else Inr (Some (strip s)))
      | _ \<Rightarrow> Inl (BadField place ''model''))"

definition stage_place :: "nat \<Rightarrow> string" where
  "stage_place i = ''stages['' @ show_nat i @ '']''"

definition parse_stage :: "pyval \<Rightarrow> nat \<Rightarrow> string list \<Rightarrow> flow_error + StageSpec" where
  "parse_stage v i stage_ids =
     (let place = stage_place i in
      case v of
        PDict d \<Rightarrow>
          rbind (ensure (unknown_keys stage_keys d = []) (UnknownKeys place (unknown_keys stage_keys d))) (\<lambda>_.
          rbind (require_str d ''id'' place) (\<lambda>sid.
          rbind (require_str d ''kind'' place) (\<lambda>kind.
          rbind (ensure (kind \<in> {''agentic'', ''deterministic''}) (BadField place ''kind'')) (\<lambda>_.
          rbind (parse_op d kind place) (\<lambda>op.
          rbind (opt_dict d ''output_schema'' place) (\<lambda>schema.
          rbind (positive_int d ''max_steps'' 12 place) (\<lambda>steps.
          rbind (parse_max_seconds d place) (\<lambda>seconds.
          rbind (parse_model d place) (\<lambda>model.
          rbind (parse_effort d place) (\<lambda>effort.
          rbind (ensure (model = None \<or> effort = None) (ModelAndEffort place)) (\<lambda>_.
          rbind (ensure (kind = ''deterministic'' \<longrightarrow> model = None \<and> effort = None)
                   (ModelOnDeterministic place)) (\<lambda>_.
          rbind (flow_str_tuple d ''tool_globs'' place) (\<lambda>globs.
          rbind (flow_str_tuple d ''required_outputs'' place) (\<lambda>outs.
          rbind (flow_str_tuple d ''reads'' place) (\<lambda>rds.
          rbind (flow_str_tuple d ''writes'' place) (\<lambda>wrs.
          rbind (parse_on_fail (dget_none ''on_fail'' d) place) (\<lambda>on_fail.
          rbind (parse_repeat_until (dget_none ''repeat_until'' d) stage_ids place) (\<lambda>ru.
          Inr \<lparr>st_id = sid, st_kind = kind, st_skill = dget_none ''skill'' d,
               st_system_prompt = dget_none ''system_prompt'' d, st_tool_globs = globs, st_op = op,
               st_output_schema = schema, st_required_outputs = outs, st_reads = rds, st_writes = wrs,
               st_max_steps = steps, st_max_seconds = seconds, st_on_fail = on_fail,
               st_repeat_until = ru, st_model = model, st_effort = effort\<rparr>))))))))))))))))))
      | _ \<Rightarrow> Inl (NotObject place))"

subsection \<open>Flows\<close>

definition parse_claims :: "pyval \<Rightarrow> string \<Rightarrow> flow_error + ClaimRule" where
  "parse_claims v place =
     (let place' = place @ ''.claims''; keys = [''goal_classes'', ''any_keywords'', ''deny_keywords''] in
      case v of
        PNone \<Rightarrow> Inr \<lparr>cl_goal_classes = [], cl_any_keywords = [], cl_deny_keywords = []\<rparr>
      | PDict d \<Rightarrow>
          rbind (ensure (unknown_keys keys d = []) (UnknownKeys place' (unknown_keys keys d))) (\<lambda>_.
          rbind (flow_str_tuple d ''goal_classes'' place') (\<lambda>classes.
          rbind (flow_str_tuple d ''any_keywords'' place') (\<lambda>any.
          rbind (flow_str_tuple d ''deny_keywords'' place') (\<lambda>deny.
          Inr \<lparr>cl_goal_classes = classes, cl_any_keywords = map lower any, cl_deny_keywords = map lower deny\<rparr>))))
      | _ \<Rightarrow> Inl (NotObject place))"

definition flow_keys :: "string list" where
  "flow_keys =
     [''flow_id'', ''name'', ''claims'', ''stages'', ''requires'', ''provides'', ''inputs_schema'', ''effort'']"

definition raw_stage_ids :: "pyval list \<Rightarrow> string list" where
  "raw_stage_ids raw =
     map (\<lambda>s. str_of (dget_none ''id'' (dict_of s)))
       (filter (\<lambda>s. is_dict s \<and> is_str (dget_none ''id'' (dict_of s))) raw)"

definition nonempty_list :: "pydict \<Rightarrow> string \<Rightarrow> string \<Rightarrow> flow_error + pyval list" where
  "nonempty_list d key place =
     (case dget_none key d of PList (x # xs) \<Rightarrow> Inr (x # xs) | _ \<Rightarrow> Inl (BadField place key))"

definition parse_flow_spec :: "pyval \<Rightarrow> string \<Rightarrow> flow_error + FlowSpec" where
  "parse_flow_spec v owner =
     (case v of
        PDict d \<Rightarrow>
          rbind (ensure (unknown_keys flow_keys d = []) (UnknownKeys ''flow spec'' (unknown_keys flow_keys d))) (\<lambda>_.
          rbind (require_str d ''flow_id'' ''flow spec'') (\<lambda>fid.
          rbind (require_str d ''name'' ''flow spec'') (\<lambda>name.
          let place = ''flow spec '' @ [CHR 0x27] @ fid @ [CHR 0x27] in
          rbind (nonempty_list d ''stages'' place) (\<lambda>raw.
          rbind (ensure (distinct (raw_stage_ids raw)) (DuplicateStageIds place)) (\<lambda>_.
          rbind (rmap (\<lambda>(i, s). parse_stage s i (raw_stage_ids raw)) (enumerate 0 raw)) (\<lambda>stages.
          rbind (parse_claims (dget_none ''claims'' d) place) (\<lambda>claims.
          rbind (opt_dict d ''inputs_schema'' place) (\<lambda>schema.
          rbind (parse_effort d place) (\<lambda>effort.
          rbind (flow_str_tuple d ''requires'' place) (\<lambda>requires.
          rbind (flow_str_tuple d ''provides'' place) (\<lambda>provides.
          Inr \<lparr>fl_flow_id = fid, fl_name = name, fl_claims = claims, fl_stages = stages,
               fl_requires = requires, fl_provides = provides, fl_inputs_schema = schema,
               fl_owner = owner, fl_effort = effort\<rparr>)))))))))))
      | _ \<Rightarrow> Inl (NotObject ''flow spec''))"

subsection \<open>Well-formed flows\<close>

definition trimmed :: "string \<Rightarrow> bool" where
  "trimmed s \<longleftrightarrow> s \<noteq> [] \<and> strip s = s"

definition wf_repeat :: "string list \<Rightarrow> RepeatUntil \<Rightarrow> bool" where
  "wf_repeat ids ru \<longleftrightarrow> trimmed (ru_field ru) \<and> ru_max_rounds ru \<ge> 1 \<and> trimmed (ru_on_retry_stage ru)
     \<and> ru_on_retry_stage ru \<in> set ids"

definition wf_stage :: "string list \<Rightarrow> StageSpec \<Rightarrow> bool" where
  "wf_stage ids st \<longleftrightarrow> trimmed (st_id st) \<and> st_kind st \<in> {''agentic'', ''deterministic''}
     \<and> (st_kind st = ''deterministic'' \<longrightarrow> st_op st \<noteq> None \<and> st_op st \<noteq> Some [] \<and> st_model st = None \<and> st_effort st = None)
     \<and> (st_model st = None \<or> st_effort st = None) \<and> (\<forall>m. st_model st = Some m \<longrightarrow> trimmed m)
     \<and> (\<forall>e. st_effort st = Some e \<longrightarrow> e \<in> set valid_efforts) \<and> st_max_steps st \<ge> 1 \<and> st_max_seconds st > 0
     \<and> valid_on_fail (st_on_fail st) \<and> strip (st_on_fail st) = st_on_fail st
     \<and> (\<forall>ru. st_repeat_until st = Some ru \<longrightarrow> wf_repeat ids ru)"

definition wf_claims :: "ClaimRule \<Rightarrow> bool" where
  "wf_claims c \<longleftrightarrow> map lower (cl_any_keywords c) = cl_any_keywords c \<and> map lower (cl_deny_keywords c) = cl_deny_keywords c"

definition wf_flow :: "FlowSpec \<Rightarrow> bool" where
  "wf_flow f \<longleftrightarrow> trimmed (fl_flow_id f) \<and> trimmed (fl_name f) \<and> fl_stages f \<noteq> []
     \<and> (\<forall>st\<in>set (fl_stages f). wf_stage (map st_id (fl_stages f)) st) \<and> wf_claims (fl_claims f)
     \<and> (\<forall>e. fl_effort f = Some e \<longrightarrow> e \<in> set valid_efforts)"

lemma require_str_Inr [result_simps]:
  "require_str d k p = Inr s \<longleftrightarrow> (\<exists>t. dget_none k d = PStr t \<and> s = strip t \<and> trimmed s)"
  by (auto simp: require_str_def trimmed_def split: pyval.splits if_splits)

lemma flow_str_tuple_Inr [result_simps]:
  "flow_str_tuple d k p = Inr ss \<longleftrightarrow>
     (dget_or k (PList []) d = PNone \<and> ss = []) \<or> dget_or k (PList []) d = PList (map PStr ss)"
proof -
  have "list_all is_str xs \<and> ss = map str_of xs \<longleftrightarrow> xs = map PStr ss" for xs
  proof
    assume "list_all is_str xs \<and> ss = map str_of xs"
    moreover have "PStr (str_of x) = x" if "is_str x" for x using that by (cases x) simp_all
    ultimately show "xs = map PStr ss" by (auto simp: list_all_iff map_idI)
  qed (simp add: list_all_iff comp_def)
  then have "(if list_all is_str xs then Inr (map str_of xs) else Inl (NotStrList p k)) = Inr ss \<longleftrightarrow> xs = map PStr ss" for xs
    by (cases "list_all is_str xs") (metis sum.inject(2), metis sum.distinct(1))
  then show ?thesis by (cases "dget_or k (PList []) d") (auto simp: flow_str_tuple_def)
qed

lemma opt_dict_Inr [result_simps]:
  "opt_dict d k p = Inr x \<longleftrightarrow> dget_none k d = (case x of None \<Rightarrow> PNone | Some e \<Rightarrow> PDict e)"
  by (cases "dget_none k d"; cases x) (auto simp: opt_dict_def)

lemma positive_int_Inr [result_simps]:
  "positive_int d k n p = Inr i \<longleftrightarrow> int_of_py (dget_or k (PInt n) d) = Some i \<and> i \<ge> 1"
  by (auto simp: positive_int_def split: option.splits)

lemma parse_effort_Inr [result_simps]:
  "parse_effort d p = Inr e \<longleftrightarrow>
     (case e of None \<Rightarrow> dget_none ''effort'' d = PNone
      | Some s \<Rightarrow> dget_none ''effort'' d = PStr s \<and> s \<in> set valid_efforts)"
  by (auto simp: parse_effort_def Let_def py_in_PStr split: option.splits)

lemma parse_max_seconds_Inr [result_simps]:
  "parse_max_seconds d p = Inr x \<longleftrightarrow> num_of (dget_or ''max_seconds'' (PFloat 90) d) = Some x \<and> x > 0"
  by (auto simp: parse_max_seconds_def split: option.splits)

lemma parse_model_Inr [result_simps]:
  "parse_model d p = Inr m \<longleftrightarrow>
     (case m of None \<Rightarrow> dget_none ''model'' d = PNone
      | Some s \<Rightarrow> \<exists>t. dget_none ''model'' d = PStr t \<and> s = strip t \<and> trimmed s)"
  by (cases "dget_none ''model'' d"; cases m) (auto simp: parse_model_def trimmed_def)

lemma parse_op_Inr [result_simps]:
  "parse_op d kind p = Inr x \<longleftrightarrow> dget_none ''op'' d = (case x of None \<Rightarrow> PNone | Some s \<Rightarrow> PStr s)
     \<and> (kind = ''deterministic'' \<longrightarrow> x \<noteq> None \<and> x \<noteq> Some [])"
  by (cases "dget_none ''op'' d"; cases x) (auto simp: parse_op_def)

lemma parse_on_fail_Inr:
  "parse_on_fail v p = Inr s \<Longrightarrow> valid_on_fail s \<and> strip s = s"
proof -
  have "strip ''fail_closed'' = ''fail_closed'' \<and> valid_on_fail ''fail_closed''" by code_simp
  then show "parse_on_fail v p = Inr s \<Longrightarrow> valid_on_fail s \<and> strip s = s"
    by (cases v) (auto simp: parse_on_fail_def split: if_splits)
qed

lemma parse_repeat_wf:
  assumes "parse_repeat_until v ids p = Inr (Some ru)"
  shows "wf_repeat ids ru"
  using assms by (cases v) (auto simp: parse_repeat_until_def Let_def result_simps wf_repeat_def)

lemma require_str_trimmed: "require_str d k p = Inr s \<Longrightarrow> trimmed s"
  by (auto simp: require_str_Inr)

lemma parse_op_given: "parse_op d ''deterministic'' p = Inr x \<Longrightarrow> x \<noteq> None \<and> x \<noteq> Some []"
  by (simp add: parse_op_Inr)

lemma parse_model_trimmed: "parse_model d p = Inr (Some m) \<Longrightarrow> trimmed m"
  by (auto simp: parse_model_Inr)

lemma parse_effort_valid: "parse_effort d p = Inr (Some e) \<Longrightarrow> e \<in> set valid_efforts"
  by (simp add: parse_effort_Inr)

lemma positive_int_ge: "positive_int d k n p = Inr i \<Longrightarrow> i \<ge> 1"
  by (simp add: positive_int_Inr)

lemma parse_seconds_pos: "parse_max_seconds d p = Inr x \<Longrightarrow> x > 0"
  by (simp add: parse_max_seconds_Inr)

lemmas parsed_stage_facts = require_str_trimmed parse_op_given parse_model_trimmed parse_effort_valid
  positive_int_ge parse_seconds_pos parse_on_fail_Inr parse_repeat_wf

lemma parse_stage_wf:
  assumes "parse_stage v i ids = Inr st"
  shows "wf_stage ids st"
proof -
  from assms obtain d where d: "v = PDict d" by (cases v) (simp_all add: parse_stage_def Let_def)
  show ?thesis
    using assms unfolding d parse_stage_def Let_def pyval.case
    by (elim rbindE, unfold ensure_eq_Inr sum.inject, hypsubst,
        unfold wf_stage_def StageSpec.simps, intro conjI)
      (auto dest: parsed_stage_facts)
qed

lemma parse_stage_id:
  assumes "parse_stage (PDict d) i ids = Inr st"
  shows "require_str d ''id'' (stage_place i) = Inr (st_id st)"
  using assms unfolding parse_stage_def Let_def pyval.case
  by (elim rbindE, unfold sum.inject, hypsubst, simp)

lemma rmap_enumerate:
  assumes "rmap (\<lambda>(i, x). f x i) (enumerate n xs) = Inr ys"
  shows "length ys = length xs \<and> (\<forall>i<length xs. f (xs ! i) (n + i) = Inr (ys ! i))"
  using assms
proof (induction xs arbitrary: n ys)
  case (Cons x xs)
  then obtain y zs where y: "f x n = Inr y" "rmap (\<lambda>(i, x). f x i) (enumerate (Suc n) xs) = Inr zs" "ys = y # zs"
    by (auto simp: rbind_eq_Inr)
  from Cons.IH [OF y(2)] y(1) show ?case unfolding y(3) by (auto simp: nth_Cons split: nat.split)
qed simp

lemma declared_ids_parsed:
  assumes "rmap (\<lambda>(i, s). parse_stage s i ids) (enumerate 0 raw) = Inr stages"
    and "t \<in> set (raw_stage_ids raw)" "trimmed t"
  shows "t \<in> set (map st_id stages)"
proof -
  note r = rmap_enumerate [OF assms(1)]
  from assms(2) obtain s where s: "s \<in> set raw" "is_dict s" "is_str (dget_none ''id'' (dict_of s))"
    "t = str_of (dget_none ''id'' (dict_of s))" by (auto simp: raw_stage_ids_def)
  from s(2) obtain d where d: "s = PDict d" by (cases s) simp_all
  with s(3,4) have t: "dget_none ''id'' d = PStr t" by (cases "dget_none ''id'' d") simp_all
  from s(1) obtain i where i: "i < length raw" "raw ! i = s" by (auto simp: in_set_conv_nth)
  with r d have "parse_stage (PDict d) i ids = Inr (stages ! i)" by (metis add_0)
  then have "st_id (stages ! i) = strip t" using parse_stage_id t by (fastforce simp: require_str_Inr)
  also have "strip t = t" using assms(3) by (simp add: trimmed_def)
  finally show ?thesis using r i(1) by (metis length_map nth_map nth_mem)
qed

lemma parse_claims_wf: "parse_claims v p = Inr c \<Longrightarrow> wf_claims c"
  by (cases v) (auto simp: parse_claims_def Let_def rbind_eq_Inr wf_claims_def)

lemma nonempty_list_Inr: "nonempty_list d k p = Inr xs \<longleftrightarrow> dget_none k d = PList xs \<and> xs \<noteq> []"
  by (auto simp: nonempty_list_def split: pyval.splits list.splits)

lemma wf_stage_mono:
  assumes "wf_stage ids st" "\<And>t. t \<in> set ids \<Longrightarrow> trimmed t \<Longrightarrow> t \<in> set ids'"
  shows "wf_stage ids' st"
  using assms by (auto simp: wf_stage_def wf_repeat_def)

lemma parse_flow_spec_sound_facts:
  assumes "parse_flow_spec v owner = Inr f"
  shows "wf_flow f \<and> fl_owner f = owner"
proof -
  from assms obtain d where d: "v = PDict d" by (cases v) (simp_all add: parse_flow_spec_def)
  from assms obtain place raw stages where
    r: "rmap (\<lambda>(i, s). parse_stage s i (raw_stage_ids raw)) (enumerate 0 raw) = Inr stages"
      "fl_stages f = stages" "raw \<noteq> []"
    and rest: "trimmed (fl_flow_id f)" "trimmed (fl_name f)" "wf_claims (fl_claims f)"
      "\<forall>e. fl_effort f = Some e \<longrightarrow> e \<in> set valid_efforts" "fl_owner f = owner"
    unfolding d parse_flow_spec_def Let_def pyval.case
    by (elim rbindE, unfold sum.inject ensure_eq_Inr, hypsubst)
      (auto simp: nonempty_list_Inr dest: require_str_trimmed parse_claims_wf parse_effort_valid)
  have "wf_stage (map st_id stages) st" if "st \<in> set stages" for st
  proof -
    from that obtain i where i: "i < length stages" "st = stages ! i" by (auto simp: in_set_conv_nth)
    with rmap_enumerate [OF r(1)] have "parse_stage (raw ! i) i (raw_stage_ids raw) = Inr st" by simp
    then have "wf_stage (raw_stage_ids raw) st" by (rule parse_stage_wf)
    then show ?thesis by (rule wf_stage_mono) (rule declared_ids_parsed [OF r(1)])
  qed
  moreover have "stages \<noteq> []" using rmap_enumerate [OF r(1)] r(3) by auto
  ultimately show ?thesis using rest r(2) by (simp add: wf_flow_def)
qed

text \<open>
  C35: The flow parser is sound.  A flow it accepts has a trimmed id and name, at least one stage,
  keywords in lower case and known efforts; each stage has a known kind, a positive step and time
  limit and a known failure mode, names at most one of a model and an effort, and none of them
  when it is deterministic, where it names an operation; and a retry names a stage of the flow
  and allows at least one round.
\<close>

theorem parse_flow_spec_sound:
  assumes "parse_flow_spec v owner = Inr f"
  shows "wf_flow f \<and> fl_owner f = owner"
  by (rule parse_flow_spec_sound_facts [OF assms])

subsection \<open>Printing a flow\<close>

definition opt_py :: "string option \<Rightarrow> pyval" where
  "opt_py x = (case x of None \<Rightarrow> PNone | Some s \<Rightarrow> PStr s)"

definition opt_dict_py :: "pydict option \<Rightarrow> pyval" where
  "opt_dict_py x = (case x of None \<Rightarrow> PNone | Some d \<Rightarrow> PDict d)"

definition strs_py :: "string list \<Rightarrow> pyval" where
  "strs_py ss = PList (map PStr ss)"

definition repeat_py :: "RepeatUntil option \<Rightarrow> pyval" where
  "repeat_py x = (case x of None \<Rightarrow> PNone | Some ru \<Rightarrow>
     PDict [(''field'', PStr (ru_field ru)), (''equals'', ru_equals ru),
            (''max_rounds'', PInt (ru_max_rounds ru)), (''on_retry_stage'', PStr (ru_on_retry_stage ru))])"

definition stage_dict :: "StageSpec \<Rightarrow> pydict" where
  "stage_dict st =
     [(''id'', PStr (st_id st)), (''kind'', PStr (st_kind st)), (''skill'', st_skill st),
      (''system_prompt'', st_system_prompt st), (''tool_globs'', strs_py (st_tool_globs st)),
      (''op'', opt_py (st_op st)), (''output_schema'', opt_dict_py (st_output_schema st)),
      (''required_outputs'', strs_py (st_required_outputs st)), (''reads'', strs_py (st_reads st)),
      (''writes'', strs_py (st_writes st)), (''max_steps'', PInt (st_max_steps st)),
      (''max_seconds'', PFloat (st_max_seconds st)), (''on_fail'', PStr (st_on_fail st)),
      (''repeat_until'', repeat_py (st_repeat_until st)), (''model'', opt_py (st_model st)),
      (''effort'', opt_py (st_effort st))]"

definition claims_dict :: "ClaimRule \<Rightarrow> pydict" where
  "claims_dict c = [(''goal_classes'', strs_py (cl_goal_classes c)), (''any_keywords'', strs_py (cl_any_keywords c)),
     (''deny_keywords'', strs_py (cl_deny_keywords c))]"

definition flow_dict :: "FlowSpec \<Rightarrow> pydict" where
  "flow_dict f =
     [(''flow_id'', PStr (fl_flow_id f)), (''name'', PStr (fl_name f)), (''claims'', PDict (claims_dict (fl_claims f))),
      (''stages'', PList (map (\<lambda>st. PDict (stage_dict st)) (fl_stages f))),
      (''requires'', strs_py (fl_requires f)), (''provides'', strs_py (fl_provides f)),
      (''inputs_schema'', opt_dict_py (fl_inputs_schema f)), (''effort'', opt_py (fl_effort f))]"

lemmas printed = opt_py_def opt_dict_py_def strs_py_def dget_or_def dget_def

lemma parse_printed_on_fail:
  assumes "valid_on_fail s" "strip s = s"
  shows "parse_on_fail (PStr s) p = Inr s"
  using assms by (auto simp: parse_on_fail_def truthy_def valid_on_fail_def)

lemma parse_printed_repeat:
  assumes "\<forall>ru. x = Some ru \<longrightarrow> wf_repeat ids ru"
  shows "parse_repeat_until (repeat_py x) ids p = Inr x"
proof (cases x)
  case (Some ru)
  let ?d = "[(''field'', PStr (ru_field ru)), (''equals'', ru_equals ru),
            (''max_rounds'', PInt (ru_max_rounds ru)), (''on_retry_stage'', PStr (ru_on_retry_stage ru))]"
  have wf: "wf_repeat ids ru" using assms Some by simp
  then have "require_str ?d ''field'' q = Inr (ru_field ru)" "require_str ?d ''on_retry_stage'' q = Inr (ru_on_retry_stage ru)"
    "positive_int ?d ''max_rounds'' 1 q = Inr (ru_max_rounds ru)" for q
    by (auto simp: wf_repeat_def trimmed_def require_str_Inr positive_int_Inr printed)
  moreover have "unknown_keys [''field'', ''equals'', ''max_rounds'', ''on_retry_stage''] ?d = []" by (simp add: unknown_keys_def)
  moreover have "has_key ''equals'' ?d" "dget_none ''equals'' ?d = ru_equals ru" by (simp_all add: has_key_def printed)
  ultimately show ?thesis
    using wf by (simp add: Some repeat_py_def parse_repeat_until_def Let_def ensure_def wf_repeat_def)
qed (simp add: repeat_py_def parse_repeat_until_def Let_def)

lemma parse_printed_stage:
  assumes "wf_stage ids st"
  shows "parse_stage (PDict (stage_dict st)) i ids = Inr st"
proof -
  let ?d = "stage_dict st" and ?p = "stage_place i"
  note w = assms [unfolded wf_stage_def]
  have "require_str ?d ''id'' ?p = Inr (st_id st)" "require_str ?d ''kind'' ?p = Inr (st_kind st)"
  proof -
    have "trimmed ''agentic'' \<and> trimmed ''deterministic''" by code_simp
    then have "trimmed (st_kind st)" using w by (elim conjE insertE) simp_all
    then show "require_str ?d ''id'' ?p = Inr (st_id st)" "require_str ?d ''kind'' ?p = Inr (st_kind st)"
      using w by (simp_all add: require_str_Inr stage_dict_def printed trimmed_def)
  qed
  moreover have "parse_op ?d (st_kind st) ?p = Inr (st_op st)"
    "parse_model ?d ?p = Inr (st_model st)" "parse_effort ?d ?p = Inr (st_effort st)"
    using w by (auto simp: parse_op_Inr parse_model_Inr parse_effort_Inr stage_dict_def printed trimmed_def split: option.split)
  moreover have "opt_dict ?d ''output_schema'' ?p = Inr (st_output_schema st)"
    "flow_str_tuple ?d ''tool_globs'' ?p = Inr (st_tool_globs st)"
    "flow_str_tuple ?d ''required_outputs'' ?p = Inr (st_required_outputs st)"
    "flow_str_tuple ?d ''reads'' ?p = Inr (st_reads st)" "flow_str_tuple ?d ''writes'' ?p = Inr (st_writes st)"
    by (simp_all add: opt_dict_Inr flow_str_tuple_Inr stage_dict_def printed split: option.split)
  moreover have "positive_int ?d ''max_steps'' 12 ?p = Inr (st_max_steps st)"
    "parse_max_seconds ?d ?p = Inr (st_max_seconds st)"
    using w by (simp_all add: positive_int_Inr parse_max_seconds_Inr stage_dict_def printed num_of_def)
  moreover have "parse_on_fail (dget_none ''on_fail'' ?d) ?p = Inr (st_on_fail st)"
    using w by (simp add: parse_printed_on_fail stage_dict_def printed)
  moreover have "parse_repeat_until (dget_none ''repeat_until'' ?d) ids ?p = Inr (st_repeat_until st)"
    using w by (simp add: parse_printed_repeat stage_dict_def printed)
  moreover have "dget_none ''skill'' ?d = st_skill st" "dget_none ''system_prompt'' ?d = st_system_prompt st"
    by (simp_all add: stage_dict_def printed)
  moreover have "unknown_keys stage_keys ?d = []" by (simp add: unknown_keys_def stage_keys_def stage_dict_def)
  ultimately show ?thesis
    using w by (simp add: parse_stage_def Let_def ensure_def)
qed

lemma parse_printed_claims:
  assumes "wf_claims c"
  shows "parse_claims (PDict (claims_dict c)) p = Inr c"
proof -
  let ?d = "claims_dict c"
  have "flow_str_tuple ?d ''goal_classes'' q = Inr (cl_goal_classes c)"
    "flow_str_tuple ?d ''any_keywords'' q = Inr (cl_any_keywords c)"
    "flow_str_tuple ?d ''deny_keywords'' q = Inr (cl_deny_keywords c)" for q
    by (simp_all add: flow_str_tuple_Inr claims_dict_def printed)
  moreover have "unknown_keys [''goal_classes'', ''any_keywords'', ''deny_keywords''] ?d = []"
    by (simp add: unknown_keys_def claims_dict_def)
  ultimately show ?thesis using assms by (simp add: parse_claims_def Let_def ensure_def wf_claims_def)
qed

lemma rmap_all: "(\<And>i. i < length xs \<Longrightarrow> f (xs ! i) (n + i) = Inr (ys ! i)) \<Longrightarrow> length ys = length xs \<Longrightarrow>
    rmap (\<lambda>(i, x). f x i) (enumerate n xs) = Inr ys"
proof (induction xs arbitrary: n ys)
  case (Cons x xs)
  then obtain y zs where ys: "ys = y # zs" by (cases ys) auto
  have "f x n = Inr y" using Cons.prems(1) [of 0] ys by simp
  moreover have "rmap (\<lambda>(i, x). f x i) (enumerate (Suc n) xs) = Inr zs"
    using Cons.prems(1) [of "Suc _"] Cons.prems(2) ys by (intro Cons.IH) auto
  ultimately show ?case using ys by simp
qed simp

lemma raw_ids_printed: "raw_stage_ids (map (\<lambda>st. PDict (stage_dict st)) sts) = map st_id sts"
  by (induction sts) (simp_all add: raw_stage_ids_def stage_dict_def printed)

text \<open>
  The flow parser is complete and exact.  Printing a well-formed flow with distinct stage ids and
  parsing the result gives the flow back, so nothing a flow can say is lost or refused.
\<close>

theorem parse_flow_spec_roundtrip:
  assumes "wf_flow f" "distinct (map st_id (fl_stages f))"
  shows "parse_flow_spec (PDict (flow_dict f)) (fl_owner f) = Inr f"
proof -
  let ?d = "flow_dict f" and ?raw = "map (\<lambda>st. PDict (stage_dict st)) (fl_stages f)"
  note w = assms(1) [unfolded wf_flow_def]
  have "require_str ?d ''flow_id'' q = Inr (fl_flow_id f)" "require_str ?d ''name'' q = Inr (fl_name f)" for q
    using w by (simp_all add: require_str_Inr flow_dict_def printed trimmed_def)
  moreover have "nonempty_list ?d ''stages'' q = Inr ?raw" for q
    using w by (simp add: nonempty_list_Inr flow_dict_def printed)
  moreover have "rmap (\<lambda>(i, s). parse_stage s i (map st_id (fl_stages f))) (enumerate 0 ?raw) = Inr (fl_stages f)"
    using w by (intro rmap_all) (simp_all add: parse_printed_stage)
  moreover have "parse_claims (dget_none ''claims'' ?d) q = Inr (fl_claims f)" for q
    using w by (simp add: flow_dict_def printed parse_printed_claims)
  moreover have "opt_dict ?d ''inputs_schema'' q = Inr (fl_inputs_schema f)"
    "parse_effort ?d q = Inr (fl_effort f)" "flow_str_tuple ?d ''requires'' q = Inr (fl_requires f)"
    "flow_str_tuple ?d ''provides'' q = Inr (fl_provides f)" for q
    using w by (auto simp: opt_dict_Inr parse_effort_Inr flow_str_tuple_Inr flow_dict_def printed split: option.split)
  moreover have "unknown_keys flow_keys ?d = []" by (simp add: unknown_keys_def flow_keys_def flow_dict_def)
  ultimately show ?thesis
    using assms(2) by (simp add: parse_flow_spec_def Let_def ensure_def raw_ids_printed)
qed

definition sample_stage :: StageSpec where
  "sample_stage = \<lparr>st_id = ''draft'', st_kind = ''agentic'', st_skill = PNone, st_system_prompt = PNone,
     st_tool_globs = [''world__*''], st_op = None, st_output_schema = None, st_required_outputs = [''text''],
     st_reads = [''goal''], st_writes = [''text'', ''score''], st_max_steps = 6, st_max_seconds = 30,
     st_on_fail = ''fail_closed'',
     st_repeat_until = Some \<lparr>ru_field = ''score'', ru_equals = PBool True, ru_max_rounds = 2, ru_on_retry_stage = ''draft''\<rparr>,
     st_model = None, st_effort = Some ''high''\<rparr>"

definition sample_flow :: FlowSpec where
  "sample_flow = \<lparr>fl_flow_id = ''write'', fl_name = ''Write'',
     fl_claims = \<lparr>cl_goal_classes = [], cl_any_keywords = [''write''], cl_deny_keywords = [''delete'']\<rparr>,
     fl_stages = [sample_stage], fl_requires = [], fl_provides = [''did:write''], fl_inputs_schema = None,
     fl_owner = ''world'', fl_effort = None\<rparr>"

lemma sample_flow_wf: "wf_flow sample_flow" "distinct (map st_id (fl_stages sample_flow))"
proof -
  have "trimmed ''write'' \<and> trimmed ''Write'' \<and> trimmed ''draft'' \<and> trimmed ''score'' \<and> valid_on_fail ''fail_closed''
    \<and> strip ''fail_closed'' = ''fail_closed'' \<and> wf_claims (fl_claims sample_flow)" by code_simp
  then show "wf_flow sample_flow"
    by (simp add: wf_flow_def wf_stage_def wf_repeat_def sample_flow_def sample_stage_def valid_efforts_def)
qed (simp add: sample_flow_def)

theorem parse_flow_spec_roundtrip_witness:
  "parse_flow_spec (PDict (flow_dict sample_flow)) ''world'' = Inr sample_flow"
  using parse_flow_spec_roundtrip [OF sample_flow_wf] by (simp add: sample_flow_def)

lemma sample_flow_parsed: "parse_flow_spec (PDict (flow_dict sample_flow)) ''world'' = Inr sample_flow"
  by code_simp

theorem parse_flow_spec_sound_witness: "wf_flow sample_flow \<and> fl_owner sample_flow = ''world''"
  by (rule parse_flow_spec_sound [OF sample_flow_parsed])

text \<open>The duplicate check reads ids before they are trimmed; an unhashable effort is not a \<open>FlowSpecError\<close>.\<close>

lemma duplicate_ids_after_trim:
  "map_sum id (\<lambda>f. map st_id (fl_stages f))
     (parse_flow_spec (PDict [(''flow_id'', PStr ''f''), (''name'', PStr ''f''),
        (''stages'', PList [PDict [(''id'', PStr ''a''), (''kind'', PStr ''agentic'')],
                           PDict [(''id'', PStr '' a''), (''kind'', PStr ''agentic'')]])]) []) = Inr [''a'', ''a'']"
  by code_simp

end
