(* ===== verification/Blackboard.thy ===== *)
theory Blackboard
  imports PyValue
begin

text \<open>
  The session blackboards of the flow runner, \<open>core_graph/subgraphs/specialist/blackboard.py\<close>.  A
  board is a record, the store a dictionary in insertion order; the readings of the clock and the
  random session id are arguments.  Slots are written by keyword arguments: a slot named \<open>self\<close>
  clashes with the method's own parameter, which is the \<open>TypeError\<close> modelled by \<open>None\<close>.  The loop
  that makes room pops the oldest board by its own session id; \<open>None\<close> is the \<open>ValueError\<close> of \<open>min\<close> on
  an empty store (a negative limit).
\<close>

subsection \<open>Boards\<close>

record Blackboard =
  bb_session_id :: string
  bb_goal :: string
  bb_goal_class :: "string option"
  bb_slots :: pydict
  bb_stage_history :: "(string \<times> string list) list"
  bb_created_at :: rat
  bb_updated_at :: rat

definition bb_touch :: "rat \<Rightarrow> Blackboard \<Rightarrow> Blackboard" where
  "bb_touch now b = b\<lparr>bb_updated_at := now\<rparr>"

definition bb_get :: "string \<Rightarrow> Blackboard \<Rightarrow> pyval" where
  "bb_get k b = dget_none k (bb_slots b)"

fun dict_update :: "pydict \<Rightarrow> pydict \<Rightarrow> pydict" where
  "dict_update d [] = d"
| "dict_update d ((k, v) # kvs) = dict_update (dset k v d) kvs"

definition bb_write :: "pydict \<Rightarrow> rat \<Rightarrow> Blackboard \<Rightarrow> Blackboard option" where
  "bb_write kvs now b =
     (if has_key ''self'' kvs then None
      else Some (bb_touch now (b\<lparr>bb_slots := dict_update (bb_slots b) kvs\<rparr>)))"

definition bb_to_public :: "Blackboard \<Rightarrow> pydict" where
  "bb_to_public b =
     [(''session_id'', PStr (bb_session_id b)), (''goal'', PStr (bb_goal b)),
      (''goal_class'', case bb_goal_class b of None \<Rightarrow> PNone | Some c \<Rightarrow> PStr c),
      (''slot_keys'', PList (map PStr (sort (map fst (bb_slots b))))),
      (''stage_count'', PInt (int (length (bb_stage_history b))))]"

subsection \<open>The store\<close>

record BlackboardStore =
  bs_max :: int
  bs_ttl :: rat
  bs_boards :: "(string \<times> Blackboard) list"

definition bs_init :: "int \<Rightarrow> rat \<Rightarrow> BlackboardStore" where
  "bs_init max_size ttl_s = \<lparr>bs_max = max_size, bs_ttl = ttl_s, bs_boards = []\<rparr>"

definition bs_evict :: "rat \<Rightarrow> BlackboardStore \<Rightarrow> BlackboardStore" where
  "bs_evict now s = s\<lparr>bs_boards := filter (\<lambda>(k, b). \<not> now - bb_updated_at b > bs_ttl s) (bs_boards s)\<rparr>"

text \<open>\<open>min\<close> with a key keeps the first of equal elements.\<close>

definition room_step :: "BlackboardStore \<Rightarrow> BlackboardStore + BlackboardStore option" where
  "room_step s =
     (if \<not> int (length (bs_boards s)) > bs_max s then Inr (Some s)
      else case bs_boards s of
        [] \<Rightarrow> Inr None
      | kb # kbs \<Rightarrow>
          (let oldest = min_by bb_created_at (snd kb) (map snd kbs) in
           Inl (s\<lparr>bs_boards := dpop (bb_session_id oldest) (bs_boards s)\<rparr>)))"

definition make_room :: "BlackboardStore \<Rightarrow> BlackboardStore option" where
  "make_room s = (case run_loop room_step (length (bs_boards s) + 1) s of Some r \<Rightarrow> r | None \<Rightarrow> None)"

definition new_board :: "rat \<Rightarrow> rat \<Rightarrow> string \<Rightarrow> string \<Rightarrow> string option \<Rightarrow> string option \<Rightarrow> Blackboard" where
  "new_board t_created t_updated fresh goal session_id goal_class =
     \<lparr>bb_session_id = (case session_id of Some (c # cs) \<Rightarrow> c # cs | _ \<Rightarrow> ''flow-'' @ fresh), bb_goal = goal,
      bb_goal_class = goal_class, bb_slots = [], bb_stage_history = [], bb_created_at = t_created,
      bb_updated_at = t_updated\<rparr>"

definition add_board :: "Blackboard \<Rightarrow> BlackboardStore \<Rightarrow> BlackboardStore" where
  "add_board b s = s\<lparr>bs_boards := dset (bb_session_id b) b (bs_boards s)\<rparr>"

definition bs_create ::
    "rat \<Rightarrow> rat \<Rightarrow> rat \<Rightarrow> string \<Rightarrow> string \<Rightarrow> string option \<Rightarrow> string option \<Rightarrow> BlackboardStore
     \<Rightarrow> (Blackboard \<times> BlackboardStore) option" where
  "bs_create t_evict t_created t_updated fresh goal session_id goal_class s =
     (let board = new_board t_created t_updated fresh goal session_id goal_class in
      map_option (Pair board) (make_room (add_board board (bs_evict t_evict s))))"

definition bs_get :: "rat \<Rightarrow> string \<Rightarrow> BlackboardStore \<Rightarrow> Blackboard option \<times> BlackboardStore" where
  "bs_get now sid s = (let s1 = bs_evict now s in (map_of (bs_boards s1) sid, s1))"

definition bs_delete :: "string \<Rightarrow> BlackboardStore \<Rightarrow> bool \<times> BlackboardStore" where
  "bs_delete sid s = (map_of (bs_boards s) sid \<noteq> None, s\<lparr>bs_boards := dpop sid (bs_boards s)\<rparr>)"

text \<open>A board of the store is shared with its runner, whose writes show in the store.\<close>

definition bs_write :: "string \<Rightarrow> pydict \<Rightarrow> rat \<Rightarrow> BlackboardStore \<Rightarrow> BlackboardStore option" where
  "bs_write sid kvs now s =
     (case map_of (bs_boards s) sid of None \<Rightarrow> Some s
      | Some b \<Rightarrow> map_option (\<lambda>b'. s\<lparr>bs_boards := dset sid b' (bs_boards s)\<rparr>) (bb_write kvs now b))"

subsection \<open>Invariant and the loop that makes room\<close>

definition bs_keyed :: "BlackboardStore \<Rightarrow> bool" where
  "bs_keyed s \<longleftrightarrow> distinct (map fst (bs_boards s)) \<and> (\<forall>x\<in>set (bs_boards s). bb_session_id (snd x) = fst x)"

definition bs_ok :: "BlackboardStore \<Rightarrow> bool" where
  "bs_ok s \<longleftrightarrow> bs_keyed s \<and> int (length (bs_boards s)) \<le> bs_max s"

lemma dpop_shorter: "(k, v) \<in> set d \<Longrightarrow> length (dpop k d) < length d"
  by (auto simp: dpop_def intro!: length_filter_less)

lemma dpop_le: "length (dpop k d) \<le> length d"
  by (simp add: dpop_def)

lemma dpop_length: "distinct (map fst d) \<Longrightarrow> length (dpop k d) + 1 \<ge> length d"
proof (induction d)
  case (Cons kv d)
  show ?case
  proof (cases "fst kv = k")
    case True
    with Cons.prems have "k \<notin> fst ` set d" by simp
    then have "\<forall>x\<in>set d. fst x \<noteq> k" by blast
    then have "dpop k d = d" unfolding dpop_def by (intro filter_True) auto
    with True show ?thesis by (auto simp: dpop_def split: prod.splits)
  next
    case False
    with Cons show ?thesis by (auto simp: dpop_def split: prod.splits)
  qed
qed simp

lemma room_step_Inl:
  assumes "room_step s = Inl s'" "bs_keyed s"
  obtains old where "(bb_session_id old, old) \<in> set (bs_boards s)" "\<forall>(k, b)\<in>set (bs_boards s). bb_created_at old \<le> bb_created_at b"
    "s' = s\<lparr>bs_boards := dpop (bb_session_id old) (bs_boards s)\<rparr>" "int (length (bs_boards s)) > bs_max s"
proof -
  from assms(1) obtain kb kbs where b: "bs_boards s = kb # kbs" "int (length (bs_boards s)) > bs_max s"
    by (auto simp: room_step_def split: if_splits list.splits)
  define old where "old = min_by bb_created_at (snd kb) (map snd kbs)"
  have "old \<in> snd ` set (bs_boards s)" using min_by_in [of bb_created_at "snd kb" "map snd kbs"] b(1) by (auto simp: old_def)
  then obtain k where k: "(k, old) \<in> set (bs_boards s)" by force
  then have "(bb_session_id old, old) \<in> set (bs_boards s)" using assms(2) by (auto simp: bs_keyed_def)
  moreover have "bb_created_at old \<le> bb_created_at c" if "(k, c) \<in> set (bs_boards s)" for k c
    using min_by_le [of c "snd kb" "map snd kbs" bb_created_at] that b(1) by (force simp: old_def)
  moreover have "s' = s\<lparr>bs_boards := dpop (bb_session_id old) (bs_boards s)\<rparr>"
    using assms(1) b by (simp add: room_step_def Let_def old_def)
  ultimately show thesis using that b(2) by blast
qed

lemma keyed_dpop: "bs_keyed s \<Longrightarrow> bs_keyed (s\<lparr>bs_boards := dpop k (bs_boards s)\<rparr>)"
  by (auto simp: bs_keyed_def distinct_dpop) (auto simp: dpop_def)

interpretation room_loop: bounded_loop room_step bs_keyed "\<lambda>s. length (bs_boards s)"
proof
  fix s s' assume s: "bs_keyed s" "room_step s = Inl s'"
  then obtain old where o': "(bb_session_id old, old) \<in> set (bs_boards s)"
    "s' = s\<lparr>bs_boards := dpop (bb_session_id old) (bs_boards s)\<rparr>" using room_step_Inl by metis
  then show "bs_keyed s'" using keyed_dpop s(1) by simp
  show "length (bs_boards s') < length (bs_boards s)" using o' dpop_shorter by simp
qed

subsection \<open>Operations\<close>

datatype bs_op =
    Create rat rat rat string string "string option" "string option"
  | Get rat string
  | Delete string
  | Write string pydict rat

definition bs_apply :: "bs_op \<Rightarrow> BlackboardStore \<Rightarrow> BlackboardStore option" where
  "bs_apply op s =
     (case op of
        Create te tc tu fresh goal sid gc \<Rightarrow> map_option snd (bs_create te tc tu fresh goal sid gc s)
      | Get now sid \<Rightarrow> Some (snd (bs_get now sid s))
      | Delete sid \<Rightarrow> Some (snd (bs_delete sid s))
      | Write sid kvs now \<Rightarrow> bs_write sid kvs now s)"

fun bs_run :: "bs_op list \<Rightarrow> BlackboardStore \<Rightarrow> BlackboardStore option" where
  "bs_run [] s = Some s"
| "bs_run (op # ops) s = (case bs_apply op s of None \<Rightarrow> None | Some s' \<Rightarrow> bs_run ops s')"

lemma keyed_evict: "bs_keyed s \<Longrightarrow> bs_keyed (bs_evict now s)"
  by (simp add: bs_keyed_def bs_evict_def distinct_map_filter)

lemma evict_length: "length (bs_boards (bs_evict now s)) \<le> length (bs_boards s)"
  by (simp add: bs_evict_def)

lemma bs_max_evict [simp]: "bs_max (bs_evict now s) = bs_max s"
  by (simp add: bs_evict_def)

lemma set_dset: "distinct (map fst d) \<Longrightarrow> set (dset k v d) = insert (k, v) {x \<in> set d. fst x \<noteq> k}"
proof (induction k v d rule: dset.induct)
  case (2 k v k' v' d)
  show ?case
  proof (cases "k' = k")
    case True
    then have "k \<notin> fst ` set d" using "2.prems" by simp
    then have "x \<in> set d \<Longrightarrow> fst x \<noteq> k" for x by blast
    then show ?thesis unfolding True by (auto simp del: dset.simps simp: dset.simps(2))
  next
    case False
    with 2 show ?thesis by auto
  qed
qed simp

lemma keyed_dset: "bs_keyed s \<Longrightarrow> bb_session_id b = k \<Longrightarrow> bs_keyed (s\<lparr>bs_boards := dset k b (bs_boards s)\<rparr>)"
  by (auto simp: bs_keyed_def distinct_dset set_dset)

lemma dset_length: "distinct (map fst d) \<Longrightarrow> k \<in> fst ` set d \<Longrightarrow> length (dset k v d) = length d"
  by (induction k v d rule: dset.induct) auto

lemma keyed_add: "bs_keyed s \<Longrightarrow> bs_keyed (add_board b s)"
  unfolding add_board_def by (rule keyed_dset) simp_all

lemma make_room_ok:
  assumes "make_room s = Some s'" "bs_keyed s"
  shows "bs_keyed s' \<and> int (length (bs_boards s')) \<le> bs_max s'"
proof -
  have "run_loop room_step (length (bs_boards s) + 1) s = Some (Some s')"
    using assms(1) by (auto simp: make_room_def split: option.splits)
  then obtain t where "bs_keyed t" "room_step t = Inr (Some s')" using room_loop.exits assms(2) by blast
  then show ?thesis by (auto simp: room_step_def Let_def split: if_splits list.splits)
qed

lemma create_store:
  assumes "bs_create te tc tu fresh goal sid gc s = Some (b, s')" "bs_keyed s"
  shows "bs_keyed s' \<and> int (length (bs_boards s')) \<le> bs_max s'"
  using assms make_room_ok [OF _ keyed_add [OF keyed_evict [OF assms(2)]]] by (auto simp: bs_create_def Let_def)

lemma room_step_max: "room_step s = Inl s' \<Longrightarrow> bs_max s' = bs_max s"
  by (auto simp: room_step_def Let_def split: if_splits list.splits)

lemma room_loop_max: "run_loop room_step n s = Some (Some s') \<Longrightarrow> bs_max s' = bs_max s"
proof (induction n arbitrary: s)
  case (Suc n)
  show ?case
  proof (cases "room_step s")
    case (Inl t)
    with Suc show ?thesis using room_step_max [OF Inl] by simp
  next
    case (Inr r)
    with Suc.prems show ?thesis by (auto simp: room_step_def Let_def split: if_splits list.splits)
  qed
qed simp

lemma create_max:
  assumes "bs_create te tc tu fresh goal sid gc s = Some (b, s')"
  shows "bs_max s' = bs_max s"
proof -
  let ?s = "add_board b (bs_evict te s)"
  have "make_room ?s = Some s'" using assms by (auto simp: bs_create_def Let_def)
  then have "run_loop room_step (length (bs_boards ?s) + 1) ?s = Some (Some s')"
    unfolding make_room_def by (auto split: option.splits)
  from room_loop_max [OF this] show ?thesis by (simp add: add_board_def)
qed

lemma bs_apply_ok: "bs_apply op s = Some s' \<Longrightarrow> bs_ok s \<Longrightarrow> bs_ok s'"
proof (cases op)
  case (Create te tc tu fresh goal sid gc)
  assume "bs_apply op s = Some s'" "bs_ok s"
  with Create create_store show ?thesis by (fastforce simp: bs_apply_def bs_ok_def)
next
  case (Get now sid)
  assume "bs_apply op s = Some s'" "bs_ok s"
  with Get show ?thesis using keyed_evict evict_length [of now s]
    by (auto simp: bs_apply_def bs_get_def bs_ok_def Let_def)
next
  case (Delete sid)
  assume "bs_apply op s = Some s'" "bs_ok s"
  with Delete show ?thesis using keyed_dpop [of s sid] dpop_le [of sid "bs_boards s"]
    by (auto simp: bs_apply_def bs_delete_def bs_ok_def)
next
  case (Write sid kvs now)
  assume a: "bs_apply op s = Some s'" "bs_ok s"
  show ?thesis
  proof (cases "map_of (bs_boards s) sid")
    case None
    with a Write show ?thesis by (simp add: bs_apply_def bs_write_def)
  next
    case (Some b)
    with a Write obtain b' where b': "bb_write kvs now b = Some b'" "s' = s\<lparr>bs_boards := dset sid b' (bs_boards s)\<rparr>"
      by (auto simp: bs_apply_def bs_write_def)
    have "(sid, b) \<in> set (bs_boards s)" by (rule map_of_SomeD [OF Some])
    moreover have "bb_session_id b' = bb_session_id b" using b'(1) by (auto simp: bb_write_def bb_touch_def split: if_splits)
    moreover have k: "bs_keyed s" using a(2) by (simp add: bs_ok_def)
    ultimately have "bb_session_id b' = sid" "sid \<in> fst ` set (bs_boards s)" by (force simp: bs_keyed_def)+
    then have "bs_keyed s'" "length (bs_boards s') = length (bs_boards s)"
      using k keyed_dset [OF k, of b' sid] by (simp_all add: b'(2) dset_length bs_keyed_def)
    with a(2) b'(2) show ?thesis by (simp add: bs_ok_def)
  qed
qed

lemma bs_run_ok: "bs_run ops s = Some s' \<Longrightarrow> bs_ok s \<Longrightarrow> bs_ok s'"
  by (induction ops arbitrary: s) (auto split: option.splits dest: bs_apply_ok)

text \<open>
  The blackboard store stays bounded.  After any sequence of creations, look-ups, deletions and slot
  writes that starts from an empty store, each board is stored under its own session id, no id
  twice, and the store holds at most \<open>max_size\<close> boards.
\<close>

theorem blackboard_store_bounded:
  assumes "bs_run ops (bs_init m ttl) = Some s" "0 \<le> m"
  shows "distinct (map fst (bs_boards s)) \<and> (\<forall>(k, b)\<in>set (bs_boards s). bb_session_id b = k)
    \<and> int (length (bs_boards s)) \<le> m"
proof -
  have max: "bs_max s' = bs_max s0" if "bs_run ops s0 = Some s'" for s0 s'
    using that
  proof (induction ops arbitrary: s0)
    case (Cons op ops)
    then obtain s1 where s1: "bs_apply op s0 = Some s1" "bs_run ops s1 = Some s'" by (auto split: option.splits)
    have "bs_max s1 = bs_max s0"
      using s1(1) by (cases op)
        (auto simp: bs_apply_def bs_get_def bs_delete_def bs_write_def Let_def split: option.splits dest: create_max)
    with Cons.IH [OF s1(2)] show ?case by simp
  qed simp
  have "bs_ok (bs_init m ttl)" using assms(2) by (simp add: bs_ok_def bs_keyed_def bs_init_def)
  from bs_run_ok [OF assms(1) this] max [OF assms(1)] show ?thesis
    by (auto simp: bs_ok_def bs_keyed_def bs_init_def)
qed

definition sample_ops :: "bs_op list" where
  "sample_ops = [Create 0 0 0 ''a'' ''g'' None None, Create 1 1 1 ''b'' ''g'' None None,
     Write ''flow-b'' [(''goal'', PStr ''g'')] 2, Create 3 3 3 ''c'' ''g'' (Some ''mine'') None]"

lemma sample_ops_run: "map_option (\<lambda>s. map fst (bs_boards s)) (bs_run sample_ops (bs_init 2 100)) = Some [''flow-b'', ''mine'']"
  by code_simp

theorem blackboard_store_bounded_witness:
  "int (length (bs_boards (the (bs_run sample_ops (bs_init 2 100))))) \<le> 2"
proof -
  obtain s where s: "bs_run sample_ops (bs_init 2 100) = Some s" using sample_ops_run by auto
  from blackboard_store_bounded [OF this] show ?thesis using s by simp
qed

text \<open>
  A new session is kept and the oldest ones go.  With room for at least one board and a clock that
  has moved on since every stored board was created, \<open>create\<close> returns a fresh board that the
  store then holds; a board that was alive and is gone is no younger than every board that stays.
\<close>

theorem create_keeps_newest:
  assumes "bs_ok s" "1 \<le> bs_max s" "\<forall>(k, b)\<in>set (bs_boards s). bb_created_at b < tc"
  shows "\<exists>b s'. bs_create te tc tu fresh goal sid gc s = Some (b, s') \<and> bb_slots b = [] \<and> bb_goal b = goal
    \<and> map_of (bs_boards s') (bb_session_id b) = Some b
    \<and> (\<forall>(k, c)\<in>set (bs_boards (bs_evict te s)). k \<noteq> bb_session_id b \<longrightarrow> map_of (bs_boards s') k \<noteq> Some c \<longrightarrow>
         (\<forall>(k', c')\<in>set (bs_boards s'). bb_created_at c \<le> bb_created_at c'))"
proof -
  let ?s1 = "bs_evict te s"
  define nb where "nb = new_board tc tu fresh goal sid gc"
  define k where "k = bb_session_id nb"
  define s2 where "s2 = add_board nb ?s1"
  have create: "bs_create te tc tu fresh goal sid gc s = map_option (Pair nb) (make_room s2)"
    by (simp add: bs_create_def Let_def nb_def s2_def)
  have nb: "bb_slots nb = []" "bb_goal nb = goal" "bb_created_at nb = tc" by (simp_all add: nb_def new_board_def)
  have boards: "bs_boards s2 = dset k nb (bs_boards ?s1)" "bs_max s2 = bs_max s" by (simp_all add: s2_def add_board_def k_def)
  have k1: "bs_keyed ?s1" using keyed_evict assms(1) by (simp add: bs_ok_def)
  have keyed: "bs_keyed s2" unfolding s2_def by (rule keyed_add [OF k1])
  have old: "bb_created_at c < tc" if "(k', c) \<in> set (bs_boards ?s1)" for k' c
    using that assms(3) by (auto simp: bs_evict_def)
  have stored: "map_of (bs_boards s2) k = Some nb" and
    others: "k' \<noteq> k \<Longrightarrow> map_of (bs_boards s2) k' = map_of (bs_boards ?s1) k'" for k' by (simp_all add: boards)
  have alive: "map_of (bs_boards ?s1) k' = Some c" if "(k', c) \<in> set (bs_boards ?s1)" for k' c
    using that k1 by (simp add: bs_keyed_def)
  show ?thesis
  proof (cases "int (length (bs_boards s2)) > bs_max s2")
    case False
    then have "bs_create te tc tu fresh goal sid gc s = Some (nb, s2)" unfolding create by (simp add: make_room_def room_step_def)
    moreover have "map_of (bs_boards s2) k' = Some c" if "(k', c) \<in> set (bs_boards ?s1)" "k' \<noteq> k" for k' c
      using alive others that by simp
    ultimately show ?thesis using stored by (intro exI [of _ nb] exI [of _ s2]) (auto simp: nb k_def)
  next
    case True
    obtain s3 where s3: "room_step s2 = Inl s3" using True assms(2)
      by (cases "bs_boards s2") (auto simp: room_step_def Let_def boards)
    from room_step_Inl [OF s3 keyed] obtain o' where o': "(bb_session_id o', o') \<in> set (bs_boards s2)"
      "\<forall>(k, b)\<in>set (bs_boards s2). bb_created_at o' \<le> bb_created_at b"
      "s3 = s2\<lparr>bs_boards := dpop (bb_session_id o') (bs_boards s2)\<rparr>" by metis
    have "length (bs_boards s2) \<le> length (bs_boards s) + 1"
      using length_dset_le [of k nb "bs_boards ?s1"] evict_length [of te s] by (simp add: boards)
    moreover have "length (bs_boards s3) < length (bs_boards s2)" unfolding o'(3) using dpop_shorter [OF o'(1)] by simp
    ultimately have fits: "int (length (bs_boards s3)) \<le> bs_max s3"
      using assms(1) by (simp add: bs_ok_def o'(3) boards(2))
    obtain n where n: "length (bs_boards s2) = Suc n" using True assms(2) by (cases "bs_boards s2") (auto simp: boards(2))
    have "bs_create te tc tu fresh goal sid gc s = Some (nb, s3)"
      unfolding create make_room_def n using s3 fits by (simp add: room_step_def)
    moreover have oldk: "bb_session_id o' \<noteq> k"
    proof
      assume "bb_session_id o' = k"
      then have "o' = nb" using o'(1) stored keyed by (simp add: bs_keyed_def)
      obtain k2 c where c: "(k2, c) \<in> set (bs_boards s2)" "k2 \<noteq> k"
      proof -
        have "length (bs_boards s2) \<ge> 2" using True assms(2) by (simp add: boards(2))
        moreover have "distinct (map fst (bs_boards s2))" using keyed by (simp add: bs_keyed_def)
        ultimately have "card (fst ` set (bs_boards s2)) \<ge> 2" by (metis distinct_card length_map list.set_map)
        then have "\<not> fst ` set (bs_boards s2) \<subseteq> {k}" using card_mono [of "{k}" "fst ` set (bs_boards s2)"] by auto
        then obtain x where "x \<in> set (bs_boards s2)" "fst x \<noteq> k" by blast
        then show thesis using that [of "fst x" "snd x"] by simp
      qed
      then have "(k2, c) \<in> set (bs_boards ?s1)"
        using others [OF c(2)] keyed map_of_SomeD [of "bs_boards ?s1" k2 c] by (simp add: bs_keyed_def)
      then have "bb_created_at c < tc" by (rule old)
      with o'(2) c(1) \<open>o' = nb\<close> show False by (auto simp: nb)
    qed
    moreover have "map_of (bs_boards s3) k = Some nb" using oldk stored by (simp add: o'(3))
    moreover have "bb_created_at c \<le> bb_created_at c'"
      if a: "(k', c) \<in> set (bs_boards ?s1)" "k' \<noteq> k" "map_of (bs_boards s3) k' \<noteq> Some c" "(k2, c') \<in> set (bs_boards s3)"
      for k' c k2 c'
    proof -
      have "map_of (bs_boards s2) k' = Some c" using alive others a(1,2) by simp
      with a(3) have "k' = bb_session_id o'" by (auto simp: o'(3) split: if_splits)
      with \<open>map_of (bs_boards s2) k' = Some c\<close> o'(1) keyed have "c = o'" by (simp add: bs_keyed_def)
      moreover have "(k2, c') \<in> set (bs_boards s2)" using a(4) by (simp add: o'(3) dpop_def)
      ultimately show ?thesis using o'(2) by blast
    qed
    ultimately show ?thesis by (intro exI [of _ nb] exI [of _ s3]) (auto simp: nb k_def)
  qed
qed

theorem create_keeps_newest_witness:
  "\<exists>b s'. bs_create 5 5 5 ''n'' ''goal'' None None (the (bs_run sample_ops (bs_init 2 100))) = Some (b, s')
     \<and> map_of (bs_boards s') (bb_session_id b) = Some b"
proof -
  let ?s = "the (bs_run sample_ops (bs_init 2 100))"
  have "distinct (map fst (bs_boards ?s)) \<and> list_all (\<lambda>x. bb_session_id (snd x) = fst x) (bs_boards ?s)
    \<and> length (bs_boards ?s) = 2 \<and> bs_max ?s = 2 \<and> list_all (\<lambda>x. bb_created_at (snd x) < 5) (bs_boards ?s)" by code_simp
  then have "bs_ok ?s" "1 \<le> bs_max ?s" "\<forall>(k, b)\<in>set (bs_boards ?s). bb_created_at b < 5"
    by (auto simp: bs_ok_def bs_keyed_def list_all_iff)
  from create_keeps_newest [OF this, of 5 5 "''n''" "''goal''" None None] show ?thesis by blast
qed

end
