(* ===== verification/FlowRunner.thy ===== *)
theory FlowRunner
  imports FlowSpec Blackboard
begin

text \<open>
  The executor of declarative flows, \<open>core_graph/subgraphs/specialist/flow_runner.py\<close>.  What it calls
  is the record \<open>flow_env\<close>: the agent loop, the dispatch of a catalog operation and the choice of a
  model; the number of the stage run is an argument of the first two, since two calls need not
  answer alike.  Of the board the runner keeps the slots and the history; its eviction clock is in
  \<open>Blackboard\<close>.  \<open>Raised\<close> is an exception that leaves \<open>run_flow\<close>: the \<open>TypeError\<close> of a slot named
  \<open>self\<close> or the \<open>ValueError\<close> of an unknown retry stage.  \<open>repr\<close> of a text is taken without escapes.
\<close>

subsection \<open>Calls\<close>

record agent_call =
  ac_name :: string
  ac_system_prompt :: pyval
  ac_tool_globs :: "string list option"
  ac_max_steps :: int
  ac_max_seconds :: rat
  ac_output_schema :: "pydict option"
  ac_caller_scopes :: "string list option"
  ac_model :: "string option"
  ac_goal :: string
  ac_tenant_id :: int
  ac_context :: "pydict option"

record agent_reply =
  ag_status :: string
  ag_output :: pyval
  ag_errors :: "string list"

datatype op_reply = OpResult pyval | OpError string

record flow_env =
  fe_run_agent :: "nat \<Rightarrow> agent_call \<Rightarrow> agent_reply"
  fe_execute :: "nat \<Rightarrow> string \<Rightarrow> string \<Rightarrow> pydict \<Rightarrow> string list option \<Rightarrow> op_reply"
  fe_select_model :: "FlowSpec \<Rightarrow> StageSpec \<Rightarrow> string option"

record flow_request =
  fr_goal :: string
  fr_tenant_id :: int
  fr_session_id :: "string option"
  fr_caller_scopes :: "string list option"
  fr_inputs :: "pydict option"

definition repr_of :: "string \<Rightarrow> string" where
  "repr_of s = [CHR 0x27] @ s @ [CHR 0x27]"

definition default_system_prompt :: "FlowSpec \<Rightarrow> StageSpec \<Rightarrow> pyval" where
  "default_system_prompt spec st =
     (if truthy (st_system_prompt st) then st_system_prompt st
      else PStr (''You are executing stage '' @ repr_of (st_id st) @ '' of flow '' @ repr_of (fl_name spec) @ ''.''))"

text \<open>The slots a stage reads, as the dictionary comprehension builds it.\<close>

fun stage_args :: "string list \<Rightarrow> pydict \<Rightarrow> pydict \<Rightarrow> pydict" where
  "stage_args [] slots d = d"
| "stage_args (k # ks) slots d =
     stage_args ks slots (if has_key k slots then dset k (dget_none k slots) d else d)"

definition run_agentic_stage ::
    "flow_env \<Rightarrow> FlowSpec \<Rightarrow> StageSpec \<Rightarrow> flow_request \<Rightarrow> nat \<Rightarrow> pydict \<Rightarrow> string + pydict" where
  "run_agentic_stage env spec st req n slots =
     (let args = stage_args (st_reads st) slots [];
          call = \<lparr>ac_name = fl_flow_id spec @ '':'' @ st_id st, ac_system_prompt = default_system_prompt spec st,
            ac_tool_globs = (if st_tool_globs st = [] then None else Some (st_tool_globs st)),
            ac_max_steps = st_max_steps st, ac_max_seconds = st_max_seconds st,
            ac_output_schema = st_output_schema st, ac_caller_scopes = fr_caller_scopes req,
            ac_model = fe_select_model env spec st, ac_goal = fr_goal req, ac_tenant_id = fr_tenant_id req,
            ac_context = (if args = [] then None else Some args)\<rparr>;
          r = fe_run_agent env n call;
          errs = join_with ''; '' (ag_errors r) in
      if ag_status r = ''error'' then Inl (''agent error: '' @ (if errs = [] then ''unknown'' else errs))
      else Inr (dict_of (ag_output r)))"

definition run_deterministic_stage ::
    "flow_env \<Rightarrow> StageSpec \<Rightarrow> flow_request \<Rightarrow> nat \<Rightarrow> pydict \<Rightarrow> string + pydict" where
  "run_deterministic_stage env st req n slots =
     (let op = (case st_op st of None \<Rightarrow> [] | Some s \<Rightarrow> s);
          plugin = takeWhile (\<lambda>c. c \<noteq> CHR ''/'') op;
          operation = drop (length plugin + 1) op in
      if plugin = [] \<or> operation = []
      then Inl (''malformed op reference '' @ (case st_op st of None \<Rightarrow> ''None'' | Some s \<Rightarrow> repr_of s) @ '' (expected '' @ repr_of ''plugin/op'' @ '')'')
      else case fe_execute env n plugin operation (stage_args (st_reads st) slots []) (fr_caller_scopes req) of
        OpError m \<Rightarrow> Inl (''execute_operation failed: '' @ m)
      | OpResult (PDict d) \<Rightarrow> Inr d
      | OpResult v \<Rightarrow> Inr [(''result'', v)])"

definition check_required_outputs :: "StageSpec \<Rightarrow> pydict \<Rightarrow> string list" where
  "check_required_outputs st out = filter (\<lambda>k. dget_none k out = PNone) (st_required_outputs st)"

definition run_one_stage ::
    "flow_env \<Rightarrow> FlowSpec \<Rightarrow> StageSpec \<Rightarrow> flow_request \<Rightarrow> nat \<Rightarrow> pydict \<Rightarrow> string + (pydict \<times> string list)" where
  "run_one_stage env spec st req n slots =
     (case (if st_kind st = ''agentic'' then run_agentic_stage env spec st req n slots
            else run_deterministic_stage env st req n slots) of
        Inl reason \<Rightarrow>
          (if st_on_fail st = ''continue'' then Inr ([], st_required_outputs st) else Inl reason)
      | Inr out \<Rightarrow> Inr (out, check_required_outputs st out))"

subsection \<open>The run\<close>

record phase =
  ph_stage :: string
  ph_ok :: bool
  ph_reason :: "string option"

record run_state =
  rs_idx :: nat
  rs_slots :: pydict
  rs_history :: "(string \<times> string list) list"
  rs_rounds :: "(string \<times> int) list"
  rs_phases :: "phase list"
  rs_steps :: nat

datatype flow_end = Completed | BudgetExceeded | StageFailed string string | OutputsMissing string "string list"

datatype flow_outcome = Finished flow_end run_state | Raised

definition stage_order :: "FlowSpec \<Rightarrow> string list" where
  "stage_order spec = map st_id (fl_stages spec)"

definition stage_by_id :: "FlowSpec \<Rightarrow> string \<Rightarrow> StageSpec option" where
  "stage_by_id spec sid = map_of (rev (map (\<lambda>s. (st_id s, s)) (fl_stages spec))) sid"

definition write_slots :: "pydict \<Rightarrow> pydict \<Rightarrow> pydict option" where
  "write_slots kvs slots = (if has_key ''self'' kvs then None else Some (dict_update slots kvs))"

fun stage_writes :: "string list \<Rightarrow> pydict \<Rightarrow> pydict \<Rightarrow> pydict" where
  "stage_writes [] out d = d"
| "stage_writes (k # ks) out d =
     stage_writes ks out (if has_key k out then dset k (dget_none k out) d else d)"

definition wants_repeat :: "StageSpec \<Rightarrow> pydict \<Rightarrow> (string \<times> int) list \<Rightarrow> RepeatUntil option" where
  "wants_repeat st out rounds =
     (case st_repeat_until st of
        None \<Rightarrow> None
      | Some ru \<Rightarrow>
          (if \<not> py_eq (dget_none (ru_field ru) out) (ru_equals ru)
              \<and> (case map_of rounds (st_id st) of None \<Rightarrow> 0 | Some u \<Rightarrow> u) < ru_max_rounds ru
           then Some ru else None))"

definition after_stage ::
    "FlowSpec \<Rightarrow> StageSpec \<Rightarrow> pydict \<Rightarrow> string list \<Rightarrow> run_state \<Rightarrow> run_state + flow_outcome" where
  "after_stage spec st out missing rs =
     (case (if st_writes st = [] then Some (rs_slots rs)
            else write_slots (stage_writes (st_writes st) out []) (rs_slots rs)) of
        None \<Rightarrow> Inr Raised
      | Some slots \<Rightarrow>
          (let rs1 = rs\<lparr>rs_slots := slots, rs_history := rs_history rs @ [(st_id st, missing)],
                        rs_phases := rs_phases rs @ [\<lparr>ph_stage = st_id st, ph_ok = (missing = []), ph_reason = None\<rparr>]\<rparr> in
           if missing \<noteq> [] then Inr (Finished (OutputsMissing (st_id st) missing) rs1)
           else case wants_repeat st out (rs_rounds rs1) of
             None \<Rightarrow> Inl (rs1\<lparr>rs_idx := rs_idx rs1 + 1\<rparr>)
           | Some ru \<Rightarrow>
               (let used = (case map_of (rs_rounds rs1) (st_id st) of None \<Rightarrow> 0 | Some u \<Rightarrow> u) in
                case index_where (\<lambda>s. s = ru_on_retry_stage ru) (stage_order spec) of
                  None \<Rightarrow> Inr Raised
                | Some j \<Rightarrow> Inl (rs1\<lparr>rs_rounds := dset (st_id st) (used + 1) (rs_rounds rs1), rs_idx := j\<rparr>))))"

definition flow_step :: "flow_env \<Rightarrow> FlowSpec \<Rightarrow> flow_request \<Rightarrow> run_state \<Rightarrow> run_state + flow_outcome" where
  "flow_step env spec req rs =
     (let order = stage_order spec in
      if \<not> rs_idx rs < length order then Inr (Finished Completed rs)
      else if rs_steps rs \<ge> length order * 8 then Inr (Finished BudgetExceeded rs)
      else case stage_by_id spec (order ! rs_idx rs) of
        None \<Rightarrow> Inr Raised
      | Some st \<Rightarrow>
          (let rs1 = rs\<lparr>rs_steps := rs_steps rs + 1\<rparr> in
           case run_one_stage env spec st req (rs_steps rs) (rs_slots rs) of
             Inl reason \<Rightarrow>
               Inr (Finished (StageFailed (st_id st) reason)
                     (rs1\<lparr>rs_phases := rs_phases rs1 @ [\<lparr>ph_stage = st_id st, ph_ok = False, ph_reason = Some reason\<rparr>]\<rparr>))
           | Inr (out, missing) \<Rightarrow> after_stage spec st out missing rs1))"

definition init_run :: "flow_request \<Rightarrow> run_state option" where
  "init_run req =
     map_option (\<lambda>slots. \<lparr>rs_idx = 0, rs_slots = slots, rs_history = [], rs_rounds = [], rs_phases = [], rs_steps = 0\<rparr>)
       (case fr_inputs req of
          None \<Rightarrow> Some [(''goal'', PStr (fr_goal req))]
        | Some inputs \<Rightarrow> write_slots inputs [(''goal'', PStr (fr_goal req))])"

definition flow_fuel :: "FlowSpec \<Rightarrow> nat" where
  "flow_fuel spec = 8 * length (fl_stages spec) + 1"

definition run_outcome :: "flow_env \<Rightarrow> FlowSpec \<Rightarrow> flow_request \<Rightarrow> flow_outcome option" where
  "run_outcome env spec req =
     (case init_run req of None \<Rightarrow> Some Raised | Some rs \<Rightarrow> run_loop (flow_step env spec req) (flow_fuel spec) rs)"

subsection \<open>The envelope\<close>

definition phase_py :: "phase \<Rightarrow> pyval" where
  "phase_py p = PDict ([(''phase'', PStr (ph_stage p)), (''status'', PStr (if ph_ok p then ''ok'' else ''error''))]
     @ (case ph_reason p of None \<Rightarrow> [] | Some r \<Rightarrow> [(''reason'', PStr r)]))"

definition passthrough_keys :: "string list" where
  "passthrough_keys = [''short_id'', ''portfolio_job_id'', ''blocks'', ''patched_block_ids'', ''focus_slug'',
     ''highlight_slugs'', ''dag'', ''pending_job'', ''warnings'', ''overlay_status'', ''recommendations'']"

definition set_if_given :: "string \<Rightarrow> pyval \<Rightarrow> pydict \<Rightarrow> pydict" where
  "set_if_given k v d = (if v = PNone then d else dset k v d)"

definition base_envelope ::
    "bool \<Rightarrow> FlowSpec \<Rightarrow> phase list \<Rightarrow> string option \<Rightarrow> pydict \<Rightarrow> pydict" where
  "base_envelope ok spec phases session extra =
     (let n = show_nat (length phases);
          summary = ''Flow '' @ repr_of (fl_flow_id spec)
            @ (if ok then '' completed ('' @ n @ '' stage(s)).'' else '' failed after '' @ n @ '' stage(s).'');
          d = [(''status'', PStr (if ok then ''ok'' else ''error'')), (''summary'', PStr summary), (''message'', PStr summary),
               (''phases'', PList (map phase_py phases)), (''specialist'', PBool True),
               (''specialist_domain'', PStr (if fl_owner spec = [] then fl_flow_id spec else fl_owner spec)),
               (''flow_id'', PStr (fl_flow_id spec))];
          d1 = (case session of Some (c # cs) \<Rightarrow> dset ''session_id'' (PStr (c # cs)) d | _ \<Rightarrow> d) in
      fold (\<lambda>(k, v). set_if_given k v) extra d1)"

definition with_board :: "pydict \<Rightarrow> pydict \<Rightarrow> pydict" where
  "with_board slots d =
     (let d1 = (case dget_none ''layout'' slots of
                  PDict l \<Rightarrow> dset ''carry'' (PDict (dset ''layout'' (PDict l) (dict_of (dget_none ''carry'' d))))
                               (dset ''layout'' (PDict l) d)
                | _ \<Rightarrow> d);
          d2 = fold (\<lambda>k. set_if_given k (dget_none k slots)) passthrough_keys d1 in
      case dget_none ''answer_markdown'' slots of
        PStr a \<Rightarrow> (if strip a = [] then d2 else dset ''message'' (PStr (strip a)) (dset ''summary'' (PStr (strip a)) d2))
      | _ \<Rightarrow> d2)"

definition envelope :: "FlowSpec \<Rightarrow> flow_request \<Rightarrow> flow_end \<Rightarrow> run_state \<Rightarrow> pydict" where
  "envelope spec req fin rs =
     (let sid = fr_session_id req; phases = rs_phases rs in
      case fin of
        Completed \<Rightarrow> with_board (rs_slots rs) (base_envelope True spec phases sid [(''carry'', PDict (rs_slots rs))])
      | BudgetExceeded \<Rightarrow> base_envelope False spec phases sid [(''error'', PStr ''flow_step_budget_exceeded'')]
      | StageFailed s m \<Rightarrow>
          base_envelope False spec phases sid [(''error'', PStr ''stage_failed''), (''stage'', PStr s), (''message'', PStr m)]
      | OutputsMissing s ks \<Rightarrow>
          base_envelope False spec phases sid
            [(''error'', PStr ''required_outputs_missing''), (''stage'', PStr s), (''missing'', PList (map PStr ks))])"

text \<open>\<open>None\<close> is the exception of the outcome \<open>Raised\<close>; the fuel always suffices.\<close>

definition run_flow :: "flow_env \<Rightarrow> FlowSpec \<Rightarrow> flow_request \<Rightarrow> pydict option" where
  "run_flow env spec req =
     (case run_outcome env spec req of Some (Finished fin rs) \<Rightarrow> Some (envelope spec req fin rs) | _ \<Rightarrow> None)"

subsection \<open>One iteration\<close>

text \<open>The state after a stage that went through, before the index moves.\<close>

definition stage_done :: "StageSpec \<Rightarrow> pydict \<Rightarrow> run_state \<Rightarrow> run_state" where
  "stage_done st slots rs =
     rs\<lparr>rs_slots := slots, rs_history := rs_history rs @ [(st_id st, [])],
        rs_phases := rs_phases rs @ [\<lparr>ph_stage = st_id st, ph_ok = True, ph_reason = None\<rparr>], rs_steps := rs_steps rs + 1\<rparr>"

definition rounds_used :: "StageSpec \<Rightarrow> run_state \<Rightarrow> int" where
  "rounds_used st rs = (case map_of (rs_rounds rs) (st_id st) of None \<Rightarrow> 0 | Some u \<Rightarrow> u)"

lemma stage_by_id_Some: "stage_by_id spec sid = Some st \<Longrightarrow> st \<in> set (fl_stages spec) \<and> st_id st = sid"
  by (auto simp: stage_by_id_def dest!: map_of_SomeD)

lemma stage_by_id_total: "i < length (stage_order spec) \<Longrightarrow> stage_by_id spec (stage_order spec ! i) \<noteq> None"
  by (auto simp: stage_by_id_def stage_order_def map_of_eq_None_iff image_image)

lemma keys_dict_update: "fst ` set (dict_update d kvs) = fst ` set d \<union> fst ` set kvs"
proof (induction d kvs rule: dict_update.induct)
  case (2 d k v kvs)
  then show ?case by (simp del: image_insert) auto
qed simp

lemma dict_update_mem: "(k, v) \<in> set (dict_update d kvs) \<Longrightarrow> k \<in> fst ` set d \<union> fst ` set kvs"
  unfolding keys_dict_update [symmetric] by (rule image_eqI [of _ fst "(k, v)"]) simp_all

lemma keys_stage_writes: "fst ` set (stage_writes ks out d) \<subseteq> fst ` set d \<union> set ks"
  by (induction ks out d rule: stage_writes.induct) (auto split: if_splits)

text \<open>The slots after a stage: only declared names are added.\<close>

definition slots_after :: "StageSpec \<Rightarrow> pydict \<Rightarrow> pydict \<Rightarrow> pydict option" where
  "slots_after st out slots =
     (if st_writes st = [] then Some slots else write_slots (stage_writes (st_writes st) out []) slots)"

lemma slots_after_keys:
  assumes "slots_after st out slots = Some slots'"
  shows "fst ` set slots' \<subseteq> fst ` set slots \<union> set (st_writes st)"
proof (cases "st_writes st = []")
  case True
  with assms show ?thesis by (simp add: slots_after_def)
next
  case False
  with assms have "slots' = dict_update slots (stage_writes (st_writes st) out [])"
    by (simp add: slots_after_def write_slots_def split: if_splits)
  then show ?thesis using keys_stage_writes [of "st_writes st" out "[]"] by (simp only: keys_dict_update) auto
qed

lemma slots_after_total:
  assumes "''self'' \<notin> set (st_writes st)"
  shows "slots_after st out slots \<noteq> None"
  using assms keys_stage_writes [of "st_writes st" out "[]"] by (auto simp: slots_after_def write_slots_def has_key_iff)

lemma flow_step_Inl:
  assumes "flow_step env spec req rs = Inl rs'"
  obtains st out slots where
    "rs_idx rs < length (stage_order spec)" "rs_steps rs < length (stage_order spec) * 8"
    "stage_by_id spec (stage_order spec ! rs_idx rs) = Some st"
    "run_one_stage env spec st req (rs_steps rs) (rs_slots rs) = Inr (out, [])" "slots_after st out (rs_slots rs) = Some slots"
    "(wants_repeat st out (rs_rounds rs) = None \<and> rs' = (stage_done st slots rs)\<lparr>rs_idx := rs_idx rs + 1\<rparr>)
     \<or> (\<exists>ru j. wants_repeat st out (rs_rounds rs) = Some ru
          \<and> index_where (\<lambda>s. s = ru_on_retry_stage ru) (stage_order spec) = Some j
          \<and> rs' = (stage_done st slots rs)\<lparr>rs_rounds := dset (st_id st) (rounds_used st rs + 1) (rs_rounds rs), rs_idx := j\<rparr>)"
proof -
  from assms obtain st out missing where
    a: "rs_idx rs < length (stage_order spec)" "rs_steps rs < length (stage_order spec) * 8"
    "stage_by_id spec (stage_order spec ! rs_idx rs) = Some st"
    "run_one_stage env spec st req (rs_steps rs) (rs_slots rs) = Inr (out, missing)"
    "after_stage spec st out missing (rs\<lparr>rs_steps := rs_steps rs + 1\<rparr>) = Inl rs'"
    by (auto simp: flow_step_def Let_def split: if_splits option.splits sum.splits)
  from a(5) have m: "missing = []" by (auto simp: after_stage_def Let_def split: if_splits option.splits)
  from a(5) obtain slots where sl: "slots_after st out (rs_slots rs) = Some slots"
    by (auto simp: after_stage_def slots_after_def Let_def split: if_splits option.splits)
  have e: "after_stage spec st out [] (rs\<lparr>rs_steps := rs_steps rs + 1\<rparr>)
      = (case wants_repeat st out (rs_rounds rs) of
           None \<Rightarrow> Inl ((stage_done st slots rs)\<lparr>rs_idx := rs_idx rs + 1\<rparr>)
         | Some ru \<Rightarrow> (case index_where (\<lambda>s. s = ru_on_retry_stage ru) (stage_order spec) of
             None \<Rightarrow> Inr Raised
           | Some j \<Rightarrow> Inl ((stage_done st slots rs)\<lparr>rs_rounds := dset (st_id st) (rounds_used st rs + 1) (rs_rounds rs), rs_idx := j\<rparr>)))"
    using sl unfolding after_stage_def slots_after_def [symmetric]
    by (simp add: slots_after_def Let_def stage_done_def rounds_used_def split: option.split)
  show thesis using that [OF a(1-3) _ sl] a(4,5) unfolding m e by (auto split: option.splits)
qed


fun ends_at :: "flow_end \<Rightarrow> string option" where
  "ends_at (StageFailed s m) = Some s"
| "ends_at (OutputsMissing s ks) = Some s"
| "ends_at _ = None"

lemma after_stage_end:
  assumes "after_stage spec st out missing rs = Inr (Finished fin rs')"
  shows "fin = OutputsMissing (st_id st) missing \<and> missing \<noteq> [] \<and> rs_steps rs' = rs_steps rs
    \<and> rs_phases rs' = rs_phases rs @ [\<lparr>ph_stage = st_id st, ph_ok = False, ph_reason = None\<rparr>]
    \<and> slots_after st out (rs_slots rs) = Some (rs_slots rs')"
  using assms unfolding after_stage_def slots_after_def [symmetric]
  by (auto simp: Let_def split: if_splits option.splits)

lemma flow_step_end:
  assumes "flow_step env spec req rs = Inr (Finished fin rs')"
  shows "(fin = Completed \<and> rs' = rs \<and> \<not> rs_idx rs < length (stage_order spec))
    \<or> (fin = BudgetExceeded \<and> rs' = rs \<and> rs_idx rs < length (stage_order spec) \<and> length (stage_order spec) * 8 \<le> rs_steps rs)
    \<or> (\<exists>st p. rs_idx rs < length (stage_order spec) \<and> stage_by_id spec (stage_order spec ! rs_idx rs) = Some st
         \<and> ph_stage p = st_id st \<and> \<not> ph_ok p \<and> ends_at fin = Some (st_id st)
         \<and> rs_phases rs' = rs_phases rs @ [p] \<and> rs_steps rs' = rs_steps rs + 1 \<and> rs_steps rs < length (stage_order spec) * 8
         \<and> fst ` set (rs_slots rs') \<subseteq> fst ` set (rs_slots rs) \<union> set (st_writes st))"
proof (cases "\<not> rs_idx rs < length (stage_order spec) \<or> length (stage_order spec) * 8 \<le> rs_steps rs")
  case True
  with assms show ?thesis by (auto simp: flow_step_def Let_def split: if_splits)
next
  case False
  with assms obtain st where st: "stage_by_id spec (stage_order spec ! rs_idx rs) = Some st"
    by (auto simp: flow_step_def Let_def split: option.splits)
  let ?rs1 = "rs\<lparr>rs_steps := rs_steps rs + 1\<rparr>"
  show ?thesis
  proof (cases "run_one_stage env spec st req (rs_steps rs) (rs_slots rs)")
    case (Inl reason)
    with assms False st have "fin = StageFailed (st_id st) reason \<and> rs' = ?rs1\<lparr>rs_phases := rs_phases rs
        @ [\<lparr>ph_stage = st_id st, ph_ok = False, ph_reason = Some reason\<rparr>]\<rparr>"
      by (auto simp: flow_step_def Let_def)
    with False st show ?thesis by (intro disjI2 exI [of _ st]) auto
  next
    case (Inr r)
    obtain out missing where r: "r = (out, missing)" by (cases r)
    with assms False st Inr have "after_stage spec st out missing ?rs1 = Inr (Finished fin rs')"
      by (simp add: flow_step_def Let_def)
    note e = after_stage_end [OF this]
    then have "slots_after st out (rs_slots rs) = Some (rs_slots rs')" by simp
    from slots_after_keys [OF this] e False st show ?thesis by (intro disjI2 exI [of _ st]) auto
  qed
qed

subsection \<open>Invariant and termination\<close>

definition declared_slots :: "FlowSpec \<Rightarrow> flow_request \<Rightarrow> string set" where
  "declared_slots spec req =
     insert ''goal'' ((case fr_inputs req of None \<Rightarrow> {} | Some d \<Rightarrow> fst ` set d) \<union> (\<Union>st\<in>set (fl_stages spec). set (st_writes st)))"

text \<open>
  While a run goes on, every phase so far is a success, there is one for each step, the stages before
  the index have run, only declared slots exist, and the steps are paid for by the number of
  stages for the first pass and for each retry.
\<close>

definition backward_retries :: "FlowSpec \<Rightarrow> bool" where
  "backward_retries spec \<longleftrightarrow>
     (\<forall>i<length (stage_order spec). \<forall>st ru j. stage_by_id spec (stage_order spec ! i) = Some st \<longrightarrow>
        st_repeat_until st = Some ru \<longrightarrow>
        index_where (\<lambda>s. s = ru_on_retry_stage ru) (stage_order spec) = Some j \<longrightarrow> j \<le> i)"

definition retry_limit :: "FlowSpec \<Rightarrow> string \<Rightarrow> int" where
  "retry_limit spec sid =
     (case stage_by_id spec sid of None \<Rightarrow> 0
      | Some st \<Rightarrow> (case st_repeat_until st of None \<Rightarrow> 0 | Some ru \<Rightarrow> max 0 (ru_max_rounds ru)))"

definition total_rounds :: "FlowSpec \<Rightarrow> int" where
  "total_rounds spec = (\<Sum>sid\<in>set (stage_order spec). retry_limit spec sid)"

definition rounds_of :: "run_state \<Rightarrow> string \<Rightarrow> int" where
  "rounds_of rs sid = (case map_of (rs_rounds rs) sid of None \<Rightarrow> 0 | Some u \<Rightarrow> u)"

definition budget_inv :: "FlowSpec \<Rightarrow> run_state \<Rightarrow> bool" where
  "budget_inv spec rs \<longleftrightarrow> (\<forall>sid\<in>set (stage_order spec). rounds_of rs sid \<le> retry_limit spec sid)
     \<and> int (rs_steps rs) + int (length (stage_order spec)) - int (rs_idx rs)
         \<le> int (length (stage_order spec)) * (1 + (\<Sum>sid\<in>set (stage_order spec). rounds_of rs sid))"

definition flow_inv :: "FlowSpec \<Rightarrow> flow_request \<Rightarrow> run_state \<Rightarrow> bool" where
  "flow_inv spec req rs \<longleftrightarrow>
     length (rs_phases rs) = rs_steps rs \<and> rs_steps rs \<le> length (stage_order spec) * 8
     \<and> (\<forall>p\<in>set (rs_phases rs). ph_ok p)
     \<and> (backward_retries spec \<longrightarrow> set (take (rs_idx rs) (stage_order spec)) \<subseteq> ph_stage ` set (rs_phases rs))
     \<and> fst ` set (rs_slots rs) \<subseteq> declared_slots spec req \<and> budget_inv spec rs"

lemma stage_writes_declared: "st \<in> set (fl_stages spec) \<Longrightarrow> set (st_writes st) \<subseteq> declared_slots spec req"
  by (auto simp: declared_slots_def)

lemma wants_repeat_Some: "wants_repeat st out rounds = Some ru \<Longrightarrow> st_repeat_until st = Some ru"
  by (auto simp: wants_repeat_def split: option.splits if_splits)

lemma wants_repeat_limit:
  assumes "wants_repeat st out (rs_rounds rs) = Some ru" "stage_by_id spec sid = Some st"
  shows "rounds_of rs sid + 1 \<le> retry_limit spec sid"
proof -
  have "st_id st = sid" using stage_by_id_Some [OF assms(2)] by simp
  with assms show ?thesis
    by (auto simp: wants_repeat_def rounds_of_def retry_limit_def split: option.splits if_splits)
qed

lemma sum_bump:
  assumes "finite A" "k \<in> A" "f' k = f k + 1" "\<And>x. x \<noteq> k \<Longrightarrow> f' x = f x"
  shows "(\<Sum>x\<in>A. f' x) = (\<Sum>x\<in>A. f x) + (1::int)"
proof -
  have "(\<Sum>x\<in>A - {k}. f' x) = (\<Sum>x\<in>A - {k}. f x)" using assms(4) by (intro sum.cong) auto
  then show ?thesis using sum.remove [OF assms(1,2), of f'] sum.remove [OF assms(1,2), of f] assms(3) by simp
qed

lemma budget_forward:
  assumes "budget_inv spec rs"
  shows "budget_inv spec ((stage_done st slots rs)\<lparr>rs_idx := rs_idx rs + 1\<rparr>)"
  using assms by (simp add: budget_inv_def rounds_of_def stage_done_def)

lemma budget_retry:
  assumes "budget_inv spec rs" "rs_idx rs < length (stage_order spec)"
    "stage_by_id spec (stage_order spec ! rs_idx rs) = Some st" "wants_repeat st out (rs_rounds rs) = Some ru"
  shows "budget_inv spec ((stage_done st slots rs)\<lparr>rs_rounds := dset (st_id st) (rounds_used st rs + 1) (rs_rounds rs), rs_idx := j\<rparr>)"
    (is "budget_inv spec ?rs'")
proof -
  let ?o = "stage_order spec" and ?n = "int (length (stage_order spec))"
  have sid: "st_id st = ?o ! rs_idx rs" "st_id st \<in> set ?o" using stage_by_id_Some [OF assms(3)] assms(2) by auto
  have bump: "rounds_of ?rs' (st_id st) = rounds_of rs (st_id st) + 1" "x \<noteq> st_id st \<Longrightarrow> rounds_of ?rs' x = rounds_of rs x" for x
    by (simp_all add: rounds_of_def rounds_used_def)
  have total: "(\<Sum>x\<in>set ?o. rounds_of ?rs' x) = (\<Sum>x\<in>set ?o. rounds_of rs x) + 1"
    by (rule sum_bump [where k = "st_id st" and f = "rounds_of rs" and f' = "rounds_of ?rs'"])
      (simp_all add: bump sid(2))
  have "rounds_of rs (st_id st) + 1 \<le> retry_limit spec (st_id st)"
    unfolding sid(1) by (rule wants_repeat_limit [OF assms(4,3)])
  then have limit: "\<forall>x\<in>set ?o. rounds_of ?rs' x \<le> retry_limit spec x"
    using assms(1) bump unfolding budget_inv_def by metis
  have "int (rs_steps rs) + ?n - int (rs_idx rs) \<le> ?n * (1 + (\<Sum>x\<in>set ?o. rounds_of rs x))"
    using assms(1) by (simp add: budget_inv_def)
  moreover have "int (rs_idx rs) + 1 \<le> ?n" using assms(2) by simp
  ultimately have "int (rs_steps rs) + 1 + ?n - int j \<le> ?n * (1 + ((\<Sum>x\<in>set ?o. rounds_of rs x) + 1))"
    by (simp add: algebra_simps)
  then show ?thesis using limit unfolding budget_inv_def total by (simp add: stage_done_def)
qed

lemma flow_inv_step:
  assumes inv: "flow_inv spec req rs" and step: "flow_step env spec req rs = Inl rs'"
  shows "flow_inv spec req rs'"
proof -
  let ?o = "stage_order spec"
  from step show ?thesis
  proof (rule flow_step_Inl)
    fix st out slots
    assume a: "rs_idx rs < length ?o" "rs_steps rs < length ?o * 8" "stage_by_id spec (?o ! rs_idx rs) = Some st"
      and sa: "slots_after st out (rs_slots rs) = Some slots"
      and n: "(wants_repeat st out (rs_rounds rs) = None \<and> rs' = (stage_done st slots rs)\<lparr>rs_idx := rs_idx rs + 1\<rparr>)
        \<or> (\<exists>ru j. wants_repeat st out (rs_rounds rs) = Some ru
             \<and> index_where (\<lambda>s. s = ru_on_retry_stage ru) ?o = Some j
             \<and> rs' = (stage_done st slots rs)\<lparr>rs_rounds := dset (st_id st) (rounds_used st rs + 1) (rs_rounds rs), rs_idx := j\<rparr>)"
    note st = stage_by_id_Some [OF a(3)]
    have "fst ` set (rs_slots rs) \<subseteq> declared_slots spec req" using inv by (simp add: flow_inv_def)
    then have "fst ` set (rs_slots rs) \<union> set (st_writes st) \<subseteq> declared_slots spec req"
      using stage_writes_declared [of st spec req] st by (intro Un_least) simp_all
    with slots_after_keys [OF sa] have sl: "fst ` set slots \<subseteq> declared_slots spec req" by (rule order_trans)
    from n have same: "rs_phases rs' = rs_phases rs @ [\<lparr>ph_stage = st_id st, ph_ok = True, ph_reason = None\<rparr>]"
      "rs_steps rs' = rs_steps rs + 1" "rs_slots rs' = slots" by (elim disjE exE conjE; simp add: stage_done_def)+
    have visited: "set (take (rs_idx rs') ?o) \<subseteq> ph_stage ` set (rs_phases rs')" if bw: "backward_retries spec"
    proof -
      have old: "set (take (rs_idx rs) ?o) \<subseteq> ph_stage ` set (rs_phases rs)" using inv bw by (simp add: flow_inv_def)
      have "rs_idx rs' \<le> rs_idx rs + 1"
        using n
      proof (elim disjE exE conjE)
        fix ru j
        assume r: "wants_repeat st out (rs_rounds rs) = Some ru" "index_where (\<lambda>s. s = ru_on_retry_stage ru) ?o = Some j"
          and rs': "rs' = (stage_done st slots rs)\<lparr>rs_rounds := dset (st_id st) (rounds_used st rs + 1) (rs_rounds rs), rs_idx := j\<rparr>"
        have "j \<le> rs_idx rs"
          using bw a(1,3) wants_repeat_Some [OF r(1)] r(2) unfolding backward_retries_def by blast
        then show ?thesis by (simp add: rs')
      qed simp
      then have "set (take (rs_idx rs') ?o) \<subseteq> set (take (Suc (rs_idx rs)) ?o)" by (intro set_take_subset_set_take) simp
      also have "\<dots> = insert (st_id st) (set (take (rs_idx rs) ?o))" using a(1) st by (simp add: take_Suc_conv_app_nth)
      finally show ?thesis using old unfolding same(1) by auto
    qed
    have "budget_inv spec rs" using inv by (simp add: flow_inv_def)
    then have "budget_inv spec rs'"
      using n budget_forward budget_retry [OF _ a(1,3)] by blast
    then show ?thesis using inv visited sl a(2) unfolding flow_inv_def same by auto
  qed
qed

interpretation flow_loop: bounded_loop "flow_step env spec req" "flow_inv spec req"
  "\<lambda>rs. length (stage_order spec) * 8 - rs_steps rs" for env spec req
proof
  fix rs rs' assume "flow_inv spec req rs" "flow_step env spec req rs = Inl rs'"
  then show "flow_inv spec req rs'" by (rule flow_inv_step)
next
  fix rs rs' assume "flow_inv spec req rs" and step: "flow_step env spec req rs = Inl rs'"
  from step show "length (stage_order spec) * 8 - rs_steps rs' < length (stage_order spec) * 8 - rs_steps rs"
    by (rule flow_step_Inl) (auto simp: stage_done_def)
qed

lemma init_run_budget: "init_run req = Some rs \<Longrightarrow> budget_inv spec rs"
  by (auto simp: init_run_def budget_inv_def rounds_of_def retry_limit_def split: option.splits)

lemma init_run_inv: "init_run req = Some rs \<Longrightarrow> flow_inv spec req rs"
  using init_run_budget [of req rs spec] dict_update_mem [of _ _ "[(''goal'', PStr (fr_goal req))]"]
  by (fastforce simp: init_run_def flow_inv_def declared_slots_def write_slots_def split: option.splits if_splits)

lemma init_run_steps: "init_run req = Some rs \<Longrightarrow> rs_steps rs = 0 \<and> rs_idx rs = 0 \<and> rs_rounds rs = []"
  by (auto simp: init_run_def)

lemma length_stage_order [simp]: "length (stage_order spec) = length (fl_stages spec)"
  by (simp add: stage_order_def)

lemma run_outcome_total: "\<exists>r. run_outcome env spec req = Some r"
proof (cases "init_run req")
  case (Some rs)
  have "length (stage_order spec) * 8 - rs_steps rs < flow_fuel spec" by (simp add: flow_fuel_def)
  with flow_loop.returns [OF init_run_inv [OF Some] this] Some show ?thesis by (simp add: run_outcome_def)
qed (simp add: run_outcome_def)

lemma run_outcome_Finished:
  assumes "run_outcome env spec req = Some (Finished fin rs)"
  obtains rs0 where "flow_inv spec req rs0" "flow_step env spec req rs0 = Inr (Finished fin rs)"
proof -
  from assms obtain s where s: "init_run req = Some s" "run_loop (flow_step env spec req) (flow_fuel spec) s = Some (Finished fin rs)"
    by (auto simp: run_outcome_def split: option.splits)
  from flow_loop.exits [OF init_run_inv [OF s(1)] s(2)] that show thesis by blast
qed

subsection \<open>Properties\<close>

lemma total_rounds_bound:
  assumes "budget_inv spec rs"
  shows "(\<Sum>sid\<in>set (stage_order spec). rounds_of rs sid) \<le> total_rounds spec"
  unfolding total_rounds_def using assms by (intro sum_mono) (simp add: budget_inv_def)

text \<open>
  C33: Every run ends, and its cost is bounded.  For any flow, any request and any answers of the agents and
  operations, the runner returns, and unless an exception leaves it, it has run at most eight
  times as many stages as the flow has, with one phase in the envelope for each.
\<close>

theorem run_flow_terminates:
  "\<exists>r. run_outcome env spec req = Some r
     \<and> (case r of Raised \<Rightarrow> run_flow env spec req = None
        | Finished fin rs \<Rightarrow> run_flow env spec req = Some (envelope spec req fin rs)
            \<and> length (rs_phases rs) = rs_steps rs \<and> rs_steps rs \<le> 8 * length (fl_stages spec))"
proof -
  obtain r where r: "run_outcome env spec req = Some r" using run_outcome_total by blast
  show ?thesis
  proof (cases r)
    case (Finished fin rs)
    from run_outcome_Finished [OF r [unfolded Finished]] obtain rs0 where
      rs0: "flow_inv spec req rs0" "flow_step env spec req rs0 = Inr (Finished fin rs)" .
    have "length (rs_phases rs) = rs_steps rs \<and> rs_steps rs \<le> 8 * length (fl_stages spec)"
      using flow_step_end [OF rs0(2)] rs0(1) by (elim disjE exE conjE) (simp_all add: flow_inv_def)
    with r Finished show ?thesis by (simp add: run_flow_def)
  next
    case Raised
    with r show ?thesis by (simp add: run_flow_def)
  qed
qed

text \<open>
  C34: A run fails closed.  A run that completes had only successful phases and, when retries only go back to the
  stage itself or an earlier one, ran every stage of the flow; a run that a stage ends has exactly
  one failed phase, the last one, and it is that stage's: nothing runs after a failure.
\<close>

theorem run_fails_closed:
  assumes "run_outcome env spec req = Some (Finished fin rs)"
  shows "(fin = Completed \<longrightarrow> (\<forall>p\<in>set (rs_phases rs). ph_ok p)
           \<and> (backward_retries spec \<longrightarrow> set (stage_order spec) \<subseteq> ph_stage ` set (rs_phases rs)))
    \<and> (\<forall>sid. ends_at fin = Some sid \<longrightarrow>
         (\<exists>ps p. rs_phases rs = ps @ [p] \<and> (\<forall>q\<in>set ps. ph_ok q) \<and> \<not> ph_ok p \<and> ph_stage p = sid
            \<and> sid \<in> set (stage_order spec)))"
proof -
  from run_outcome_Finished [OF assms] obtain rs0 where
    rs0: "flow_inv spec req rs0" "flow_step env spec req rs0 = Inr (Finished fin rs)" .
  have inv: "\<forall>p\<in>set (rs_phases rs0). ph_ok p"
    "backward_retries spec \<Longrightarrow> set (take (rs_idx rs0) (stage_order spec)) \<subseteq> ph_stage ` set (rs_phases rs0)"
    using rs0(1) by (simp_all add: flow_inv_def)
  from flow_step_end [OF rs0(2)] show ?thesis
  proof (elim disjE exE conjE)
    assume "fin = Completed" "rs = rs0" "\<not> rs_idx rs0 < length (stage_order spec)"
    then show ?thesis using inv by simp
  next
    assume "fin = BudgetExceeded"
    then show ?thesis by simp
  next
    fix st p assume a: "rs_idx rs0 < length (stage_order spec)" "stage_by_id spec (stage_order spec ! rs_idx rs0) = Some st"
      "ph_stage p = st_id st" "\<not> ph_ok p" "ends_at fin = Some (st_id st)" "rs_phases rs = rs_phases rs0 @ [p]"
    have "st_id st \<in> set (stage_order spec)" using a(1) stage_by_id_Some [OF a(2)] nth_mem by metis
    moreover have "fin \<noteq> Completed" using a(5) by auto
    ultimately show ?thesis using a inv by auto
  qed
qed

text \<open>
  The step budget never cuts a modest flow short.  When the retry rounds that the stages of a flow declare
  add up to at most seven, no run of it ends with the step budget exceeded, whatever the stages
  answer.
\<close>

theorem retry_budget_suffices:
  assumes "total_rounds spec \<le> 7"
  shows "run_outcome env spec req \<noteq> Some (Finished BudgetExceeded rs)"
proof
  assume "run_outcome env spec req = Some (Finished BudgetExceeded rs)"
  from run_outcome_Finished [OF this] obtain rs0 where
    rs0: "flow_inv spec req rs0" "flow_step env spec req rs0 = Inr (Finished BudgetExceeded rs)" .
  let ?n = "int (length (stage_order spec))" and ?u = "\<Sum>sid\<in>set (stage_order spec). rounds_of rs0 sid"
  have end_: "rs_idx rs0 < length (stage_order spec)" "length (stage_order spec) * 8 \<le> rs_steps rs0"
    using flow_step_end [OF rs0(2)] by auto
  have b: "budget_inv spec rs0" using rs0(1) by (simp add: flow_inv_def)
  then have "int (rs_steps rs0) + ?n - int (rs_idx rs0) \<le> ?n * (1 + ?u)" by (simp add: budget_inv_def)
  also have "\<dots> \<le> ?n * 8" using total_rounds_bound [OF b] assms by (intro mult_left_mono) simp_all
  also have "\<dots> \<le> int (rs_steps rs0)" using end_(2) by simp
  finally show False using end_(1) by simp
qed

text \<open>
  A run touches declared slots only.  The slots of the board at the end of a run are among the goal, the
  request's inputs and the names that the flow's stages declare in \<open>writes\<close>.
\<close>

theorem run_writes_declared_slots:
  assumes "run_outcome env spec req = Some (Finished fin rs)"
  shows "fst ` set (rs_slots rs) \<subseteq> declared_slots spec req"
proof -
  from run_outcome_Finished [OF assms] obtain rs0 where
    rs0: "flow_inv spec req rs0" "flow_step env spec req rs0 = Inr (Finished fin rs)" .
  have inv: "fst ` set (rs_slots rs0) \<subseteq> declared_slots spec req" using rs0(1) by (simp add: flow_inv_def)
  from flow_step_end [OF rs0(2)] show ?thesis
  proof (elim disjE exE conjE)
    fix st assume st: "stage_by_id spec (stage_order spec ! rs_idx rs0) = Some st"
      and sub: "fst ` set (rs_slots rs) \<subseteq> fst ` set (rs_slots rs0) \<union> set (st_writes st)"
    have "set (st_writes st) \<subseteq> declared_slots spec req"
      using stage_writes_declared stage_by_id_Some [OF st] by simp
    with inv have "fst ` set (rs_slots rs0) \<union> set (st_writes st) \<subseteq> declared_slots spec req" by (rule Un_least)
    with sub show ?thesis by (rule order_trans)
  qed (use inv in simp_all)
qed

lemma after_stage_not_raised:
  assumes "''self'' \<notin> set (st_writes st)"
    and "\<And>ru. st_repeat_until st = Some ru \<Longrightarrow> ru_on_retry_stage ru \<in> set (stage_order spec)"
  shows "after_stage spec st out missing rs \<noteq> Inr Raised"
proof -
  obtain slots where sl: "slots_after st out (rs_slots rs) = Some slots" using slots_after_total [OF assms(1)] by blast
  have "index_where (\<lambda>s. s = ru_on_retry_stage ru) (stage_order spec) \<noteq> None" if "wants_repeat st out rounds = Some ru" for rounds ru
    using assms(2) wants_repeat_Some [OF that] by (simp add: index_where_None)
  then have found: "index_where (\<lambda>s. s = ru_on_retry_stage ru) (stage_order spec) \<noteq> None"
    if "wants_repeat st out (rs_rounds rs) = Some ru" for ru using that by blast
  show ?thesis
  proof (cases "wants_repeat st out (rs_rounds rs)")
    case None
    then show ?thesis unfolding after_stage_def slots_after_def [symmetric] sl by (simp add: Let_def)
  next
    case (Some ru)
    from found [OF Some] obtain j where "index_where (\<lambda>s. s = ru_on_retry_stage ru) (stage_order spec) = Some j" by blast
    with Some show ?thesis unfolding after_stage_def slots_after_def [symmetric] sl by (simp add: Let_def)
  qed
qed

text \<open>
  A parsed flow never makes the runner raise.  When a flow comes out of the parser and neither its stages nor
  the request's inputs name a slot \<open>self\<close>, every run ends with an envelope: each retry finds its
  stage and every write goes through.
\<close>

theorem parsed_flow_returns_envelope:
  assumes "parse_flow_spec v owner = Inr spec" "''self'' \<notin> declared_slots spec req"
  shows "run_flow env spec req \<noteq> None"
proof -
  have wf: "wf_stage (stage_order spec) st" if "st \<in> set (fl_stages spec)" for st
    using parse_flow_spec_sound_facts [OF assms(1)] that by (simp add: wf_flow_def stage_order_def)
  have step: "flow_step env spec req rs \<noteq> Inr Raised" for rs
  proof
    assume "flow_step env spec req rs = Inr Raised"
    then obtain st out missing rs1 where st: "stage_by_id spec (stage_order spec ! rs_idx rs) = Some st"
      "after_stage spec st out missing rs1 = Inr Raised"
    proof (cases "rs_idx rs < length (stage_order spec) \<and> \<not> length (stage_order spec) * 8 \<le> rs_steps rs")
      case True
      with stage_by_id_total obtain st where "stage_by_id spec (stage_order spec ! rs_idx rs) = Some st" by blast
      with True \<open>flow_step env spec req rs = Inr Raised\<close> that show thesis
        by (auto simp: flow_step_def Let_def split: sum.splits)
    qed (auto simp: flow_step_def Let_def split: if_splits)
    have mem: "st \<in> set (fl_stages spec)" using stage_by_id_Some [OF st(1)] by simp
    have "''self'' \<notin> set (st_writes st)" using assms(2) mem by (auto simp: declared_slots_def)
    moreover have "ru_on_retry_stage ru \<in> set (stage_order spec)" if "st_repeat_until st = Some ru" for ru
      using wf [OF mem] that by (simp add: wf_stage_def wf_repeat_def)
    ultimately show False using after_stage_not_raised st(2) by blast
  qed
  have "init_run req \<noteq> None"
    using assms(2) by (auto simp: init_run_def write_slots_def declared_slots_def has_key_iff split: option.splits)
  then obtain rs where rs: "init_run req = Some rs" by blast
  obtain r where r: "run_outcome env spec req = Some r" using run_outcome_total by blast
  then have "run_loop (flow_step env spec req) (flow_fuel spec) rs = Some r" using rs by (simp add: run_outcome_def)
  from flow_loop.exits [OF init_run_inv [OF rs] this] obtain rs' where "flow_step env spec req rs' = Inr r" by blast
  with step have "r \<noteq> Raised" by metis
  with r show ?thesis by (cases r) (simp_all add: run_flow_def)
qed

subsection \<open>A sample run\<close>

text \<open>An agent whose first answer lacks the target score and whose second one has it.\<close>

definition sample_env :: flow_env where
  "sample_env = \<lparr>fe_run_agent = (\<lambda>n call. \<lparr>ag_status = ''ok'',
        ag_output = PDict [(''text'', PStr ''draft''), (''score'', PBool (n > 0))], ag_errors = []\<rparr>),
     fe_execute = (\<lambda>n p o' args sc. OpError ''unavailable''), fe_select_model = (\<lambda>f s. None)\<rparr>"

definition sample_request :: flow_request where
  "sample_request = \<lparr>fr_goal = ''write a note'', fr_tenant_id = 1, fr_session_id = None,
     fr_caller_scopes = Some [''plugin:world''], fr_inputs = None\<rparr>"

definition sample_end :: run_state where
  "sample_end = \<lparr>rs_idx = 1, rs_slots = [(''goal'', PStr ''write a note''), (''text'', PStr ''draft''), (''score'', PBool True)],
     rs_history = [(''draft'', []), (''draft'', [])], rs_rounds = [(''draft'', 1)],
     rs_phases = [\<lparr>ph_stage = ''draft'', ph_ok = True, ph_reason = None\<rparr>, \<lparr>ph_stage = ''draft'', ph_ok = True, ph_reason = None\<rparr>],
     rs_steps = 2\<rparr>"

lemma sample_outcome: "run_outcome sample_env sample_flow sample_request = Some (Finished Completed sample_end)"
  by code_simp

lemma sample_declared: "declared_slots sample_flow sample_request = {''goal'', ''text'', ''score''}"
  by (simp add: declared_slots_def sample_request_def sample_flow_def sample_stage_def)

theorem run_fails_closed_witness: "set (stage_order sample_flow) \<subseteq> ph_stage ` set (rs_phases sample_end)"
proof -
  have "backward_retries sample_flow"
    by (auto simp: backward_retries_def stage_order_def sample_flow_def sample_stage_def)
  with run_fails_closed [OF sample_outcome] show ?thesis by blast
qed

theorem retry_budget_suffices_witness:
  "run_outcome sample_env sample_flow sample_request \<noteq> Some (Finished BudgetExceeded sample_end)"
proof -
  have "total_rounds sample_flow \<le> 7" by code_simp
  then show ?thesis by (rule retry_budget_suffices)
qed

theorem run_writes_declared_slots_witness: "fst ` set (rs_slots sample_end) \<subseteq> {''goal'', ''text'', ''score''}"
  using run_writes_declared_slots [OF sample_outcome] unfolding sample_declared .

theorem parsed_flow_returns_envelope_witness: "run_flow sample_env sample_flow sample_request \<noteq> None"
  by (rule parsed_flow_returns_envelope [OF sample_flow_parsed]) (simp add: sample_declared)

text \<open>
  The limits of the contract.  A stage may declare more rounds than the step budget allows; a retry may
  go forward and skip a stage; a stage whose \<open>on_fail\<close> is \<open>retry:N\<close> is not run again.
\<close>

definition one_stage :: "StageSpec \<Rightarrow> FlowSpec" where
  "one_stage st = sample_flow\<lparr>fl_stages := [st]\<rparr>"

lemma declared_rounds_beyond_budget:
  "map_option (\<lambda>r. case r of Finished fin rs \<Rightarrow> (fin, rs_steps rs) | Raised \<Rightarrow> (Completed, 0))
     (run_outcome (sample_env\<lparr>fe_run_agent := \<lambda>n call. \<lparr>ag_status = ''ok'', ag_output = PDict [(''text'', PStr ''d''), (''score'', PBool (n > 8))], ag_errors = []\<rparr>\<rparr>)
        (one_stage (sample_stage\<lparr>st_repeat_until := Some \<lparr>ru_field = ''score'', ru_equals = PBool True, ru_max_rounds = 10, ru_on_retry_stage = ''draft''\<rparr>\<rparr>))
        sample_request) = Some (BudgetExceeded, 8)"
  by code_simp

lemma forward_retry_skips_stage:
  "map_option (\<lambda>r. case r of Finished fin rs \<Rightarrow> (fin, map ph_stage (rs_phases rs)) | Raised \<Rightarrow> (Completed, []))
     (run_outcome sample_env
        (sample_flow\<lparr>fl_stages := [sample_stage\<lparr>st_repeat_until := Some \<lparr>ru_field = ''score'', ru_equals = PBool True, ru_max_rounds = 1, ru_on_retry_stage = ''publish''\<rparr>\<rparr>,
            sample_stage\<lparr>st_id := ''review'', st_repeat_until := None\<rparr>, sample_stage\<lparr>st_id := ''publish'', st_repeat_until := None\<rparr>]\<rparr>)
        sample_request) = Some (Completed, [''draft'', ''publish''])"
  by code_simp

lemma retry_mode_runs_once:
  "map_option (\<lambda>r. case r of Finished fin rs \<Rightarrow> (fin, rs_steps rs) | Raised \<Rightarrow> (Completed, 0))
     (run_outcome (sample_env\<lparr>fe_run_agent := \<lambda>n call. \<lparr>ag_status = ''error'', ag_output = PNone, ag_errors = []\<rparr>\<rparr>)
        (one_stage (sample_stage\<lparr>st_on_fail := ''retry:3''\<rparr>)) sample_request)
   = Some (StageFailed ''draft'' ''agent error: unknown'', 1)"
  by code_simp

end
