(* ===== verification/FlowRegistry.thy ===== *)
theory FlowRegistry
  imports FlowRunner
begin

text \<open>
  Which handler a specialist goal gets: the registry of flows
  (\<open>core_graph/subgraphs/specialist/flow_registry.py\<close>) with the catalog entries it publishes, and the
  registry of domain runners with \<open>run_specialist\<close> (\<open>registry.py\<close> beside it).  Publishing may raise, which
  the code logs and ignores: the flag of \<open>sync_catalog\<close> says whether it went through.  A domain
  runner and the generic pipeline are parameters; a runner may raise, decline or answer.
\<close>

subsection \<open>The flow registry\<close>

record flow_op =
  fo_operation_id :: string
  fo_description :: string
  fo_input_schema :: pydict
  fo_tags :: "string list"

definition default_flow_input_schema :: pydict where
  "default_flow_input_schema =
     [(''type'', PStr ''object''), (''properties'', PDict [(''goal'', PDict [(''type'', PStr ''string'')])]),
      (''required'', PList [PStr ''goal''])]"

definition flow_to_operation :: "FlowSpec \<Rightarrow> flow_op" where
  "flow_to_operation f =
     \<lparr>fo_operation_id = fl_flow_id f,
      fo_description = (if fl_name f = [] then fl_flow_id f else fl_name f),
      fo_input_schema = (case fl_inputs_schema f of Some (x # xs) \<Rightarrow> x # xs | _ \<Rightarrow> default_flow_input_schema),
      fo_tags = map (append ''goap_requires:'') (fl_requires f) @ map (append ''goap_provides:'') (fl_provides f)
        @ [''specialist_flow'', ''owner:'' @ fl_owner f]\<rparr>"

record flow_registry =
  fg_flows :: "(string \<times> FlowSpec) list"
  fg_published :: "flow_op list"

definition empty_flow_registry :: flow_registry where
  "empty_flow_registry = \<lparr>fg_flows = [], fg_published = []\<rparr>"

definition sync_catalog :: "bool \<Rightarrow> flow_registry \<Rightarrow> flow_registry" where
  "sync_catalog ok r = (if ok then r\<lparr>fg_published := map (flow_to_operation \<circ> snd) (fg_flows r)\<rparr> else r)"

text \<open>\<open>None\<close> is the \<open>ValueError\<close> of an empty flow id.\<close>

definition flow_register :: "bool \<Rightarrow> FlowSpec \<Rightarrow> flow_registry \<Rightarrow> flow_registry option" where
  "flow_register ok f r =
     (if fl_flow_id f = [] then None
      else Some (sync_catalog ok (r\<lparr>fg_flows := dset (fl_flow_id f) f (fg_flows r)\<rparr>)))"

definition flow_get :: "string \<Rightarrow> flow_registry \<Rightarrow> FlowSpec option" where
  "flow_get fid r = map_of (fg_flows r) fid"

definition list_flows :: "string option \<Rightarrow> flow_registry \<Rightarrow> FlowSpec list" where
  "list_flows owner r =
     (let flows = sort_key fl_flow_id (map snd (fg_flows r)) in
      case owner of None \<Rightarrow> flows | Some o' \<Rightarrow> filter (\<lambda>f. fl_owner f = o') flows)"

definition flow_unregister :: "bool \<Rightarrow> string \<Rightarrow> flow_registry \<Rightarrow> bool \<times> flow_registry" where
  "flow_unregister ok fid r =
     (let removed = (map_of (fg_flows r) fid \<noteq> None); r' = r\<lparr>fg_flows := dpop fid (fg_flows r)\<rparr> in
      (removed, if removed then sync_catalog ok r' else r'))"

definition flow_unregister_owner :: "bool \<Rightarrow> string \<Rightarrow> flow_registry \<Rightarrow> nat \<times> flow_registry" where
  "flow_unregister_owner ok owner r =
     (let dead = map fst (filter (\<lambda>(fid, f). fl_owner f = owner) (fg_flows r));
          r' = r\<lparr>fg_flows := fold dpop dead (fg_flows r)\<rparr> in
      (length dead, if dead \<noteq> [] then sync_catalog ok r' else r'))"

definition flow_clear :: "bool \<Rightarrow> flow_registry \<Rightarrow> flow_registry" where
  "flow_clear ok r = sync_catalog ok (r\<lparr>fg_flows := []\<rparr>)"

definition select_flow :: "string option \<Rightarrow> string option \<Rightarrow> flow_registry \<Rightarrow> FlowSpec option" where
  "select_flow goal goal_class r =
     (let q = strip (case goal of None \<Rightarrow> [] | Some g \<Rightarrow> g) in
      if q = [] then None
      else find (\<lambda>f. claim_matches (fl_claims f) (Some q) goal_class) (list_flows None r))"

text \<open>The catalog entry of a flow: the tenant of the context (\<open>None\<close> without one) and its scopes.\<close>

definition dispatch_flow ::
    "flow_env \<Rightarrow> flow_registry \<Rightarrow> string \<Rightarrow> string \<Rightarrow> pydict \<Rightarrow> int option \<Rightarrow> string list option \<Rightarrow> pydict option" where
  "dispatch_flow env r fid goal extra tenant sc =
     (case flow_get fid r of
        None \<Rightarrow> Some [(''status'', PStr ''error''), (''error'', PStr ''flow_not_found''), (''flow_id'', PStr fid)]
      | Some f \<Rightarrow>
          (let tid = (case tenant of None \<Rightarrow> 1 | Some t \<Rightarrow> if t \<le> 0 then 1 else t) in
           run_flow env f \<lparr>fr_goal = goal, fr_tenant_id = tid, fr_session_id = None, fr_caller_scopes = sc,
                           fr_inputs = (if extra = [] then None else Some extra)\<rparr>))"

subsection \<open>Domain runners\<close>

datatype runner_reply = RunnerRaised | Declined | Answer pyval

type_synonym domain_runner = "string \<Rightarrow> runner_reply"

definition register_domain :: "string \<Rightarrow> domain_runner option \<Rightarrow> (string \<times> domain_runner) list \<Rightarrow> (string \<times> domain_runner) list" where
  "register_domain name runner rs =
     (case runner of
        None \<Rightarrow> rs
      | Some f \<Rightarrow>
          (if strip name = [] then rs else filter (\<lambda>(k, _). k \<noteq> strip name) rs @ [(strip name, f)]))"

definition unregister_domain :: "string \<Rightarrow> (string \<times> domain_runner) list \<Rightarrow> bool \<times> (string \<times> domain_runner) list" where
  "unregister_domain name rs =
     (let rs' = filter (\<lambda>(k, _). k \<noteq> name) rs in (length rs' < length rs, rs'))"

definition list_domains :: "(string \<times> domain_runner) list \<Rightarrow> string list" where
  "list_domains rs = map fst rs"

definition stamp_domain :: "string \<Rightarrow> pyval \<Rightarrow> pyval" where
  "stamp_domain name v =
     (case v of
        PDict d \<Rightarrow>
          (if \<not> has_key ''specialist'' d
           then PDict (dset ''specialist_domain'' (PStr name) (dset ''specialist'' (PBool True) d))
           else if has_key ''specialist_domain'' d then PDict d
           else PDict (dset ''specialist_domain'' (PStr name) d))
      | _ \<Rightarrow> v)"

fun first_answer :: "(string \<times> domain_runner) list \<Rightarrow> string \<Rightarrow> pyval option" where
  "first_answer [] q = None"
| "first_answer ((name, f) # rs) q =
     (case f q of Answer v \<Rightarrow> (if v = PNone then first_answer rs q else Some (stamp_domain name v))
      | _ \<Rightarrow> first_answer rs q)"

definition run_specialist ::
    "flow_env \<Rightarrow> flow_registry \<Rightarrow> (string \<times> domain_runner) list \<Rightarrow> (string \<Rightarrow> pyval) \<Rightarrow> flow_request
     \<Rightarrow> string option \<Rightarrow> pyval" where
  "run_specialist env r domains generic req goal_class =
     (let q = strip (fr_goal req);
          fallback = (case first_answer (rev domains) q of Some v \<Rightarrow> v | None \<Rightarrow> generic q) in
      case select_flow (Some q) goal_class r of
        None \<Rightarrow> fallback
      | Some f \<Rightarrow>
          (case run_flow env f (req\<lparr>fr_goal := q\<rparr>) of Some e \<Rightarrow> PDict e | None \<Rightarrow> fallback))"

subsection \<open>Invariant\<close>

definition flows_ok :: "flow_registry \<Rightarrow> bool" where
  "flows_ok r \<longleftrightarrow> distinct (map fst (fg_flows r)) \<and> (\<forall>x\<in>set (fg_flows r). fst x = fl_flow_id (snd x) \<and> fl_flow_id (snd x) \<noteq> [])"

definition in_sync :: "flow_registry \<Rightarrow> bool" where
  "in_sync r \<longleftrightarrow> fg_published r = map (flow_to_operation \<circ> snd) (fg_flows r)"

datatype reg_op = Register FlowSpec | Unregister string | UnregisterOwner string | Clear

definition reg_apply :: "bool \<Rightarrow> reg_op \<Rightarrow> flow_registry \<Rightarrow> flow_registry" where
  "reg_apply ok op r =
     (case op of
        Register f \<Rightarrow> (case flow_register ok f r of Some r' \<Rightarrow> r' | None \<Rightarrow> r)
      | Unregister fid \<Rightarrow> snd (flow_unregister ok fid r)
      | UnregisterOwner o' \<Rightarrow> snd (flow_unregister_owner ok o' r)
      | Clear \<Rightarrow> flow_clear ok r)"

lemma fg_flows_sync [simp]: "fg_flows (sync_catalog ok r) = fg_flows r"
  by (simp add: sync_catalog_def)

lemma fold_dpop: "fold dpop ks d = filter (\<lambda>(k, _). k \<notin> set ks) d"
  by (induction ks arbitrary: d) (auto simp: dpop_def intro!: filter_cong)

lemma unregister_owner_flows:
  assumes "distinct (map fst (fg_flows r))"
  shows "fg_flows (snd (flow_unregister_owner ok owner r)) = filter (\<lambda>(fid, f). fl_owner f \<noteq> owner) (fg_flows r)"
proof -
  let ?dead = "map fst (filter (\<lambda>(fid, f). fl_owner f = owner) (fg_flows r))"
  have "k \<in> set ?dead \<longleftrightarrow> fl_owner f = owner" if "(k, f) \<in> set (fg_flows r)" for k f
  proof
    assume "k \<in> set ?dead"
    then obtain f' where "(k, f') \<in> set (fg_flows r)" "fl_owner f' = owner" by auto
    with that assms have "f' = f" by (metis map_of_is_SomeI option.inject)
    with \<open>fl_owner f' = owner\<close> show "fl_owner f = owner" by simp
  qed (use that in force)
  then have "filter (\<lambda>(k, _). k \<notin> set ?dead) (fg_flows r) = filter (\<lambda>(fid, f). fl_owner f \<noteq> owner) (fg_flows r)"
    by (intro filter_cong) auto
  moreover have "fg_flows (snd (flow_unregister_owner ok owner r)) = fold dpop ?dead (fg_flows r)"
    by (cases "?dead = []") (simp_all add: flow_unregister_owner_def Let_def)
  ultimately show ?thesis by (simp only: fold_dpop)
qed

lemma set_dset_sub: "set (dset k v d) \<subseteq> insert (k, v) (set d)"
  by (induction k v d rule: dset.induct) auto

lemma reg_apply_ok: "flows_ok r \<Longrightarrow> flows_ok (reg_apply ok op r)"
proof (cases op)
  case (Register f)
  assume "flows_ok r"
  then show ?thesis using Register set_dset_sub [of "fl_flow_id f" f "fg_flows r"]
    by (auto simp: reg_apply_def flow_register_def flows_ok_def distinct_dset split: option.split)
next
  case (Unregister fid)
  assume "flows_ok r"
  then show ?thesis using Unregister
    by (auto simp: reg_apply_def flow_unregister_def Let_def flows_ok_def dpop_def intro!: distinct_map_filter)
next
  case (UnregisterOwner o')
  assume r: "flows_ok r"
  then have "fg_flows (reg_apply ok op r) = filter (\<lambda>(fid, f). fl_owner f \<noteq> o') (fg_flows r)"
    using UnregisterOwner unregister_owner_flows by (simp add: reg_apply_def flows_ok_def)
  with r show ?thesis by (simp add: flows_ok_def distinct_map_filter)
next
  case Clear
  then show ?thesis by (simp add: reg_apply_def flow_clear_def flows_ok_def)
qed

lemma dpop_absent: "map_of d k = None \<Longrightarrow> dpop k d = d"
  unfolding dpop_def map_of_eq_None_iff by (rule filter_True) (auto dest: image_eqI [of _ fst, rotated])

lemma in_sync_sync: "in_sync (sync_catalog True r)"
  by (simp add: in_sync_def sync_catalog_def)

lemma reg_apply_sync: "in_sync r \<Longrightarrow> in_sync (reg_apply True op r)"
proof (cases op)
  case (Register f)
  assume "in_sync r"
  with Register show ?thesis by (simp add: reg_apply_def flow_register_def in_sync_sync)
next
  case (Unregister fid)
  assume "in_sync r"
  then show ?thesis using Unregister dpop_absent [of "fg_flows r" fid]
    by (cases "map_of (fg_flows r) fid") (simp_all add: reg_apply_def flow_unregister_def Let_def in_sync_sync)
next
  case (UnregisterOwner o')
  assume "in_sync r"
  with UnregisterOwner show ?thesis
    by (cases "filter (\<lambda>(fid, f). fl_owner f = o') (fg_flows r) = []")
      (simp_all add: reg_apply_def flow_unregister_owner_def Let_def in_sync_sync)
next
  case Clear
  then show ?thesis by (simp add: reg_apply_def flow_clear_def in_sync_sync)
qed

lemma reg_run_ok: "flows_ok r \<and> in_sync r \<Longrightarrow> flows_ok (fold (reg_apply True) ops r) \<and> in_sync (fold (reg_apply True) ops r)"
  by (induction ops arbitrary: r) (auto simp: reg_apply_ok reg_apply_sync)

lemma empty_registry_ok: "flows_ok empty_flow_registry" "in_sync empty_flow_registry"
  by (simp_all add: flows_ok_def in_sync_def empty_flow_registry_def)

text \<open>
  The catalog mirrors the flow registry.  After any sequence of registrations, removals of a flow or
  of an owner and clearings, from an empty registry and with publishing that goes through, each flow is
  stored under its own non-empty id and the published operations are exactly those of the
  registered flows, in their order; and removing an owner leaves no flow of that owner and
  every other flow untouched.
\<close>

theorem catalog_mirrors_registry:
  "(let r = fold (reg_apply True) ops empty_flow_registry in
      distinct (map fst (fg_flows r)) \<and> map fst (fg_flows r) = map (fl_flow_id \<circ> snd) (fg_flows r) \<and> [] \<notin> fst ` set (fg_flows r)
      \<and> map fo_operation_id (fg_published r) = map fst (fg_flows r)
      \<and> fg_flows (snd (flow_unregister_owner ok owner r)) = filter (\<lambda>(fid, f). fl_owner f \<noteq> owner) (fg_flows r))"
proof -
  let ?r = "fold (reg_apply True) ops empty_flow_registry"
  have ok: "flows_ok ?r" "in_sync ?r"
    using reg_run_ok [of empty_flow_registry ops] empty_registry_ok by simp_all
  then have "map fo_operation_id (fg_published ?r) = map fst (fg_flows ?r)"
    by (auto simp: in_sync_def flows_ok_def flow_to_operation_def)
  moreover have "map fst (fg_flows ?r) = map (fl_flow_id \<circ> snd) (fg_flows ?r)" "[] \<notin> fst ` set (fg_flows ?r)"
    using ok(1) by (force simp: flows_ok_def)+
  ultimately show ?thesis using ok unregister_owner_flows by (simp add: Let_def flows_ok_def)
qed

lemma find_member: "find P xs = Some x \<Longrightarrow> x \<in> set xs \<and> P x"
  by (auto simp: find_Some_iff)

lemma find_sorted_least:
  assumes "find P (sort_key k xs) = Some x" "y \<in> set xs" "P y"
  shows "k x \<le> k y"
proof -
  from assms(1) obtain i where i: "i < length (sort_key k xs)" "sort_key k xs ! i = x" "\<forall>j<i. \<not> P (sort_key k xs ! j)"
    by (auto simp: find_Some_iff)
  from assms(2) obtain j where j: "j < length (sort_key k xs)" "sort_key k xs ! j = y"
    by (metis in_set_conv_nth set_sort)
  with i(3) assms(3) have "i \<le> j" by (meson leI)
  then have "map k (sort_key k xs) ! i \<le> map k (sort_key k xs) ! j"
    using sorted_nth_mono [OF sorted_sort_key [of k xs]] j(1) by simp
  with i j show ?thesis by simp
qed

lemma select_flow_goal: "select_flow goal gc r = Some f \<Longrightarrow> goal \<noteq> None \<and> map_option strip goal \<noteq> Some []"
  by (cases goal) (auto simp: select_flow_def Let_def split: if_splits)

lemma select_flow_facts:
  assumes "flows_ok r"
  shows "(case select_flow goal gc r of
      Some f \<Rightarrow> f \<in> snd ` set (fg_flows r) \<and> claim_matches (fl_claims f) (map_option strip goal) gc
        \<and> (\<forall>g\<in>snd ` set (fg_flows r). claim_matches (fl_claims g) (map_option strip goal) gc \<longrightarrow> fl_flow_id f \<le> fl_flow_id g)
    | None \<Rightarrow> map_option strip goal \<in> {None, Some []}
        \<or> (\<forall>g\<in>snd ` set (fg_flows r). \<not> claim_matches (fl_claims g) (map_option strip goal) gc))"
proof (cases "goal = None \<or> map_option strip goal = Some []")
  case True
  then show ?thesis by (auto simp: select_flow_def Let_def)
next
  case False
  then obtain g0 where g0: "goal = Some g0" "strip g0 \<noteq> []" by auto
  let ?P = "\<lambda>f. claim_matches (fl_claims f) (Some (strip g0)) gc" and ?xs = "map snd (fg_flows r)"
  have e: "select_flow goal gc r = find ?P (sort_key fl_flow_id ?xs)"
    using g0 by (simp add: select_flow_def Let_def list_flows_def)
  show ?thesis
  proof (cases "find ?P (sort_key fl_flow_id ?xs)")
    case None
    then have "\<forall>f\<in>set ?xs. \<not> ?P f" by (auto simp: find_None_iff)
    then show ?thesis unfolding e None by (simp add: g0(1))
  next
    case (Some f)
    have "f \<in> set ?xs \<and> ?P f" using find_member [OF Some] by simp
    with find_sorted_least [OF Some] show ?thesis unfolding e Some by (simp add: g0(1))
  qed
qed

text \<open>
  The choice of a flow does not depend on the order of registration.  A goal goes to the flow with the
  least id among the registered flows whose claim matches the trimmed goal, and to none
  when no claim matches or nothing is left of the goal; two registries that hold the same flows choose
  the same flow.
\<close>

theorem select_flow_least:
  assumes "flows_ok r" "flows_ok r'" "set (fg_flows r') = set (fg_flows r)"
  shows "select_flow goal gc r' = select_flow goal gc r
    \<and> (\<forall>f. select_flow goal gc r = Some f \<longrightarrow>
          f \<in> snd ` set (fg_flows r) \<and> claim_matches (fl_claims f) (map_option strip goal) gc
          \<and> (\<forall>g\<in>snd ` set (fg_flows r). claim_matches (fl_claims g) (map_option strip goal) gc \<longrightarrow> fl_flow_id f \<le> fl_flow_id g))"
proof -
  have unique: "f = g" if "f \<in> snd ` set (fg_flows r)" "g \<in> snd ` set (fg_flows r)" "fl_flow_id f = fl_flow_id g" for f g
  proof -
    from that obtain k l where kl: "(k, f) \<in> set (fg_flows r)" "(l, g) \<in> set (fg_flows r)" by auto
    with assms(1) that(3) have "k = l" unfolding flows_ok_def by (metis fst_conv snd_conv)
    with kl assms(1) show ?thesis unfolding flows_ok_def by (metis map_of_is_SomeI option.inject)
  qed
  note a = select_flow_facts [OF assms(1), of goal gc] and b = select_flow_facts [OF assms(2), of goal gc, unfolded assms(3)]
  have "select_flow goal gc r' = select_flow goal gc r"
  proof (cases "select_flow goal gc r")
    case None
    show ?thesis
    proof (cases "select_flow goal gc r'")
      case (Some f)
      from b Some have f: "f \<in> snd ` set (fg_flows r)" "claim_matches (fl_claims f) (map_option strip goal) gc" by simp_all
      note nz = select_flow_goal [OF Some]
      with a None f nz show ?thesis by auto
    qed (use None in simp)
  next
    case (Some f)
    from a Some have f: "f \<in> snd ` set (fg_flows r)" "claim_matches (fl_claims f) (map_option strip goal) gc"
      "\<forall>g\<in>snd ` set (fg_flows r). claim_matches (fl_claims g) (map_option strip goal) gc \<longrightarrow> fl_flow_id f \<le> fl_flow_id g"
      by simp_all
    note nz = select_flow_goal [OF Some]
    show ?thesis
    proof (cases "select_flow goal gc r'")
      case None
      with b nz f show ?thesis by auto
    next
      case (Some g)
      from b Some have g: "g \<in> snd ` set (fg_flows r)" "claim_matches (fl_claims g) (map_option strip goal) gc"
        "\<forall>h\<in>snd ` set (fg_flows r). claim_matches (fl_claims h) (map_option strip goal) gc \<longrightarrow> fl_flow_id g \<le> fl_flow_id h"
        by simp_all
      then have "fl_flow_id f = fl_flow_id g" using f by (metis order_antisym)
      with unique f(1) g(1) have "f = g" by blast
      with Some \<open>select_flow goal gc r = Some f\<close> show ?thesis by simp
    qed
  qed
  with a show ?thesis by (auto split: option.splits)
qed

definition two_flows :: flow_registry where
  "two_flows = fold (reg_apply True) [Register sample_flow, Register (sample_flow\<lparr>fl_flow_id := ''report''\<rparr>)] empty_flow_registry"

definition two_flows_swapped :: flow_registry where
  "two_flows_swapped = fold (reg_apply True) [Register (sample_flow\<lparr>fl_flow_id := ''report''\<rparr>), Register sample_flow] empty_flow_registry"

lemma two_flows_choice: "map_option fl_flow_id (select_flow (Some '' Write it '') None two_flows) = Some ''report''"
  by code_simp

theorem select_flow_least_witness:
  "select_flow (Some '' Write it '') None two_flows_swapped = select_flow (Some '' Write it '') None two_flows"
proof -
  have "flows_ok two_flows" "flows_ok two_flows_swapped"
    using reg_run_ok [of empty_flow_registry] empty_registry_ok unfolding two_flows_def two_flows_swapped_def by blast+
  moreover have "set (fg_flows two_flows_swapped) = set (fg_flows two_flows)"
    by (auto simp: two_flows_def two_flows_swapped_def reg_apply_def flow_register_def sync_catalog_def
        empty_flow_registry_def sample_flow_def)
  ultimately show ?thesis using select_flow_least by blast
qed

text \<open>
  The order of the specialist handlers.  The chosen flow's envelope is the answer whenever its run
  returns one, and no runner is asked; otherwise the runner registered last that neither raises
  nor declines answers, whatever was registered before it; and the generic pipeline answers
  when none does.
\<close>

theorem specialist_precedence:
  "(select_flow (Some (strip (fr_goal req))) gc r = Some f \<and> run_flow env f (req\<lparr>fr_goal := strip (fr_goal req)\<rparr>) = Some e
      \<longrightarrow> run_specialist env r domains generic req gc = PDict e)
   \<and> (select_flow (Some (strip (fr_goal req))) gc r = None \<longrightarrow>
        (\<forall>name g v later. domains = earlier @ (name, g) # later \<and> g (strip (fr_goal req)) = Answer v \<and> v \<noteq> PNone
            \<and> (\<forall>(k, h)\<in>set later. h (strip (fr_goal req)) \<in> {RunnerRaised, Declined})
           \<longrightarrow> run_specialist env r domains generic req gc = stamp_domain name v)
        \<and> ((\<forall>(k, h)\<in>set domains. h (strip (fr_goal req)) \<in> {RunnerRaised, Declined})
           \<longrightarrow> run_specialist env r domains generic req gc = generic (strip (fr_goal req))))"
proof -
  have skip: "first_answer (rs @ rest) q = first_answer rest q"
    if "\<forall>(k, h)\<in>set rs. h q \<in> {RunnerRaised, Declined}" for rs rest :: "(string \<times> domain_runner) list" and q
    using that by (induction rs) (auto split: runner_reply.splits)
  have "first_answer (rev domains) q = None" if "\<forall>(k, h)\<in>set domains. h q \<in> {RunnerRaised, Declined}" for q
    using skip [of "rev domains" q "[]"] that by simp
  moreover have "first_answer (rev (earlier @ (name, g) # later)) q = Some (stamp_domain name v)"
    if "\<forall>(k, h)\<in>set later. h q \<in> {RunnerRaised, Declined}" "g q = Answer v" "v \<noteq> PNone" for name g v later q
    using skip [of "rev later" q "(name, g) # rev earlier"] that by simp
  ultimately show ?thesis by (auto simp: run_specialist_def Let_def)
qed

theorem specialist_precedence_witness:
  "run_specialist sample_env two_flows [] (\<lambda>q. PStr q) (sample_request\<lparr>fr_goal := '' hello ''\<rparr>) None = PStr ''hello''"
proof -
  have "select_flow (Some ''hello'') None two_flows = None" "strip '' hello '' = ''hello''" by code_simp+
  then show ?thesis
    using specialist_precedence [of "sample_request\<lparr>fr_goal := '' hello ''\<rparr>" None two_flows _ sample_env _ "[]" "\<lambda>q. PStr q"]
    by simp
qed

end
