(* ===== verification/RoleSpec.thy ===== *)
theory RoleSpec
  imports FlowSpec
begin

text \<open>
  Model-role specs, \<open>core_graph/model_roles/role_spec.py\<close>: a role is a ladder of rungs with conditions on
  where to start and when to escalate.  Its parser follows the flow parser; the helpers
  \<open>_require_str\<close> and \<open>_opt_str_tuple\<close> are the same functions in both files, so \<open>require_str\<close> and
  \<open>flow_str_tuple\<close> stand for them, and a \<open>ModelRoleSpecError\<close> is a \<open>flow_error\<close>.  A reason is a constructor
  of \<open>reason\<close>; \<open>description\<close> is kept as the value that \<open>str\<close> renders.
\<close>

subsection \<open>Data\<close>

record Rung =
  rg_selector :: string
  rg_max_attempts :: int
  rg_timeout_s :: "rat option"

record Validation =
  vd_require_json :: bool
  vd_required_keys :: "string list"
  vd_enum_field :: "string option"
  vd_enum_values :: "string list"
  vd_non_empty :: bool

record StateCondition =
  sc_field :: string
  sc_op :: string
  sc_value :: pyval
  sc_advance :: int

record ModelRoleSpec =
  mr_role_id :: string
  mr_description :: pyval
  mr_ladder :: "Rung list"
  mr_validate :: "Validation option"
  mr_entry_conditions :: "StateCondition list"
  mr_escalate_on_exception :: bool
  mr_escalate_on_invalid :: bool
  mr_terminal_fallback :: string
  mr_owner :: string

datatype reason =
    Empty
  | NotJson
  | NotAnObject
  | MissingKey string
  | BadEnum string pyval
  | CustomReason string
  | ExceptionOf string

definition validation_check :: "Validation \<Rightarrow> pyval \<Rightarrow> reason option" where
  "validation_check vd v =
     (if vd_non_empty vd \<and> v \<in> {PNone, PStr [], PDict [], PList []} then Some Empty
      else if vd_require_json vd \<and> \<not> (is_dict v \<or> is_list v) then Some NotJson
      else if vd_required_keys vd \<noteq> [] \<and> \<not> is_dict v then Some NotAnObject
      else case filter (\<lambda>k. \<not> has_key k (dict_of v)) (vd_required_keys vd) of
        k # ks \<Rightarrow> Some (MissingKey k)
      | [] \<Rightarrow>
          (case vd_enum_field vd of
             Some (c # cs) \<Rightarrow>
               (if \<not> is_dict v then Some NotAnObject
                else (let got = dget_none (c # cs) (dict_of v) in
                      if vd_enum_values vd \<noteq> [] \<and> \<not> py_in got (map PStr (vd_enum_values vd))
                      then Some (BadEnum (c # cs) got) else None))
           | _ \<Rightarrow> None))"

text \<open>\<open>v in w\<close>, where \<open>None\<close> is a \<open>TypeError\<close>.\<close>

definition py_member :: "pyval \<Rightarrow> pyval \<Rightarrow> bool option" where
  "py_member v w =
     (case w of
        PList ws \<Rightarrow> Some (py_in v ws)
      | PStr s \<Rightarrow> (case v of PStr t \<Rightarrow> Some (contains t s) | _ \<Rightarrow> None)
      | PDict d \<Rightarrow> (if \<not> hashable v then None else Some (case v of PStr k \<Rightarrow> has_key k d | _ \<Rightarrow> False))
      | _ \<Rightarrow> None)"

definition condition_holds :: "StateCondition \<Rightarrow> pyval \<Rightarrow> bool" where
  "condition_holds c state =
     (case state of
        PDict d \<Rightarrow>
          (let v = dget_none (sc_field c) d; op = sc_op c in
           if op = ''present'' then has_key (sc_field c) d \<and> v \<noteq> PNone
           else if op = ''truthy'' then truthy v
           else if op = ''eq'' then py_eq v (sc_value c)
           else if op = ''in'' then py_member v (sc_value c) = Some True
           else if op = ''gt'' then py_gt v (sc_value c) = Some True
           else if op = ''gte'' then py_ge v (sc_value c) = Some True
           else False)
      | _ \<Rightarrow> False)"

subsection \<open>The parser\<close>

definition rung_place :: "string \<Rightarrow> nat \<Rightarrow> string" where
  "rung_place place i = place @ ''.ladder['' @ show_nat i @ '']''"

definition parse_timeout :: "pydict \<Rightarrow> string \<Rightarrow> flow_error + rat option" where
  "parse_timeout d place =
     (let v = dget_none ''timeout_s'' d in
      if v = PNone then Inr None
      else case num_of v of
        None \<Rightarrow> Inl (BadField place ''timeout_s'')
      | Some x \<Rightarrow> (if x \<le> 0 then Inl (BadField place ''timeout_s'') else Inr (Some x)))"

definition parse_rung :: "string \<Rightarrow> pyval \<Rightarrow> nat \<Rightarrow> flow_error + Rung" where
  "parse_rung place v i =
     (let rp = rung_place place i; keys = [''selector'', ''max_attempts'', ''timeout_s''] in
      case v of
        PDict d \<Rightarrow>
          rbind (ensure (unknown_keys keys d = []) (UnknownKeys rp (unknown_keys keys d))) (\<lambda>_.
          rbind (require_str d ''selector'' rp) (\<lambda>sel.
          rbind (positive_int d ''max_attempts'' 1 rp) (\<lambda>n.
          rbind (parse_timeout d rp) (\<lambda>t.
          Inr \<lparr>rg_selector = sel, rg_max_attempts = n, rg_timeout_s = t\<rparr>))))
      | _ \<Rightarrow> Inl (NotObject rp))"

definition parse_enum_field :: "pydict \<Rightarrow> string \<Rightarrow> flow_error + string option" where
  "parse_enum_field d place =
     (case dget_none ''enum_field'' d of
        PNone \<Rightarrow> Inr None | PStr s \<Rightarrow> Inr (Some s) | _ \<Rightarrow> Inl (BadField place ''enum_field''))"

definition validation_keys :: "string list" where
  "validation_keys = [''require_json'', ''required_keys'', ''enum_field'', ''enum_values'', ''non_empty'']"

definition parse_validation :: "pyval \<Rightarrow> string \<Rightarrow> flow_error + Validation option" where
  "parse_validation v place =
     (let vp = place @ ''.validate'' in
      case v of
        PNone \<Rightarrow> Inr None
      | PDict d \<Rightarrow>
          rbind (ensure (unknown_keys validation_keys d = []) (UnknownKeys vp (unknown_keys validation_keys d))) (\<lambda>_.
          rbind (flow_str_tuple d ''required_keys'' vp) (\<lambda>req.
          rbind (parse_enum_field d vp) (\<lambda>ef.
          rbind (flow_str_tuple d ''enum_values'' vp) (\<lambda>ev.
          rbind (ensure (ev = [] \<or> (ef \<noteq> None \<and> ef \<noteq> Some [])) (BadField vp ''enum_values'')) (\<lambda>_.
          Inr (Some \<lparr>vd_require_json = truthy (dget_or ''require_json'' (PBool False) d), vd_required_keys = req,
                     vd_enum_field = ef, vd_enum_values = ev,
                     vd_non_empty = truthy (dget_or ''non_empty'' (PBool True) d)\<rparr>))))))
      | _ \<Rightarrow> Inl (NotObject place))"

definition cond_ops :: "string list" where
  "cond_ops = [''gt'', ''gte'', ''eq'', ''truthy'', ''present'', ''in'']"

definition parse_cond_op :: "pydict \<Rightarrow> string \<Rightarrow> flow_error + string" where
  "parse_cond_op d place =
     (let v = dget_none ''op'' d in
      if \<not> hashable v then Inl (UnhashableEffort place)
      else if py_in v (map PStr cond_ops) then Inr (str_of v) else Inl (BadField place ''op''))"

definition condition_keys :: "string list" where
  "condition_keys = [''field'', ''op'', ''value'', ''advance'']"

definition parse_condition :: "string \<Rightarrow> pyval \<Rightarrow> nat \<Rightarrow> flow_error + StateCondition" where
  "parse_condition place v i =
     (let cp = place @ ''.entry_conditions['' @ show_nat i @ '']'' in
      case v of
        PDict d \<Rightarrow>
          rbind (ensure (unknown_keys condition_keys d = []) (UnknownKeys cp (unknown_keys condition_keys d))) (\<lambda>_.
          rbind (require_str d ''field'' cp) (\<lambda>fld.
          rbind (parse_cond_op d cp) (\<lambda>op.
          rbind (positive_int d ''advance'' 1 cp) (\<lambda>adv.
          Inr \<lparr>sc_field = fld, sc_op = op, sc_value = dget_none ''value'' d, sc_advance = adv\<rparr>))))
      | _ \<Rightarrow> Inl (NotObject cp))"

definition terminal_fallbacks :: "string list" where
  "terminal_fallbacks = [''ctx_llm'', ''none'', ''error'']"

definition parse_terminal :: "pydict \<Rightarrow> string \<Rightarrow> flow_error + string" where
  "parse_terminal d place =
     (case dget_or ''terminal_fallback'' (PStr ''ctx_llm'') d of
        PStr s \<Rightarrow> (if strip s \<in> set terminal_fallbacks then Inr (strip s) else Inl (BadField place ''terminal_fallback''))
      | _ \<Rightarrow> Inl (BadField place ''terminal_fallback''))"

definition raw_conditions :: "pydict \<Rightarrow> string \<Rightarrow> flow_error + pyval list" where
  "raw_conditions d place =
     (case dget_or ''entry_conditions'' (PList []) d of
        PNone \<Rightarrow> Inr [] | PList xs \<Rightarrow> Inr xs | _ \<Rightarrow> Inl (BadField place ''entry_conditions''))"

definition role_keys :: "string list" where
  "role_keys =
     [''role_id'', ''description'', ''ladder'', ''validate'', ''entry_conditions'', ''escalate_on_exception'',
      ''escalate_on_invalid'', ''terminal_fallback'']"

definition parse_model_role_spec :: "string \<Rightarrow> pyval \<Rightarrow> flow_error + ModelRoleSpec" where
  "parse_model_role_spec owner v =
     (case v of
        PDict d \<Rightarrow>
          rbind (ensure (unknown_keys role_keys d = []) (UnknownKeys ''model role spec'' (unknown_keys role_keys d))) (\<lambda>_.
          rbind (require_str d ''role_id'' ''model role spec'') (\<lambda>rid.
          let place = ''model role spec '' @ [CHR 0x27] @ rid @ [CHR 0x27] in
          rbind (nonempty_list d ''ladder'' place) (\<lambda>raw.
          rbind (rmap (\<lambda>(i, r). parse_rung place r i) (enumerate 0 raw)) (\<lambda>ladder.
          rbind (parse_validation (dget_none ''validate'' d) place) (\<lambda>vd.
          rbind (raw_conditions d place) (\<lambda>rcs.
          rbind (rmap (\<lambda>(i, c). parse_condition place c i) (enumerate 0 rcs)) (\<lambda>conds.
          rbind (parse_terminal d place) (\<lambda>tf.
          Inr \<lparr>mr_role_id = rid,
               mr_description = (if truthy (dget_none ''description'' d) then dget_none ''description'' d else PStr []),
               mr_ladder = ladder, mr_validate = vd, mr_entry_conditions = conds,
               mr_escalate_on_exception = truthy (dget_or ''escalate_on_exception'' (PBool True) d),
               mr_escalate_on_invalid = truthy (dget_or ''escalate_on_invalid'' (PBool True) d),
               mr_terminal_fallback = tf, mr_owner = owner\<rparr>))))))))
      | _ \<Rightarrow> Inl (NotObject ''model role spec''))"

definition parse_model_role_bundle :: "string \<Rightarrow> pyval \<Rightarrow> flow_error + ModelRoleSpec list" where
  "parse_model_role_bundle owner v =
     (case v of
        PDict d \<Rightarrow>
          (case dget_none ''roles'' d of
             PList raw \<Rightarrow>
               rbind (rmap (parse_model_role_spec owner) raw) (\<lambda>specs.
               rbind (ensure (distinct (map mr_role_id specs)) (DuplicateStageIds ''model role bundle'')) (\<lambda>_.
               Inr specs))
           | _ \<Rightarrow> Inl (BadField ''model role bundle'' ''roles''))
      | _ \<Rightarrow> Inl (NotObject ''model role bundle''))"

subsection \<open>Well-formed roles\<close>

definition wf_rung :: "Rung \<Rightarrow> bool" where
  "wf_rung r \<longleftrightarrow> trimmed (rg_selector r) \<and> rg_max_attempts r \<ge> 1 \<and> (\<forall>t. rg_timeout_s r = Some t \<longrightarrow> t > 0)"

definition wf_condition :: "StateCondition \<Rightarrow> bool" where
  "wf_condition c \<longleftrightarrow> trimmed (sc_field c) \<and> sc_op c \<in> set cond_ops \<and> sc_advance c \<ge> 1"

definition wf_validation :: "Validation \<Rightarrow> bool" where
  "wf_validation vd \<longleftrightarrow> vd_enum_values vd = [] \<or> (vd_enum_field vd \<noteq> None \<and> vd_enum_field vd \<noteq> Some [])"

definition wf_role :: "ModelRoleSpec \<Rightarrow> bool" where
  "wf_role r \<longleftrightarrow> trimmed (mr_role_id r) \<and> mr_ladder r \<noteq> [] \<and> (\<forall>g\<in>set (mr_ladder r). wf_rung g)
     \<and> (\<forall>c\<in>set (mr_entry_conditions r). wf_condition c) \<and> (\<forall>vd. mr_validate r = Some vd \<longrightarrow> wf_validation vd)
     \<and> mr_terminal_fallback r \<in> set terminal_fallbacks"

lemma parse_timeout_pos: "parse_timeout d p = Inr (Some t) \<Longrightarrow> t > 0"
  by (auto simp: parse_timeout_def Let_def split: if_splits option.splits)

lemma parse_rung_wf: "parse_rung p v i = Inr g \<Longrightarrow> wf_rung g"
  by (cases v) (auto simp: parse_rung_def Let_def wf_rung_def elim!: rbindE
      dest: require_str_trimmed positive_int_ge parse_timeout_pos)

lemma parse_cond_op_valid: "parse_cond_op d p = Inr op \<Longrightarrow> op \<in> set cond_ops"
  by (auto simp: parse_cond_op_def Let_def py_in_PStr split: if_splits)

lemma parse_condition_wf: "parse_condition p v i = Inr c \<Longrightarrow> wf_condition c"
  by (cases v) (auto simp: parse_condition_def Let_def wf_condition_def elim!: rbindE
      dest: require_str_trimmed positive_int_ge parse_cond_op_valid)

lemma parse_validation_wf: "parse_validation v p = Inr (Some vd) \<Longrightarrow> wf_validation vd"
  by (cases v) (auto simp: parse_validation_def Let_def wf_validation_def ensure_eq_Inr elim!: rbindE)

lemma parse_terminal_valid: "parse_terminal d p = Inr t \<Longrightarrow> t \<in> set terminal_fallbacks"
  by (auto simp: parse_terminal_def split: pyval.splits if_splits)

lemma rmap_enumerate_all:
  assumes "rmap (\<lambda>(i, x). f x i) (enumerate 0 xs) = Inr ys" "\<And>x i y. f x i = Inr y \<Longrightarrow> P y"
  shows "\<forall>y\<in>set ys. P y"
  using rmap_enumerate [OF assms(1)] assms(2) by (auto simp: in_set_conv_nth) metis

lemma parse_model_role_facts:
  assumes "parse_model_role_spec owner v = Inr r"
  shows "wf_role r \<and> mr_owner r = owner"
proof -
  from assms obtain d where d: "v = PDict d" by (cases v) (simp_all add: parse_model_role_spec_def)
  from assms obtain place raw rcs where
    r: "rmap (\<lambda>(i, g). parse_rung place g i) (enumerate 0 raw) = Inr (mr_ladder r)" "raw \<noteq> []"
      "rmap (\<lambda>(i, c). parse_condition place c i) (enumerate 0 rcs) = Inr (mr_entry_conditions r)"
    and rest: "trimmed (mr_role_id r)" "\<forall>vd. mr_validate r = Some vd \<longrightarrow> wf_validation vd"
      "mr_terminal_fallback r \<in> set terminal_fallbacks" "mr_owner r = owner"
    unfolding d parse_model_role_spec_def Let_def pyval.case
    by (elim rbindE, unfold sum.inject ensure_eq_Inr, hypsubst)
      (auto simp: nonempty_list_Inr dest: require_str_trimmed parse_validation_wf parse_terminal_valid)
  have "\<forall>g\<in>set (mr_ladder r). wf_rung g" by (rule rmap_enumerate_all [OF r(1)]) (rule parse_rung_wf)
  moreover have "\<forall>c\<in>set (mr_entry_conditions r). wf_condition c"
    by (rule rmap_enumerate_all [OF r(3)]) (rule parse_condition_wf)
  moreover have "mr_ladder r \<noteq> []" using rmap_enumerate [OF r(1)] r(2) by auto
  ultimately show ?thesis using rest by (simp add: wf_role_def)
qed

text \<open>
  The role parser is fail-closed.  A bundle it accepts holds roles with distinct trimmed ids, each with at
  least one rung, positive attempt counts and time limits, known condition operators with positive
  advances, an enum field wherever enum values are given, and a known terminal fallback.
\<close>

theorem parse_model_role_bundle_sound:
  assumes "parse_model_role_bundle owner v = Inr specs"
  shows "distinct (map mr_role_id specs) \<and> (\<forall>r\<in>set specs. wf_role r \<and> mr_owner r = owner)"
proof -
  from assms obtain raw where raw: "rmap (parse_model_role_spec owner) raw = Inr specs" "distinct (map mr_role_id specs)"
    by (auto simp: parse_model_role_bundle_def ensure_eq_Inr elim!: rbindE split: pyval.splits)
  then have "list_all2 (\<lambda>x y. parse_model_role_spec owner x = Inr y) raw specs" by (simp add: rmap_Inr_iff)
  then have "\<forall>r\<in>set specs. wf_role r \<and> mr_owner r = owner"
    using parse_model_role_facts by (induction rule: list_all2_induct) auto
  with raw(2) show ?thesis by blast
qed

definition sample_bundle :: pyval where
  "sample_bundle = PDict [(''roles'', PList
     [PDict [(''role_id'', PStr ''triage''), (''ladder'', PList [PDict [(''selector'', PStr ''fast'')], PDict [(''selector'', PStr ''strongest''), (''max_attempts'', PInt 2)]]),
             (''validate'', PDict [(''require_json'', PBool True), (''enum_field'', PStr ''mode''), (''enum_values'', PList [PStr ''chat'', PStr ''task''])]),
             (''entry_conditions'', PList [PDict [(''field'', PStr ''failures''), (''op'', PStr ''gt''), (''value'', PInt 0)]])],
      PDict [(''role_id'', PStr ''chat''), (''ladder'', PList [PDict [(''selector'', PStr ''core'')]]), (''escalate_on_invalid'', PBool False)]])]"

definition triage_role :: ModelRoleSpec where
  "triage_role = \<lparr>mr_role_id = ''triage'', mr_description = PStr [],
     mr_ladder = [\<lparr>rg_selector = ''fast'', rg_max_attempts = 1, rg_timeout_s = None\<rparr>,
                  \<lparr>rg_selector = ''strongest'', rg_max_attempts = 2, rg_timeout_s = None\<rparr>],
     mr_validate = Some \<lparr>vd_require_json = True, vd_required_keys = [], vd_enum_field = Some ''mode'',
        vd_enum_values = [''chat'', ''task''], vd_non_empty = True\<rparr>,
     mr_entry_conditions = [\<lparr>sc_field = ''failures'', sc_op = ''gt'', sc_value = PInt 0, sc_advance = 1\<rparr>],
     mr_escalate_on_exception = True, mr_escalate_on_invalid = True, mr_terminal_fallback = ''ctx_llm'', mr_owner = ''core''\<rparr>"

definition chat_role :: ModelRoleSpec where
  "chat_role = \<lparr>mr_role_id = ''chat'', mr_description = PStr [],
     mr_ladder = [\<lparr>rg_selector = ''core'', rg_max_attempts = 1, rg_timeout_s = None\<rparr>],
     mr_validate = None, mr_entry_conditions = [], mr_escalate_on_exception = True, mr_escalate_on_invalid = False,
     mr_terminal_fallback = ''ctx_llm'', mr_owner = ''core''\<rparr>"

lemma sample_bundle_parsed: "parse_model_role_bundle ''core'' sample_bundle = Inr [triage_role, chat_role]"
  by code_simp

theorem parse_model_role_bundle_sound_witness: "wf_role triage_role \<and> mr_owner chat_role = ''core''"
  using parse_model_role_bundle_sound [OF sample_bundle_parsed] by simp

text \<open>
  What a validated value is.  A value passes the check exactly when it is non-empty where that is asked
  for, a list or object where JSON is asked for, an object with all the required keys, and an
  object whose enum field holds one of the declared values.
\<close>

theorem validation_check_iff:
  assumes "wf_validation vd"
  shows "validation_check vd v = None \<longleftrightarrow>
     (vd_non_empty vd \<longrightarrow> v \<notin> {PNone, PStr [], PDict [], PList []})
     \<and> (vd_require_json vd \<longrightarrow> is_dict v \<or> is_list v)
     \<and> (\<forall>k\<in>set (vd_required_keys vd). is_dict v \<and> has_key k (dict_of v))
     \<and> (\<forall>fld. vd_enum_field vd = Some fld \<and> fld \<noteq> [] \<longrightarrow> is_dict v
          \<and> (vd_enum_values vd \<noteq> [] \<longrightarrow> (\<exists>e\<in>set (vd_enum_values vd). dget fld (dict_of v) = Some (PStr e))))"
proof -
  have member: "py_in (dget_none k d) (map PStr es) \<longleftrightarrow> (\<exists>e\<in>set es. dget k d = Some (PStr e))" for k d es
    by (auto simp: py_in_PStr dget_or_def split: option.splits)
  have missing: "filter (\<lambda>k. \<not> has_key k (dict_of v)) ks = [] \<longleftrightarrow> (\<forall>k\<in>set ks. has_key k (dict_of v))" for ks
    by (simp add: filter_empty_conv)
  have keys: "(ks \<noteq> [] \<longrightarrow> is_dict v) \<and> filter (\<lambda>k. \<not> has_key k (dict_of v)) ks = []
      \<longleftrightarrow> (\<forall>k\<in>set ks. is_dict v \<and> has_key k (dict_of v))" for ks
    unfolding missing by (cases ks) auto
  show ?thesis
  proof (cases "vd_enum_field vd = None \<or> vd_enum_field vd = Some []")
    case True
    then show ?thesis unfolding keys [symmetric] by (auto simp: validation_check_def split: list.splits)
  next
    case False
    then obtain c cs where ef: "vd_enum_field vd = Some (c # cs)" by (cases "vd_enum_field vd") (auto simp: neq_Nil_conv)
    show ?thesis unfolding keys [symmetric]
      by (auto simp: validation_check_def ef member Let_def split: list.splits)
  qed
qed

theorem validation_check_iff_witness:
  "validation_check (the (mr_validate triage_role)) (PDict [(''mode'', PStr ''chat'')]) = None"
proof -
  let ?vd = "the (mr_validate triage_role)"
  have "wf_validation ?vd" by (simp add: triage_role_def wf_validation_def)
  from validation_check_iff [OF this, of "PDict [(''mode'', PStr ''chat'')]"] show ?thesis
    by (simp add: triage_role_def dget_def)
qed

end
