(* ===== verification/RoleRegistry.thy ===== *)
theory RoleRegistry
  imports RoleSpec LayeredStore
begin

text \<open>
  The registry of model roles: \<open>registry.py\<close>, \<open>db_overlay.py\<close> and \<open>builtin.py\<close> of
  \<open>core_graph/model_roles\<close>, and the stored overrides of \<open>db_layer/model_role_store.py\<close>.  A role is looked up in
  the database layer, then among the core roles, then among the plugin roles.  Both steps are
  instances of \<open>layered_store\<close>.  The stored value is a map from the key under which it was
  saved to the raw spec; the database itself is a parameter, locks and logging are left out.
\<close>

subsection \<open>The registry\<close>

record role_registry =
  rr_core :: "(string \<times> ModelRoleSpec) list"
  rr_plugin :: "(string \<times> ModelRoleSpec) list"
  rr_db :: "(string \<times> ModelRoleSpec) list"

definition empty_role_registry :: role_registry where
  "empty_role_registry = \<lparr>rr_core = [], rr_plugin = [], rr_db = []\<rparr>"

definition core_owner :: string where
  "core_owner = ''core''"

definition put_core :: "ModelRoleSpec \<Rightarrow> role_registry \<Rightarrow> role_registry" where
  "put_core r g = g\<lparr>rr_core := dset (mr_role_id r) r (rr_core g)\<rparr>"

definition put_plugin :: "ModelRoleSpec \<Rightarrow> role_registry \<Rightarrow> role_registry" where
  "put_plugin r g = g\<lparr>rr_plugin := dset (mr_role_id r) r (rr_plugin g)\<rparr>"

text \<open>\<open>register\<close>: \<open>None\<close> is the \<open>ValueError\<close> of an empty id; the value is the spec that is returned.\<close>

definition role_register :: "ModelRoleSpec \<Rightarrow> role_registry \<Rightarrow> (ModelRoleSpec \<times> role_registry) option" where
  "role_register r g =
     (if mr_role_id r = [] then None
      else if mr_owner r = core_owner then Some (r, put_core r g)
      else case map_of (rr_core g) (mr_role_id r) of
        Some c \<Rightarrow> Some (c, g)
      | None \<Rightarrow> Some (r, put_plugin r g))"

definition role_default :: "role_registry \<Rightarrow> string \<Rightarrow> ModelRoleSpec option" where
  "role_default g rid = (case map_of (rr_core g) rid of Some r \<Rightarrow> Some r | None \<Rightarrow> map_of (rr_plugin g) rid)"

definition role_get :: "role_registry \<Rightarrow> string \<Rightarrow> ModelRoleSpec option" where
  "role_get g rid =
     (case map_of (rr_db g) rid of
        Some r \<Rightarrow> Some r
      | None \<Rightarrow> (case map_of (rr_core g) rid of Some r \<Rightarrow> Some r | None \<Rightarrow> map_of (rr_plugin g) rid))"

definition source_of :: "role_registry \<Rightarrow> string \<Rightarrow> string option" where
  "source_of g rid =
     (if map_of (rr_db g) rid \<noteq> None then Some ''db''
      else if map_of (rr_core g) rid \<noteq> None then Some ''core''
      else if map_of (rr_plugin g) rid \<noteq> None then Some ''plugin''
      else None)"

definition list_roles :: "role_registry \<Rightarrow> string option \<Rightarrow> ModelRoleSpec list" where
  "list_roles g owner =
     (let ids = sort (remdups (map fst (rr_core g) @ map fst (rr_plugin g) @ map fst (rr_db g)));
          roles = List.map_filter (role_get g) ids in
      case owner of None \<Rightarrow> roles | Some w \<Rightarrow> filter (\<lambda>r. mr_owner r = w) roles)"

definition role_unregister :: "string \<Rightarrow> role_registry \<Rightarrow> bool \<times> role_registry" where
  "role_unregister rid g = (map_of (rr_plugin g) rid \<noteq> None, g\<lparr>rr_plugin := dpop rid (rr_plugin g)\<rparr>)"

definition role_unregister_owner :: "string \<Rightarrow> role_registry \<Rightarrow> nat \<times> role_registry" where
  "role_unregister_owner owner g =
     (let dead = map fst (filter (\<lambda>(rid, r). mr_owner r = owner) (rr_plugin g)) in
      (length dead, g\<lparr>rr_plugin := fold dpop dead (rr_plugin g)\<rparr>))"

definition role_set_db :: "string \<Rightarrow> ModelRoleSpec option \<Rightarrow> role_registry \<Rightarrow> role_registry" where
  "role_set_db rid spec g =
     (case spec of
        None \<Rightarrow> g\<lparr>rr_db := dpop rid (rr_db g)\<rparr>
      | Some r \<Rightarrow> g\<lparr>rr_db := dset rid r (rr_db g)\<rparr>)"

definition role_clear_db :: "role_registry \<Rightarrow> role_registry" where
  "role_clear_db g = g\<lparr>rr_db := []\<rparr>"

definition role_clear :: "role_registry \<Rightarrow> role_registry" where
  "role_clear g = g\<lparr>rr_core := [], rr_plugin := [], rr_db := []\<rparr>"

subsection \<open>Built-in roles and the effort map\<close>

text \<open>\<open>load_builtin_roles\<close> on the parsed JSON file: a bad bundle raises, a good one registers each role.\<close>

definition load_builtin_roles :: "pyval \<Rightarrow> role_registry \<Rightarrow> flow_error + role_registry" where
  "load_builtin_roles data g =
     rbind (parse_model_role_bundle core_owner data) (\<lambda>specs.
     Inr (fold (\<lambda>r g. case role_register r g of Some (_, g') \<Rightarrow> g' | None \<Rightarrow> g) specs g))"

definition aliases :: "string list" where
  "aliases = [''core'', ''strongest'', ''strong'', ''balanced'', ''fast'', ''weakest'']"

definition default_effort_map :: "(string \<times> string) list" where
  "default_effort_map = [(''low'', ''fast''), (''medium'', ''balanced''), (''high'', ''strongest''), (''max'', ''strongest'')]"

definition alias_entry :: "string \<times> pyval \<Rightarrow> flow_error + string \<times> string" where
  "alias_entry kv =
     (case snd kv of
        PStr a \<Rightarrow> (if a \<in> set aliases then Inr (fst kv, a) else Inl (BadField ''core_roles.json effort_map'' (fst kv)))
      | _ \<Rightarrow> Inl (BadField ''core_roles.json effort_map'' (fst kv)))"

text \<open>\<open>None\<close> is a file that cannot be read or parsed.\<close>

definition get_default_effort_map :: "pyval option \<Rightarrow> flow_error + (string \<times> string) list" where
  "get_default_effort_map data =
     (case data of
        None \<Rightarrow> Inr default_effort_map
      | Some (PDict d) \<Rightarrow>
          (case dget_none ''effort_map'' d of
             PDict raw \<Rightarrow> rmap alias_entry raw
           | _ \<Rightarrow> Inr default_effort_map)
      | Some _ \<Rightarrow> Inl (NotObject ''core_roles.json''))"

subsection \<open>Stored overrides\<close>

record stored_roles =
  sr_roles :: "(string \<times> pyval) list"
  sr_effort_map :: "(string \<times> pyval) list"

datatype store_error = RoleIdRequired | InvalidSpec flow_error | EffortMapNotObject | UnknownLevel string | UnknownAlias string | UnhashableAlias string

definition set_model_role_override :: "string \<Rightarrow> pyval option \<Rightarrow> stored_roles \<Rightarrow> store_error + stored_roles" where
  "set_model_role_override role_id spec st =
     (let rid = strip role_id in
      if rid = [] then Inl RoleIdRequired
      else case spec of
        None \<Rightarrow> Inr (st\<lparr>sr_roles := dpop rid (sr_roles st)\<rparr>)
      | Some v \<Rightarrow>
          (case parse_model_role_spec ''db'' v of
             Inl e \<Rightarrow> Inl (InvalidSpec e)
           | Inr _ \<Rightarrow> Inr (st\<lparr>sr_roles := dset rid v (sr_roles st)\<rparr>)))"

definition effort_entry :: "string \<times> pyval \<Rightarrow> store_error + unit" where
  "effort_entry kv =
     (if fst kv \<notin> set valid_efforts then Inl (UnknownLevel (fst kv))
      else if \<not> hashable (snd kv) then Inl (UnhashableAlias (fst kv))
      else if py_in (snd kv) (map PStr aliases) then Inr () else Inl (UnknownAlias (fst kv)))"

definition set_effort_map :: "pyval \<Rightarrow> stored_roles \<Rightarrow> store_error + stored_roles" where
  "set_effort_map v st =
     (case v of
        PNone \<Rightarrow> Inr (st\<lparr>sr_effort_map := []\<rparr>)
      | PDict d \<Rightarrow> rbind (rmap effort_entry d) (\<lambda>_. Inr (st\<lparr>sr_effort_map := d\<rparr>))
      | _ \<Rightarrow> Inl EffortMapNotObject)"

text \<open>
  Applying the stored rows: the parser's own error skips a row, its \<open>TypeError\<close> leaves the function with
  the registry changed so far.
\<close>

fun apply_role_rows :: "(string \<times> pyval) list \<Rightarrow> role_registry \<Rightarrow> nat \<Rightarrow> (nat option) \<times> role_registry" where
  "apply_role_rows [] g n = (Some n, g)"
| "apply_role_rows ((k, v) # rows) g n =
     (case parse_model_role_spec ''db'' v of
        Inl (UnhashableEffort _) \<Rightarrow> (None, g)
      | Inl _ \<Rightarrow> apply_role_rows rows g n
      | Inr r \<Rightarrow> apply_role_rows rows (role_set_db (mr_role_id r) (Some r) g) (n + 1))"

record role_service =
  rs_registry :: role_registry
  rs_effort_map :: "(string \<times> pyval) list option"

definition set_effort_map_override :: "(string \<times> pyval) list \<Rightarrow> role_service \<Rightarrow> role_service" where
  "set_effort_map_override m s = s\<lparr>rs_effort_map := (if m = [] then None else Some m)\<rparr>"

definition apply_role_overrides :: "stored_roles option \<Rightarrow> role_service \<Rightarrow> nat option \<times> role_service" where
  "apply_role_overrides stored s =
     (case stored of
        None \<Rightarrow> (Some 0, s)
      | Some st \<Rightarrow>
          (case apply_role_rows (sr_roles st) (role_clear_db (rs_registry s)) 0 of
             (None, g) \<Rightarrow> (None, s\<lparr>rs_registry := g\<rparr>)
           | (Some n, g) \<Rightarrow> (Some n, set_effort_map_override (sr_effort_map st) (s\<lparr>rs_registry := g\<rparr>))))"

definition clear_role_overrides_local :: "role_service \<Rightarrow> role_service" where
  "clear_role_overrides_local s = set_effort_map_override [] (s\<lparr>rs_registry := role_clear_db (rs_registry s)\<rparr>)"

subsection \<open>The layers\<close>

interpretation role_tiers: layered_store
  "\<lambda>g. map_of (rr_plugin g)" "\<lambda>g. map_of (rr_core g)" role_default mr_role_id put_plugin
  "\<lambda>k r g. g\<lparr>rr_core := (case r of None \<Rightarrow> dpop k (rr_core g) | Some c \<Rightarrow> dset k c (rr_core g))\<rparr>"
  "\<lambda>g. g\<lparr>rr_core := []\<rparr>"
  by unfold_locales (auto simp: role_default_def put_plugin_def split: option.splits)

interpretation role_store: layered_store
  role_default "\<lambda>g. map_of (rr_db g)" role_get mr_role_id put_core role_set_db role_clear_db
  by unfold_locales
    (auto simp: role_default_def role_get_def put_core_def role_set_db_def role_clear_db_def fun_eq_iff split: option.splits)

lemma source_of_get: "source_of g rid = None \<longleftrightarrow> role_get g rid = None"
  by (auto simp: source_of_def role_get_def split: option.splits)

lemma unregister_owner_plugin:
  "map_of (rr_plugin (snd (role_unregister_owner owner g))) rid = Some r \<Longrightarrow> map_of (rr_plugin g) rid = Some r \<and> mr_owner r \<noteq> owner"
proof -
  let ?dead = "map fst (filter (\<lambda>(rid, r). mr_owner r = owner) (rr_plugin g))"
  have fold: "map_of (fold dpop ks d) = (\<lambda>k. if k \<in> set ks then None else map_of d k)" for ks and d :: "(string \<times> ModelRoleSpec) list"
    by (induction ks arbitrary: d) (auto simp: fun_eq_iff)
  assume "map_of (rr_plugin (snd (role_unregister_owner owner g))) rid = Some r"
  then have r: "rid \<notin> set ?dead" "map_of (rr_plugin g) rid = Some r"
    by (simp_all add: role_unregister_owner_def Let_def fold split: if_splits)
  from map_of_SomeD [OF r(2)] r(1) have "mr_owner r \<noteq> owner" by force
  with r(2) show ?thesis by simp
qed

subsection \<open>Sequences of operations\<close>

datatype role_op =
    RegisterRole ModelRoleSpec
  | UnregisterRole string
  | UnregisterRoleOwner string
  | SetDb string "ModelRoleSpec option"
  | ClearDb

definition role_apply :: "role_op \<Rightarrow> role_registry \<Rightarrow> role_registry" where
  "role_apply op g =
     (case op of
        RegisterRole r \<Rightarrow> (case role_register r g of Some (_, g') \<Rightarrow> g' | None \<Rightarrow> g)
      | UnregisterRole rid \<Rightarrow> snd (role_unregister rid g)
      | UnregisterRoleOwner w \<Rightarrow> snd (role_unregister_owner w g)
      | SetDb rid r \<Rightarrow> role_set_db rid r g
      | ClearDb \<Rightarrow> role_clear_db g)"

definition plugin_op :: "role_op \<Rightarrow> bool" where
  "plugin_op op = (case op of RegisterRole r \<Rightarrow> mr_owner r \<noteq> core_owner | _ \<Rightarrow> True)"

lemma role_apply_core: "plugin_op op \<Longrightarrow> rr_core (role_apply op g) = rr_core g"
  by (cases op) (auto simp: plugin_op_def role_apply_def role_register_def put_plugin_def role_unregister_def
      role_unregister_owner_def Let_def role_set_db_def role_clear_db_def split: option.splits)

lemma role_run_core: "list_all plugin_op ops \<Longrightarrow> rr_core (fold role_apply ops g) = rr_core g"
  by (induction ops arbitrary: g) (simp_all add: role_apply_core)

text \<open>
  C39: Plugins never retune a core role.  Whatever sequence of plugin registrations, removals and
  override changes runs, the core roles stay as they were: the effective spec of a core role id is
  the database override or the core spec itself and its source is never the plugin layer, and a
  plugin's attempt to register the id returns the core spec and changes nothing.
\<close>

theorem core_roles_protected:
  assumes "list_all plugin_op ops" "map_of (rr_core g) rid = Some c" "rid \<noteq> []" "w \<noteq> core_owner"
  shows "(let g' = fold role_apply ops g in
     role_get g' rid = (case map_of (rr_db g') rid of Some r \<Rightarrow> Some r | None \<Rightarrow> Some c)
     \<and> source_of g' rid \<in> {Some ''db'', Some ''core''}
     \<and> role_get (snd (role_unregister rid g')) rid = role_get g' rid
     \<and> role_register (p\<lparr>mr_role_id := rid, mr_owner := w\<rparr>) g' = Some (c, g'))"
proof -
  let ?g = "fold role_apply ops g"
  have "map_of (rr_core ?g) rid = Some c" using role_run_core [OF assms(1)] assms(2) by simp
  then show ?thesis using assms(3,4)
    by (auto simp: Let_def role_get_def source_of_def role_unregister_def role_register_def core_owner_def split: option.split)
qed

theorem core_roles_protected_witness:
  "role_get (fold role_apply [UnregisterRole ''triage'', SetDb ''triage'' (Some chat_role), ClearDb] (put_core triage_role empty_role_registry)) ''triage''
     = Some triage_role"
proof -
  have "map_of (rr_core (put_core triage_role empty_role_registry)) ''triage'' = Some triage_role"
    by (simp add: put_core_def empty_role_registry_def triage_role_def)
  from core_roles_protected [OF _ this, of "[UnregisterRole ''triage'', SetDb ''triage'' (Some chat_role), ClearDb]" "''world''"]
  show ?thesis by (simp add: plugin_op_def core_owner_def Let_def role_apply_def role_clear_db_def)
qed

subsection \<open>Reloading the overrides\<close>

text \<open>The rows that take effect, with the role id of their own spec, in stored order.\<close>

definition accepted_rows :: "(string \<times> pyval) list \<Rightarrow> (string \<times> ModelRoleSpec) list" where
  "accepted_rows rows =
     List.map_filter (\<lambda>(k, v). case parse_model_role_spec ''db'' v of Inr r \<Rightarrow> Some (mr_role_id r, r) | Inl _ \<Rightarrow> None) rows"

definition raising_row :: "pyval \<Rightarrow> bool" where
  "raising_row v = (case parse_model_role_spec ''db'' v of Inl (UnhashableEffort _) \<Rightarrow> True | _ \<Rightarrow> False)"

lemma accepted_rows_simps [simp]:
  "accepted_rows [] = []"
  "accepted_rows ((k, v) # rows) =
     (case parse_model_role_spec ''db'' v of Inr r \<Rightarrow> (mr_role_id r, r) # accepted_rows rows | Inl _ \<Rightarrow> accepted_rows rows)"
  by (simp_all add: accepted_rows_def map_filter_simps split: sum.split)

lemma role_default_set_db [simp]: "role_default (role_set_db k r g) = role_default g"
  by (simp add: role_store.base_put_over)

lemma apply_role_rows_result:
  "apply_role_rows rows g n = (res, g') \<Longrightarrow>
     role_default g' = role_default g
     \<and> (\<forall>m. res = Some m \<longrightarrow> m = n + length (accepted_rows rows) \<and> map_of (rr_db g') = map_of (rr_db g) ++ map_of (rev (accepted_rows rows)))
     \<and> (res = None \<longleftrightarrow> (\<exists>(k, v)\<in>set rows. raising_row v))"
proof (induction rows g n rule: apply_role_rows.induct)
  case (1 g n)
  then show ?case by auto
next
  case (2 k v rows g n)
  show ?case
  proof (cases "parse_model_role_spec ''db'' v")
    case (Inl e)
    then show ?thesis using 2 by (cases e) (auto simp: raising_row_def)
  next
    case (Inr r)
    have over: "map_of (rr_db (role_set_db (mr_role_id r) (Some r) g)) = (map_of (rr_db g))(mr_role_id r \<mapsto> r)"
      by (rule role_store.over_put)
    from 2 Inr show ?thesis by (auto simp: raising_row_def over map_add_assoc)
  qed
qed

text \<open>
  What a reload of the database overrides does.  When no stored row makes the parser raise its
  \<open>TypeError\<close>, the reload returns the number of accepted rows, and a role's effective spec is that of
  the last accepted row whose spec has its id and the registered default without one, whatever
  overrides were in force before; a failed read of the store changes nothing.
\<close>

theorem reload_overrides_effective:
  assumes "list_all (\<lambda>(k, v). \<not> raising_row v) (sr_roles st)"
  shows "(let s' = snd (apply_role_overrides (Some st) s) in
      fst (apply_role_overrides (Some st) s) = Some (length (accepted_rows (sr_roles st)))
      \<and> role_get (rs_registry s') rid =
          (case map_of (rev (accepted_rows (sr_roles st))) rid of Some r \<Rightarrow> Some r | None \<Rightarrow> role_default (rs_registry s) rid)
      \<and> rs_effort_map s' = (if sr_effort_map st = [] then None else Some (sr_effort_map st))
      \<and> apply_role_overrides None s = (Some 0, s))"
proof -
  let ?g = "role_clear_db (rs_registry s)"
  obtain res g' where a: "apply_role_rows (sr_roles st) ?g 0 = (res, g')" by fastforce
  note facts = apply_role_rows_result [OF a]
  have "res \<noteq> None" using facts assms by (auto simp: list_all_iff)
  then obtain n where n: "res = Some n" by auto
  have over: "map_of (rr_db ?g) = Map.empty" by (rule role_store.over_wipe)
  have base: "role_default ?g = role_default (rs_registry s)" by (rule role_store.base_wipe)
  from n facts have "n = length (accepted_rows (sr_roles st))" "map_of (rr_db g') = map_of (rev (accepted_rows (sr_roles st)))"
    "role_default g' = role_default (rs_registry s)"
    by (simp_all add: over base)
  then show ?thesis
    by (simp add: apply_role_overrides_def a n Let_def set_effort_map_override_def role_store.look_over split: option.split)
qed

definition chat_override :: pyval where
  "chat_override = PDict [(''role_id'', PStr ''chat''), (''ladder'', PList [PDict [(''selector'', PStr ''fast'')]])]"

definition chat_overridden :: ModelRoleSpec where
  "chat_overridden = \<lparr>mr_role_id = ''chat'', mr_description = PStr [],
     mr_ladder = [\<lparr>rg_selector = ''fast'', rg_max_attempts = 1, rg_timeout_s = None\<rparr>],
     mr_validate = None, mr_entry_conditions = [], mr_escalate_on_exception = True, mr_escalate_on_invalid = True,
     mr_terminal_fallback = ''ctx_llm'', mr_owner = ''db''\<rparr>"

lemma chat_override_parsed: "parse_model_role_spec ''db'' chat_override = Inr chat_overridden"
  by code_simp

definition core_service :: role_service where
  "core_service = \<lparr>rs_registry = put_core chat_role (put_core triage_role empty_role_registry), rs_effort_map = None\<rparr>"

theorem reload_overrides_effective_witness:
  "fst (apply_role_overrides (Some \<lparr>sr_roles = [(''chat'', chat_override), (''bad'', PNone)], sr_effort_map = []\<rparr>) core_service) = Some 1
   \<and> role_get (rs_registry (snd (apply_role_overrides (Some \<lparr>sr_roles = [(''chat'', chat_override), (''bad'', PNone)], sr_effort_map = []\<rparr>) core_service))) ''chat''
     = Some chat_overridden"
proof -
  let ?st = "\<lparr>sr_roles = [(''chat'', chat_override), (''bad'', PNone)], sr_effort_map = []\<rparr>"
  have bad: "parse_model_role_spec ''db'' PNone = Inl (NotObject ''model role spec'')" by (simp add: parse_model_role_spec_def)
  have "list_all (\<lambda>(k, v). \<not> raising_row v) (sr_roles ?st)" by (simp add: raising_row_def chat_override_parsed bad)
  from reload_overrides_effective [OF this, of core_service "''chat''"] show ?thesis
    by (simp add: Let_def chat_override_parsed bad chat_overridden_def)
qed

text \<open>
  An override is stored under the key of the request but takes effect under the id inside the
  spec: saved as an override of another role, it retunes this one and leaves that one alone.
\<close>

lemma misfiled_override_retunes_other_role:
  "(case set_model_role_override ''triage'' (Some chat_override) \<lparr>sr_roles = [], sr_effort_map = []\<rparr> of
      Inr st \<Rightarrow> (let g = rs_registry (snd (apply_role_overrides (Some st) core_service)) in
        role_get g ''chat'' = Some chat_overridden \<and> role_get g ''triage'' = Some triage_role)
    | Inl _ \<Rightarrow> False)"
  by code_simp

text \<open>
  One stored condition whose operator is a list raises a \<open>TypeError\<close>: the reload ends there, with the
  overrides before it cleared and those behind it not applied.
\<close>

lemma override_row_aborts_reload:
  "(let bad = PDict [(''role_id'', PStr ''x''), (''ladder'', PList [PDict [(''selector'', PStr ''core'')]]),
                     (''entry_conditions'', PList [PDict [(''field'', PStr ''f''), (''op'', PList [])]])];
        st = \<lparr>sr_roles = [(''x'', bad), (''chat'', chat_override)], sr_effort_map = []\<rparr>;
        before = core_service\<lparr>rs_registry := role_set_db ''chat'' (Some chat_overridden) (rs_registry core_service)\<rparr>;
        (res, after) = apply_role_overrides (Some st) before
    in res = None \<and> role_get (rs_registry before) ''chat'' = Some chat_overridden
       \<and> role_get (rs_registry after) ''chat'' = Some chat_role)"
  by code_simp

end
