(* ===== verification/RoleResolver.thy ===== *)
theory RoleResolver
  imports RoleRegistry FlowRegistry
begin

text \<open>
  From a role's selector to a model: \<open>manifest_effort.py\<close>, \<open>selection.py\<close> and \<open>resolver.py\<close> of
  \<open>core_graph/model_roles\<close>, the stage selection of \<open>flow_runner.py\<close>, and \<open>resolve_step_llm_config\<close> of
  \<open>core/llm_config_service.py\<close>, which turns the hint of the selector into a pool entry.  \<open>float\<close> and
  \<open>repr\<close> of a float are the parameters of \<open>float_env\<close>; strengths are rationals.  The LLM clients, the secrets and the database
  are parameters or left out, logging is left out.
\<close>

subsection \<open>The effort of a plugin\<close>

record ManifestEffort =
  me_plugin_id :: string
  me_effort :: "string option"
  me_overrides :: "(string \<times> string) list"

datatype effort_error = BadEffort string | OverridesNotObject string | BadOverride string string | UnhashableLevel string

definition parse_override :: "string \<Rightarrow> string \<times> pyval \<Rightarrow> effort_error + string \<times> string" where
  "parse_override pid kv =
     (case snd kv of
        PStr l \<Rightarrow> (if l \<in> set valid_efforts then Inr (fst kv, l) else Inl (BadOverride pid (fst kv)))
      | _ \<Rightarrow> Inl (BadOverride pid (fst kv)))"

definition parse_specialist_effort :: "string \<Rightarrow> pyval \<Rightarrow> effort_error + ManifestEffort" where
  "parse_specialist_effort pid sa =
     (case sa of
        PDict d \<Rightarrow>
          (let e = dget_none ''effort'' d in
           rbind (ensure (e = PNone \<or> hashable e) (UnhashableLevel pid)) (\<lambda>_.
           rbind (ensure (e = PNone \<or> py_in e (map PStr valid_efforts)) (BadEffort pid)) (\<lambda>_.
           rbind (let raw = dget_none ''effort_overrides'' d in
                  if \<not> truthy raw then Inr []
                  else case raw of PDict m \<Rightarrow> rmap (parse_override pid) m | _ \<Rightarrow> Inl (OverridesNotObject pid)) (\<lambda>m.
           Inr \<lparr>me_plugin_id = pid, me_effort = (if e = PNone then None else Some (str_of e)), me_overrides = m\<rparr>))))
      | _ \<Rightarrow> Inr \<lparr>me_plugin_id = pid, me_effort = None, me_overrides = []\<rparr>)"

type_synonym effort_registry = "(string \<times> ManifestEffort) list"

definition register_manifest_effort :: "ManifestEffort \<Rightarrow> effort_registry \<Rightarrow> effort_registry" where
  "register_manifest_effort e reg = dset (me_plugin_id e) e reg"

definition get_manifest_effort :: "effort_registry \<Rightarrow> string \<Rightarrow> ManifestEffort option" where
  "get_manifest_effort reg pid = map_of reg pid"

definition unregister_manifest_effort :: "string \<Rightarrow> effort_registry \<Rightarrow> bool \<times> effort_registry" where
  "unregister_manifest_effort pid reg = (map_of reg pid \<noteq> None, dpop pid reg)"

subsection \<open>Selection\<close>

definition nonblank :: "string option \<Rightarrow> bool" where
  "nonblank x = (x \<noteq> None \<and> x \<noteq> Some [])"

definition effort_selector :: "string option \<Rightarrow> string" where
  "effort_selector e = ''effort:'' @ the e"

record model_choice =
  mc_stage_model :: "string option"
  mc_stage_effort :: "string option"
  mc_flow_effort :: "string option"
  mc_manifest_effort_overrides :: "(string \<times> string) list option"
  mc_manifest_effort :: "string option"
  mc_goal_class :: "string option"
  mc_subgraph_model_role :: "string option"
  mc_subgraph_effort :: "string option"

definition goal_override :: "model_choice \<Rightarrow> string option" where
  "goal_override c =
     (case (mc_manifest_effort_overrides c, mc_goal_class c) of
        (Some m, Some gc) \<Rightarrow> (if m \<noteq> [] \<and> gc \<noteq> [] then map_of m gc else None)
      | _ \<Rightarrow> None)"

definition select_agent_model :: "model_choice \<Rightarrow> string option" where
  "select_agent_model c =
     (if nonblank (mc_stage_model c) then mc_stage_model c
      else if nonblank (mc_stage_effort c) then Some (effort_selector (mc_stage_effort c))
      else if nonblank (mc_flow_effort c) then Some (effort_selector (mc_flow_effort c))
      else if nonblank (goal_override c) then Some (effort_selector (goal_override c))
      else if nonblank (mc_manifest_effort c) then Some (effort_selector (mc_manifest_effort c))
      else if nonblank (mc_subgraph_model_role c) then Some (''role:'' @ the (mc_subgraph_model_role c))
      else if nonblank (mc_subgraph_effort c) then Some (effort_selector (mc_subgraph_effort c))
      else Some ''role:specialist'')"

definition select_stage_model :: "effort_registry \<Rightarrow> FlowSpec \<Rightarrow> StageSpec \<Rightarrow> string option \<Rightarrow> string option" where
  "select_stage_model reg spec stage goal_class =
     (let manifest = (if fl_owner spec = [] then None else get_manifest_effort reg (fl_owner spec)) in
      select_agent_model
        \<lparr>mc_stage_model = st_model stage, mc_stage_effort = st_effort stage, mc_flow_effort = fl_effort spec,
         mc_manifest_effort_overrides = map_option me_overrides manifest,
         mc_manifest_effort = (case manifest of None \<Rightarrow> None | Some m \<Rightarrow> me_effort m),
         mc_goal_class = goal_class, mc_subgraph_model_role = None, mc_subgraph_effort = None\<rparr>)"

subsection \<open>The pool snapshot\<close>

record PoolRow =
  pr_name :: string
  pr_provider :: string
  pr_model :: string
  pr_api_key :: "string option"
  pr_base_url :: "string option"
  pr_strength :: "rat option"
  pr_is_active :: bool

record pool_entry =
  pe_name :: string
  pe_strength :: rat
  pe_provider :: string
  pe_model :: string

record PoolSnapshot =
  ps_entries :: "pool_entry list"
  ps_min_strength :: rat
  ps_max_strength :: rat
  ps_median_strength :: rat
  ps_fetched_at :: rat

definition strength_of :: "PoolRow \<Rightarrow> rat" where
  "strength_of r = (case pr_strength r of Some x \<Rightarrow> x | None \<Rightarrow> 0)"

definition by_name :: "PoolSnapshot \<Rightarrow> string \<Rightarrow> pool_entry option" where
  "by_name snap name = find (\<lambda>e. lower (pe_name e) = lower (strip name)) (ps_entries snap)"

text \<open>\<open>statistics.median\<close> of a non-empty list.\<close>

definition median :: "rat list \<Rightarrow> rat" where
  "median xs =
     (let ys = sort xs; n = length ys in
      if odd n then ys ! (n div 2) else (ys ! (n div 2 - 1) + ys ! (n div 2)) / 2)"

definition snapshot_of :: "rat \<Rightarrow> PoolRow list \<Rightarrow> PoolSnapshot" where
  "snapshot_of now rows =
     (let active = filter pr_is_active rows;
          es = map (\<lambda>r. \<lparr>pe_name = pr_name r, pe_strength = strength_of r, pe_provider = pr_provider r, pe_model = pr_model r\<rparr>)
                 (filter (\<lambda>r. pr_name r \<noteq> []) active);
          strengths = (if es = [] then [0] else map pe_strength es) in
      \<lparr>ps_entries = es, ps_min_strength = Min (set strengths), ps_max_strength = Max (set strengths),
       ps_median_strength = median strengths, ps_fetched_at = now\<rparr>)"

definition empty_snapshot :: PoolSnapshot where
  "empty_snapshot = \<lparr>ps_entries = [], ps_min_strength = 0, ps_max_strength = 0, ps_median_strength = 0, ps_fetched_at = 0\<rparr>"

record snapshot_cache =
  sn_value :: PoolSnapshot
  sn_expires_at :: rat

text \<open>\<open>None\<close> for the rows is a failed fetch.\<close>

definition get_pool_snapshot :: "rat \<Rightarrow> rat \<Rightarrow> bool \<Rightarrow> PoolRow list option \<Rightarrow> snapshot_cache \<Rightarrow> PoolSnapshot \<times> snapshot_cache" where
  "get_pool_snapshot ttl now force rows c =
     (if \<not> force \<and> now < sn_expires_at c then (sn_value c, c)
      else (let snap = snapshot_of now (case rows of None \<Rightarrow> [] | Some rs \<Rightarrow> rs) in
            (snap, \<lparr>sn_value = snap, sn_expires_at = now + ttl\<rparr>)))"

definition invalidate_pool_snapshot :: "snapshot_cache \<Rightarrow> snapshot_cache" where
  "invalidate_pool_snapshot c = c\<lparr>sn_expires_at := 0\<rparr>"

subsection \<open>Selectors\<close>

record float_env =
  parse_float :: "string \<Rightarrow> rat option"
  repr_float :: "rat \<Rightarrow> string"

definition aliases_non_core :: "string list" where
  "aliases_non_core = [''strongest'', ''strong'', ''balanced'', ''fast'', ''weakest'']"

definition alias_to_hint :: "float_env \<Rightarrow> string \<Rightarrow> PoolSnapshot \<Rightarrow> string option" where
  "alias_to_hint env alias snap =
     (if alias = ''core'' then None
      else if ps_entries snap = [] then None
      else if alias \<in> {''strongest'', ''strong''} then Some (repr_float env (ps_max_strength snap))
      else if alias \<in> {''fast'', ''weakest''} then Some (repr_float env (ps_min_strength snap))
      else if alias = ''balanced'' then Some (repr_float env (ps_median_strength snap))
      else None)"

text \<open>\<open>get_effort_map\<close>: the database override when one is set, else the shipped map.\<close>

definition get_effort_map :: "(string \<times> string) list option \<Rightarrow> (string \<times> string) list \<Rightarrow> (string \<times> string) list" where
  "get_effort_map override shipped = (case override of Some m \<Rightarrow> m | None \<Rightarrow> shipped)"

definition compile_selector :: "float_env \<Rightarrow> (string \<times> string) list \<Rightarrow> string \<Rightarrow> PoolSnapshot \<Rightarrow> string option" where
  "compile_selector env effort_map selector snap =
     (let s = strip selector in
      if s = [] \<or> s = ''core'' then None
      else if starts_with ''effort:'' s then
        (case map_of effort_map (strip (drop (length ''effort:'') s)) of
           None \<Rightarrow> None
         | Some alias \<Rightarrow> alias_to_hint env alias snap)
      else if s \<in> set aliases_non_core then alias_to_hint env s snap
      else Some s)"

definition target_strength :: "float_env \<Rightarrow> PoolRow list \<Rightarrow> string \<Rightarrow> rat option" where
  "target_strength env rows hint =
     (case find (\<lambda>r. \<not> pr_is_active r \<and> lower (pr_name r) = lower hint) rows of
        Some r \<Rightarrow> (case pr_strength r of Some x \<Rightarrow> Some x | None \<Rightarrow> parse_float env hint)
      | None \<Rightarrow> parse_float env hint)"

text \<open>\<open>resolve_step_llm_config\<close>: the rows of the chat pool (\<open>None\<close>: no database, or the query fails) and the hint of the step.\<close>

definition resolve_step_llm_config :: "float_env \<Rightarrow> PoolRow list option \<Rightarrow> string \<Rightarrow> PoolRow option" where
  "resolve_step_llm_config env pool raw_hint =
     (let hint = strip raw_hint in
      case pool of
        None \<Rightarrow> None
      | Some rows \<Rightarrow>
          (if hint = [] then None
           else case filter pr_is_active rows of
             [] \<Rightarrow> None
           | a # as \<Rightarrow>
               (case find (\<lambda>r. lower (pr_name r) = lower hint) (a # as) of
                  Some r \<Rightarrow> Some r
                | None \<Rightarrow>
                    (case target_strength env rows hint of
                       Some t \<Rightarrow> Some (min_by (\<lambda>r. \<bar>strength_of r - t\<bar>) a as)
                     | None \<Rightarrow> Some (max_by strength_of a as)))))"

text \<open>
  \<open>resolve_role_llm\<close>: the entry of the pool that serves a selector, or \<open>CoreModel\<close>, the fallback client or the
  core model.
\<close>

datatype role_model = CoreModel | PoolModel PoolRow

definition resolve_role_llm ::
    "float_env \<Rightarrow> (string \<times> string) list \<Rightarrow> PoolRow list option \<Rightarrow> PoolSnapshot \<Rightarrow> string \<Rightarrow> role_model" where
  "resolve_role_llm env effort_map pool snap selector =
     (case compile_selector env effort_map selector snap of
        None \<Rightarrow> CoreModel
      | Some hint \<Rightarrow> (case resolve_step_llm_config env pool hint of None \<Rightarrow> CoreModel | Some r \<Rightarrow> PoolModel r))"

subsection \<open>Selection is by known levels\<close>

definition wf_manifest :: "ManifestEffort \<Rightarrow> bool" where
  "wf_manifest m \<longleftrightarrow> (\<forall>e. me_effort m = Some e \<longrightarrow> e \<in> set valid_efforts) \<and> snd ` set (me_overrides m) \<subseteq> set valid_efforts"

lemma parse_override_valid: "parse_override pid kv = Inr p \<Longrightarrow> snd p \<in> set valid_efforts"
  by (auto simp: parse_override_def split: pyval.splits if_splits)

lemma parse_overrides_valid: "rmap (parse_override pid) m = Inr ps \<Longrightarrow> snd ` set ps \<subseteq> set valid_efforts"
proof (induction m arbitrary: ps)
  case (Cons kv m)
  from Cons.prems obtain p qs where p: "parse_override pid kv = Inr p" "rmap (parse_override pid) m = Inr qs" "ps = p # qs"
    by (auto elim!: rbindE)
  with Cons.IH [OF p(2)] parse_override_valid [OF p(1)] show ?case by simp
qed simp

lemma parse_specialist_effort_wf:
  assumes "parse_specialist_effort pid sa = Inr m"
  shows "wf_manifest m \<and> me_plugin_id m = pid"
proof (cases sa)
  case (PDict d)
  from assms show ?thesis unfolding PDict parse_specialist_effort_def Let_def pyval.case
    by (elim rbindE, unfold sum.inject ensure_eq_Inr, hypsubst)
      (auto simp: wf_manifest_def py_in_PStr dest!: parse_overrides_valid split: if_splits pyval.splits)
qed (use assms in \<open>auto simp: parse_specialist_effort_def wf_manifest_def\<close>)

definition wf_efforts :: "effort_registry \<Rightarrow> bool" where
  "wf_efforts reg \<longleftrightarrow> (\<forall>x\<in>set reg. wf_manifest (snd x))"

definition plugin_override :: "effort_registry \<Rightarrow> FlowSpec \<Rightarrow> string option \<Rightarrow> string option" where
  "plugin_override reg spec gc =
     (case (map_of reg (fl_owner spec), gc) of (Some m, Some c) \<Rightarrow> map_of (me_overrides m) c | _ \<Rightarrow> None)"

definition plugin_effort :: "effort_registry \<Rightarrow> FlowSpec \<Rightarrow> string option" where
  "plugin_effort reg spec = (case map_of reg (fl_owner spec) of Some m \<Rightarrow> me_effort m | None \<Rightarrow> None)"

text \<open>The declared selectors of a stage, the most specific first.\<close>

definition stage_candidates :: "effort_registry \<Rightarrow> FlowSpec \<Rightarrow> StageSpec \<Rightarrow> string option \<Rightarrow> string list" where
  "stage_candidates reg spec stage gc =
     (case st_model stage of Some m \<Rightarrow> [m] | None \<Rightarrow> [])
     @ map (\<lambda>l. ''effort:'' @ l) (List.map_filter id [st_effort stage, fl_effort spec, plugin_override reg spec gc, plugin_effort reg spec])
     @ [''role:specialist'']"

lemma given_level: "l \<in> set valid_efforts \<Longrightarrow> l \<noteq> []"
  by (auto simp: valid_efforts_def)

lemma plugin_levels:
  assumes "wf_efforts reg"
  shows "plugin_override reg spec gc = Some l \<Longrightarrow> l \<in> set valid_efforts" "plugin_effort reg spec = Some l \<Longrightarrow> l \<in> set valid_efforts"
proof -
  have m: "wf_manifest m" if "map_of reg p = Some m" for p m
    using assms map_of_SomeD [OF that] by (auto simp: wf_efforts_def)
  have level: "l \<in> set valid_efforts" if "wf_manifest m" "map_of (me_overrides m) c = Some l" for m c
    using that(1) map_of_SomeD [OF that(2)] by (force simp: wf_manifest_def)
  show "plugin_override reg spec gc = Some l \<Longrightarrow> l \<in> set valid_efforts"
    by (auto simp: plugin_override_def intro: level dest: m split: option.splits)
  show "plugin_effort reg spec = Some l \<Longrightarrow> l \<in> set valid_efforts"
    by (auto simp: plugin_effort_def wf_manifest_def dest!: m split: option.splits)
qed

lemma goal_override_eq:
  assumes "fl_owner spec \<noteq> []" "\<And>c. gc = Some c \<Longrightarrow> c \<noteq> []" "mc_goal_class c = gc"
    "mc_manifest_effort_overrides c = map_option me_overrides (get_manifest_effort reg (fl_owner spec))"
  shows "goal_override c = plugin_override reg spec gc"
  using assms by (auto simp: goal_override_def plugin_override_def get_manifest_effort_def split: option.splits)

text \<open>
  Agent stages run on a declared model.  For a flow of a plugin that the parser accepts, and plugin
  efforts that the manifest parser accepts, the selector of every stage is the first of: the
  stage's model, the effort of the stage, of the flow, of the plugin for the goal class and of the
  plugin, and the specialist role; and every effort among these is one of the declared levels.
\<close>

theorem stage_selection_precedence:
  assumes "parse_flow_spec v owner = Inr spec" "stage \<in> set (fl_stages spec)" "wf_efforts reg" "owner \<noteq> []" "gc \<noteq> Some []"
  shows "select_stage_model reg spec stage gc = Some (hd (stage_candidates reg spec stage gc))
     \<and> set (stage_candidates reg spec stage gc)
        \<subseteq> set_option (st_model stage) \<union> ((\<lambda>l. ''effort:'' @ l) ` set valid_efforts) \<union> {''role:specialist''}"
proof -
  from parse_flow_spec_sound_facts [OF assms(1)] have "wf_flow spec" and owner: "fl_owner spec \<noteq> []" using assms(4) by auto
  with assms(2) have st: "\<And>m. st_model stage = Some m \<Longrightarrow> m \<noteq> []" "\<And>e. st_effort stage = Some e \<Longrightarrow> e \<in> set valid_efforts"
    and fl: "\<And>e. fl_effort spec = Some e \<Longrightarrow> e \<in> set valid_efforts"
    by (auto simp: wf_flow_def wf_stage_def trimmed_def)
  note levels = st(2) fl plugin_levels [OF assms(3)]
  have gvn: "nonblank x \<longleftrightarrow> x \<noteq> None" if "\<And>e. x = Some e \<Longrightarrow> e \<in> set valid_efforts" for x
    using that given_level by (auto simp: nonblank_def)
  have model: "nonblank (st_model stage) \<longleftrightarrow> st_model stage \<noteq> None" using st(1) by (auto simp: nonblank_def)
  have "select_stage_model reg spec stage gc = Some (hd (stage_candidates reg spec stage gc))"
  proof -
    let ?c = "\<lparr>mc_stage_model = st_model stage, mc_stage_effort = st_effort stage, mc_flow_effort = fl_effort spec,
         mc_manifest_effort_overrides = map_option me_overrides (get_manifest_effort reg (fl_owner spec)),
         mc_manifest_effort = plugin_effort reg spec,
         mc_goal_class = gc, mc_subgraph_model_role = None, mc_subgraph_effort = None\<rparr>"
    have "select_stage_model reg spec stage gc = select_agent_model ?c"
      using owner by (simp add: select_stage_model_def Let_def plugin_effort_def get_manifest_effort_def)
    moreover have "goal_override ?c = plugin_override reg spec gc" using owner assms(5) by (intro goal_override_eq) auto
    moreover have "nonblank None = False" by (simp add: nonblank_def)
    ultimately show ?thesis
      using gvn [of "st_effort stage", OF levels(1)] gvn [of "fl_effort spec", OF levels(2)]
        gvn [of "plugin_override reg spec gc", OF levels(3)] gvn [of "plugin_effort reg spec", OF levels(4)] model
      by (auto simp: select_agent_model_def stage_candidates_def effort_selector_def map_filter_simps split: option.split)
  qed
  moreover have "set (stage_candidates reg spec stage gc)
        \<subseteq> set_option (st_model stage) \<union> ((\<lambda>l. ''effort:'' @ l) ` set valid_efforts) \<union> {''role:specialist''}"
    using levels by (auto simp: stage_candidates_def map_filter_def split: option.splits)
  ultimately show ?thesis by blast
qed

definition sample_efforts :: effort_registry where
  "sample_efforts = [(''world'', \<lparr>me_plugin_id = ''world'', me_effort = Some ''high'', me_overrides = [(''bake'', ''max'')]\<rparr>)]"

theorem stage_selection_precedence_witness:
  "select_stage_model sample_efforts sample_flow sample_stage (Some ''bake'')
     = Some (hd (stage_candidates sample_efforts sample_flow sample_stage (Some ''bake'')))"
proof -
  have "sample_stage \<in> set (fl_stages sample_flow)" by (simp add: sample_flow_def)
  moreover have "wf_efforts sample_efforts" by (simp add: wf_efforts_def wf_manifest_def sample_efforts_def valid_efforts_def)
  ultimately show ?thesis
    using stage_selection_precedence [OF sample_flow_parsed, of sample_stage sample_efforts "Some ''bake''"] by simp
qed

subsection \<open>Aliases and names\<close>

lemma find_named:
  "find (\<lambda>r. lower (pr_name r) = h) (filter pr_is_active rows) = None \<longleftrightarrow> (\<forall>r\<in>set rows. pr_is_active r \<longrightarrow> lower (pr_name r) \<noteq> h)"
  by (auto simp: find_None_iff)

lemma resolve_nearest:
  assumes "strip hint = hint" "hint \<noteq> []" "\<forall>r\<in>set rows. lower (pr_name r) \<noteq> lower hint" "parse_float env hint = Some t"
    "\<exists>r\<in>set rows. pr_is_active r"
  obtains r where "resolve_step_llm_config env (Some rows) hint = Some r" "r \<in> set rows" "pr_is_active r"
    "\<forall>r'\<in>set rows. pr_is_active r' \<longrightarrow> \<bar>strength_of r - t\<bar> \<le> \<bar>strength_of r' - t\<bar>"
proof -
  from assms(5) obtain a as where f: "filter pr_is_active rows = a # as"
    by (cases "filter pr_is_active rows") (auto simp: filter_empty_conv)
  have active: "set (a # as) = {r \<in> set rows. pr_is_active r}" unfolding f [symmetric] by auto
  have none: "find (\<lambda>r. lower (pr_name r) = lower hint) (a # as) = None" unfolding f [symmetric] using assms(3) by (simp add: find_named)
  have target: "target_strength env rows hint = Some t"
    using assms(3,4) by (auto simp: target_strength_def find_Some_iff split: option.split)
  let ?r = "min_by (\<lambda>r. \<bar>strength_of r - t\<bar>) a as"
  have "resolve_step_llm_config env (Some rows) hint = Some ?r"
    using assms(1,2) by (simp add: resolve_step_llm_config_def f none target del: find.simps)
  moreover have "?r \<in> set (a # as)" by (rule min_by_in)
  moreover have "\<bar>strength_of ?r - t\<bar> \<le> \<bar>strength_of r' - t\<bar>" if "r' \<in> set (a # as)" for r' by (rule min_by_le [OF that])
  ultimately show ?thesis using that active by blast
qed

definition alias_target :: "string \<Rightarrow> PoolSnapshot \<Rightarrow> rat" where
  "alias_target alias snap =
     (if alias \<in> {''strongest'', ''strong''} then ps_max_strength snap
      else if alias = ''balanced'' then ps_median_strength snap else ps_min_strength snap)"

lemma alias_plain:
  "list_all (\<lambda>a. strip a = a \<and> a \<noteq> [] \<and> a \<noteq> ''core'' \<and> \<not> starts_with ''effort:'' a) aliases_non_core"
  by code_simp

lemma compile_alias:
  assumes "alias \<in> set aliases_non_core" "ps_entries snap \<noteq> []"
  shows "compile_selector env m alias snap = Some (repr_float env (alias_target alias snap))"
proof -
  from alias_plain assms(1) have "strip alias = alias \<and> alias \<noteq> [] \<and> alias \<noteq> ''core'' \<and> \<not> starts_with ''effort:'' alias"
    unfolding list_all_iff by blast
  then have "compile_selector env m alias snap = alias_to_hint env alias snap"
    using assms(1) by (simp add: compile_selector_def Let_def)
  with assms show ?thesis by (auto simp: aliases_non_core_def alias_to_hint_def alias_target_def)
qed

text \<open>What the code relies on of \<open>float\<close> and \<open>repr\<close>: a printed float is read back and is no blank-padded text.\<close>

definition float_ok :: "float_env \<Rightarrow> bool" where
  "float_ok env \<longleftrightarrow> (\<forall>x. parse_float env (repr_float env x) = Some x \<and> strip (repr_float env x) = repr_float env x \<and> repr_float env x \<noteq> [])"

lemma snapshot_facts:
  assumes "\<exists>r\<in>set rows. pr_is_active r" "\<forall>r\<in>set rows. pr_name r \<noteq> []"
  shows "ps_entries (snapshot_of now rows) \<noteq> []"
    and "r \<in> set rows \<Longrightarrow> pr_is_active r \<Longrightarrow> strength_of r \<le> ps_max_strength (snapshot_of now rows)"
    and "r \<in> set rows \<Longrightarrow> pr_is_active r \<Longrightarrow> ps_min_strength (snapshot_of now rows) \<le> strength_of r"
    and "\<exists>r\<in>set rows. pr_is_active r \<and> strength_of r = ps_max_strength (snapshot_of now rows)"
    and "\<exists>r\<in>set rows. pr_is_active r \<and> strength_of r = ps_min_strength (snapshot_of now rows)"
proof -
  let ?A = "{r \<in> set rows. pr_is_active r}"
  let ?es = "ps_entries (snapshot_of now rows)"
  have es: "pe_strength ` set ?es = strength_of ` ?A"
    using assms(2) by (force simp: snapshot_of_def Let_def)
  with assms(1) show ne: "?es \<noteq> []" by auto
  then have ext: "ps_max_strength (snapshot_of now rows) = Max (strength_of ` ?A)" "ps_min_strength (snapshot_of now rows) = Min (strength_of ` ?A)"
    unfolding es [symmetric] by (simp_all add: snapshot_of_def Let_def image_image)
  show "r \<in> set rows \<Longrightarrow> pr_is_active r \<Longrightarrow> strength_of r \<le> ps_max_strength (snapshot_of now rows)"
    and "r \<in> set rows \<Longrightarrow> pr_is_active r \<Longrightarrow> ps_min_strength (snapshot_of now rows) \<le> strength_of r"
    unfolding ext by simp_all
  have "finite (strength_of ` ?A)" "strength_of ` ?A \<noteq> {}" using assms(1) by auto
  from Max_in [OF this] Min_in [OF this]
  show "\<exists>r\<in>set rows. pr_is_active r \<and> strength_of r = ps_max_strength (snapshot_of now rows)"
    and "\<exists>r\<in>set rows. pr_is_active r \<and> strength_of r = ps_min_strength (snapshot_of now rows)"
    unfolding ext by auto
qed

text \<open>
  Aliases pick by strength.  Against a snapshot of the pool in force, in which some entry is active, every
  entry is named and none is named like a printed number, each alias resolves to an active entry
  whose strength is nearest to its target: the strongest alias to one of maximal strength, the
  fast alias to one of minimal strength, the balanced alias to one nearest to the median.
\<close>

theorem alias_resolution:
  assumes "float_ok env" "alias \<in> set aliases_non_core" "\<exists>r\<in>set rows. pr_is_active r" "\<forall>r\<in>set rows. pr_name r \<noteq> []"
    "\<forall>r\<in>set rows. \<forall>x. lower (pr_name r) \<noteq> lower (repr_float env x)"
  shows "\<exists>r. resolve_role_llm env m (Some rows) (snapshot_of now rows) alias = PoolModel r \<and> r \<in> set rows \<and> pr_is_active r
     \<and> (\<forall>r'\<in>set rows. pr_is_active r' \<longrightarrow>
          \<bar>strength_of r - alias_target alias (snapshot_of now rows)\<bar> \<le> \<bar>strength_of r' - alias_target alias (snapshot_of now rows)\<bar>
          \<and> (alias \<in> {''strongest'', ''strong''} \<longrightarrow> strength_of r' \<le> strength_of r)
          \<and> (alias \<in> {''fast'', ''weakest''} \<longrightarrow> strength_of r \<le> strength_of r'))"
proof -
  let ?s = "snapshot_of now rows" and ?t = "alias_target alias (snapshot_of now rows)"
  note snap = snapshot_facts [OF assms(3,4), where now = now]
  have c: "compile_selector env m alias ?s = Some (repr_float env ?t)" by (rule compile_alias [OF assms(2) snap(1)])
  have f: "strip (repr_float env ?t) = repr_float env ?t" "repr_float env ?t \<noteq> []" "parse_float env (repr_float env ?t) = Some ?t"
    using assms(1) by (simp_all add: float_ok_def)
  have "\<forall>r\<in>set rows. lower (pr_name r) \<noteq> lower (repr_float env ?t)" using assms(5) by blast
  from resolve_nearest [OF f(1,2) this f(3) assms(3)] obtain r where
    r: "resolve_step_llm_config env (Some rows) (repr_float env ?t) = Some r" "r \<in> set rows" "pr_is_active r"
    and near: "\<forall>r'\<in>set rows. pr_is_active r' \<longrightarrow> \<bar>strength_of r - ?t\<bar> \<le> \<bar>strength_of r' - ?t\<bar>" by blast
  have exact: "strength_of r = ?t" if "\<exists>r'\<in>set rows. pr_is_active r' \<and> strength_of r' = ?t"
    using near that by fastforce
  have "strength_of r' \<le> strength_of r" if "alias \<in> {''strongest'', ''strong''}" "r' \<in> set rows" "pr_is_active r'" for r'
  proof -
    have "?t = ps_max_strength ?s" using that(1) by (auto simp: alias_target_def)
    with exact snap(4) have "strength_of r = ps_max_strength ?s" by simp
    with snap(2) [OF that(2,3)] show ?thesis by simp
  qed
  moreover have "strength_of r \<le> strength_of r'" if "alias \<in> {''fast'', ''weakest''}" "r' \<in> set rows" "pr_is_active r'" for r'
  proof -
    have "?t = ps_min_strength ?s" using that(1) by (auto simp: alias_target_def)
    with exact snap(5) have "strength_of r = ps_min_strength ?s" by simp
    with snap(3) [OF that(2,3)] show ?thesis by simp
  qed
  moreover have "resolve_role_llm env m (Some rows) ?s alias = PoolModel r" by (simp add: resolve_role_llm_def c r(1))
  ultimately show ?thesis using r near by blast
qed

definition fraction_text :: "rat \<Rightarrow> string" where
  "fraction_text x =
     (let (p, q) = quotient_of x in
      (if p < 0 then ''-'' else ''+'') @ show_nat (nat \<bar>p\<bar>) @ ''/'' @ show_nat (nat q))"

definition read_fraction :: "string \<Rightarrow> rat option" where
  "read_fraction s =
     (case s of
        c # cs \<Rightarrow>
          (case split_on (CHR ''/'') cs of
             [a, b] \<Rightarrow> Some ((if c = CHR ''-'' then -1 else 1) * of_nat (read_nat a) / of_nat (read_nat b))
           | _ \<Rightarrow> None)
      | [] \<Rightarrow> None)"

definition sample_floats :: float_env where
  "sample_floats = \<lparr>parse_float = read_fraction, repr_float = fraction_text\<rparr>"

lemma slash_free: "CHR ''/'' \<notin> set (show_nat n)"
proof
  assume "CHR ''/'' \<in> set (show_nat n)"
  then have "is_digit (CHR ''/'')" by (rule digit_show)
  then show False by code_simp
qed

lemma sign_chars:
  "\<not> is_ws (CHR ''-'')" "\<not> is_ws (CHR ''+'')" "lower_char (CHR ''-'') = CHR ''-''" "lower_char (CHR ''+'') = CHR ''+''"
  by code_simp+

lemma sample_floats_ok: "float_ok sample_floats"
proof -
  have "read_fraction (fraction_text x) = Some x \<and> strip (fraction_text x) = fraction_text x \<and> fraction_text x \<noteq> []" for x
  proof -
    obtain p q where pq: "quotient_of x = (p, q)" by fastforce
    have x: "x = of_int p / of_int q" "q > 0" using quotient_of_div [OF pq] quotient_of_denom_pos [OF pq] by simp_all
    have "fraction_text x = (if p < 0 then CHR ''-'' else CHR ''+'') # show_nat (nat \<bar>p\<bar>) @ CHR ''/'' # show_nat (nat q)"
      by (simp add: fraction_text_def pq)
    moreover have "of_nat (nat q) = (of_int q :: rat)" "of_nat (nat \<bar>p\<bar>) = (of_int \<bar>p\<bar> :: rat)" using x(2) by (simp_all add: of_nat_nat)
    ultimately have "read_fraction (fraction_text x) = Some x"
      using x(1) by (cases "p < 0") (simp_all add: read_fraction_def split_on_append slash_free split_on_free del: of_nat_nat)
    moreover have "\<not> is_ws (hd (fraction_text x))" by (simp add: fraction_text_def pq sign_chars)
    moreover have "\<not> is_ws (last (fraction_text x))"
    proof -
      have "last (fraction_text x) = last (show_nat (nat q))" by (simp add: fraction_text_def pq)
      then have "is_digit (last (fraction_text x))" using digit_show [of _ "nat q"] by (simp add: last_in_set)
      then show ?thesis by (auto simp: is_digit_def is_ws_def Let_def)
    qed
    moreover have "fraction_text x \<noteq> []" by (simp add: fraction_text_def pq)
    ultimately show ?thesis using strip_id by blast
  qed
  then show ?thesis by (simp add: float_ok_def sample_floats_def)
qed

definition pool_row :: "string \<Rightarrow> rat option \<Rightarrow> bool \<Rightarrow> PoolRow" where
  "pool_row name x active = \<lparr>pr_name = name, pr_provider = ''openai'', pr_model = name, pr_api_key = None,
     pr_base_url = None, pr_strength = x, pr_is_active = active\<rparr>"

definition sample_pool :: "PoolRow list" where
  "sample_pool = [pool_row ''Small'' (Some 1) True, pool_row ''Huge'' (Some 9) False, pool_row ''Big'' (Some 5) True, pool_row ''Plain'' None True]"

theorem alias_resolution_witness:
  "resolve_role_llm sample_floats [] (Some sample_pool) (snapshot_of 0 sample_pool) ''strongest'' = PoolModel (pool_row ''Big'' (Some 5) True)"
proof -
  have "''strongest'' \<in> set aliases_non_core" by (simp add: aliases_non_core_def)
  moreover have "\<exists>r\<in>set sample_pool. pr_is_active r" "\<forall>r\<in>set sample_pool. pr_name r \<noteq> []"
    by (simp_all add: sample_pool_def pool_row_def)
  moreover have "lower n \<noteq> lower (fraction_text x)" if "n \<in> {''Small'', ''Huge'', ''Big'', ''Plain''}" for n x
  proof -
    have "hd (lower (fraction_text x)) \<in> {CHR ''-'', CHR ''+''}"
      by (simp add: fraction_text_def lower_def sign_chars split: prod.split)
    moreover have "list_all (\<lambda>n. hd (lower n) \<noteq> CHR ''-'' \<and> hd (lower n) \<noteq> CHR ''+'') [''Small'', ''Huge'', ''Big'', ''Plain'']" by code_simp
    then have "hd (lower n) \<notin> {CHR ''-'', CHR ''+''}" using that unfolding list_all_iff by auto
    ultimately show ?thesis by metis
  qed
  then have "\<forall>r\<in>set sample_pool. \<forall>x. lower (pr_name r) \<noteq> lower (repr_float sample_floats x)"
    by (simp add: sample_pool_def pool_row_def sample_floats_def)
  ultimately obtain r where
    r: "resolve_role_llm sample_floats [] (Some sample_pool) (snapshot_of 0 sample_pool) ''strongest'' = PoolModel r"
      "r \<in> set sample_pool" "pr_is_active r" "\<forall>r'\<in>set sample_pool. pr_is_active r' \<longrightarrow> strength_of r' \<le> strength_of r"
    using alias_resolution [OF sample_floats_ok, of "''strongest''" sample_pool "[]" 0] by blast
  from r(2-4) have "r = pool_row ''Big'' (Some 5) True"
    by (auto simp: sample_pool_def pool_row_def strength_of_def)
  with r(1) show ?thesis by simp
qed

end
