(* ===== verification/RoleLadder.thy ===== *)
theory RoleLadder
  imports RoleResolver
begin

text \<open>
  The executor of a role, \<open>core_graph/model_roles/ladder.py\<close>: the rungs are tried in order, each up to its
  number of attempts, and the outcome of every attempt decides between success, another attempt,
  the next rung and the terminal fallback.  Clients are values of a type variable \<open>'llm\<close>, so that
  \<open>last_llm is fallback_llm\<close> is an equality; an answer of a client is a \<open>reply\<close>, which may be an exception.
  The calls are functions of the number of calls made so far (\<open>lr_calls\<close>), so that a client may
  answer differently each time; an exception of \<open>extract\<close> or of the caller's validator leaves the
  executor (\<open>Crashed\<close>).  Elapsed times and logging are left out; token usage is folded
  by a parameter.
\<close>

subsection \<open>Data\<close>

datatype 'a reply = Raises string | Returns 'a

record RungAttempt =
  ra_rung_index :: nat
  ra_selector :: string
  ra_model :: string
  ra_status :: string
  ra_reason :: "reason option"

record ('llm, 'usage) LadderResult =
  lr_value :: pyval
  lr_llm :: "'llm option"
  lr_rung_index :: nat
  lr_escalated :: bool
  lr_attempts :: "RungAttempt list"
  lr_token_usage :: 'usage
  lr_status :: string
  lr_role :: string
  lr_calls :: "'llm list"

text \<open>
  What the executor calls: resolving a selector (by the number of attempts recorded so far), the
  caller's attempt (by the number of calls made so far), the extraction of a value from the raw answer
  (\<open>Returns\<close> when it is absent), the caller's validator, the usage accounting, the fallback
  client and the name of its model.
\<close>

record ('llm, 'usage) ladder_env =
  le_resolve :: "nat \<Rightarrow> string \<Rightarrow> ('llm \<times> string) reply"
  le_attempt :: "nat \<Rightarrow> 'llm \<Rightarrow> pyval reply"
  le_extract :: "pyval \<Rightarrow> pyval reply"
  le_validate :: "(pyval \<Rightarrow> string option reply) option"
  le_fold_usage :: "'usage \<Rightarrow> pyval \<Rightarrow> string \<Rightarrow> 'usage"
  le_fallback :: "'llm option"
  le_fallback_name :: string

definition fallback_spec :: ModelRoleSpec where
  "fallback_spec =
     \<lparr>mr_role_id = ''__fallback__'', mr_description = PStr [],
      mr_ladder = [\<lparr>rg_selector = ''core'', rg_max_attempts = 1, rg_timeout_s = None\<rparr>],
      mr_validate = None, mr_entry_conditions = [], mr_escalate_on_exception = True, mr_escalate_on_invalid = True,
      mr_terminal_fallback = ''ctx_llm'', mr_owner = []\<rparr>"

text \<open>\<open>_resolve_spec\<close> of a role id; \<open>None\<close> for the registry is a lookup that raises.\<close>

definition resolve_spec :: "bool \<Rightarrow> role_registry option \<Rightarrow> string \<Rightarrow> ModelRoleSpec" where
  "resolve_spec enabled reg role =
     (if \<not> enabled then fallback_spec
      else case reg of
        None \<Rightarrow> fallback_spec
      | Some g \<Rightarrow> (case role_get g role of Some r \<Rightarrow> r | None \<Rightarrow> fallback_spec))"

definition start_rung :: "ModelRoleSpec \<Rightarrow> pyval \<Rightarrow> int \<Rightarrow> int" where
  "start_rung spec state min_rung =
     (let advance = sum_list (map sc_advance (filter (\<lambda>c. condition_holds c state) (mr_entry_conditions spec)));
          start = max min_rung advance in
      min start (max (int (length (mr_ladder spec)) - 1) 0))"

definition first_rung_selector :: "ModelRoleSpec \<Rightarrow> string" where
  "first_rung_selector spec = (case mr_ladder spec of r # _ \<Rightarrow> rg_selector r | [] \<Rightarrow> ''core'')"

definition init_result :: "ModelRoleSpec \<Rightarrow> 'usage \<Rightarrow> ('llm, 'usage) LadderResult" where
  "init_result spec usage =
     \<lparr>lr_value = PNone, lr_llm = None, lr_rung_index = 0, lr_escalated = False, lr_attempts = [],
      lr_token_usage = usage, lr_status = ''ok'', lr_role = mr_role_id spec, lr_calls = []\<rparr>"

definition note_attempt :: "nat \<Rightarrow> string \<Rightarrow> string \<Rightarrow> string \<Rightarrow> reason option \<Rightarrow> ('llm, 'usage) LadderResult \<Rightarrow> ('llm, 'usage) LadderResult" where
  "note_attempt i sel model status why res =
     res\<lparr>lr_attempts := lr_attempts res @
       [\<lparr>ra_rung_index = i, ra_selector = sel, ra_model = model, ra_status = status, ra_reason = why\<rparr>]\<rparr>"

definition note_call :: "'llm \<Rightarrow> ('llm, 'usage) LadderResult \<Rightarrow> ('llm, 'usage) LadderResult" where
  "note_call llm res = res\<lparr>lr_calls := lr_calls res @ [llm]\<rparr>"

definition fold_usage :: "('llm, 'usage) ladder_env \<Rightarrow> pyval \<Rightarrow> string \<Rightarrow> ('llm, 'usage) LadderResult \<Rightarrow> ('llm, 'usage) LadderResult" where
  "fold_usage env raw model res = res\<lparr>lr_token_usage := le_fold_usage env (lr_token_usage res) raw model\<rparr>"

definition check_value :: "('llm, 'usage) ladder_env \<Rightarrow> ModelRoleSpec \<Rightarrow> pyval \<Rightarrow> reason option reply" where
  "check_value env spec v =
     (case le_validate env of
        Some f \<Rightarrow> (case f v of Raises e \<Rightarrow> Raises e | Returns r \<Rightarrow> Returns (map_option CustomReason r))
      | None \<Rightarrow> Returns (case mr_validate spec of Some vd \<Rightarrow> validation_check vd v | None \<Rightarrow> None))"

text \<open>
  The resolver as the executor sees it: a pool entry's client with the name of its model, or the
  fallback client, or without one the core client.
\<close>

definition pool_resolve ::
    "float_env \<Rightarrow> (string \<times> string) list \<Rightarrow> PoolRow list option \<Rightarrow> PoolSnapshot \<Rightarrow> (PoolRow \<Rightarrow> 'llm) \<Rightarrow> 'llm \<Rightarrow> ('llm \<Rightarrow> string)
      \<Rightarrow> 'llm option \<Rightarrow> string \<Rightarrow> 'llm \<times> string" where
  "pool_resolve fenv effort_map pool snap client core sniff fallback sel =
     (case resolve_role_llm fenv effort_map pool snap sel of
        PoolModel r \<Rightarrow> (client r, pr_model r)
      | CoreModel \<Rightarrow> (let llm = (case fallback of Some fb \<Rightarrow> fb | None \<Rightarrow> core) in (llm, sniff llm)))"

subsection \<open>The terminal fallback\<close>

datatype ('llm, 'usage) ladder_outcome = Crashed string | Finished_ladder "('llm, 'usage) LadderResult"

definition apply_terminal ::
    "('llm, 'usage) ladder_env \<Rightarrow> ModelRoleSpec \<Rightarrow> ('llm, 'usage) LadderResult \<Rightarrow> 'llm option \<Rightarrow> ('llm, 'usage) ladder_outcome" where
  "apply_terminal env spec res last_llm =
     (let nothing = Finished_ladder (res\<lparr>lr_value := PNone\<rparr>) in
      if mr_terminal_fallback spec \<in> {''none'', ''error''} then nothing
      else case le_fallback env of
        None \<Rightarrow> nothing
      | Some fb \<Rightarrow>
          (if last_llm = Some fb then nothing
           else (let called = note_call fb res in
             case le_attempt env (length (lr_calls res)) fb of
               Raises e \<Rightarrow>
                 Finished_ladder ((note_attempt (lr_rung_index res) ''ctx_llm'' ''ctx_llm'' ''error'' (Some (ExceptionOf e)) called)
                   \<lparr>lr_value := PNone, lr_llm := Some fb\<rparr>)
             | Returns raw \<Rightarrow>
                 (let noted = note_attempt (lr_rung_index res) ''ctx_llm'' (le_fallback_name env) ''ok'' None
                        (fold_usage env raw (le_fallback_name env) called) in
                  case le_extract env raw of
                    Raises e \<Rightarrow> Crashed e
                  | Returns v \<Rightarrow> Finished_ladder (noted\<lparr>lr_value := v, lr_llm := Some fb\<rparr>)))))"

subsection \<open>One rung\<close>

datatype ('llm, 'usage) rung_end =
    Ended "('llm, 'usage) ladder_outcome"
  | Escalate "('llm, 'usage) LadderResult" "'llm option"

fun try_rung ::
    "('llm, 'usage) ladder_env \<Rightarrow> ModelRoleSpec \<Rightarrow> nat \<Rightarrow> string \<Rightarrow> bool \<Rightarrow> nat \<Rightarrow> ('llm, 'usage) LadderResult \<Rightarrow> 'llm option
      \<Rightarrow> ('llm, 'usage) rung_end" where
  "try_rung env spec i sel esc 0 res last_llm = Escalate res last_llm"
| "try_rung env spec i sel esc (Suc n) res last_llm =
     (case le_resolve env (length (lr_attempts res)) sel of
        Raises e \<Rightarrow> Escalate (note_attempt i sel ''unknown'' ''error'' (Some (ExceptionOf e)) res) last_llm
      | Returns (llm, model) \<Rightarrow>
          (case le_attempt env (length (lr_calls res)) llm of
             Raises e \<Rightarrow>
               (let res1 = note_attempt i sel model ''error'' (Some (ExceptionOf e)) (fold_usage env PNone model (note_call llm res)) in
                if \<not> mr_escalate_on_exception spec
                then Ended (apply_terminal env spec
                       (res1\<lparr>lr_value := PNone, lr_llm := Some llm, lr_rung_index := i, lr_status := ''exhausted''\<rparr>) (Some llm))
                else try_rung env spec i sel esc n res1 (Some llm))
           | Returns raw \<Rightarrow>
               (let res1 = fold_usage env raw model (note_call llm res) in
                case le_extract env raw of
                  Raises e \<Rightarrow> Ended (Crashed e)
                | Returns value \<Rightarrow>
                    (case check_value env spec value of
                       Raises e \<Rightarrow> Ended (Crashed e)
                     | Returns None \<Rightarrow>
                         Ended (Finished_ladder ((note_attempt i sel model ''ok'' None res1)
                           \<lparr>lr_value := value, lr_llm := Some llm, lr_rung_index := i, lr_escalated := esc, lr_status := ''ok''\<rparr>))
                     | Returns (Some why) \<Rightarrow>
                         (let res2 = note_attempt i sel model ''invalid'' (Some why) res1 in
                          if \<not> mr_escalate_on_invalid spec
                          then Ended (apply_terminal env spec
                                 (res2\<lparr>lr_value := value, lr_llm := Some llm, lr_rung_index := i, lr_status := ''exhausted''\<rparr>) None)
                          else try_rung env spec i sel esc n res2 (Some llm))))))"

declare try_rung.simps(2) [simp del]

subsection \<open>The ladder\<close>

definition rung_attempts :: "Rung \<Rightarrow> nat" where
  "rung_attempts r = nat (max (rg_max_attempts r) 1)"

fun walk_rungs ::
    "('llm, 'usage) ladder_env \<Rightarrow> ModelRoleSpec \<Rightarrow> nat \<Rightarrow> Rung list \<Rightarrow> bool \<Rightarrow> ('llm, 'usage) LadderResult \<Rightarrow> 'llm option
      \<Rightarrow> ('llm, 'usage) ladder_outcome" where
  "walk_rungs env spec i [] esc res last_llm =
     apply_terminal env spec
       (res\<lparr>lr_status := ''exhausted'', lr_rung_index := length (mr_ladder spec) - 1, lr_escalated := esc\<rparr>) last_llm"
| "walk_rungs env spec i (r # rs) esc res last_llm =
     (case try_rung env spec i (rg_selector r) esc (rung_attempts r) res last_llm of
        Ended out \<Rightarrow> out
      | Escalate res1 last1 \<Rightarrow> walk_rungs env spec (Suc i) rs True res1 last1)"

definition run_role_ladder ::
    "('llm, 'usage) ladder_env \<Rightarrow> ModelRoleSpec \<Rightarrow> pyval \<Rightarrow> int \<Rightarrow> 'usage \<Rightarrow> ('llm, 'usage) ladder_outcome" where
  "run_role_ladder env spec state min_rung usage =
     (let i = nat (start_rung spec state min_rung) in
      walk_rungs env spec i (drop i (mr_ladder spec)) False (init_result spec usage) None)"

subsection \<open>The audit record\<close>

record audit_entry =
  au_node :: string
  au_role :: string
  au_rung :: nat
  au_model :: "string option"
  au_status :: string
  au_escalated :: bool
  au_reason :: "reason option"
  au_attempts :: "RungAttempt list"

definition audit_entry_of :: "string \<Rightarrow> ('llm, 'usage) LadderResult \<Rightarrow> audit_entry" where
  "audit_entry_of node res =
     (let last = (if lr_attempts res = [] then None else Some (List.last (lr_attempts res))) in
      \<lparr>au_node = node, au_role = lr_role res, au_rung = lr_rung_index res, au_model = map_option ra_model last,
       au_status = lr_status res, au_escalated = lr_escalated res,
       au_reason = (case last of None \<Rightarrow> None | Some a \<Rightarrow> ra_reason a), au_attempts = lr_attempts res\<rparr>)"

subsection \<open>Accounting\<close>

lemmas note_simps = note_attempt_def note_call_def fold_usage_def init_result_def

text \<open>\<open>extends lo hi k res res'\<close>: at most \<open>k\<close> calls and attempts of the rungs \<open>lo\<close> to \<open>hi\<close> in order lie between the results.\<close>

definition extends :: "nat \<Rightarrow> nat \<Rightarrow> nat \<Rightarrow> ('llm, 'usage) LadderResult \<Rightarrow> ('llm, 'usage) LadderResult \<Rightarrow> bool" where
  "extends lo hi k res res' \<longleftrightarrow> length (lr_calls res') \<le> length (lr_calls res) + k
     \<and> (\<exists>xs. lr_attempts res' = lr_attempts res @ xs \<and> sorted (map ra_rung_index xs) \<and> ra_rung_index ` set xs \<subseteq> {lo..hi})"

lemma extends_trans:
  assumes "extends lo mid k a b" "extends mid' hi k' b c" "mid \<le> mid'" "lo \<le> mid'" "mid \<le> hi"
  shows "extends lo hi (k + k') a c"
proof -
  obtain xs where xs: "lr_attempts b = lr_attempts a @ xs" "sorted (map ra_rung_index xs)" "ra_rung_index ` set xs \<subseteq> {lo..mid}"
    using assms(1) by (auto simp: extends_def)
  obtain ys where ys: "lr_attempts c = lr_attempts b @ ys" "sorted (map ra_rung_index ys)" "ra_rung_index ` set ys \<subseteq> {mid'..hi}"
    using assms(2) by (auto simp: extends_def)
  have "x \<le> y" if "x \<in> ra_rung_index ` set xs" "y \<in> ra_rung_index ` set ys" for x y
    using subsetD [OF xs(3) that(1)] subsetD [OF ys(3) that(2)] assms(3) by simp
  then have "sorted (map ra_rung_index (xs @ ys))" using xs(2) ys(2) by (auto simp: sorted_append)
  moreover have "ra_rung_index ` set (xs @ ys) \<subseteq> {lo..hi}"
    using order_trans [OF xs(3), of "{lo..hi}"] order_trans [OF ys(3), of "{lo..hi}"] assms(4,5) by (simp add: image_Un)
  ultimately show ?thesis using assms(1,2) xs(1) ys(1) by (auto simp: extends_def)
qed

lemma extends_more: "extends lo hi k a b \<Longrightarrow> k \<le> k' \<Longrightarrow> extends lo hi k' a b"
  by (auto simp: extends_def)

lemma extends_wider: "extends lo hi k a b \<Longrightarrow> lo' \<le> lo \<Longrightarrow> hi \<le> hi' \<Longrightarrow> extends lo' hi' k a b"
  by (force simp: extends_def)

text \<open>What a finished outcome is worth: a validated value, nothing, or the fallback's answer.\<close>

definition provenance :: "('llm, 'usage) ladder_env \<Rightarrow> ModelRoleSpec \<Rightarrow> ('llm, 'usage) LadderResult \<Rightarrow> bool" where
  "provenance env spec res \<longleftrightarrow>
     (lr_status res = ''ok'' \<and> check_value env spec (lr_value res) = Returns None \<and> lr_llm res \<noteq> None)
     \<or> (lr_status res = ''exhausted''
        \<and> (lr_value res = PNone
           \<or> (mr_terminal_fallback spec \<notin> {''none'', ''error''} \<and> lr_llm res = le_fallback env \<and> le_fallback env \<noteq> None)))"

lemma terminal_facts:
  assumes "apply_terminal env spec res last_llm = Finished_ladder r"
  shows "extends (lr_rung_index res) (lr_rung_index res) 1 res r"
    and "lr_status res = ''exhausted'' \<Longrightarrow> provenance env spec r"
proof -
  from assms show "extends (lr_rung_index res) (lr_rung_index res) 1 res r"
    by (auto simp: apply_terminal_def Let_def note_simps extends_def split: if_splits option.splits reply.splits)
  assume "lr_status res = ''exhausted''"
  with assms show "provenance env spec r"
    by (auto simp: apply_terminal_def Let_def note_simps provenance_def split: if_splits option.splits reply.splits)
qed

text \<open>The ways an attempt of a rung continues or ends.\<close>

lemma attempt_cases:
  obtains (crash) e where "try_rung env spec i sel esc (Suc n) res last_llm = Ended (Crashed e)"
  | (ok) r where "try_rung env spec i sel esc (Suc n) res last_llm = Ended (Finished_ladder r)" "extends i i 1 res r" "provenance env spec r"
  | (stop) res2 l where "try_rung env spec i sel esc (Suc n) res last_llm = Ended (apply_terminal env spec res2 l)"
      "extends i i 1 res res2" "lr_rung_index res2 = i" "lr_status res2 = ''exhausted''"
  | (again) res2 l where "try_rung env spec i sel esc (Suc n) res last_llm = try_rung env spec i sel esc n res2 l" "extends i i 1 res res2"
  | (onward) res2 l where "try_rung env spec i sel esc (Suc n) res last_llm = Escalate res2 l" "extends i i 1 res res2"
proof (cases "le_resolve env (length (lr_attempts res)) sel")
  case (Raises e)
  have "extends i i 1 res (note_attempt i sel ''unknown'' ''error'' (Some (ExceptionOf e)) res)" by (simp add: note_simps extends_def)
  with Raises show ?thesis by (intro onward [of _ last_llm]) (simp_all add: try_rung.simps(2))
next
  case (Returns lm)
  obtain llm model where resolved: "le_resolve env (length (lr_attempts res)) sel = Returns (llm, model)"
    using Returns by (cases lm) simp
  let ?r1 = "\<lambda>raw. fold_usage env raw model (note_call llm res)"
  let ?fin = "\<lambda>r v. r\<lparr>lr_value := v, lr_llm := Some llm, lr_rung_index := i, lr_status := ''exhausted''\<rparr>"
  show ?thesis
  proof (cases "le_attempt env (length (lr_calls res)) llm")
    case (Raises e)
    let ?r = "note_attempt i sel model ''error'' (Some (ExceptionOf e)) (?r1 PNone)"
    have "extends i i 1 res ?r" "extends i i 1 res (?fin ?r PNone)" by (simp_all add: note_simps extends_def)
    with resolved Raises again [of ?r "Some llm"] stop [of "?fin ?r PNone" "Some llm"] show ?thesis
      by (cases "mr_escalate_on_exception spec") (simp_all add: try_rung.simps(2) Let_def)
  next
    case (Returns raw)
    note attempted = resolved Returns
    consider e where "le_extract env raw = Raises e" | v e where "le_extract env raw = Returns v" "check_value env spec v = Raises e"
      | v why where "le_extract env raw = Returns v" "check_value env spec v = Returns why" by (metis reply.exhaust)
    then show ?thesis
    proof cases
      case (3 v why)
      show ?thesis
      proof (cases why)
        case None
        let ?r = "(note_attempt i sel model ''ok'' None (?r1 raw))
          \<lparr>lr_value := v, lr_llm := Some llm, lr_rung_index := i, lr_escalated := esc, lr_status := ''ok''\<rparr>"
        have "extends i i 1 res ?r" by (simp add: note_simps extends_def)
        with attempted 3 None ok [of ?r] show ?thesis by (simp add: try_rung.simps(2) Let_def provenance_def)
      next
        case (Some w)
        let ?r = "note_attempt i sel model ''invalid'' (Some w) (?r1 raw)"
        have "extends i i 1 res ?r" "extends i i 1 res (?fin ?r v)" by (simp_all add: note_simps extends_def)
        with attempted 3 Some again [of ?r "Some llm"] stop [of "?fin ?r v" None] show ?thesis
          by (cases "mr_escalate_on_invalid spec") (simp_all add: try_rung.simps(2) Let_def)
      qed
    qed (use attempted crash in \<open>simp_all add: try_rung.simps(2) Let_def\<close>)
  qed
qed

lemma try_rung_facts:
  "(\<forall>r. try_rung env spec i sel esc n res last_llm = Ended (Finished_ladder r) \<longrightarrow> extends i i (Suc n) res r \<and> provenance env spec r)
   \<and> (\<forall>res1 last1. try_rung env spec i sel esc n res last_llm = Escalate res1 last1 \<longrightarrow> extends i i n res res1)"
proof (induction n arbitrary: res last_llm)
  case 0
  then show ?case by (simp add: extends_def)
next
  case (Suc n)
  show ?case
  proof (cases rule: attempt_cases [of env spec i sel esc n res last_llm])
    case (stop res2 l)
    then have "extends i i (1 + 1) res r \<and> provenance env spec r" if "apply_terminal env spec res2 l = Finished_ladder r" for r
      using terminal_facts [OF that] extends_trans [OF stop(2), of i i 1 r] by simp
    with stop(1) show ?thesis by (auto intro: extends_more [of _ _ "Suc (Suc 0)"])
  next
    case (again res2 l)
    have "extends i i (Suc k) res r" if "extends i i k res2 r" for k r
      using extends_trans [OF again(2) that] by simp
    with Suc.IH [of res2 l] again(1) show ?thesis by auto
  qed (auto intro: extends_more [of _ _ 1])
qed

lemma walk_facts:
  assumes "walk_rungs env spec i rs esc res last_llm = Finished_ladder r" "i + length rs = length (mr_ladder spec)"
  shows "extends (min i (length (mr_ladder spec) - 1)) (length (mr_ladder spec) - 1) (sum_list (map rung_attempts rs) + 1) res r
     \<and> provenance env spec r"
  using assms
proof (induction env spec i rs esc res last_llm rule: walk_rungs.induct)
  case (1 env spec i esc res last_llm)
  let ?res = "res\<lparr>lr_status := ''exhausted'', lr_rung_index := length (mr_ladder spec) - 1, lr_escalated := esc\<rparr>"
  have "apply_terminal env spec ?res last_llm = Finished_ladder r" using "1.prems"(1) by simp
  from terminal_facts [OF this] show ?case using "1.prems"(2) by (auto simp: extends_def)
next
  case (2 env spec i r' rs esc res last_llm)
  let ?n = "rung_attempts r'" and ?hi = "length (mr_ladder spec) - 1"
  note facts = try_rung_facts [of env spec i "rg_selector r'" esc ?n res last_llm]
  have i: "i \<le> ?hi" "min i ?hi = i" using "2.prems"(2) by simp_all
  show ?case
  proof (cases "try_rung env spec i (rg_selector r') esc ?n res last_llm")
    case (Ended out)
    with "2.prems"(1) have "try_rung env spec i (rg_selector r') esc ?n res last_llm = Ended (Finished_ladder r)" by simp
    from facts [THEN conjunct1, rule_format, OF this] have "extends i i (Suc ?n) res r" "provenance env spec r" by simp_all
    then have "extends i i (sum_list (map rung_attempts (r' # rs)) + 1) res r" by (auto elim: extends_more)
    from extends_wider [OF this order_refl i(1)] have "extends i ?hi (sum_list (map rung_attempts (r' # rs)) + 1) res r" .
    then show ?thesis using i(2) \<open>provenance env spec r\<close> by simp
  next
    case (Escalate res1 last1)
    with "2.prems"(1) have "walk_rungs env spec (Suc i) rs True res1 last1 = Finished_ladder r" by simp
    with "2.IH" [OF Escalate this] "2.prems"(2)
    have rest: "extends (min (Suc i) ?hi) ?hi (sum_list (map rung_attempts rs) + 1) res1 r" "provenance env spec r" by simp_all
    have "extends i i ?n res res1" by (rule facts [THEN conjunct2, rule_format, OF Escalate])
    from extends_trans [OF this rest(1)] i have "extends i ?hi (?n + (sum_list (map rung_attempts rs) + 1)) res r" by simp
    then show ?thesis using i(2) rest(2) by (simp add: add.assoc)
  qed
qed

lemma start_rung_range:
  assumes "mr_ladder spec \<noteq> []" "\<forall>c\<in>set (mr_entry_conditions spec). sc_advance c \<ge> 1"
  shows "0 \<le> start_rung spec state m" "start_rung spec state m < int (length (mr_ladder spec))"
proof -
  have "0 \<le> sum_list (map sc_advance (filter P (mr_entry_conditions spec)))" for P
    using assms(2) by (intro sum_list_nonneg) force
  then show "0 \<le> start_rung spec state m" unfolding start_rung_def Let_def by (meson max.cobounded2 min.boundedI order_trans)
  show "start_rung spec state m < int (length (mr_ladder spec))" using assms(1) by (auto simp: start_rung_def Let_def)
qed

subsection \<open>Properties\<close>

text \<open>
  C38: The ladder never passes off an unchecked value.  A run that ends without an exception from the
  extraction or the caller's validator ends ok with a value that passed the check, or exhausted with no
  value, or exhausted with the answer of the fallback client, and this last one only where the
  role asks for it and a fallback client was given.
\<close>

theorem ladder_value_checked:
  assumes "run_role_ladder env spec state m usage = Finished_ladder r" "wf_role spec"
  shows "(lr_status r = ''ok'' \<and> check_value env spec (lr_value r) = Returns None \<and> lr_llm r \<noteq> None)
     \<or> (lr_status r = ''exhausted'' \<and> lr_value r = PNone)
     \<or> (lr_status r = ''exhausted'' \<and> mr_terminal_fallback spec = ''ctx_llm'' \<and> le_fallback env \<noteq> None \<and> lr_llm r = le_fallback env)"
proof -
  let ?i = "nat (start_rung spec state m)"
  have wf: "mr_ladder spec \<noteq> []" "\<forall>c\<in>set (mr_entry_conditions spec). sc_advance c \<ge> 1"
    "mr_terminal_fallback spec \<in> set terminal_fallbacks"
    using assms(2) by (simp_all add: wf_role_def wf_condition_def)
  have "?i + length (drop ?i (mr_ladder spec)) = length (mr_ladder spec)" using start_rung_range [OF wf(1,2), of state m] by simp
  note walk = walk_facts [OF _ this]
  have "walk_rungs env spec ?i (drop ?i (mr_ladder spec)) False (init_result spec usage) None = Finished_ladder r"
    using assms(1) by (simp add: run_role_ladder_def Let_def)
  from walk [OF this] have "provenance env spec r" ..
  with wf(3) show ?thesis by (auto simp: provenance_def terminal_fallbacks_def)
qed

text \<open>
  The cost of a ladder is bounded.  A run calls clients at most once for each attempt of the rungs
  from the start rung on, and once more for the terminal fallback; its attempts are recorded in the
  order of the rungs, and every recorded rung is one of the ladder from the start rung on.
\<close>

theorem ladder_cost_bounded:
  assumes "run_role_ladder env spec state m usage = Finished_ladder r" "wf_role spec"
  shows "(let i = nat (start_rung spec state m) in
     length (lr_calls r) \<le> sum_list (map rung_attempts (drop i (mr_ladder spec))) + 1
     \<and> sorted (map ra_rung_index (lr_attempts r))
     \<and> ra_rung_index ` set (lr_attempts r) \<subseteq> {i..<length (mr_ladder spec)})"
proof -
  let ?i = "nat (start_rung spec state m)" and ?hi = "length (mr_ladder spec) - 1"
  have wf: "mr_ladder spec \<noteq> []" "\<forall>c\<in>set (mr_entry_conditions spec). sc_advance c \<ge> 1"
    using assms(2) by (simp_all add: wf_role_def wf_condition_def)
  note start = start_rung_range [OF wf, of state m]
  have "?i + length (drop ?i (mr_ladder spec)) = length (mr_ladder spec)" using start by simp
  note walk = walk_facts [OF _ this]
  have "walk_rungs env spec ?i (drop ?i (mr_ladder spec)) False (init_result spec usage) None = Finished_ladder r"
    using assms(1) by (simp add: run_role_ladder_def Let_def)
  from walk [OF this] have "extends (min ?i ?hi) ?hi (sum_list (map rung_attempts (drop ?i (mr_ladder spec))) + 1) (init_result spec usage) r" ..
  moreover have "min ?i ?hi = ?i" "{?i..?hi} = {?i..<length (mr_ladder spec)}" using start by auto
  ultimately show ?thesis by (auto simp: extends_def init_result_def Let_def)
qed

lemma resolve_core: "resolve_role_llm fenv effort_map pool snap ''core'' = CoreModel"
proof -
  have "strip ''core'' = ''core''" by code_simp
  then show ?thesis by (simp add: resolve_role_llm_def compile_selector_def)
qed

text \<open>
  Without a role the ladder is one plain call.  When roles are switched off, the registry cannot be
  read or does not know the role, a run calls exactly the fallback client once, whatever
  the answer, the state and the lowest rung asked for, and records exactly one attempt.
\<close>

theorem missing_role_single_call:
  assumes "\<not> enabled \<or> reg = None \<or> (\<exists>g. reg = Some g \<and> role_get g role = None)"
    and "le_resolve env = (\<lambda>_ sel. Returns (pool_resolve fenv effort_map pool snap client core sniff (Some fb) sel))"
    and "le_fallback env = Some fb"
    and "run_role_ladder env (resolve_spec enabled reg role) state m usage = Finished_ladder r"
  shows "lr_calls r = [fb] \<and> length (lr_attempts r) = 1 \<and> lr_rung_index r = 0"
proof -
  have spec: "resolve_spec enabled reg role = fallback_spec" using assms(1) by (auto simp: resolve_spec_def)
  have start: "nat (start_rung fallback_spec state m) = 0" by (simp add: start_rung_def fallback_spec_def Let_def)
  have resolved: "le_resolve env n ''core'' = Returns (fb, sniff fb)" for n
    by (simp add: assms(2) pool_resolve_def resolve_core Let_def)
  have terminal: "apply_terminal env fallback_spec res (Some fb) = Finished_ladder (res\<lparr>lr_value := PNone\<rparr>)" for res
    by (simp add: apply_terminal_def fallback_spec_def assms(3) Let_def)
  have "walk_rungs env fallback_spec 0 (mr_ladder fallback_spec) False (init_result fallback_spec usage) None = Finished_ladder r"
    using assms(4) by (simp add: run_role_ladder_def spec start Let_def)
  moreover have "mr_escalate_on_exception fallback_spec" "mr_escalate_on_invalid fallback_spec"
    "mr_ladder fallback_spec = [\<lparr>rg_selector = ''core'', rg_max_attempts = 1, rg_timeout_s = None\<rparr>]" by (simp_all add: fallback_spec_def)
  ultimately show ?thesis
    by (auto simp: rung_attempts_def try_rung.simps(2) resolved Let_def note_simps terminal
        split: reply.splits option.splits)
qed

subsection \<open>Runs\<close>

text \<open>A pool whose small model answers without JSON and whose other models answer in the format of the triage role.\<close>

definition sample_ladder_env :: "(string, nat) ladder_env" where
  "sample_ladder_env =
     \<lparr>le_resolve = (\<lambda>n sel. Returns (if sel = ''core'' then ''ctx'' else sel, sel)),
      le_attempt = (\<lambda>n llm. if llm = ''fast'' then Returns (PStr ''hm'') else Returns (PDict [(''mode'', PStr ''task'')])),
      le_extract = Returns, le_validate = None, le_fold_usage = (\<lambda>u raw model. u + 1),
      le_fallback = Some ''ctx'', le_fallback_name = ''ctx''\<rparr>"

definition sample_ladder_result :: "(string, nat) LadderResult" where
  "sample_ladder_result =
     \<lparr>lr_value = PDict [(''mode'', PStr ''task'')], lr_llm = Some ''strongest'', lr_rung_index = 1, lr_escalated = True,
      lr_attempts = [\<lparr>ra_rung_index = 0, ra_selector = ''fast'', ra_model = ''fast'', ra_status = ''invalid'', ra_reason = Some NotJson\<rparr>,
        \<lparr>ra_rung_index = 1, ra_selector = ''strongest'', ra_model = ''strongest'', ra_status = ''ok'', ra_reason = None\<rparr>],
      lr_token_usage = 2, lr_status = ''ok'', lr_role = ''triage'', lr_calls = [''fast'', ''strongest'']\<rparr>"

lemma sample_ladder_run:
  "run_role_ladder sample_ladder_env triage_role (PDict []) 0 0 = Finished_ladder sample_ladder_result"
  by code_simp

lemma triage_role_parsed:
  "parse_model_role_spec ''core'' (hd (list_of (dget_none ''roles'' (dict_of sample_bundle)))) = Inr triage_role"
  by code_simp

lemma triage_role_wf: "wf_role triage_role"
  using parse_model_role_facts [OF triage_role_parsed] by simp

theorem ladder_value_checked_witness:
  "check_value sample_ladder_env triage_role (lr_value sample_ladder_result) = Returns None"
  using ladder_value_checked [OF sample_ladder_run triage_role_wf] by (simp add: sample_ladder_result_def)

theorem ladder_cost_bounded_witness:
  "length (lr_calls sample_ladder_result) \<le> 4"
proof -
  have "start_rung triage_role (PDict []) 0 = 0" by code_simp
  with ladder_cost_bounded [OF sample_ladder_run triage_role_wf] show ?thesis
    by (simp add: triage_role_def rung_attempts_def Let_def)
qed

definition offline_env :: "(string, nat) ladder_env" where
  "offline_env = sample_ladder_env\<lparr>le_resolve := (\<lambda>_ sel.
     Returns (pool_resolve sample_floats [] None empty_snapshot pr_name ''core'' (\<lambda>llm. llm) (Some ''ctx'') sel))\<rparr>"

theorem missing_role_single_call_witness:
  "(case run_role_ladder offline_env (resolve_spec True (Some empty_role_registry) ''triage'') (PDict []) 3 0 of
      Finished_ladder r \<Rightarrow> lr_calls r = [''ctx''] | Crashed e \<Rightarrow> False)"
proof -
  let ?run = "run_role_ladder offline_env (resolve_spec True (Some empty_role_registry) ''triage'') (PDict []) 3 0"
  have "case ?run of Finished_ladder r \<Rightarrow> True | Crashed e \<Rightarrow> False" by code_simp
  then obtain r where r: "?run = Finished_ladder r" by (cases ?run) simp_all
  have env: "le_resolve offline_env = (\<lambda>_ sel. Returns (pool_resolve sample_floats [] None empty_snapshot pr_name ''core'' (\<lambda>llm. llm) (Some ''ctx'') sel))"
    "le_fallback offline_env = Some ''ctx''" by (simp_all add: offline_env_def sample_ladder_env_def)
  have "role_get empty_role_registry ''triage'' = None" by (simp add: role_get_def empty_role_registry_def)
  with missing_role_single_call [OF _ env r] have "lr_calls r = [''ctx'']" by blast
  with r show ?thesis by simp
qed

text \<open>
  A role that does not escalate on invalid answers forgets which client gave the answer: with the
  core rung resolved to the fallback client, the terminal fallback calls the same client again.
\<close>

lemma invalid_without_escalation_calls_twice:
  "(let env = sample_ladder_env\<lparr>le_validate := Some (\<lambda>v. Returns (Some ''no''))\<rparr> in
    (case run_role_ladder env chat_role (PDict []) 0 0 of Finished_ladder r \<Rightarrow> lr_calls r | Crashed e \<Rightarrow> []) = [''ctx'', ''ctx'']
    \<and> (case run_role_ladder env (chat_role\<lparr>mr_escalate_on_invalid := True\<rparr>) (PDict []) 0 0 of Finished_ladder r \<Rightarrow> lr_calls r | Crashed e \<Rightarrow> [])
      = [''ctx''])"
  by code_simp

end
