(* ===== verification/Spec2Isabelle.thy ===== *)
theory Spec2Isabelle
  imports ScopeContracts ScopeRegistry ScopeRoles Elevation CommandGuard RateLimit SeedWorld FillArgs PlanSchedule FanoutCollapse ChainRepair StepDispatcher PluginResolver
    FlowRegistry RoleLadder
begin

text \<open>
  Whiskers Agent is a server that offers plugin tools to agents and plans their use.  This library
  models its decision-making core: who may call what, how a goal becomes an executable list of
  tool calls, which plugins are loaded in which order, and the guards around the terminal relay and
  the HTTP API.  Code is named by its path below \<open>src/\<close>.

  \<^bold>\<open>Foundations.\<close>  \<open>Prelude\<close>: the result monad \<open>rbind\<close> over sums, dictionaries as association lists
  with insertion order (\<open>dset\<close>, \<open>dpop\<close>), and the locale \<open>bounded_loop\<close>: a loop with an invariant
  and a decreasing measure ends within the fuel it is given.  \<open>PyText\<close>, \<open>PyValue\<close>, \<open>Glob\<close>: Python's
  string operations, dynamic JSON values with Python's equality and truth, and \<open>fnmatchcase\<close>.

  \<^bold>\<open>Access control\<close> (\<open>core/scope_management\<close>).  \<open>ScopeGrammar\<close> parses scope tokens and computes
  implied scopes; \<open>ScopeGates\<close> holds the operation gates of plugins with their database overlay (the
  store is an instance of the locale \<open>layered_store\<close>); \<open>ScopeRules\<close> is the decision \<open>evaluate\<close>: required
  scopes of a request, the ordered rule chain (an instance of \<open>total_chain\<close>), the enforcement modes
  and legacy tokens; \<open>ScopeContracts\<close> is the golden matrix; \<open>ScopeRegistry\<close> the permission registry
  as a state machine; \<open>ScopeRoles\<close> the scopes of roles and API keys.  The theorems give
  the decision in closed form, show that gates are ceilings, that more scopes never lose
  access, that read scopes never write, that the parser inverts printing and that no
  plugin takes over another's permissions.

  \<^bold>\<open>Planning\<close> (\<open>core_graph/goap\<close>).  \<open>PrioQueue\<close> is the contract of \<open>heapq\<close> (locale \<open>prio_queue\<close>)
  with a sorted-list model; \<open>GoapPlanner\<close> is the best-first search of \<open>planner.py\<close> with its step and
  expansion limits and the compilation of a plan into steps.  The fuel of the search is its expansion
  limit plus two; \<open>search_ends\<close> shows that it suffices.  Plans are executable and reach
  the goal, the search finds a plan when one exists within the limits, and the compiled steps
  carry each fact from an earlier step.  \<open>GoapDerive\<close> derives the actions from route candidates
  (\<open>derive.py\<close>); plans over derived actions bind every required parameter.
  \<open>SeedHygiene\<close> (with regular expressions decided by derivatives in \<open>PyRegex\<close>) says which seeds are trusted,
  \<open>SeedWorld\<close> builds the initial world and plans from a goal, \<open>FillArgs\<close> fills literal arguments
  (\<open>integrate/seed_hygiene.py\<close>, \<open>integrate/seed_world.py\<close>; \<open>PlanSteps\<close> reads and writes step dictionaries): fabricated
  ids neither cut a chain nor become arguments.  \<open>PlanRefs\<close> finds and rewrites the references \<open>$steps[n]\<close> in a step;
  \<open>WaitInject\<close> weaves poll steps into a plan (\<open>wait_inject.py\<close>), a loop that ends because fewer steps are left
  unvisited; \<open>PlanSchedule\<close> gives the steps their models and groups them by level for parallel
  execution (\<open>integrate/scheduling.py\<close>, \<open>_apply_post_plan_stamping\<close> of \<open>node/planner.py\<close>).  Weaving keeps every step and
  every reference, and the groups respect all dependencies, also after weaving.  \<open>Fanout\<close> turns steps into loops over ids
  (\<open>integrate/fanout.py\<close>); \<open>FanoutCollapse\<close> merges steps that differ in one argument: its loop
  ends because a group contains the step it is found for, and the merged plan covers every step in order.
  \<open>ChainRepair\<close> moves or inserts the producers of missing ids (\<open>integrate/chain_repair.py\<close>): as in the code its loop
  has \<open>max 4 (n + 2)\<close> rounds for a plan of \<open>n\<close> steps, no step is lost, and a repaired call is fed by an earlier step.

  \<^bold>\<open>Graph and goal loop\<close> (\<open>core_graph\<close>).  \<open>GraphTopology\<close> is \<open>graph_spec.py\<close>: specs, their resolution under the flag
  \<open>DECOMPOSE_FIRST\<close>, the check by breadth-first search (it ends because a visited set grows within the nodes) and the
  wiring; \<open>GraphRouters\<close> has the routers and the composed graph of \<open>subgraphs/*/graph_spec.py\<close>, in which every cycle passes a
  guarded edge.  \<open>GoalLoop\<close> holds the functions of \<open>goap/goal_loop.py\<close>: working memory, goal facts, executed operations,
  research notes; \<open>ReplanControl\<close> the validator node with failure records and resets (\<open>node/validator.py\<close>, \<open>helpers/replan.py\<close>,
  \<open>helpers/gating.py\<close>); \<open>GoalNode\<close> the node that ends a round (\<open>node/goap_goal.py\<close>, \<open>runtime/retriage.py\<close>).  A node is a function
  from the state to its update; runs of a session are inductive relations in which the other nodes may change whatever the source lets
  them change.  Replans and rounds are counted and bounded, stalled rounds end the loop, memory grows from results only, and an
  achieved goal is in memory or was carried out.

  \<^bold>\<open>Carrying out steps\<close> (\<open>core_graph/node\<close>).  \<open>ArgResolve\<close> is \<open>helpers/args.py\<close>: paths through earlier results, references
  between steps, and the arguments of a call from the plan, the context, results and memory; \<open>RetryNode\<close> is the retry node of
  \<open>validator.py\<close>; \<open>PermissionGate\<close> is \<open>permission_gate.py\<close> with \<open>helpers/routing.py\<close>, which asks the decision of \<open>ScopeRules\<close>;
  \<open>StepDispatcher\<close> is the dispatcher of \<open>executor.py\<close> with its parallel groups.  Running one step, the policy rows, the route registry and
  the store of executions are parameters.  References reach the call, every argument has a source, a required argument is filled or
  reported, a rejected value is rebuilt, the builder is reached with permitted steps only.  The walks through the nodes between two
  dispatches are an inductive relation, in which the nodes outside the model keep plan and index; the dispatcher only moves forward, so
  that a plan of \<open>n\<close> steps is dispatched at most \<open>n\<close> times.

  \<^bold>\<open>Plugin loading\<close> (\<open>core/plugin_loader/resolver.py\<close>).  \<open>PluginResolver\<close>: names, tiers, filters and
  Kahn's algorithm on a heap, with the order characterised uniquely and cycles detected exactly.  Its
  loops end by a decreasing set of unseen names, a shrinking spec list, and at most one turn
  per node.

  \<^bold>\<open>Specialist flows\<close> (\<open>core_graph/subgraphs/specialist\<close>).  \<open>FlowSpec\<close> parses flow declarations;
  \<open>Blackboard\<close> is the bounded store of sessions, whose eviction loop is given one turn per board;
  \<open>FlowRunner\<close> runs the stages with the retry rounds and the budget of eight steps per stage, so that
  its fuel of eight times the number of stages plus one is enough (both loops are instances of
  \<open>bounded_loop\<close>); \<open>FlowRegistry\<close> keeps the flows, mirrors them into the operation catalog and orders
  flows, domain runners and the generic pipeline.  Parsed flows are well formed and parsing inverts
  printing, runs end, fail closed and write declared slots only, and declared retry rounds within the
  budget never exhaust it.

  \<^bold>\<open>Model roles\<close> (\<open>core_graph/model_roles\<close>).  \<open>RoleSpec\<close>: role declarations, their parser, the
  validation of outputs and the entry conditions; \<open>RoleRegistry\<close>: the registry with core, plugin and
  database layers (two instances of \<open>layered_store\<close> of \<open>LayeredStore\<close>), its built-in roles and the reload of
  the overrides stored by \<open>db_layer/model_role_store.py\<close>; \<open>RoleResolver\<close>: which selector an agent stage gets and
  which pool entry serves it (with \<open>resolve_step_llm_config\<close> of \<open>core/llm_config_service.py\<close>);
  \<open>RoleLadder\<close>: the executor, rung by rung, by structural recursion on rungs and attempts.  Plugins never
  retune core roles, a reload leaves exactly the accepted overrides, aliases pick by strength, and a ladder
  returns only checked values or the fallback's answer within a bounded number of calls.

  \<^bold>\<open>Guards.\<close>  \<open>Elevation\<close>: the step-up service of the terminal relay, with calls split at
  their \<open>await\<close> so that interleavings are sequences of steps; \<open>CommandGuard\<close>: the command and pipeline
  guards with the tokenizer of \<open>shlex\<close>; \<open>RateLimit\<close>: the sliding-window middleware.

  \<^bold>\<open>Outside the model.\<close>  Network and database access, LLM calls, the token source, password
  hashing and TOTP codes are parameters; so is the verifier of the goal loop.  Locks and logging are left out.  Nodes that only
  call an LLM or the operation executor, the reranker, and the prompt texts are not modelled: their results are
  arguments.  HTTP routes, OAuth, proxies, feature plugins and the frontend are glue around the modelled
  services or call external systems.
\<close>

end
